(* ===== verification/Prelude.thy ===== *)
theory Prelude
  imports Main "HOL-Library.List_Lexorder" "HOL-Library.Product_Lexorder" "HOL-Library.Char_ord"
begin

text \<open>
  Shared vocabulary of the development: the machine integers of the sources, the outcome of a
  fallible call, the byte encodings that feed the hash functions, and two generic interfaces
  (an invariant kept by a stepping component, and a lifecycle that only moves forward).

  Unsigned integers of width \<open>w\<close> are naturals below \<open>2 ^ w\<close>. The operators of the sources are
  written out: \<open>saturating_*\<close> clamps at \<open>2 ^ w - 1\<close>, \<open>checked_*\<close> is an option, an \<open>as\<close> cast
  reduces modulo \<open>2 ^ w\<close>, and a plain \<open>+\<close>, \<open>-\<close> or \<open>*\<close> is the wrapping operation of the release
  profile (the profile the README runs the node with; the workspace sets no overflow checks).
\<close>

section \<open>Collections of rewrite rules\<close>

named_theorems arith_defs \<open>definitions of the machine-integer operations\<close>
named_theorems const_defs \<open>protocol constants\<close>

section \<open>Machine integers\<close>

type_synonym u8 = nat
type_synonym u16 = nat
type_synonym u32 = nat
type_synonym u64 = nat
type_synonym u128 = nat
type_synonym usize = nat
type_synonym bytes = "u8 list"

definition sat_add :: "nat \<Rightarrow> nat \<Rightarrow> nat \<Rightarrow> nat" where
  "sat_add w a b = min (a + b) (2 ^ w - 1)"

definition sat_mul :: "nat \<Rightarrow> nat \<Rightarrow> nat \<Rightarrow> nat" where
  "sat_mul w a b = min (a * b) (2 ^ w - 1)"

definition sat_sub :: "nat \<Rightarrow> nat \<Rightarrow> nat" where
  [simp]: "sat_sub a b = a - b"

definition checked_add :: "nat \<Rightarrow> nat \<Rightarrow> nat \<Rightarrow> nat option" where
  "checked_add w a b = (if a + b < 2 ^ w then Some (a + b) else None)"

definition checked_mul :: "nat \<Rightarrow> nat \<Rightarrow> nat \<Rightarrow> nat option" where
  "checked_mul w a b = (if a * b < 2 ^ w then Some (a * b) else None)"

definition wrap_add :: "nat \<Rightarrow> nat \<Rightarrow> nat \<Rightarrow> nat" where
  "wrap_add w a b = (a + b) mod 2 ^ w"

definition wrap_sub :: "nat \<Rightarrow> nat \<Rightarrow> nat \<Rightarrow> nat" where
  "wrap_sub w a b = (if b \<le> a then (a - b) mod 2 ^ w else (a + (2 ^ w - b mod 2 ^ w)) mod 2 ^ w)"

definition wrap_mul :: "nat \<Rightarrow> nat \<Rightarrow> nat \<Rightarrow> nat" where
  "wrap_mul w a b = (a * b) mod 2 ^ w"

definition cast :: "nat \<Rightarrow> nat \<Rightarrow> nat" where
  "cast w a = a mod 2 ^ w"

lemmas [arith_defs] =
  sat_add_def sat_mul_def checked_add_def checked_mul_def wrap_add_def wrap_sub_def
  wrap_mul_def cast_def

lemma sat_add_exact: "a + b < 2 ^ w \<Longrightarrow> sat_add w a b = a + b"
  by (simp add: sat_add_def)

lemma sat_add_le: "sat_add w a b \<le> a + b"
  by (simp add: sat_add_def)

lemma sat_mul_exact: "a * b < 2 ^ w \<Longrightarrow> sat_mul w a b = a * b"
  by (simp add: sat_mul_def)

lemma sat_mul_le: "sat_mul w a b \<le> a * b"
  by (simp add: sat_mul_def)

lemma sat_mul_mono: "a \<le> a' \<Longrightarrow> b \<le> b' \<Longrightarrow> sat_mul w a b \<le> sat_mul w a' b'"
  unfolding sat_mul_def by (meson min.mono mult_le_mono order_refl)

lemma wrap_add_exact: "a + b < 2 ^ w \<Longrightarrow> wrap_add w a b = a + b"
  by (simp add: wrap_add_def)

lemma wrap_mul_exact: "a * b < 2 ^ w \<Longrightarrow> wrap_mul w a b = a * b"
  by (simp add: wrap_mul_def)

lemma wrap_sub_exact: "b \<le> a \<Longrightarrow> a < 2 ^ w \<Longrightarrow> wrap_sub w a b = a - b"
  by (simp add: wrap_sub_def)

lemma cast_exact: "a < 2 ^ w \<Longrightarrow> cast w a = a"
  by (simp add: cast_def)

lemma cast_bound: "cast w a < 2 ^ w"
  by (simp add: cast_def)

lemma wrap_bounds:
  "wrap_add w a b < 2 ^ w" "wrap_sub w a b < 2 ^ w" "wrap_mul w a b < 2 ^ w"
  by (simp_all add: arith_defs)

lemma checked_add_Some: "checked_add w a b = Some c \<longleftrightarrow> c = a + b \<and> c < 2 ^ w"
  by (auto simp: checked_add_def)

lemma checked_mul_Some: "checked_mul w a b = Some c \<longleftrightarrow> c = a * b \<and> c < 2 ^ w"
  by (auto simp: checked_mul_def)

text \<open>\<open>Iterator::sum\<close> over a \<open>w\<close>-bit type: a left fold with the plain (wrapping) addition.\<close>

definition wrap_sum :: "nat \<Rightarrow> nat list \<Rightarrow> nat" where
  "wrap_sum w xs = foldl (wrap_add w) 0 xs"

lemma foldl_wrap_add: "foldl (wrap_add w) (a mod 2 ^ w) xs = (a + sum_list xs) mod 2 ^ w"
proof (induction xs arbitrary: a)
  case Nil
  then show ?case by simp
next
  case (Cons x xs)
  have "wrap_add w (a mod 2 ^ w) x = (a + x) mod 2 ^ w"
    by (simp add: wrap_add_def mod_add_left_eq)
  with Cons.IH [of "a + x"] show ?case by (simp add: add.assoc)
qed

lemma wrap_sum_eq: "wrap_sum w xs = sum_list xs mod 2 ^ w"
  using foldl_wrap_add [of w 0 xs] by (simp add: wrap_sum_def)

lemma wrap_sum_exact: "sum_list xs < 2 ^ w \<Longrightarrow> wrap_sum w xs = sum_list xs"
  by (simp add: wrap_sum_eq)

section \<open>Outcome of a call\<close>

text \<open>
  \<open>Result\<close> has \<open>Ok\<close> and \<open>Err\<close>; \<open>Panic\<close> is an index out of range, an \<open>unwrap\<close> of nothing or a
  division by zero. A method on \<open>&mut self\<close> returns the new state next to its outcome, because
  an \<open>Err\<close> return does not undo the writes made before it.
\<close>

datatype ('e, 'a) outcome = Ok 'a | Err 'e | Panic

fun is_ok :: "('e, 'a) outcome \<Rightarrow> bool" where
  "is_ok (Ok a) = True"
| "is_ok (Err e) = False"
| "is_ok Panic = False"

fun ok_or :: "'e \<Rightarrow> 'a option \<Rightarrow> ('e, 'a) outcome" where
  "ok_or e None = Err e"
| "ok_or e (Some a) = Ok a"

fun map_err :: "('e \<Rightarrow> 'f) \<Rightarrow> ('e, 'a) outcome \<Rightarrow> ('f, 'a) outcome" where
  "map_err f (Ok a) = Ok a"
| "map_err f (Err e) = Err (f e)"
| "map_err f Panic = Panic"

text \<open>The \<open>?\<close> operator.\<close>

fun bind_outcome :: "('e, 'a) outcome \<Rightarrow> ('a \<Rightarrow> ('e, 'b) outcome) \<Rightarrow> ('e, 'b) outcome" where
  "bind_outcome (Ok a) f = f a"
| "bind_outcome (Err e) f = Err e"
| "bind_outcome Panic f = Panic"

lemma bind_outcome_Ok:
  "bind_outcome x f = Ok b \<longleftrightarrow> (\<exists>a. x = Ok a \<and> f a = Ok b)"
  by (cases x) auto

lemma is_ok_iff: "is_ok x \<longleftrightarrow> (\<exists>a. x = Ok a)"
  by (cases x) auto

lemma ok_or_Ok [simp]: "ok_or e x = Ok a \<longleftrightarrow> x = Some a"
  by (cases x) auto

lemma ok_or_Panic [simp]: "ok_or e x \<noteq> Panic"
  by (cases x) auto

lemma map_err_Ok [simp]: "map_err f x = Ok a \<longleftrightarrow> x = Ok a"
  by (cases x) auto

lemma map_err_Panic [simp]: "map_err f x = Panic \<longleftrightarrow> x = Panic"
  by (cases x) auto

text \<open>The \<open>?\<close> operator on a call that may change the state.\<close>

definition and_then ::
  "'s \<times> ('e, 'a) outcome \<Rightarrow> ('s \<Rightarrow> 'a \<Rightarrow> 's \<times> ('e, 'b) outcome) \<Rightarrow> 's \<times> ('e, 'b) outcome" where
  "and_then p f = (case p of (s, Ok a) \<Rightarrow> f s a | (s, Err e) \<Rightarrow> (s, Err e) | (s, Panic) \<Rightarrow> (s, Panic))"

text \<open>\<open>let _ =\<close> on a result: an error is dropped, a panic is not.\<close>

definition ignore_err :: "'s \<times> ('e, 'a) outcome \<Rightarrow> 's \<times> ('e, unit) outcome" where
  "ignore_err p = (case p of (s, Panic) \<Rightarrow> (s, Panic) | (s, _) \<Rightarrow> (s, Ok ()))"

lemma and_then_keeps:
  assumes "P (fst p)" "\<And>s a. P s \<Longrightarrow> P (fst (f s a))"
  shows "P (fst (and_then p f))"
  using assms by (cases p; cases "snd p") (auto simp: and_then_def)

lemma and_then_Ok:
  "and_then p f = (s', Ok b) \<longleftrightarrow> (\<exists>s a. p = (s, Ok a) \<and> f s a = (s', Ok b))"
  by (cases p; cases "snd p") (auto simp: and_then_def)

lemma and_then_E:
  assumes "and_then p f = (s', Ok b)"
  obtains s a where "p = (s, Ok a)" "f s a = (s', Ok b)"
  using assms unfolding and_then_Ok by blast

lemma fst_ignore_err [simp]: "fst (ignore_err p) = fst p"
  by (cases p; cases "snd p") (auto simp: ignore_err_def)

lemma ignore_err_Ok: "ignore_err p = (s, Ok ()) \<longleftrightarrow> (\<exists>x. p = (s, x) \<and> x \<noteq> Panic)"
  by (cases p; cases "snd p") (auto simp: ignore_err_def)

text \<open>A \<open>for\<close> loop over calls that may change the state; the first error ends it.\<close>

primrec for_each :: "('a \<Rightarrow> 's \<Rightarrow> 's \<times> ('e, unit) outcome) \<Rightarrow> 'a list \<Rightarrow> 's \<Rightarrow> 's \<times> ('e, unit) outcome" where
  "for_each f [] s = (s, Ok ())"
| "for_each f (x # xs) s = and_then (f x s) (\<lambda>s _. for_each f xs s)"

lemma for_each_keeps:
  assumes "\<And>x s. f (fst (g x s)) = f s" shows "f (fst (for_each g xs s)) = f s"
proof (induction xs arbitrary: s)
  case (Cons x xs)
  show ?case unfolding for_each.simps
    by (rule and_then_keeps [where P = "\<lambda>s'. f s' = f s"]) (use assms Cons in auto)
qed simp

text \<open>Signed 128-bit values are integers; \<open>as i128\<close> reinterprets the upper half of the range.\<close>

definition as_i128 :: "u128 \<Rightarrow> int" where
  "as_i128 x = (if x < 2 ^ 127 then int x else int x - 2 ^ 128)"

definition wrap_i128 :: "int \<Rightarrow> int" where
  "wrap_i128 z = (z + 2 ^ 127) mod 2 ^ 128 - 2 ^ 127"

definition as_u128 :: "int \<Rightarrow> u128" where
  "as_u128 z = nat (z mod 2 ^ 128)"

text \<open>Amounts below \<open>2 ^ 127\<close> survive the round trip through \<open>i128\<close>, also when negated in between.\<close>

lemma i128_exact:
  assumes "x < 2 ^ 127"
  shows "as_i128 x = int x" "wrap_i128 (- int x) = - int x" "wrap_i128 (int x) = int x" "as_u128 (int x) = x"
proof -
  have b: "int x < 2 ^ 127" using assms by (metis of_nat_less_iff of_nat_numeral of_nat_power)
  show "as_i128 x = int x" using assms by (simp add: as_i128_def)
  have "(- int x + 2 ^ 127) mod 2 ^ 128 = - int x + 2 ^ 127" by (rule mod_pos_pos_trivial) (use b in simp_all)
  then show "wrap_i128 (- int x) = - int x" by (simp add: wrap_i128_def)
  have "(int x + 2 ^ 127) mod 2 ^ 128 = int x + 2 ^ 127" by (rule mod_pos_pos_trivial) (use b in simp_all)
  then show "wrap_i128 (int x) = int x" by (simp add: wrap_i128_def)
  have "int x mod 2 ^ 128 = int x" by (rule mod_pos_pos_trivial) (use b in simp_all)
  then show "as_u128 (int x) = x" by (simp add: as_u128_def)
qed

text \<open>A \<open>for\<close> loop whose body may leave early with an error.\<close>

fun check_all :: "('a \<Rightarrow> ('e, unit) outcome) \<Rightarrow> 'a list \<Rightarrow> ('e, unit) outcome" where
  "check_all f [] = Ok ()"
| "check_all f (x # xs) = (case f x of Ok _ \<Rightarrow> check_all f xs | Err e \<Rightarrow> Err e | Panic \<Rightarrow> Panic)"

lemma check_all_Ok: "check_all f xs = Ok u \<longleftrightarrow> (\<forall>x\<in>set xs. f x = Ok ())"
  by (induction xs) (auto split: outcome.splits)

lemma check_all_not_Panic: "(\<And>x. x \<in> set xs \<Longrightarrow> f x \<noteq> Panic) \<Longrightarrow> check_all f xs \<noteq> Panic"
  by (induction xs) (auto split: outcome.splits)

section \<open>Byte encodings\<close>

fun to_le_bytes :: "nat \<Rightarrow> nat \<Rightarrow> bytes" where
  "to_le_bytes 0 x = []"
| "to_le_bytes (Suc n) x = x mod 256 # to_le_bytes n (x div 256)"

definition to_be_bytes :: "nat \<Rightarrow> nat \<Rightarrow> bytes" where
  "to_be_bytes n x = rev (to_le_bytes n x)"

fun from_le_bytes :: "bytes \<Rightarrow> nat" where
  "from_le_bytes [] = 0"
| "from_le_bytes (b # bs) = b + 256 * from_le_bytes bs"

definition str_bytes :: "string \<Rightarrow> bytes" where
  "str_bytes s = map of_char s"

lemma length_to_le_bytes [simp]: "length (to_le_bytes n x) = n"
  by (induction n arbitrary: x) auto

lemma length_to_be_bytes [simp]: "length (to_be_bytes n x) = n"
  by (simp add: to_be_bytes_def)

lemma length_str_bytes [simp]: "length (str_bytes s) = length s"
  by (simp add: str_bytes_def)

lemma from_to_le_bytes: "x < 256 ^ n \<Longrightarrow> from_le_bytes (to_le_bytes n x) = x"
proof (induction n arbitrary: x)
  case 0
  then show ?case by simp
next
  case (Suc n)
  then have "x div 256 < 256 ^ n" by (simp add: less_mult_imp_div_less mult.commute)
  with Suc.IH show ?case by simp
qed

lemma to_le_bytes_inj:
  "x < 256 ^ n \<Longrightarrow> y < 256 ^ n \<Longrightarrow> to_le_bytes n x = to_le_bytes n y \<longleftrightarrow> x = y"
  by (metis from_to_le_bytes)

lemma to_be_bytes_inj:
  "x < 256 ^ n \<Longrightarrow> y < 256 ^ n \<Longrightarrow> to_be_bytes n x = to_be_bytes n y \<longleftrightarrow> x = y"
  by (simp add: to_be_bytes_def to_le_bytes_inj)

lemma str_bytes_inj [simp]: "str_bytes s = str_bytes t \<longleftrightarrow> s = t"
proof -
  have "inj (of_char :: char \<Rightarrow> nat)" by (auto intro: injI)
  then show ?thesis by (simp add: str_bytes_def inj_map_eq_map)
qed

text \<open>
  Reading one field off the front of two equal encodings: fields of equal length separate, and a
  field behind its own eight-byte length separates whatever follows it.
\<close>

lemma append_eq_fixed: "length a = length b \<Longrightarrow> a @ x = b @ y \<longleftrightarrow> a = b \<and> x = y"
  by simp

definition len_prefix_be :: "bytes \<Rightarrow> bytes" where
  "len_prefix_be b = to_be_bytes 8 (length b) @ b"

definition len_prefix_le :: "bytes \<Rightarrow> bytes" where
  "len_prefix_le b = to_le_bytes 8 (length b) @ b"

lemma len_prefix_be_inj:
  assumes "length a < 256 ^ 8" "length b < 256 ^ 8"
  shows "len_prefix_be a @ x = len_prefix_be b @ y \<longleftrightarrow> a = b \<and> x = y"
proof
  assume eq: "len_prefix_be a @ x = len_prefix_be b @ y"
  then have "to_be_bytes 8 (length a) = to_be_bytes 8 (length b)" and rest: "a @ x = b @ y"
    by (simp_all add: len_prefix_be_def)
  then have "length a = length b" using assms by (simp add: to_be_bytes_inj)
  with rest show "a = b \<and> x = y" by simp
qed simp

lemma len_prefix_le_inj:
  assumes "length a < 256 ^ 8" "length b < 256 ^ 8"
  shows "len_prefix_le a @ x = len_prefix_le b @ y \<longleftrightarrow> a = b \<and> x = y"
proof
  assume eq: "len_prefix_le a @ x = len_prefix_le b @ y"
  then have "to_le_bytes 8 (length a) = to_le_bytes 8 (length b)" and rest: "a @ x = b @ y"
    by (simp_all add: len_prefix_le_def)
  then have "length a = length b" using assms by (simp add: to_le_bytes_inj)
  with rest show "a = b \<and> x = y" by simp
qed simp

section \<open>Components that step\<close>

text \<open>
  A component that processes a sequence of operations: whatever every admissible operation keeps,
  a whole run of admissible operations keeps. The components instantiate this with their own
  operations, invariants and argument types.
\<close>

locale machine =
  fixes step :: "'op \<Rightarrow> 's \<Rightarrow> 's"
    and inv :: "'s \<Rightarrow> bool"
    and valid :: "'op \<Rightarrow> bool"
  assumes step_inv: "inv s \<Longrightarrow> valid a \<Longrightarrow> inv (step a s)"
begin

lemma run_inv: "inv s \<Longrightarrow> list_all valid ops \<Longrightarrow> inv (fold step ops s)"
  by (induction ops arbitrary: s) (auto intro: step_inv)

end

text \<open>
  A component with a quantity that no operation lets go down (a counter of offences, a height, a
  cumulative total).
\<close>

locale monotone_machine = machine step inv valid
  for step :: "'op \<Rightarrow> 's \<Rightarrow> 's" and inv and valid +
  fixes measure_of :: "'s \<Rightarrow> nat"
  assumes step_mono: "inv s \<Longrightarrow> valid a \<Longrightarrow> measure_of s \<le> measure_of (step a s)"
begin

lemma run_mono: "inv s \<Longrightarrow> list_all valid ops \<Longrightarrow> measure_of s \<le> measure_of (fold step ops s)"
proof (induction ops arbitrary: s)
  case Nil
  then show ?case by simp
next
  case (Cons a ops)
  then have "measure_of s \<le> measure_of (step a s)" by (simp add: step_mono)
  also have "\<dots> \<le> measure_of (fold step ops (step a s))"
    using Cons step_inv by simp
  finally show ?case by simp
qed

end

text \<open>
  A component whose operations move an observed state along the arrows of a transition relation:
  a run moves it along a path of that relation.
\<close>

locale lifecycle =
  fixes step :: "'op \<Rightarrow> 's \<Rightarrow> 's"
    and observe :: "'s \<Rightarrow> 'o option"
    and arrow :: "'o \<Rightarrow> 'o \<Rightarrow> bool"
  assumes step_arrow: "observe s = Some x \<Longrightarrow> \<exists>y. observe (step a s) = Some y \<and> arrow\<^sup>*\<^sup>* x y"
begin

lemma run_arrow: "observe s = Some x \<Longrightarrow> \<exists>y. observe (fold step ops s) = Some y \<and> arrow\<^sup>*\<^sup>* x y"
proof (induction ops arbitrary: s x)
  case Nil
  then show ?case by simp
next
  case (Cons a ops)
  then obtain y where "observe (step a s) = Some y" "arrow\<^sup>*\<^sup>* x y" using step_arrow by blast
  moreover obtain z where "observe (fold step ops (step a s)) = Some z" "arrow\<^sup>*\<^sup>* y z"
    using Cons.IH calculation(1) by blast
  ultimately show ?case by (auto intro: rtranclp_trans)
qed

end

end
