(* ===== verification/BTree.thy ===== *)
theory BTree
  imports Prelude
begin

text \<open>
  Rust's ordered containers as the sources use them. A \<open>BTreeMap\<close> is an association list kept in
  strictly increasing key order, a \<open>BTreeSet\<close> a strictly increasing list: iteration, \<open>values()\<close> and
  \<open>keys()\<close> are then the list itself. A \<open>HashMap\<close> of the sources is represented the same way; no
  definition depends on its iteration order. The locale \<open>map_spec\<close> is the interface the components
  rely on.
\<close>

section \<open>Maps\<close>

type_synonym ('k, 'v) btree_map = "('k \<times> 'v) list"

abbreviation bt_get :: "('k, 'v) btree_map \<Rightarrow> 'k \<Rightarrow> 'v option" where
  "bt_get m k \<equiv> map_of m k"

fun bt_insert :: "'k::linorder \<Rightarrow> 'v \<Rightarrow> ('k, 'v) btree_map \<Rightarrow> ('k, 'v) btree_map" where
  "bt_insert k v [] = [(k, v)]"
| "bt_insert k v ((k', v') # m) =
     (if k < k' then (k, v) # (k', v') # m
      else if k = k' then (k, v) # m
      else (k', v') # bt_insert k v m)"

definition bt_remove :: "'k \<Rightarrow> ('k, 'v) btree_map \<Rightarrow> ('k, 'v) btree_map" where
  "bt_remove k m = filter (\<lambda>p. fst p \<noteq> k) m"

definition bt_contains :: "('k, 'v) btree_map \<Rightarrow> 'k \<Rightarrow> bool" where
  "bt_contains m k \<longleftrightarrow> (case bt_get m k of None \<Rightarrow> False | Some _ \<Rightarrow> True)"

definition bt_get_or :: "('k, 'v) btree_map \<Rightarrow> 'k \<Rightarrow> 'v \<Rightarrow> 'v" where
  "bt_get_or m k d = (case bt_get m k of None \<Rightarrow> d | Some v \<Rightarrow> v)"

text \<open>\<open>get_mut\<close> followed by a write: an existing entry is changed in place.\<close>

definition bt_modify :: "'k::linorder \<Rightarrow> ('v \<Rightarrow> 'v) \<Rightarrow> ('k, 'v) btree_map \<Rightarrow> ('k, 'v) btree_map" where
  "bt_modify k f m = (case bt_get m k of None \<Rightarrow> m | Some v \<Rightarrow> bt_insert k (f v) m)"

abbreviation bt_keys :: "('k, 'v) btree_map \<Rightarrow> 'k list" where
  "bt_keys m \<equiv> map fst m"

abbreviation bt_values :: "('k, 'v) btree_map \<Rightarrow> 'v list" where
  "bt_values m \<equiv> map snd m"

definition bt_wf :: "('k::linorder, 'v) btree_map \<Rightarrow> bool" where
  "bt_wf m \<longleftrightarrow> sorted_wrt (<) (bt_keys m)"

lemma bt_get_insert [simp]: "bt_get (bt_insert k v m) k' = (if k' = k then Some v else bt_get m k')"
  by (induction m) auto

lemma bt_get_remove [simp]: "bt_get (bt_remove k m) k' = (if k' = k then None else bt_get m k')"
  by (induction m) (auto simp: bt_remove_def)

lemma bt_get_modify [simp]:
  "bt_get (bt_modify k f m) k' = (if k' = k then map_option f (bt_get m k) else bt_get m k')"
  by (auto simp: bt_modify_def split: option.splits)

lemma bt_contains_iff: "bt_contains m k \<longleftrightarrow> k \<in> set (bt_keys m)"
  by (auto simp: bt_contains_def split: option.splits)
     (auto simp: map_of_eq_None_iff dest: map_of_SomeD intro: rev_image_eqI)

lemma bt_contains_get: "bt_contains m k \<longleftrightarrow> (\<exists>v. bt_get m k = Some v)"
  by (auto simp: bt_contains_def split: option.splits)

lemma bt_contains_simps [simp]:
  "bt_contains [] k = False"
  "bt_contains (bt_insert k' v m) k = (k = k' \<or> bt_contains m k)"
  "bt_contains (bt_remove k' m) k = (k \<noteq> k' \<and> bt_contains m k)"
  "bt_contains (bt_modify k' f m) k = bt_contains m k"
  by (auto simp: bt_contains_get)

lemma bt_get_or_simps [simp]:
  "bt_get_or [] k d = d"
  "bt_get_or (bt_insert k' v m) k d = (if k = k' then v else bt_get_or m k d)"
  by (auto simp: bt_get_or_def)

lemma set_keys_insert [simp]: "fst ` set (bt_insert k v m) = insert k (fst ` set m)"
  by (induction k v m rule: bt_insert.induct) (simp_all add: insert_commute)

lemma bt_wf_Nil [simp, intro]: "bt_wf []"
  by (simp add: bt_wf_def)

lemma bt_wf_insert [simp, intro]: "bt_wf m \<Longrightarrow> bt_wf (bt_insert k v m)"
proof (induction m)
  case Nil
  then show ?case by (simp add: bt_wf_def)
next
  case (Cons p m)
  obtain k' v' where p: "p = (k', v')" by force
  from Cons.prems p have wf: "bt_wf m" and above: "\<forall>y\<in>fst ` set m. k' < y"
    by (auto simp: bt_wf_def)
  from Cons.IH [OF wf] have "sorted_wrt (<) (bt_keys (bt_insert k v m))"
    by (simp add: bt_wf_def)
  moreover have "fst ` set (bt_insert k v m) = insert k (fst ` set m)" by simp
  ultimately show ?case using wf above p
    by (auto simp: bt_wf_def simp del: set_keys_insert dest: less_trans)
qed

lemma bt_wf_remove [simp, intro]: "bt_wf m \<Longrightarrow> bt_wf (bt_remove k m)"
  unfolding bt_wf_def bt_remove_def
  by (induction m) auto

lemma bt_wf_modify [simp, intro]: "bt_wf m \<Longrightarrow> bt_wf (bt_modify k f m)"
  by (auto simp: bt_modify_def split: option.splits)

lemma set_bt_insert: "set (bt_insert k v m) \<subseteq> insert (k, v) (set m)"
  by (induction m) (auto split: if_splits)

lemma bt_wf_distinct: "bt_wf m \<Longrightarrow> distinct (bt_keys m)"
  by (simp add: bt_wf_def strict_sorted_iff)

lemma bt_get_in: "bt_wf m \<Longrightarrow> (k, v) \<in> set m \<longleftrightarrow> bt_get m k = Some v"
  by (simp add: bt_wf_distinct)

lemma bt_insert_same: "bt_wf m \<Longrightarrow> bt_get m k = Some v \<Longrightarrow> bt_insert k v m = m"
proof (induction m)
  case Nil
  then show ?case by simp
next
  case (Cons p m)
  obtain k' v' where p: "p = (k', v')" by force
  from Cons.prems p have wf: "bt_wf m" and above: "\<forall>y\<in>set m. k' < fst y"
    by (auto simp: bt_wf_def)
  have "k' < k" if "k \<noteq> k'"
    using Cons.prems(2) p that above by (fastforce dest: map_of_SomeD)
  with Cons.IH [OF wf] Cons.prems(2) p show ?case by auto
qed

text \<open>Summing over the values of a map, before and after an update.\<close>

lemma bt_wf_ext:
  assumes "bt_wf m" "bt_wf m'" "\<And>k. bt_get m k = bt_get m' k"
  shows "m = m'"
proof -
  have all: "x = map (\<lambda>k. (k, the (map_of x k))) (map fst x)" if "distinct (map fst x)" for x :: "('a \<times> 'b) list"
    by (rule sym, simp only: map_map, rule map_idI) (use that in \<open>force simp: comp_def\<close>)
  have "set (map fst m) = dom (map_of m)" "set (map fst m') = dom (map_of m')" by (simp_all add: dom_map_of_conv_image_fst)
  then have "set (map fst m) = set (map fst m')" using assms(3) by (simp add: dom_def)
  then have "map fst m = map fst m'"
    using assms(1,2) by (intro strict_sorted_equal) (simp_all add: bt_wf_def)
  moreover have "map_of m = map_of m'" using assms(3) by blast
  ultimately show ?thesis
    using all [OF bt_wf_distinct [OF assms(1)]] all [OF bt_wf_distinct [OF assms(2)]] by metis
qed

definition bt_sum :: "('v \<Rightarrow> nat) \<Rightarrow> ('k, 'v) btree_map \<Rightarrow> nat" where
  "bt_sum f m = sum_list (map (\<lambda>p. f (snd p)) m)"

lemma bt_sum_insert:
  "bt_wf m \<Longrightarrow>
   bt_sum f (bt_insert k v m) + (case bt_get m k of None \<Rightarrow> 0 | Some u \<Rightarrow> f u) = bt_sum f m + f v"
proof (induction m)
  case Nil
  then show ?case by (simp add: bt_sum_def)
next
  case (Cons p m)
  obtain k' v' where p: "p = (k', v')" by force
  from Cons.prems p have wf: "bt_wf m" and above: "\<forall>y\<in>set m. k' < fst y"
    by (auto simp: bt_wf_def)
  have none: "bt_get m k = None" if "k \<le> k'"
    using above that by (fastforce simp: map_of_eq_None_iff)
  consider "k < k'" | "k = k'" | "k' < k" by fastforce
  then show ?case
  proof cases
    case 1
    then show ?thesis using none p by (auto simp: bt_sum_def)
  next
    case 2
    then show ?thesis using p by (simp add: bt_sum_def)
  next
    case 3
    then show ?thesis using Cons.IH [OF wf] p by (auto simp: bt_sum_def split: option.splits)
  qed
qed

lemma bt_sum_remove:
  "bt_wf m \<Longrightarrow> bt_sum f (bt_remove k m) + (case bt_get m k of None \<Rightarrow> 0 | Some u \<Rightarrow> f u) = bt_sum f m"
proof (induction m)
  case (Cons p m)
  obtain k' v' where p: "p = (k', v')" by force
  from Cons.prems p have wf: "bt_wf m" and above: "\<forall>y\<in>set m. k' < fst y" by (auto simp: bt_wf_def)
  have none: "bt_get m k' = None" using above by (fastforce simp: map_of_eq_None_iff)
  show ?case using Cons.IH [OF wf] p none by (cases "k = k'") (auto simp: bt_sum_def bt_remove_def)
qed (simp add: bt_sum_def bt_remove_def)

lemma bt_sum_ge: "bt_get m k = Some v \<Longrightarrow> f v \<le> bt_sum f m"
  by (induction m) (auto simp: bt_sum_def split: if_splits)

section \<open>Sets\<close>

fun bs_insert :: "'k::linorder \<Rightarrow> 'k list \<Rightarrow> 'k list" where
  "bs_insert k [] = [k]"
| "bs_insert k (x # xs) = (if k < x then k # x # xs else if k = x then x # xs else x # bs_insert k xs)"

definition bs_remove :: "'k \<Rightarrow> 'k list \<Rightarrow> 'k list" where
  "bs_remove k xs = filter (\<lambda>x. x \<noteq> k) xs"

definition bs_wf :: "'k::linorder list \<Rightarrow> bool" where
  "bs_wf xs \<longleftrightarrow> sorted_wrt (<) xs"

definition bs_from :: "'k::linorder list \<Rightarrow> 'k list" where
  "bs_from xs = fold bs_insert xs []"

lemma set_bs_insert [simp]: "set (bs_insert k xs) = insert k (set xs)"
  by (induction xs) auto

lemma set_bs_remove [simp]: "set (bs_remove k xs) = set xs - {k}"
  by (auto simp: bs_remove_def)

lemma bs_wf_Nil [simp, intro]: "bs_wf []"
  by (simp add: bs_wf_def)

lemma bs_wf_insert [simp, intro]: "bs_wf xs \<Longrightarrow> bs_wf (bs_insert k xs)"
  unfolding bs_wf_def by (induction xs) (auto dest: less_trans)

lemma bs_wf_remove [simp, intro]: "bs_wf xs \<Longrightarrow> bs_wf (bs_remove k xs)"
  unfolding bs_wf_def bs_remove_def by (simp add: sorted_wrt_filter)

lemma bs_wf_distinct: "bs_wf xs \<Longrightarrow> distinct xs"
  by (simp add: bs_wf_def strict_sorted_iff)

lemma set_fold_bs_insert: "set (fold bs_insert xs ys) = set xs \<union> set ys"
  by (induction xs arbitrary: ys) auto

lemma set_bs_from [simp]: "set (bs_from xs) = set xs"
  by (simp add: bs_from_def set_fold_bs_insert)

lemma bs_wf_fold: "bs_wf ys \<Longrightarrow> bs_wf (fold bs_insert xs ys)"
  by (induction xs arbitrary: ys) auto

lemma bs_wf_from [simp, intro]: "bs_wf (bs_from xs)"
  by (simp add: bs_from_def bs_wf_fold)

section \<open>The interface\<close>

locale map_spec =
  fixes empty :: 'm
    and lookup :: "'m \<Rightarrow> 'k \<Rightarrow> 'v option"
    and insert :: "'k \<Rightarrow> 'v \<Rightarrow> 'm \<Rightarrow> 'm"
    and remove :: "'k \<Rightarrow> 'm \<Rightarrow> 'm"
    and wf :: "'m \<Rightarrow> bool"
  assumes lookup_empty: "lookup empty k = None"
    and lookup_insert: "lookup (insert k v m) k' = (if k' = k then Some v else lookup m k')"
    and lookup_remove: "lookup (remove k m) k' = (if k' = k then None else lookup m k')"
    and wf_empty: "wf empty"
    and wf_insert: "wf m \<Longrightarrow> wf (insert k v m)"
    and wf_remove: "wf m \<Longrightarrow> wf (remove k m)"
begin

lemma lookup_insert_many:
  "lookup (fold (\<lambda>k. insert k v) ks m) k = (if k \<in> set ks then Some v else lookup m k)"
  by (induction ks arbitrary: m) (auto simp: lookup_insert)

lemma lookup_remove_many:
  "lookup (fold remove ks m) k = (if k \<in> set ks then None else lookup m k)"
  by (induction ks arbitrary: m) (auto simp: lookup_remove)

lemma wf_insert_many: "wf m \<Longrightarrow> wf (fold (\<lambda>k. insert k v) ks m)"
  by (induction ks arbitrary: m) (auto intro: wf_insert)

lemma wf_remove_many: "wf m \<Longrightarrow> wf (fold remove ks m)"
  by (induction ks arbitrary: m) (auto intro: wf_remove)

end

interpretation bt: map_spec "[]" map_of bt_insert bt_remove bt_wf
  by unfold_locales auto

end
