(* ===== verification/Crypto.thy ===== *)
theory Crypto
  imports BTree
begin

text \<open>
  The third-party primitives the sources call (\<open>sha2\<close>, \<open>sha3\<close>, \<open>blake3\<close>, \<open>hex\<close>, \<open>pqcrypto\<close>'s
  SPHINCS+): the fields of one parameter record, passed to every definition that uses them. What the
  sources rely on is stated by the named predicates below (digest sizes, hexadecimal round trip,
  key and signature sizes, verification of what was signed). A parsed key or signature is
  represented by its bytes, and parsing by the predicate that says whether it succeeds. Collision
  resistance is never assumed: where two different inputs would have to collide, the theorem names
  the colliding pair.
\<close>

record crypto_env =
  sha2_256 :: "bytes \<Rightarrow> bytes"
  sha3_256 :: "bytes \<Rightarrow> bytes"
  blake3_256 :: "bytes \<Rightarrow> bytes"
  hex_encode :: "bytes \<Rightarrow> string"
  hex_decode :: "string \<Rightarrow> bytes option"
  pk_from_bytes_ok :: "bytes \<Rightarrow> bool"
  sk_from_bytes_ok :: "bytes \<Rightarrow> bool"
  sig_from_bytes_ok :: "bytes \<Rightarrow> bool"
  detached_sign :: "bytes \<Rightarrow> bytes \<Rightarrow> bytes"
  verify_detached_signature :: "bytes \<Rightarrow> bytes \<Rightarrow> bytes \<Rightarrow> bool"

definition is_bytes :: "bytes \<Rightarrow> bool" where
  "is_bytes b \<longleftrightarrow> list_all (\<lambda>x. x < 256) b"

definition digest_32 :: "(bytes \<Rightarrow> bytes) \<Rightarrow> bool" where
  "digest_32 h \<longleftrightarrow> (\<forall>m. length (h m) = 32 \<and> is_bytes (h m))"

definition digests_32 :: "crypto_env \<Rightarrow> bool" where
  "digests_32 c \<longleftrightarrow> digest_32 (sha2_256 c) \<and> digest_32 (sha3_256 c) \<and> digest_32 (blake3_256 c)"

definition hex_ok :: "crypto_env \<Rightarrow> bool" where
  "hex_ok c \<longleftrightarrow> (\<forall>b. is_bytes b \<longrightarrow>
     hex_decode c (hex_encode c b) = Some b \<and> length (hex_encode c b) = 2 * length b)"

lemma digests_32D:
  assumes "digests_32 c"
  shows "length (sha2_256 c m) = 32" "length (sha3_256 c m) = 32" "length (blake3_256 c m) = 32"
    "is_bytes (sha2_256 c m)" "is_bytes (sha3_256 c m)" "is_bytes (blake3_256 c m)"
  using assms by (auto simp: digests_32_def digest_32_def)

text \<open>\<open>pk\<close> and \<open>sk\<close> are the two halves of one SPHINCS+ key pair.\<close>

definition key_pair :: "crypto_env \<Rightarrow> bytes \<Rightarrow> bytes \<Rightarrow> bool" where
  "key_pair c pk sk \<longleftrightarrow> length pk = 64 \<and> pk_from_bytes_ok c pk \<and> sk_from_bytes_ok c sk \<and>
     (\<forall>m. length (detached_sign c m sk) = 49856 \<and> sig_from_bytes_ok c (detached_sign c m sk) \<and>
          verify_detached_signature c (detached_sign c m sk) m pk)"

section \<open>A concrete instance\<close>

text \<open>
  One key pair, digests that keep the first 32 bytes, and lower-case hexadecimal: enough to evaluate
  the definitions on closed inputs.
\<close>

definition hex_digit :: "nat \<Rightarrow> char" where
  "hex_digit n = char_of (if n < 10 then 48 + n else 87 + n)"

definition hex_value :: "char \<Rightarrow> nat" where
  "hex_value ch = (let n = of_char ch in if n < 58 then n - 48 else n - 87)"

fun hex_decode_pairs :: "string \<Rightarrow> bytes option" where
  "hex_decode_pairs [] = Some []"
| "hex_decode_pairs [a] = None"
| "hex_decode_pairs (a # b # s) = map_option (\<lambda>bs. (hex_value a * 16 + hex_value b) # bs) (hex_decode_pairs s)"

definition demo_digest :: "bytes \<Rightarrow> bytes" where
  "demo_digest m = map (\<lambda>b. b mod 256) (take 32 (m @ replicate 32 0))"

definition demo_key :: bytes where "demo_key = replicate 64 7"
definition demo_sig :: bytes where "demo_sig = replicate 49856 3"

definition demo_env :: crypto_env where
  "demo_env =
     \<lparr>sha2_256 = demo_digest, sha3_256 = demo_digest, blake3_256 = demo_digest,
      hex_encode = (\<lambda>b. concat (map (\<lambda>n. [hex_digit (n div 16), hex_digit (n mod 16)]) b)),
      hex_decode = hex_decode_pairs,
      pk_from_bytes_ok = (\<lambda>k. length k = 64), sk_from_bytes_ok = (\<lambda>k. length k = 128),
      sig_from_bytes_ok = (\<lambda>s. length s = 49856), detached_sign = (\<lambda>m k. demo_sig),
      verify_detached_signature = (\<lambda>s m k. s = demo_sig \<and> k = demo_key)\<rparr>"

lemma demo_lengths [simp]: "length demo_key = 64" "length demo_sig = 49856" "length (demo_digest m) = 32"
  by (simp_all add: demo_key_def demo_sig_def demo_digest_def)

lemma demo_digests_32: "digests_32 demo_env"
  by (auto simp: digests_32_def digest_32_def is_bytes_def list_all_iff demo_digest_def demo_env_def)

lemma hex_value_digit: "n < 16 \<Longrightarrow> hex_value (hex_digit n) = n"
  by (simp add: hex_value_def hex_digit_def Let_def)

lemma demo_hex_ok: "hex_ok demo_env"
proof -
  have "hex_decode_pairs (hex_encode demo_env b) = Some b \<and> length (hex_encode demo_env b) = 2 * length b"
    if "is_bytes b" for b
    using that
  proof (induction b)
    case Nil
    then show ?case by (simp add: demo_env_def)
  next
    case (Cons x b)
    then have "x div 16 < 16" "x mod 16 < 16" "is_bytes b" by (auto simp: is_bytes_def)
    with Cons.IH show ?case by (simp add: demo_env_def hex_value_digit)
  qed
  then show ?thesis by (simp add: hex_ok_def demo_env_def)
qed

lemma demo_key_pair: "key_pair demo_env demo_key (replicate 128 1)"
  by (simp add: key_pair_def demo_env_def)

end
