(* ===== verification/Float64.thy ===== *)
theory Float64
  imports Complex_Main Prelude
begin

text \<open>
  The \<open>f64\<close> arithmetic of the sources, on the values they use: finite and not negative. A value is
  the rational it denotes; every operation is the exact one followed by IEEE 754 rounding to
  nearest, ties to even, with the 53-bit significand and the least exponent of binary64. Overflow
  to infinity does not occur below \<open>2 ^ 1024\<close>, and every operand is a 128-bit integer or a ratio.
  The locale \<open>rounding\<close> lists what the components rely on.
\<close>

section \<open>Rounding\<close>

text \<open>Nearest integer, ties to even.\<close>

definition rne :: "rat \<Rightarrow> int" where
  "rne x = (let f = \<lfloor>x\<rfloor>; r = x - of_int f in
     if r < 1 / 2 then f else if r > 1 / 2 then f + 1 else if even f then f else f + 1)"

fun ilog2 :: "nat \<Rightarrow> nat" where
  "ilog2 n = (if n < 2 then 0 else Suc (ilog2 (n div 2)))"

declare ilog2.simps [simp del]

definition f64_log2 :: "rat \<Rightarrow> int" where
  "f64_log2 x =
     (let (n, d) = quotient_of x; k = int (ilog2 (nat n)) - int (ilog2 (nat d)) in
      if 2 powi k \<le> x then k else k - 1)"

definition f64_ulp :: "rat \<Rightarrow> rat" where
  "f64_ulp x = 2 powi (max (f64_log2 x) (-1022) - 52)"

definition f64_round :: "rat \<Rightarrow> rat" where
  "f64_round x = (if x \<le> 0 then 0 else of_int (rne (x / f64_ulp x)) * f64_ulp x)"

type_synonym f64 = rat

definition f64_mul :: "f64 \<Rightarrow> f64 \<Rightarrow> f64" where
  "f64_mul a b = f64_round (a * b)"

definition f64_div :: "f64 \<Rightarrow> f64 \<Rightarrow> f64" where
  "f64_div a b = f64_round (a / b)"

definition f64_of_nat :: "nat \<Rightarrow> f64" where
  "f64_of_nat n = f64_round (of_nat n)"

text \<open>\<open>as uN\<close>: truncate towards zero and saturate.\<close>

definition f64_to_uint :: "nat \<Rightarrow> f64 \<Rightarrow> nat" where
  "f64_to_uint w x = min (nat \<lfloor>x\<rfloor>) (2 ^ w - 1)"

section \<open>Rounding to an integer\<close>

lemma rne_bounds: "\<lfloor>x\<rfloor> \<le> rne x" "rne x \<le> \<lfloor>x\<rfloor> + 1"
  by (simp_all add: rne_def Let_def)

lemma rne_of_int [simp]: "rne (of_int k) = k"
  by (simp add: rne_def)

lemma rne_mono:
  assumes "x \<le> y"
  shows "rne x \<le> rne y"
proof (cases "\<lfloor>x\<rfloor> = \<lfloor>y\<rfloor>")
  case True
  with assms show ?thesis by (auto simp: rne_def Let_def)
next
  case False
  with floor_mono [OF assms] have "\<lfloor>x\<rfloor> + 1 \<le> \<lfloor>y\<rfloor>" by simp
  with rne_bounds(2) [of x] rne_bounds(1) [of y] show ?thesis by linarith
qed

section \<open>The exponent\<close>

lemma ilog2_bounds: "0 < n \<Longrightarrow> 2 ^ ilog2 n \<le> n \<and> n < 2 ^ Suc (ilog2 n)"
proof (induction n rule: ilog2.induct)
  case (1 n)
  show ?case
  proof (cases "n < 2")
    case True
    with 1 show ?thesis by (simp add: ilog2.simps [of n])
  next
    case False
    with 1 have "2 ^ ilog2 (n div 2) \<le> n div 2 \<and> n div 2 < 2 ^ Suc (ilog2 (n div 2))" by simp
    with False show ?thesis by (simp add: ilog2.simps [of n]) linarith
  qed
qed

lemma powi_step: "(2::rat) powi (k + 1) = 2 * 2 powi k"
  by (simp add: power_int_add)

lemma powi_pos [simp]: "0 < (2::rat) powi k"
  by simp

lemma powi_mono_le: "a \<le> b \<Longrightarrow> (2::rat) powi a \<le> 2 powi b"
  by (rule power_int_increasing) auto

lemma f64_log2_bounds:
  assumes "0 < x"
  shows "2 powi (f64_log2 x) \<le> x" and "x < 2 powi (f64_log2 x + 1)"
proof -
  obtain n d where q: "quotient_of x = (n, d)" by force
  then have d: "0 < d" and x: "x = of_int n / of_int d"
    by (simp_all add: quotient_of_denom_pos quotient_of_div)
  with assms have n: "0 < n" by (simp add: zero_less_divide_iff)
  define a b where "a = ilog2 (nat n)" and "b = ilog2 (nat d)"
  define N D where "N = nat n" and "D = nat d"
  have xq: "x = of_nat N / of_nat D" and pos: "0 < N" "0 < D"
    using x n d by (simp_all add: N_def D_def of_nat_nat)
  have N: "(2::rat) ^ a \<le> of_nat N" "of_nat N < (2::rat) ^ Suc a"
    and D: "(2::rat) ^ b \<le> of_nat D" "of_nat D < (2::rat) ^ Suc b"
    using ilog2_bounds [OF pos(1)] ilog2_bounds [OF pos(2)]
    unfolding a_def b_def N_def [symmetric] D_def [symmetric]
    by (metis of_nat_le_iff of_nat_less_iff of_nat_numeral of_nat_power)+
  define k where "k = int a - int b"
  have pk: "(2::rat) powi k = 2 ^ a / 2 ^ b"
    by (simp add: k_def power_int_diff)
  have up: "x < 2 powi (k + 1)"
  proof -
    have "x \<le> of_nat N / 2 ^ b"
      unfolding xq using D(1) pos by (intro divide_left_mono) auto
    also have "\<dots> < 2 ^ Suc a / 2 ^ b" using N(2) by (intro divide_strict_right_mono) auto
    finally show ?thesis by (simp add: powi_step pk)
  qed
  have low: "2 powi (k - 1) \<le> x"
  proof -
    have "(2::rat) powi (k - 1) = 2 ^ a / 2 ^ Suc b"
      using powi_step [of "k - 1"] pk by simp
    also have "\<dots> \<le> of_nat N / 2 ^ Suc b" using N(1) by (intro divide_right_mono) auto
    also have "\<dots> \<le> x" unfolding xq using D(2) pos by (intro divide_left_mono) auto
    finally show ?thesis .
  qed
  have log: "f64_log2 x = (if 2 powi k \<le> x then k else k - 1)"
    by (simp add: f64_log2_def q k_def a_def b_def)
  show "2 powi (f64_log2 x) \<le> x" using log low by simp
  show "x < 2 powi (f64_log2 x + 1)" using log up by simp
qed

lemma f64_log2_mono:
  assumes "0 < x" "x \<le> y"
  shows "f64_log2 x \<le> f64_log2 y"
proof (rule ccontr)
  assume "\<not> ?thesis"
  then have "(2::rat) powi (f64_log2 y + 1) \<le> 2 powi (f64_log2 x)"
    by (intro powi_mono_le) simp
  with f64_log2_bounds(2) [of y] f64_log2_bounds(1) [of x] assms show False by simp
qed

section \<open>Rounding to binary64\<close>

lemma f64_ulp_pos [simp]: "0 < f64_ulp x"
  by (simp add: f64_ulp_def)

lemma powi_over_ulp:
  assumes "max (f64_log2 x) (-1022) - 52 \<le> k"
  shows "(2::rat) powi k / f64_ulp x = of_int (2 ^ nat (k - (max (f64_log2 x) (-1022) - 52)))"
proof -
  let ?m = "max (f64_log2 x) (-1022) - 52"
  have "(2::rat) powi k / 2 powi ?m = 2 powi (k - ?m)" by (simp add: power_int_diff)
  also have "\<dots> = 2 ^ nat (k - ?m)" using assms by (simp add: power_int_def del: diff_diff_eq)
  finally show ?thesis by (simp add: f64_ulp_def)
qed

lemma f64_round_ge_powi:
  assumes "2 powi k \<le> x" and "max (f64_log2 x) (-1022) - 52 \<le> k"
  shows "2 powi k \<le> f64_round x"
proof -
  have x: "0 < x" using assms(1) powi_pos [of k] by linarith
  have "(2::rat) powi k / f64_ulp x = of_int (rne (2 powi k / f64_ulp x))"
    by (simp add: powi_over_ulp [OF assms(2)] del: of_int_power)
  also have "\<dots> \<le> of_int (rne (x / f64_ulp x))"
    using assms(1) by (simp add: rne_mono divide_right_mono less_imp_le)
  finally have "(2::rat) powi k / f64_ulp x * f64_ulp x \<le> f64_round x"
    using x by (simp add: f64_round_def mult_right_mono less_imp_le del: times_divide_eq_left)
  then show ?thesis using f64_ulp_pos [of x] by simp
qed

lemma f64_round_le_powi:
  assumes "0 < x" "x \<le> 2 powi k" and "max (f64_log2 x) (-1022) - 52 \<le> k"
  shows "f64_round x \<le> 2 powi k"
proof -
  have "rne (x / f64_ulp x) \<le> rne (2 powi k / f64_ulp x)"
    using assms(2) by (simp add: rne_mono divide_right_mono less_imp_le)
  also have "(of_int (rne (2 powi k / f64_ulp x)) :: rat) = 2 powi k / f64_ulp x"
    by (simp add: powi_over_ulp [OF assms(3)] del: of_int_power)
  finally have "(of_int (rne (x / f64_ulp x)) :: rat) \<le> 2 powi k / f64_ulp x"
    by (metis of_int_le_iff)
  then show ?thesis using assms(1) f64_ulp_pos [of x] by (simp add: f64_round_def pos_le_divide_eq)
qed

lemma f64_round_nonneg: "0 \<le> f64_round x"
proof (cases "x \<le> 0")
  case False
  then have "0 \<le> x / f64_ulp x" using f64_ulp_pos [of x] by (intro divide_nonneg_pos) auto
  from rne_mono [OF this] have "0 \<le> rne (x / f64_ulp x)" using rne_of_int [of 0] by simp
  with False show ?thesis by (simp add: f64_round_def less_imp_le)
qed (simp add: f64_round_def)

lemma f64_round_mono:
  assumes "x \<le> y"
  shows "f64_round x \<le> f64_round y"
proof (cases "x \<le> 0")
  case True
  then show ?thesis using f64_round_nonneg [of y] by (simp add: f64_round_def)
next
  case False
  then have x: "0 < x" and y: "0 < y" using assms by auto
  let ?e = "\<lambda>z. max (f64_log2 z) (-1022)"
  show ?thesis
  proof (cases "?e x = ?e y")
    case True
    then have "f64_ulp x = f64_ulp y" by (simp add: f64_ulp_def)
    then show ?thesis using x y assms
      by (simp add: f64_round_def mult_right_mono rne_mono divide_right_mono less_imp_le)
  next
    case False
    with f64_log2_mono [OF x assms] have lt: "?e x + 1 \<le> f64_log2 y" by (auto simp: max_def split: if_splits)
    have "f64_round x \<le> 2 powi (?e x + 1)"
    proof (rule f64_round_le_powi [OF x])
      have "x < 2 powi (f64_log2 x + 1)" using x by (rule f64_log2_bounds)
      also have "\<dots> \<le> 2 powi (?e x + 1)" by (intro powi_mono_le) simp
      finally show "x \<le> 2 powi (?e x + 1)" by simp
    qed simp
    also have "\<dots> \<le> 2 powi (f64_log2 y)" using lt by (rule powi_mono_le)
    also have "\<dots> \<le> f64_round y"
      using lt by (intro f64_round_ge_powi f64_log2_bounds y) auto
    finally show ?thesis .
  qed
qed

text \<open>Integers of at most 53 bits are represented exactly.\<close>

lemma f64_round_of_nat:
  assumes "n < 2 ^ 53"
  shows "f64_round (of_nat n) = of_nat n"
proof (cases "n = 0")
  case False
  let ?x = "of_nat n :: rat"
  have x: "0 < ?x" using False by simp
  define e where "e = f64_log2 ?x"
  have ge: "0 \<le> e"
  proof (rule ccontr)
    assume "\<not> ?thesis"
    then have "(2::rat) powi (e + 1) \<le> 2 powi 0" by (intro powi_mono_le) simp
    with f64_log2_bounds(2) [OF x] False show False by (simp add: e_def)
  qed
  have "e < 53"
  proof (rule ccontr)
    assume "\<not> ?thesis"
    then have "(2::rat) powi 53 \<le> 2 powi e" by (intro powi_mono_le) simp
    also have "\<dots> \<le> ?x" unfolding e_def by (rule f64_log2_bounds [OF x])
    finally have "(2::rat) ^ 53 \<le> of_nat n" by simp
    then have "(2::nat) ^ 53 \<le> n" by (metis of_nat_le_iff of_nat_numeral of_nat_power)
    with assms show False by simp
  qed
  then have "?x / f64_ulp ?x = of_int (int n * 2 ^ nat (52 - e))"
    using ge by (simp add: f64_ulp_def e_def [symmetric] power_int_def max_def power_one_over)
  then have "rne (?x / f64_ulp ?x) = int n * 2 ^ nat (52 - e)" by (metis rne_of_int)
  then have "f64_round ?x = ?x / f64_ulp ?x * f64_ulp ?x"
    using x \<open>?x / f64_ulp ?x = _\<close> by (simp add: f64_round_def)
  then show ?thesis using f64_ulp_pos [of ?x] by simp
qed (simp add: f64_round_def)

section \<open>What the components rely on\<close>

locale rounding =
  fixes rnd :: "rat \<Rightarrow> rat"
  assumes rnd_mono: "x \<le> y \<Longrightarrow> rnd x \<le> rnd y"
    and rnd_of_nat: "n < 2 ^ 53 \<Longrightarrow> rnd (of_nat n) = of_nat n"
begin

lemma rnd_unit: "0 \<le> x \<Longrightarrow> x \<le> 1 \<Longrightarrow> 0 \<le> rnd x \<and> rnd x \<le> 1"
  using rnd_mono [of 0 x] rnd_mono [of x 1] rnd_of_nat [of 0] rnd_of_nat [of 1] by simp

lemma rnd_le_nat: "x \<le> of_nat n \<Longrightarrow> n < 2 ^ 53 \<Longrightarrow> rnd x \<le> of_nat n"
  using rnd_mono [of x "of_nat n"] rnd_of_nat [of n] by simp

text \<open>A ratio of at most one, rounded, scaled by an exact integer and rounded again.\<close>

lemma rnd_scaled_ratio:
  assumes "a \<le> b" "0 < b" "n < 2 ^ 53"
  shows "rnd (rnd (rnd (of_nat a) / rnd (of_nat b)) * of_nat n) \<le> of_nat n"
proof -
  have "rnd (of_nat a) \<le> rnd (of_nat b)" using assms(1) by (intro rnd_mono) simp
  moreover have "1 \<le> rnd (of_nat b)"
    using rnd_mono [of 1 "of_nat b"] rnd_of_nat [of 1] assms(2) by simp
  moreover have "0 \<le> rnd (of_nat a)" using rnd_mono [of 0 "of_nat a"] rnd_of_nat [of 0] by simp
  ultimately have "rnd (rnd (of_nat a) / rnd (of_nat b)) \<le> 1"
    by (intro conjunct2 [OF rnd_unit]) simp_all
  then have "rnd (rnd (of_nat a) / rnd (of_nat b)) * of_nat n \<le> 1 * of_nat n"
    by (intro mult_right_mono) auto
  then show ?thesis using assms(3) by (intro rnd_le_nat) simp_all
qed

end

interpretation f64: rounding f64_round
  by unfold_locales (rule f64_round_mono f64_round_of_nat; assumption)+

end
