(* ===== verification/Merkle.thy ===== *)
theory Merkle
  imports Crypto Float64
begin

text \<open>
  \<open>crates/bleep-crypto/src/merkle_commitment.rs\<close>, \<open>crates/bleep-crypto/src/merkletree.rs\<close> and
  \<open>crates/bleep-sig-availability/src/merkle.rs\<close>: the shared Merkle format and its three
  implementations: the level-by-level root \<open>merkle_root_from_hashes\<close>, the node tree
  \<open>MerkleTree::finalize\<close>, and the level-order array of \<open>SigCommitmentTree\<close>. The lemmas show that the
  three agree, that every generated inclusion proof verifies, and what a verifying proof shows for the tree
  width it claims: the leaf, an inner node, or a hash collision. A \<open>Vec\<close> holds at most \<open>isize::MAX\<close> bytes, so a
  width computed by \<open>next_power_of_two\<close> from a list of digests never overflows and is exact here.
\<close>

section \<open>The shared format\<close>

abbreviation MERKLE_FORMAT_VERSION :: u8 where "MERKLE_FORMAT_VERSION \<equiv> 1"
abbreviation MERKLE_LEAF_DOMAIN :: bytes where "MERKLE_LEAF_DOMAIN \<equiv> str_bytes ''bleep_sal_leaf_v1''"
abbreviation MERKLE_NODE_DOMAIN :: bytes where "MERKLE_NODE_DOMAIN \<equiv> str_bytes ''bleep_sal_node_v1''"
abbreviation MERKLE_EMPTY_DOMAIN :: bytes where "MERKLE_EMPTY_DOMAIN \<equiv> str_bytes ''bleep_sal_empty_v1''"
abbreviation MERKLE_ROOT_DOMAIN :: bytes where "MERKLE_ROOT_DOMAIN \<equiv> str_bytes ''bleep_merkle_root_v1''"

abbreviation merkle_hash_leaf :: "crypto_env \<Rightarrow> bytes \<Rightarrow> bytes" where
  "merkle_hash_leaf c data \<equiv> sha3_256 c (MERKLE_LEAF_DOMAIN @ data)"

abbreviation node_input :: "bytes \<Rightarrow> bytes \<Rightarrow> u64 \<Rightarrow> bytes" where
  "node_input l r parent_position \<equiv> MERKLE_NODE_DOMAIN @ [parent_position mod 2] @ l @ r"

definition merkle_hash_node :: "crypto_env \<Rightarrow> bytes \<Rightarrow> bytes \<Rightarrow> u64 \<Rightarrow> bytes" where
  "merkle_hash_node c l r parent_position = blake3_256 c (node_input l r parent_position)"

abbreviation merkle_empty_leaf :: "crypto_env \<Rightarrow> bytes" where
  "merkle_empty_leaf c \<equiv> blake3_256 c MERKLE_EMPTY_DOMAIN"

abbreviation root_input :: "bytes \<Rightarrow> bytes" where
  "root_input rt \<equiv> MERKLE_ROOT_DOMAIN @ [MERKLE_FORMAT_VERSION] @ rt"

abbreviation version_merkle_root :: "crypto_env \<Rightarrow> bytes \<Rightarrow> bytes" where
  "version_merkle_root c rt \<equiv> blake3_256 c (root_input rt)"

section \<open>Powers of two\<close>

fun next_power_of_two :: "nat \<Rightarrow> nat" where
  "next_power_of_two n = (if n \<le> 1 then 1 else 2 * next_power_of_two ((n + 1) div 2))"

declare next_power_of_two.simps [simp del]

definition checked_next_power_of_two :: "nat \<Rightarrow> nat option" where
  "checked_next_power_of_two n =
     (let p = next_power_of_two n in if p < 2 ^ 64 then Some p else None)"

definition is_power_of_two :: "nat \<Rightarrow> bool" where
  "is_power_of_two n \<longleftrightarrow> n = next_power_of_two n"

fun trailing_zeros :: "nat \<Rightarrow> nat" where
  "trailing_zeros n = (if n = 0 then 64 else if odd n then 0 else Suc (trailing_zeros (n div 2)))"

declare trailing_zeros.simps [simp del]

section \<open>Root and path\<close>

text \<open>One round of the loop: \<open>chunks_exact(2).enumerate()\<close>, from position \<open>pos\<close> on.\<close>

fun merkle_level :: "crypto_env \<Rightarrow> nat \<Rightarrow> bytes list \<Rightarrow> bytes list" where
  "merkle_level c pos (a # b # xs) = merkle_hash_node c a b pos # merkle_level c (Suc pos) xs"
| "merkle_level c pos [a] = []"
| "merkle_level c pos [] = []"

lemma length_merkle_level [simp]: "length (merkle_level c pos xs) = length xs div 2"
  by (induction c pos xs rule: merkle_level.induct) auto

function merkle_up :: "crypto_env \<Rightarrow> bytes list \<Rightarrow> bytes list" where
  "merkle_up c level = (if length level > 1 then merkle_up c (merkle_level c 0 level) else level)"
  by auto
termination by (relation "measure (\<lambda>(c, level). length level)") auto

declare merkle_up.simps [simp del]

definition pad_leaves :: "crypto_env \<Rightarrow> bytes list \<Rightarrow> nat \<Rightarrow> bytes list" where
  "pad_leaves c leaves n = leaves @ replicate (n - length leaves) (merkle_empty_leaf c)"

definition merkle_root_from_hashes :: "crypto_env \<Rightarrow> bytes list \<Rightarrow> bytes option" where
  "merkle_root_from_hashes c leaves =
     (case checked_next_power_of_two (length leaves) of
        None \<Rightarrow> None
      | Some padded_len \<Rightarrow>
          if leaves = [] then None
          else Some (version_merkle_root c (hd (merkle_up c (pad_leaves c leaves padded_len)))))"

fun path_root :: "crypto_env \<Rightarrow> bytes \<Rightarrow> nat \<Rightarrow> bytes list \<Rightarrow> bytes" where
  "path_root c current position [] = current"
| "path_root c current position (sibling # path) =
     (let parent_position = position div 2;
          next = (if even position then merkle_hash_node c current sibling parent_position
                  else merkle_hash_node c sibling current parent_position)
      in path_root c next parent_position path)"

definition verify_merkle_path :: "crypto_env \<Rightarrow> bytes \<Rightarrow> bytes \<Rightarrow> nat \<Rightarrow> nat \<Rightarrow> bytes list \<Rightarrow> bool" where
  "verify_merkle_path c rt leaf_hash leaf_index padded_len path =
     (if padded_len = 0 \<or> \<not> is_power_of_two padded_len \<or> leaf_index \<ge> padded_len
         \<or> length path \<noteq> trailing_zeros padded_len then False
      else version_merkle_root c (path_root c leaf_hash leaf_index path) = rt)"

section \<open>\<open>MerkleTree\<close> of the commitment module\<close>

datatype MerkleError =
    EmptyTree | ProofRootMismatch | LeafIndexTooLarge | LeafNotFound u64 | ProofRootComputed
  | TreeImmutable | TreeTooLarge | TreeNotFinalized | CommitmentMismatch

record MerkleLeaf =
  ml_index :: u64
  ml_data :: bytes
  ml_hash :: bytes

abbreviation MerkleLeaf_new :: "crypto_env \<Rightarrow> u64 \<Rightarrow> bytes \<Rightarrow> MerkleLeaf" where
  "MerkleLeaf_new c index data \<equiv> \<lparr>ml_index = index, ml_data = data, ml_hash = merkle_hash_leaf c data\<rparr>"

datatype MerkleNode =
  MerkleNode (node_hash: bytes) (node_left: "MerkleNode option") (node_right: "MerkleNode option")
    (is_leaf: bool)

abbreviation MerkleNode_leaf :: "bytes \<Rightarrow> MerkleNode" where
  "MerkleNode_leaf h \<equiv> MerkleNode h None None True"

abbreviation MerkleNode_branch :: "crypto_env \<Rightarrow> MerkleNode \<Rightarrow> MerkleNode \<Rightarrow> u64 \<Rightarrow> MerkleNode" where
  "MerkleNode_branch c l r parent_position \<equiv> MerkleNode (merkle_hash_node c (node_hash l) (node_hash r) parent_position) (Some l) (Some r) False"

record MerkleProof =
  mp_leaf_index :: u64
  mp_leaf_hash :: bytes
  mp_path :: "bytes list"
  mp_padded_len :: usize
  mp_root :: bytes

definition MerkleProof_verify :: "crypto_env \<Rightarrow> MerkleProof \<Rightarrow> bytes \<Rightarrow> (MerkleError, unit) outcome" where
  "MerkleProof_verify c p rt =
     (if mp_root p \<noteq> rt then Err ProofRootMismatch
      else if mp_leaf_index p \<ge> 2 ^ 64 then Err LeafIndexTooLarge
      else if verify_merkle_path c rt (mp_leaf_hash p) (mp_leaf_index p) (mp_padded_len p) (mp_path p)
           then Ok ()
      else Err ProofRootComputed)"

record MerkleTree =
  mt_leaves :: "MerkleLeaf list"
  mt_root :: "MerkleNode option"
  mt_root_hash :: "bytes option"
  mt_finalized :: bool
  mt_leaf_index :: "(u64, usize) btree_map"

abbreviation MerkleTree_new :: MerkleTree where
  "MerkleTree_new \<equiv> \<lparr>mt_leaves = [], mt_root = None, mt_root_hash = None, mt_finalized = False, mt_leaf_index = []\<rparr>"

definition add_leaf :: "crypto_env \<Rightarrow> bytes \<Rightarrow> MerkleTree \<Rightarrow> MerkleTree \<times> (MerkleError, u64) outcome" where
  "add_leaf c data t =
     (if mt_finalized t then (t, Err TreeImmutable)
      else let index = cast 64 (length (mt_leaves t)) in
        (t\<lparr>mt_leaf_index := bt_insert index (length (mt_leaves t)) (mt_leaf_index t),
           mt_leaves := mt_leaves t @ [MerkleLeaf_new c index data]\<rparr>, Ok index))"

fun node_level :: "crypto_env \<Rightarrow> nat \<Rightarrow> MerkleNode list \<Rightarrow> MerkleNode list" where
  "node_level c pos (a # b # xs) = MerkleNode_branch c a b pos # node_level c (Suc pos) xs"
| "node_level c pos [a] = []"
| "node_level c pos [] = []"

lemma length_node_level [simp]: "length (node_level c pos xs) = length xs div 2"
  by (induction c pos xs rule: node_level.induct) auto

function node_up :: "crypto_env \<Rightarrow> MerkleNode list \<Rightarrow> MerkleNode list" where
  "node_up c nodes = (if length nodes > 1 then node_up c (node_level c 0 nodes) else nodes)"
  by auto
termination by (relation "measure (\<lambda>(c, nodes). length nodes)") auto

declare node_up.simps [simp del]

definition tree_finalize :: "crypto_env \<Rightarrow> MerkleTree \<Rightarrow> MerkleTree \<times> (MerkleError, bytes) outcome" where
  "tree_finalize c t =
     (if mt_finalized t then
        (t, case mt_root_hash t of Some h \<Rightarrow> Ok h | None \<Rightarrow> Panic)
      else if mt_leaves t = [] then (t, Err EmptyTree)
      else case checked_next_power_of_two (length (mt_leaves t)) of
        None \<Rightarrow> (t, Err TreeTooLarge)
      | Some padded_len \<Rightarrow>
          (let nodes = map (\<lambda>leaf. MerkleNode_leaf (ml_hash leaf)) (mt_leaves t) @
                 replicate (padded_len - length (mt_leaves t)) (MerkleNode_leaf (merkle_empty_leaf c))
           in case node_up c nodes of
                [] \<Rightarrow> (t, Panic)
              | rt # _ \<Rightarrow>
                  (let root_hash = version_merkle_root c (node_hash rt) in
                   (t\<lparr>mt_root := Some rt, mt_root_hash := Some root_hash, mt_finalized := True\<rparr>,
                    Ok root_hash))))"

definition tree_root :: "MerkleTree \<Rightarrow> (MerkleError, bytes) outcome" where
  "tree_root t = ok_or EmptyTree (mt_root_hash t)"

text \<open>\<open>current_index ^ 1\<close>.\<close>

definition sibling_index :: "nat \<Rightarrow> nat" where
  "sibling_index i = (if even i then i + 1 else i - 1)"

function prove_path :: "crypto_env \<Rightarrow> bytes list \<Rightarrow> nat \<Rightarrow> (MerkleError, bytes list) outcome" where
  "prove_path c level i =
     (if length level > 1 then
        (if sibling_index i < length level then
           bind_outcome (prove_path c (merkle_level c 0 level) (i div 2))
             (\<lambda>path. Ok (level ! sibling_index i # path))
         else Panic)
      else Ok [])"
  by auto
termination by (relation "measure (\<lambda>(c, level, i). length level)") auto

declare prove_path.simps [simp del]

definition prove_inclusion :: "crypto_env \<Rightarrow> MerkleTree \<Rightarrow> u64 \<Rightarrow> (MerkleError, MerkleProof) outcome" where
  "prove_inclusion c t leaf_index =
     (if \<not> mt_finalized t then Err TreeNotFinalized
      else case bt_get (mt_leaf_index t) leaf_index of
        None \<Rightarrow> Err (LeafNotFound leaf_index)
      | Some position \<Rightarrow>
          (if position < length (mt_leaves t) then
             (case mt_root_hash t of
                None \<Rightarrow> Panic
              | Some rt \<Rightarrow>
                  (let padded_len = next_power_of_two (length (mt_leaves t));
                       level = pad_leaves c (map ml_hash (mt_leaves t)) padded_len
                   in bind_outcome (prove_path c level position) (\<lambda>path.
                        Ok \<lparr>mp_leaf_index = leaf_index, mp_leaf_hash = ml_hash (mt_leaves t ! position),
                            mp_path = path, mp_padded_len = padded_len, mp_root = rt\<rparr>)))
           else Panic))"

abbreviation get_leaf :: "MerkleTree \<Rightarrow> u64 \<Rightarrow> (MerkleError, MerkleLeaf) outcome" where
  "get_leaf t index \<equiv> (case bt_get (mt_leaf_index t) index of
        None \<Rightarrow> Err (LeafNotFound index)
      | Some position \<Rightarrow> if position < length (mt_leaves t) then Ok (mt_leaves t ! position) else Panic)"

section \<open>Commitments\<close>

record Commitment =
  cm_hash :: bytes
  cm_nonce :: bytes

definition commit :: "crypto_env \<Rightarrow> bytes \<Rightarrow> bytes \<Rightarrow> Commitment" where
  "commit c data nonce = \<lparr>cm_hash = sha3_256 c (data @ nonce), cm_nonce = nonce\<rparr>"

abbreviation Commitment_verify :: "crypto_env \<Rightarrow> Commitment \<Rightarrow> bytes \<Rightarrow> (MerkleError, unit) outcome" where
  "Commitment_verify c cm data \<equiv> (if cm_hash (commit c data (cm_nonce cm)) = cm_hash cm then Ok () else Err CommitmentMismatch)"

record StateCommitment =
  sc_state_root :: bytes
  sc_metadata_commitment :: Commitment
  sc_epoch :: u64
  sc_block_height :: u64

definition StateCommitment_new :: "crypto_env \<Rightarrow> bytes \<Rightarrow> bytes \<Rightarrow> bytes \<Rightarrow> u64 \<Rightarrow> u64 \<Rightarrow> StateCommitment" where
  "StateCommitment_new c state_root metadata nonce epoch height =
     \<lparr>sc_state_root = state_root, sc_metadata_commitment = commit c metadata nonce,
      sc_epoch = epoch, sc_block_height = height\<rparr>"

section \<open>\<open>MerkleTree\<close> of merkletree.rs\<close>

record PlainMerkleTree =
  pt_leaves :: "bytes list"
  pt_root :: bytes

abbreviation PlainMerkleTree_new :: PlainMerkleTree where
  "PlainMerkleTree_new \<equiv> \<lparr>pt_leaves = [], pt_root = []\<rparr>"

definition calculate_root :: "crypto_env \<Rightarrow> bytes list \<Rightarrow> (MerkleError, bytes) outcome" where
  "calculate_root c leaves =
     (if leaves = [] then Ok (replicate 32 0)
      else case merkle_root_from_hashes c (map (merkle_hash_leaf c) leaves) of
        None \<Rightarrow> Panic | Some rt \<Rightarrow> Ok rt)"

definition plain_add_leaf ::
  "crypto_env \<Rightarrow> bytes \<Rightarrow> PlainMerkleTree \<Rightarrow> PlainMerkleTree \<times> (MerkleError, unit) outcome" where
  "plain_add_leaf c leaf t =
     (let t1 = t\<lparr>pt_leaves := pt_leaves t @ [leaf]\<rparr> in
      case calculate_root c (pt_leaves t1) of
        Ok rt \<Rightarrow> (t1\<lparr>pt_root := rt\<rparr>, Ok ()) | Err e \<Rightarrow> (t1, Err e) | Panic \<Rightarrow> (t1, Panic))"

abbreviation contains_leaf :: "PlainMerkleTree \<Rightarrow> bytes \<Rightarrow> bool" where
  "contains_leaf t leaf \<equiv> list_ex (\<lambda>existing. existing = leaf) (pt_leaves t)"

section \<open>\<open>SigCommitmentTree\<close>\<close>

record SigCommitmentTree =
  leaf_count :: usize
  nodes :: "bytes list"
  padded_n :: usize

text \<open>The three loops of \<open>new\<close>: leaves, padding, and the internal nodes from the last to the first.\<close>

abbreviation write_leaves :: "nat \<Rightarrow> bytes list \<Rightarrow> bytes list \<Rightarrow> bytes list" where
  "write_leaves n hs ns \<equiv> fold (\<lambda>(i, h) ns. ns[n + i := h]) (List.enumerate 0 hs) ns"

abbreviation write_padding :: "crypto_env \<Rightarrow> nat \<Rightarrow> nat \<Rightarrow> bytes list \<Rightarrow> bytes list" where
  "write_padding c count n ns \<equiv> fold (\<lambda>i ns. ns[n + i := merkle_empty_leaf c]) [count..<n] ns"

definition write_node :: "crypto_env \<Rightarrow> nat \<Rightarrow> bytes list \<Rightarrow> bytes list" where
  "write_node c i ns =
     (let level_start = 2 ^ ilog2 i in
      ns[i := merkle_hash_node c (ns ! (2 * i)) (ns ! (2 * i + 1)) (i - level_start)])"

definition SigCommitmentTree_new ::
  "crypto_env \<Rightarrow> bytes list \<Rightarrow> (MerkleError, SigCommitmentTree) outcome" where
  "SigCommitmentTree_new c sig_hashes =
     (if sig_hashes = [] then Panic
      else let count = length sig_hashes;
               n = next_power_of_two count;
               ns0 = replicate (2 * n) (replicate 32 0);
               ns1 = write_leaves n sig_hashes ns0;
               ns2 = write_padding c count n ns1;
               ns3 = fold (write_node c) (rev [1..<n]) ns2
           in Ok \<lparr>leaf_count = count, nodes = ns3, padded_n = n\<rparr>)"

definition sig_tree_root :: "crypto_env \<Rightarrow> SigCommitmentTree \<Rightarrow> (MerkleError, bytes) outcome" where
  "sig_tree_root c t =
     (if 1 < length (nodes t) then Ok (version_merkle_root c (nodes t ! 1)) else Panic)"

text \<open>The walk from a leaf position to the root, collecting siblings.\<close>

function walk_up :: "bytes list \<Rightarrow> nat \<Rightarrow> (MerkleError, bytes list) outcome" where
  "walk_up ns pos =
     (if pos > 1 then
        (let sibling = (if even pos then pos + 1 else pos - 1) in
         if sibling < length ns then bind_outcome (walk_up ns (pos div 2)) (\<lambda>path. Ok (ns ! sibling # path))
         else Panic)
      else Ok [])"
  by auto
termination by (relation "measure (\<lambda>(ns, pos). pos)") auto

declare walk_up.simps [simp del]

record SigMerkleProof =
  sp_leaf_index :: usize
  sp_leaf :: bytes
  sp_path :: "bytes list"
  sp_padded_n :: usize

definition generate_proof :: "SigCommitmentTree \<Rightarrow> nat \<Rightarrow> (MerkleError, SigMerkleProof) outcome" where
  "generate_proof t leaf_idx =
     (if leaf_idx < leaf_count t then
        bind_outcome (walk_up (nodes t) (padded_n t + leaf_idx)) (\<lambda>path.
          if padded_n t + leaf_idx < length (nodes t) then
            Ok \<lparr>sp_leaf_index = leaf_idx, sp_leaf = nodes t ! (padded_n t + leaf_idx), sp_path = path,
                sp_padded_n = padded_n t\<rparr>
          else Panic)
      else Panic)"

abbreviation verify_proof :: "crypto_env \<Rightarrow> bytes \<Rightarrow> SigMerkleProof \<Rightarrow> bool" where
  "verify_proof c rt p \<equiv> verify_merkle_path c rt (sp_leaf p) (sp_leaf_index p) (sp_padded_n p) (sp_path p)"

abbreviation hash_sig :: "crypto_env \<Rightarrow> bytes \<Rightarrow> bytes" where
  "hash_sig c sig \<equiv> merkle_hash_leaf c sig"

abbreviation hash_sigs_parallel :: "crypto_env \<Rightarrow> bytes list \<Rightarrow> bytes list" where
  "hash_sigs_parallel c sigs \<equiv> map (hash_sig c) sigs"

definition compute_sig_commitment ::
  "crypto_env \<Rightarrow> bytes list \<Rightarrow> (MerkleError, bytes \<times> bytes list) outcome" where
  "compute_sig_commitment c sigs =
     (if sigs = [] then Panic
      else let sig_hashes = map (hash_sig c) sigs in
        bind_outcome (SigCommitmentTree_new c sig_hashes) (\<lambda>t.
        bind_outcome (sig_tree_root c t) (\<lambda>rt. Ok (rt, sig_hashes))))"

abbreviation verify_commitment_root :: "crypto_env \<Rightarrow> bytes \<Rightarrow> bytes list \<Rightarrow> (MerkleError, bool) outcome" where
  "verify_commitment_root c rt sig_hashes \<equiv> (if sig_hashes = [] then Ok False
      else bind_outcome (SigCommitmentTree_new c sig_hashes) (\<lambda>t.
           bind_outcome (sig_tree_root c t) (\<lambda>computed. Ok (computed = rt))))"

section \<open>Arithmetic of the widths\<close>

lemma next_power_of_two_pow: "\<exists>k. next_power_of_two n = 2 ^ k"
proof (induction n rule: next_power_of_two.induct)
  case (1 n)
  show ?case
  proof (cases "n \<le> 1")
    case True
    then show ?thesis by (intro exI [of _ 0]) (simp add: next_power_of_two.simps [of n])
  next
    case False
    with 1 obtain k where "next_power_of_two ((n + 1) div 2) = 2 ^ k" by blast
    with False show ?thesis by (intro exI [of _ "Suc k"]) (simp add: next_power_of_two.simps [of n])
  qed
qed

lemma next_power_of_two_ge: "n \<le> next_power_of_two n"
proof (induction n rule: next_power_of_two.induct)
  case (1 n)
  show ?case
  proof (cases "n \<le> 1")
    case True
    then show ?thesis by (simp add: next_power_of_two.simps [of n])
  next
    case False
    with 1 have "(n + 1) div 2 \<le> next_power_of_two ((n + 1) div 2)" by simp
    with False show ?thesis by (subst next_power_of_two.simps) simp
  qed
qed

lemma next_power_of_two_less: "0 < n \<Longrightarrow> next_power_of_two n < 2 * n"
proof (induction n rule: next_power_of_two.induct)
  case (1 n)
  show ?case
  proof (cases "n \<le> 1")
    case True
    with 1 show ?thesis by (simp add: next_power_of_two.simps [of n])
  next
    case False
    with 1 have "next_power_of_two ((n + 1) div 2) < 2 * ((n + 1) div 2)" by simp
    moreover obtain k where "next_power_of_two ((n + 1) div 2) = 2 ^ k"
      using next_power_of_two_pow by blast
    ultimately show ?thesis using False
      by (subst next_power_of_two.simps) (cases k; simp; presburger)
  qed
qed

lemma next_power_of_two_power [simp]: "next_power_of_two (2 ^ k) = 2 ^ k"
proof (induction k)
  case 0
  then show ?case by (simp add: next_power_of_two.simps)
next
  case (Suc k)
  have "(2 ^ Suc k + 1) div 2 = (2::nat) ^ k" "\<not> (2::nat) ^ Suc k \<le> 1"
    using one_less_power [of "2::nat" "Suc k"] by simp_all
  with Suc show ?case by (subst next_power_of_two.simps) (simp only: if_False power_Suc)
qed

lemma trailing_zeros_power [simp]: "trailing_zeros (2 ^ k) = k"
proof (induction k)
  case 0
  then show ?case by (simp add: trailing_zeros.simps)
next
  case (Suc k)
  then show ?case by (subst trailing_zeros.simps) simp
qed

lemma is_power_of_two_power [simp]: "is_power_of_two (2 ^ k)"
  by (simp add: is_power_of_two_def)

lemma checked_next_power_of_two_Some:
  "0 < n \<Longrightarrow> n < 2 ^ 63 \<Longrightarrow> checked_next_power_of_two n = Some (next_power_of_two n)"
  using next_power_of_two_less [of n] by (simp add: checked_next_power_of_two_def Let_def)

lemma length_pad_leaves: "length leaves \<le> n \<Longrightarrow> length (pad_leaves c leaves n) = n"
  by (simp add: pad_leaves_def)

lemma pad_leaves_nth: "i < length leaves \<Longrightarrow> pad_leaves c leaves n ! i = leaves ! i"
  by (simp add: pad_leaves_def nth_append)

section \<open>Levels\<close>

lemma merkle_level_nth:
  "i < length xs div 2 \<Longrightarrow>
   merkle_level c pos xs ! i = merkle_hash_node c (xs ! (2 * i)) (xs ! (2 * i + 1)) (pos + i)"
proof (induction c pos xs arbitrary: i rule: merkle_level.induct)
  case (1 c pos a b xs)
  then show ?case by (cases i) auto
qed auto

lemma merkle_up_one: "length xs = 1 \<Longrightarrow> merkle_up c xs = xs"
  by (simp add: merkle_up.simps)

lemma merkle_up_step: "length xs = 2 ^ Suc d \<Longrightarrow> merkle_up c xs = merkle_up c (merkle_level c 0 xs)"
  using one_less_power [of "2::nat" "Suc d"] by (subst merkle_up.simps) simp

lemma length_level_half: "length xs = 2 ^ Suc d \<Longrightarrow> length (merkle_level c 0 xs) = 2 ^ d"
  by simp

text \<open>The node above position \<open>i\<close>, from the two sides.\<close>

lemma level_above:
  assumes "length xs = 2 ^ Suc d" "i < 2 ^ Suc d"
  shows "merkle_level c 0 xs ! (i div 2) =
    (if even i then merkle_hash_node c (xs ! i) (xs ! sibling_index i) (i div 2)
     else merkle_hash_node c (xs ! sibling_index i) (xs ! i) (i div 2))"
  using assms by (subst merkle_level_nth) (auto simp: sibling_index_def elim!: evenE oddE)

lemma sibling_less: "i < 2 ^ Suc d \<Longrightarrow> sibling_index i < 2 ^ Suc d"
  by (auto simp: sibling_index_def elim!: evenE)

text \<open>Every generated path leads back to the root.\<close>

lemma prove_path_complete:
  "length xs = 2 ^ d \<Longrightarrow> i < 2 ^ d \<Longrightarrow>
   \<exists>path. prove_path c xs i = Ok path \<and> length path = d \<and>
     path_root c (xs ! i) i path = hd (merkle_up c xs)"
proof (induction d arbitrary: xs i)
  case 0
  then show ?case by (cases xs) (auto simp: prove_path.simps merkle_up_one)
next
  case (Suc d)
  let ?ys = "merkle_level c 0 xs"
  have "length ?ys = 2 ^ d" "i div 2 < 2 ^ d" using Suc.prems by auto
  from Suc.IH [OF this] obtain path where path: "prove_path c ?ys (i div 2) = Ok path"
      "length path = d" "path_root c (?ys ! (i div 2)) (i div 2) path = hd (merkle_up c ?ys)"
    by blast
  have "1 < length xs" using Suc.prems one_less_power [of "2::nat" "Suc d"] by simp
  moreover have "sibling_index i < length xs" using sibling_less Suc.prems by simp
  ultimately have "prove_path c xs i = Ok (xs ! sibling_index i # path)"
    using path(1) by (subst prove_path.simps) simp
  moreover have "path_root c (xs ! i) i (xs ! sibling_index i # path) = hd (merkle_up c xs)"
    using path(3) level_above [OF Suc.prems, of c] merkle_up_step [OF Suc.prems(1), of c]
    by (simp split: if_splits)
  ultimately show ?case using path(2) by auto
qed

section \<open>The level-order array\<close>

lemma write_leaves_nth:
  "n + length hs \<le> length ns \<Longrightarrow> j < length ns \<Longrightarrow>
   fold (\<lambda>(i, h) ns. ns[n + i := h]) (List.enumerate k hs) ns ! j =
     (if n + k \<le> j \<and> j < n + k + length hs then hs ! (j - (n + k)) else ns ! j)"
proof (induction hs arbitrary: k ns)
  case Nil
  then show ?case by auto
next
  case (Cons h hs)
  then show ?case by (auto simp: nth_Cons' nth_list_update)
qed

lemma length_write_leaves [simp]: "length (write_leaves n hs ns) = length ns"
proof -
  have "length (fold (\<lambda>(i, h) ns. ns[n + i := h]) xs ns) = length ns" for xs :: "(nat \<times> bytes) list"
    by (induction xs arbitrary: ns) auto
  then show ?thesis by simp
qed

lemma fold_update_nth:
  "j < length ns \<Longrightarrow> fold (\<lambda>i ns. ns[n + i := v]) is ns ! j =
     (if \<exists>i\<in>set is. j = n + i then v else ns ! j)"
  by (induction "is" arbitrary: ns) (auto simp: nth_list_update)

lemma length_write_padding [simp]: "length (write_padding c count n ns) = length ns"
proof -
  have "length (fold (\<lambda>i ns. ns[n + i := v]) xs ns) = length ns" for xs and v :: bytes
    by (induction xs arbitrary: ns) auto
  then show ?thesis by simp
qed

text \<open>After the first two loops the padded leaves stand at the positions from \<open>n\<close> on.\<close>

lemma leaves_written:
  assumes "length hs \<le> n" "j < n" "length ns = 2 * n"
  shows "write_padding c (length hs) n (write_leaves n hs ns) ! (n + j) = pad_leaves c hs n ! j"
proof -
  have "write_leaves n hs ns ! (n + j) = (if j < length hs then hs ! j else ns ! (n + j))"
    using assms by (subst write_leaves_nth) auto
  moreover have "(\<exists>i\<in>set [length hs..<n]. n + j = n + i) \<longleftrightarrow> length hs \<le> j" using assms by auto
  ultimately show ?thesis
    using assms by (subst fold_update_nth) (auto simp: pad_leaves_def nth_append)
qed

text \<open>After the third loop every internal node is the hash of its two children.\<close>

lemma nodes_written:
  fixes c :: crypto_env
  assumes "length ns = 2 * n" "0 < m" "m \<le> n"
  defines "F \<equiv> fold (write_node c) (rev [m..<n]) ns"
  shows "length F = 2 * n \<and>
    (\<forall>i. m \<le> i \<and> i < n \<longrightarrow> F ! i = merkle_hash_node c (F ! (2 * i)) (F ! (2 * i + 1)) (i - 2 ^ ilog2 i)) \<and>
    (\<forall>i. i < m \<or> n \<le> i \<longrightarrow> F ! i = ns ! i)"
  using assms(2,3) unfolding F_def
proof (induction "n - m" arbitrary: m)
  case 0
  then show ?case using assms(1) by auto
next
  case (Suc k)
  let ?G = "fold (write_node c) (rev [Suc m..<n]) ns"
  have IH: "length ?G = 2 * n \<and>
    (\<forall>i. Suc m \<le> i \<and> i < n \<longrightarrow> ?G ! i = merkle_hash_node c (?G ! (2 * i)) (?G ! (2 * i + 1)) (i - 2 ^ ilog2 i)) \<and>
    (\<forall>i. i < Suc m \<or> n \<le> i \<longrightarrow> ?G ! i = ns ! i)"
    using Suc by (intro Suc.hyps(1)) auto
  have "[m..<n] = m # [Suc m..<n]" using Suc by (simp add: upt_conv_Cons)
  then have F: "fold (write_node c) (rev [m..<n]) ns =
      ?G[m := merkle_hash_node c (?G ! (2 * m)) (?G ! (2 * m + 1)) (m - 2 ^ ilog2 m)]"
    by (simp add: write_node_def Let_def)
  show ?case unfolding F using IH Suc by (auto simp: nth_list_update)
qed

text \<open>Level \<open>k\<close> of the list computation, and its place in the array.\<close>

definition level_at :: "crypto_env \<Rightarrow> bytes list \<Rightarrow> nat \<Rightarrow> bytes list" where
  "level_at c xs k = (merkle_level c 0 ^^ k) xs"

lemma level_at_simps [simp]: "level_at c xs 0 = xs" "level_at c xs (Suc k) = merkle_level c 0 (level_at c xs k)"
  by (simp_all add: level_at_def)

lemma length_level_at: "length xs = 2 ^ d \<Longrightarrow> k \<le> d \<Longrightarrow> length (level_at c xs k) = 2 ^ (d - k)"
proof (induction k)
  case (Suc k)
  then have "length (level_at c xs k) = 2 ^ Suc (d - Suc k)" by (simp add: Suc_diff_Suc)
  then show ?case by simp
qed simp

lemma merkle_up_level_at: "length xs = 2 ^ d \<Longrightarrow> merkle_up c xs = level_at c xs d"
proof (induction d arbitrary: xs)
  case 0
  then show ?case by (simp add: merkle_up_one)
next
  case (Suc d)
  then have "merkle_up c xs = level_at c (merkle_level c 0 xs) d"
    using Suc.IH [OF length_level_half [OF Suc.prems]] merkle_up_step [OF Suc.prems] by simp
  then show ?case by (simp add: level_at_def funpow_swap1)
qed

lemma ilog2_between: "i < 2 ^ e \<Longrightarrow> ilog2 (2 ^ e + i) = e"
proof -
  assume i: "i < 2 ^ e"
  let ?l = "ilog2 (2 ^ e + i)"
  have b: "2 ^ ?l \<le> 2 ^ e + i" "2 ^ e + i < 2 ^ Suc ?l" using ilog2_bounds [of "2 ^ e + i"] by simp_all
  have "(2::nat) ^ ?l < 2 ^ Suc e" "(2::nat) ^ e < 2 ^ Suc ?l" using b i by simp_all
  then show "?l = e" by (metis antisym less_Suc_eq_le nat_power_less_imp_less pos2)
qed

lemma array_is_levels:
  assumes n: "n = 2 ^ d" and P: "length P = n" and base: "\<And>j. j < n \<Longrightarrow> F ! (n + j) = P ! j"
    and inner: "\<And>i. 1 \<le> i \<Longrightarrow> i < n \<Longrightarrow>
      F ! i = merkle_hash_node c (F ! (2 * i)) (F ! (2 * i + 1)) (i - 2 ^ ilog2 i)"
  shows "k \<le> d \<Longrightarrow> i < 2 ^ (d - k) \<Longrightarrow> F ! (2 ^ (d - k) + i) = level_at c P k ! i"
proof (induction k arbitrary: i)
  case 0
  with base n show ?case by simp
next
  case (Suc k)
  let ?e = "d - Suc k"
  have e: "2 ^ (d - k) = 2 * 2 ^ ?e" using Suc.prems by (metis Suc_diff_Suc Suc_le_lessD power_Suc)
  have child: "F ! (2 * (2 ^ ?e + i) + b) = level_at c P k ! (2 * i + b)" if "b < 2" for b
    using Suc.IH [of "2 * i + b"] Suc.prems that unfolding e by (simp add: algebra_simps)
  have "(2::nat) ^ ?e < 2 ^ d" using Suc.prems by simp
  moreover have "2 ^ ?e + i < 2 * 2 ^ ?e" using Suc.prems by simp
  moreover have "2 * (2::nat) ^ ?e \<le> 2 ^ d" using e by (metis diff_le_self one_le_numeral power_increasing)
  ultimately have "F ! (2 ^ ?e + i) = merkle_hash_node c (F ! (2 * (2 ^ ?e + i))) (F ! (2 * (2 ^ ?e + i) + 1)) i"
    using inner [of "2 ^ ?e + i"] n Suc.prems by (simp add: ilog2_between)
  moreover have "length (level_at c P k) = 2 * 2 ^ ?e"
    using length_level_at [of P d k c] P n Suc.prems e by simp
  ultimately show ?case using child [of 0] child [of 1] Suc.prems by (simp add: merkle_level_nth)
qed

text \<open>The walk in the array collects the siblings of the list computation.\<close>

lemma walk_is_prove_path:
  assumes P: "length P = 2 ^ d" and len: "length F = 2 * 2 ^ d"
    and lev: "\<And>k i. k \<le> d \<Longrightarrow> i < 2 ^ (d - k) \<Longrightarrow> F ! (2 ^ (d - k) + i) = level_at c P k ! i"
  shows "e \<le> d \<Longrightarrow> i < 2 ^ e \<Longrightarrow> walk_up F (2 ^ e + i) = prove_path c (level_at c P (d - e)) i"
proof (induction e arbitrary: i)
  case 0
  then have "length (level_at c P d) = 1" using length_level_at [OF P, of d] by simp
  with 0 show ?case by (simp add: walk_up.simps prove_path.simps)
next
  case (Suc e)
  let ?k = "d - Suc e" and ?p = "2 ^ Suc e + i"
  have k: "d - ?k = Suc e" "d - e = Suc ?k" using Suc.prems by auto
  have len_k: "length (level_at c P ?k) = 2 ^ Suc e"
    using length_level_at [OF P, of ?k c] k by simp
  have sib: "(if even ?p then ?p + 1 else ?p - 1) = 2 ^ Suc e + sibling_index i"
    by (auto simp: sibling_index_def elim!: oddE)
  have less: "sibling_index i < 2 ^ Suc e" by (rule sibling_less [OF Suc.prems(2)])
  have "(2::nat) ^ Suc e \<le> 2 ^ d" using Suc.prems(1) by (intro power_increasing) auto
  with less have inside: "2 ^ Suc e + sibling_index i < length F" using len by linarith
  have nth: "F ! (2 ^ Suc e + sibling_index i) = level_at c P ?k ! sibling_index i"
    using lev [of ?k "sibling_index i"] less k by simp
  have "?p div 2 = 2 ^ e + i div 2" by simp
  moreover have "walk_up F (2 ^ e + i div 2) = prove_path c (merkle_level c 0 (level_at c P ?k)) (i div 2)"
    using Suc.IH [of "i div 2"] Suc.prems k by simp
  moreover have "1 < ?p" "(1::nat) < 2 ^ Suc e"
    using one_less_power [of "2::nat" "Suc e"] by auto
  ultimately show ?case
    by (subst walk_up.simps, subst prove_path.simps)
       (simp only: sib Let_def inside nth less len_k if_True)
qed

definition sig_nodes :: "crypto_env \<Rightarrow> bytes list \<Rightarrow> bytes list" where
  "sig_nodes c hs =
     (let n = next_power_of_two (length hs) in
      fold (write_node c) (rev [1..<n])
        (write_padding c (length hs) n (write_leaves n hs (replicate (2 * n) (replicate 32 0)))))"

lemma SigCommitmentTree_new_Ok:
  "hs \<noteq> [] \<Longrightarrow> SigCommitmentTree_new c hs =
     Ok \<lparr>leaf_count = length hs, nodes = sig_nodes c hs, padded_n = next_power_of_two (length hs)\<rparr>"
  by (simp add: SigCommitmentTree_new_def sig_nodes_def Let_def)

lemma sig_nodes_levels:
  assumes n: "next_power_of_two (length hs) = 2 ^ d"
  shows "length (sig_nodes c hs) = 2 * 2 ^ d"
    and "k \<le> d \<Longrightarrow> i < 2 ^ (d - k) \<Longrightarrow>
      sig_nodes c hs ! (2 ^ (d - k) + i) = level_at c (pad_leaves c hs (2 ^ d)) k ! i"
proof -
  let ?ns = "write_padding c (length hs) (2 ^ d) (write_leaves (2 ^ d) hs (replicate (2 * 2 ^ d) (replicate 32 0)))"
  have le: "length hs \<le> 2 ^ d" using next_power_of_two_ge [of "length hs"] n by simp
  have F: "sig_nodes c hs = fold (write_node c) (rev [1..<2 ^ d]) ?ns"
    by (simp add: sig_nodes_def n Let_def)
  note w = nodes_written [of ?ns "2 ^ d" 1 c, folded F]
  show "length (sig_nodes c hs) = 2 * 2 ^ d" using w by simp
  have base: "sig_nodes c hs ! (2 ^ d + j) = pad_leaves c hs (2 ^ d) ! j" if "j < 2 ^ d" for j
    using w leaves_written [OF le that, of "replicate (2 * 2 ^ d) (replicate 32 0)" c] by simp
  show "k \<le> d \<Longrightarrow> i < 2 ^ (d - k) \<Longrightarrow>
      sig_nodes c hs ! (2 ^ (d - k) + i) = level_at c (pad_leaves c hs (2 ^ d)) k ! i"
    by (rule array_is_levels [OF refl length_pad_leaves [OF le] base]) (use w in auto)
qed

text \<open>The array has the same root as the list, and its proofs are the paths of the list.\<close>

lemma sig_tree_root_eq:
  assumes "hs \<noteq> []" "length hs < 2 ^ 63" "SigCommitmentTree_new c hs = Ok t"
  shows "\<exists>rt. sig_tree_root c t = Ok rt \<and> merkle_root_from_hashes c hs = Some rt"
proof -
  obtain d where d: "next_power_of_two (length hs) = 2 ^ d" using next_power_of_two_pow by blast
  let ?P = "pad_leaves c hs (2 ^ d)"
  have P: "length ?P = 2 ^ d"
    using next_power_of_two_ge [of "length hs"] d by (simp add: length_pad_leaves)
  have "sig_nodes c hs ! 1 = level_at c ?P d ! 0"
    using sig_nodes_levels(2) [OF d, of d 0 c] by simp
  also have "\<dots> = hd (merkle_up c ?P)"
    using merkle_up_level_at [OF P, of c] length_level_at [OF P, of d c] by (cases "level_at c ?P d") auto
  finally show ?thesis
    using assms sig_nodes_levels(1) [OF d, of c] d one_less_power [of "2::nat" "Suc d"]
    by (auto simp: SigCommitmentTree_new_Ok sig_tree_root_def merkle_root_from_hashes_def
          checked_next_power_of_two_Some)
qed

lemma sig_proof_eq:
  assumes "hs \<noteq> []" "SigCommitmentTree_new c hs = Ok t" "i < length hs"
  shows "\<exists>path d. next_power_of_two (length hs) = 2 ^ d \<and> length path = d \<and>
    generate_proof t i = Ok \<lparr>sp_leaf_index = i, sp_leaf = hs ! i, sp_path = path, sp_padded_n = 2 ^ d\<rparr> \<and>
    path_root c (hs ! i) i path = hd (merkle_up c (pad_leaves c hs (2 ^ d)))"
proof -
  obtain d where d: "next_power_of_two (length hs) = 2 ^ d" using next_power_of_two_pow by blast
  let ?P = "pad_leaves c hs (2 ^ d)"
  have le: "length hs \<le> 2 ^ d" using next_power_of_two_ge [of "length hs"] d by simp
  then have P: "length ?P = 2 ^ d" by (simp add: length_pad_leaves)
  have i: "i < 2 ^ d" using assms(3) le by simp
  obtain path where path: "prove_path c ?P i = Ok path" "length path = d"
      "path_root c (?P ! i) i path = hd (merkle_up c ?P)"
    using prove_path_complete [OF P i] by blast
  have walk: "walk_up (sig_nodes c hs) (2 ^ d + i) = Ok path"
    using walk_is_prove_path [OF P sig_nodes_levels(1) [OF d] sig_nodes_levels(2) [OF d], of d i] i path(1)
    by simp
  have "sig_nodes c hs ! (2 ^ d + i) = hs ! i"
    using sig_nodes_levels(2) [OF d, of 0 i c] i assms(3) by (simp add: pad_leaves_nth)
  with assms walk path i d sig_nodes_levels(1) [OF d, of c] show ?thesis
    by (auto simp: SigCommitmentTree_new_Ok generate_proof_def pad_leaves_nth)
qed

section \<open>The node tree\<close>

lemma node_level_hashes: "map node_hash (node_level c pos ns) = merkle_level c pos (map node_hash ns)"
  by (induction c pos ns rule: node_level.induct) auto

lemma node_up_hashes: "map node_hash (node_up c ns) = merkle_up c (map node_hash ns)"
proof (induction c ns rule: node_up.induct)
  case (1 c ns)
  then show ?case by (subst node_up.simps, subst merkle_up.simps) (simp add: node_level_hashes)
qed

lemma node_up_root:
  assumes "length hs = 2 ^ d"
  shows "\<exists>r rest. node_up c (map MerkleNode_leaf hs) = r # rest \<and> node_hash r = hd (merkle_up c hs)"
proof -
  have eq: "map node_hash (node_up c (map MerkleNode_leaf hs)) = merkle_up c hs"
    by (simp add: node_up_hashes comp_def)
  moreover have "length (merkle_up c hs) = 1"
    using merkle_up_level_at [OF assms, of c] length_level_at [OF assms, of d c] by simp
  ultimately show ?thesis
    by (cases "node_up c (map MerkleNode_leaf hs)") (auto simp: eq [symmetric])
qed

section \<open>Invariant of the commitment tree\<close>

datatype tree_op = TreeAdd bytes | TreeFinalize

primrec tree_step :: "crypto_env \<Rightarrow> tree_op \<Rightarrow> MerkleTree \<Rightarrow> MerkleTree" where
  "tree_step c (TreeAdd data) t = fst (add_leaf c data t)"
| "tree_step c TreeFinalize t = fst (tree_finalize c t)"

definition leaf_hashes :: "MerkleTree \<Rightarrow> bytes list" where
  "leaf_hashes t = map ml_hash (mt_leaves t)"

text \<open>The index maps every position to itself, leaf hashes are the hashes of the stored data, and
  a finalized tree stores the root of its leaf hashes.\<close>

definition tree_ok :: "crypto_env \<Rightarrow> MerkleTree \<Rightarrow> bool" where
  "tree_ok c t \<longleftrightarrow>
     (\<forall>i. bt_get (mt_leaf_index t) i = (if i < length (mt_leaves t) then Some i else None)) \<and>
     list_all (\<lambda>leaf. ml_hash leaf = merkle_hash_leaf c (ml_data leaf)) (mt_leaves t) \<and>
     (if mt_finalized t then mt_leaves t \<noteq> [] \<and> mt_root_hash t = merkle_root_from_hashes c (leaf_hashes t)
      else mt_root_hash t = None)"

text \<open>The leaf counter is 64 bits wide: the invariant holds while the tree is smaller than that.\<close>

definition tree_inv :: "crypto_env \<Rightarrow> MerkleTree \<Rightarrow> bool" where
  "tree_inv c t \<longleftrightarrow> length (mt_leaves t) < 2 ^ 63 \<longrightarrow> tree_ok c t"

lemma tree_finalize_first:
  assumes "\<not> mt_finalized t" "mt_leaves t \<noteq> []" "length (mt_leaves t) < 2 ^ 63"
  shows "\<exists>r rt. merkle_root_from_hashes c (leaf_hashes t) = Some rt \<and>
    tree_finalize c t = (t\<lparr>mt_root := Some r, mt_root_hash := Some rt, mt_finalized := True\<rparr>, Ok rt)"
proof -
  let ?n = "length (mt_leaves t)"
  obtain d where d: "next_power_of_two ?n = 2 ^ d" using next_power_of_two_pow by blast
  have "?n \<le> 2 ^ d" using next_power_of_two_ge [of ?n] d by simp
  then have P: "length (pad_leaves c (leaf_hashes t) (2 ^ d)) = 2 ^ d"
    by (simp add: length_pad_leaves leaf_hashes_def)
  have "map (\<lambda>leaf. MerkleNode_leaf (ml_hash leaf)) (mt_leaves t) @
      replicate (2 ^ d - ?n) (MerkleNode_leaf (merkle_empty_leaf c)) =
      map MerkleNode_leaf (pad_leaves c (leaf_hashes t) (2 ^ d))"
    by (simp add: pad_leaves_def leaf_hashes_def comp_def)
  moreover obtain r rest where "node_up c (map MerkleNode_leaf (pad_leaves c (leaf_hashes t) (2 ^ d))) = r # rest"
      "node_hash r = hd (merkle_up c (pad_leaves c (leaf_hashes t) (2 ^ d)))"
    using node_up_root [OF P] by blast
  moreover have "checked_next_power_of_two ?n = Some (2 ^ d)"
    using checked_next_power_of_two_Some [of ?n] assms d by simp
  ultimately show ?thesis using assms
    by (auto simp: tree_finalize_def merkle_root_from_hashes_def leaf_hashes_def Let_def)
qed

lemma tree_finalized_fixed: "mt_finalized t \<Longrightarrow> tree_step c a t = t"
  by (cases a) (simp_all add: add_leaf_def tree_finalize_def)

lemma tree_inv_step:
  assumes "tree_inv c t"
  shows "tree_inv c (tree_step c a t)"
proof (cases "mt_finalized t")
  case True
  with assms show ?thesis by (simp add: tree_finalized_fixed)
next
  case False
  show ?thesis
  proof (cases a)
    case (TreeAdd data)
    have *: "tree_step c a t = t\<lparr>mt_leaf_index := bt_insert (cast 64 (length (mt_leaves t)))
        (length (mt_leaves t)) (mt_leaf_index t),
        mt_leaves := mt_leaves t @ [MerkleLeaf_new c (cast 64 (length (mt_leaves t))) data]\<rparr>"
      using False TreeAdd by (simp add: add_leaf_def Let_def)
    show ?thesis unfolding * tree_inv_def
      using assms False by (auto simp: tree_inv_def tree_ok_def cast_exact)
  next
    case TreeFinalize
    show ?thesis
    proof (cases "mt_leaves t = [] \<or> \<not> length (mt_leaves t) < 2 ^ 63")
      case True
      then show ?thesis using assms False TreeFinalize
        by (auto simp: tree_inv_def tree_finalize_def Let_def split: option.splits list.splits)
    next
      case ne: False
      then obtain r rt where "merkle_root_from_hashes c (leaf_hashes t) = Some rt"
          "tree_step c a t = t\<lparr>mt_root := Some r, mt_root_hash := Some rt, mt_finalized := True\<rparr>"
        using tree_finalize_first [OF False, of c] TreeFinalize by auto
      then show ?thesis using assms ne by (auto simp: tree_inv_def tree_ok_def leaf_hashes_def)
    qed
  qed
qed

interpretation tree: machine "tree_step c" "tree_inv c" "\<lambda>_. True" for c
  by unfold_locales (rule tree_inv_step)

lemma tree_run_ok:
  assumes "length (mt_leaves (fold (tree_step c) ops MerkleTree_new)) < 2 ^ 63"
  shows "tree_ok c (fold (tree_step c) ops MerkleTree_new)"
proof -
  have "tree_inv c MerkleTree_new" by (simp add: tree_inv_def tree_ok_def)
  then have "tree_inv c (fold (tree_step c) ops MerkleTree_new)"
    by (rule tree.run_inv) (simp add: list_all_iff)
  with assms show ?thesis by (simp add: tree_inv_def)
qed

section \<open>Soundness of paths\<close>

text \<open>The inputs hashed while following a path, and while computing the root of a list.\<close>

fun path_inputs :: "crypto_env \<Rightarrow> bytes \<Rightarrow> nat \<Rightarrow> bytes list \<Rightarrow> bytes list" where
  "path_inputs c current position [] = [root_input current]"
| "path_inputs c current position (sibling # path) =
     (let i = (if even position then node_input current sibling (position div 2)
               else node_input sibling current (position div 2))
      in i # path_inputs c (blake3_256 c i) (position div 2) path)"

fun level_inputs :: "nat \<Rightarrow> bytes list \<Rightarrow> bytes list" where
  "level_inputs pos (a # b # xs) = node_input a b pos # level_inputs (Suc pos) xs"
| "level_inputs pos [a] = []"
| "level_inputs pos [] = []"

function tree_inputs :: "crypto_env \<Rightarrow> bytes list \<Rightarrow> bytes list" where
  "tree_inputs c level =
     (if length level > 1 then level_inputs 0 level @ tree_inputs c (merkle_level c 0 level)
      else map root_input level)"
  by auto
termination by (relation "measure (\<lambda>(c, level). length level)") auto

declare tree_inputs.simps [simp del]

definition collide :: "crypto_env \<Rightarrow> bytes list \<Rightarrow> bytes list \<Rightarrow> bool" where
  "collide c as bs \<longleftrightarrow> (\<exists>a\<in>set as. \<exists>b\<in>set bs. a \<noteq> b \<and> blake3_256 c a = blake3_256 c b)"

lemma level_inputs_nth:
  "i < length xs div 2 \<Longrightarrow> node_input (xs ! (2 * i)) (xs ! (2 * i + 1)) (pos + i) \<in> set (level_inputs pos xs)"
proof (induction pos xs arbitrary: i rule: level_inputs.induct)
  case (1 pos a b xs)
  then show ?case using 1(1) [of "i - 1"] by (cases i) auto
qed auto

lemma node_input_inj:
  "length l = 32 \<Longrightarrow> length l' = 32 \<Longrightarrow> node_input l r p = node_input l' r' p \<longleftrightarrow> l = l' \<and> r = r'"
  by simp

lemma path_sound:
  assumes dig: "\<And>m. length (blake3_256 c m) = 32"
  shows "length xs = 2 ^ d \<Longrightarrow> i < 2 ^ d \<Longrightarrow> length path = d \<Longrightarrow> length cur = 32 \<Longrightarrow>
    list_all (\<lambda>h. length h = 32) xs \<Longrightarrow> list_all (\<lambda>h. length h = 32) path \<Longrightarrow>
    version_merkle_root c (path_root c cur i path) = version_merkle_root c (hd (merkle_up c xs)) \<Longrightarrow>
    cur = xs ! i \<or> collide c (path_inputs c cur i path) (tree_inputs c xs)"
proof (induction d arbitrary: xs i path cur)
  case 0
  then obtain x where xs: "xs = [x]" by (auto simp: length_Suc_conv)
  have "root_input cur = root_input x \<Longrightarrow> cur = x" by simp
  with 0 xs show ?case
    by (auto simp: collide_def tree_inputs.simps merkle_up_one)
next
  case (Suc d)
  let ?j = "i div 2" and ?ys = "merkle_level c 0 xs"
  obtain s path' where path: "path = s # path'" "length path' = d" "length s = 32"
    using Suc.prems(3,6) by (auto simp: length_Suc_conv)
  define a where "a = (if even i then node_input cur s ?j else node_input s cur ?j)"
  define b where "b = node_input (xs ! (2 * ?j)) (xs ! (2 * ?j + 1)) ?j"
  have one: "1 < length xs" using Suc.prems(1) one_less_power [of "2::nat" "Suc d"] by simp
  have j: "?j < length xs div 2" "?j < 2 ^ d" using Suc.prems(1,2) by auto
  have ti: "set (tree_inputs c xs) = set (level_inputs 0 xs) \<union> set (tree_inputs c ?ys)"
    using one by (subst tree_inputs.simps) simp
  have b: "?ys ! ?j = blake3_256 c b" "b \<in> set (tree_inputs c xs)"
    using merkle_level_nth [OF j(1), of c 0] level_inputs_nth [OF j(1), of 0]
    by (simp_all add: b_def merkle_hash_node_def ti)
  have pi: "path_inputs c cur i path = a # path_inputs c (blake3_256 c a) ?j path'"
    by (simp add: path(1) a_def Let_def)
  have rt: "path_root c cur i path = path_root c (blake3_256 c a) ?j path'"
    by (simp add: path(1) a_def merkle_hash_node_def Let_def)
  have ys: "list_all (\<lambda>h. length h = 32) ?ys"
    using dig by (auto simp: list_all_length merkle_level_nth merkle_hash_node_def)
  have "blake3_256 c a = ?ys ! ?j \<or> collide c (path_inputs c (blake3_256 c a) ?j path') (tree_inputs c ?ys)"
    using Suc.IH [OF length_level_half [OF Suc.prems(1)] j(2) path(2) dig [of a] ys]
      Suc.prems(6,7) path(1) rt merkle_up_step [OF Suc.prems(1), of c] by simp
  moreover have "cur = xs ! i" if "a = b"
  proof -
    have "length (xs ! (2 * ?j)) = 32" using Suc.prems(5) j(1) by (auto simp: list_all_length)
    with that path(3) Suc.prems(4) show ?thesis
      by (auto simp: a_def b_def node_input_inj split: if_splits elim!: oddE)
  qed
  ultimately show ?case using b unfolding pi collide_def ti by (auto; blast)
qed

text \<open>
  The width of the tree is part of the proof and nothing binds it to the committed list.  A smaller width makes a path
  end at an inner node; a larger one makes it start below a leaf.
\<close>

lemma level_at_up:
  assumes "length xs = 2 ^ d" "k \<le> d"
  shows "merkle_up c (level_at c xs k) = merkle_up c xs \<and> set (tree_inputs c (level_at c xs k)) \<subseteq> set (tree_inputs c xs)"
  using assms(2)
proof (induction k)
  case (Suc k)
  then have l: "length (level_at c xs k) = 2 ^ Suc (d - Suc k)" using length_level_at [OF assms(1), of k c] by (simp add: Suc_diff_Suc)
  then have "1 < length (level_at c xs k)" using one_less_power [of "2::nat" "Suc (d - Suc k)"] by simp
  then have "set (tree_inputs c (level_at c xs (Suc k))) \<subseteq> set (tree_inputs c (level_at c xs k))"
    by (subst (2) tree_inputs.simps) simp
  then show ?case using Suc merkle_up_step [OF l, of c] by auto
qed simp

lemma level_at_32:
  assumes "\<And>m. length (blake3_256 c m) = 32" "list_all (\<lambda>h. length h = 32) xs"
  shows "list_all (\<lambda>h. length h = 32) (level_at c xs k)"
  using assms by (induction k) (auto simp: list_all_length merkle_level_nth merkle_hash_node_def)

lemma path_append:
  "path_root c cur i (p @ q) = path_root c (path_root c cur i p) (i div 2 ^ length p) q \<and>
   set (path_inputs c (path_root c cur i p) (i div 2 ^ length p) q) \<subseteq> set (path_inputs c cur i (p @ q)) \<and>
   (p \<noteq> [] \<longrightarrow> (\<exists>a \<in> set (path_inputs c cur i (p @ q)). path_root c cur i p = blake3_256 c a))"
proof (induction p arbitrary: cur i)
  case (Cons x p)
  note IH = Cons.IH [of "if even i then merkle_hash_node c cur x (i div 2) else merkle_hash_node c x cur (i div 2)" "i div 2"]
  show ?case using IH by (cases "p = []"; cases "even i") (auto simp: Let_def div_mult2_eq merkle_hash_node_def)
qed simp

lemma path_sound_any_width:
  assumes dig: "\<And>m. length (blake3_256 c m) = 32"
    and xs: "length xs = 2 ^ d" "list_all (\<lambda>h. length h = 32) xs" and path: "list_all (\<lambda>h. length h = 32) path" "length cur = 32"
    and i: "i < 2 ^ length path"
    and eq: "version_merkle_root c (path_root c cur i path) = version_merkle_root c (hd (merkle_up c xs))"
  shows "(\<exists>k. d = length path + k \<and> cur = level_at c xs k ! i) \<or>
    (\<exists>k > 0. length path = d + k \<and> (\<exists>a \<in> set (path_inputs c cur i path). xs ! (i div 2 ^ k) = blake3_256 c a)) \<or>
    collide c (path_inputs c cur i path) (tree_inputs c xs)"
proof (cases "length path \<le> d")
  case True
  define k where "k = d - length path"
  have k: "k \<le> d" "d - k = length path" "d = length path + k" using True by (simp_all add: k_def)
  note up = level_at_up [OF xs(1) k(1), of c]
  have "cur = level_at c xs k ! i \<or> collide c (path_inputs c cur i path) (tree_inputs c (level_at c xs k))"
    by (rule path_sound [OF dig, of _ "length path"])
       (use length_level_at [OF xs(1) k(1), of c] k(2) i path eq up level_at_32 [OF dig xs(2)] in simp_all)
  then show ?thesis using k(3) up unfolding collide_def by blast
next
  case False
  define k where "k = length path - d"
  have k: "k > 0" "length path = d + k" "length (take k path) = k" "length (drop k path) = d" using False by (simp_all add: k_def)
  let ?mid = "path_root c cur i (take k path)"
  note ap = path_append [where p = "take k path" and q = "drop k path" and c = c and cur = cur and i = i, unfolded append_take_drop_id k(3)]
  have ne: "take k path \<noteq> []" using k(1,3) by auto
  obtain a where a: "a \<in> set (path_inputs c cur i path)" "?mid = blake3_256 c a" using ap ne by blast
  have j: "i div 2 ^ k < 2 ^ d" using i k(2) by (simp add: less_mult_imp_div_less power_add)
  have "?mid = xs ! (i div 2 ^ k) \<or> collide c (path_inputs c ?mid (i div 2 ^ k) (drop k path)) (tree_inputs c xs)"
    by (rule path_sound [OF dig xs(1) j k(4) _ xs(2)])
       (use a(2) dig path(1) eq ap in \<open>auto simp: list_all_iff dest: in_set_dropD\<close>)
  then show ?thesis using a k(1,2) ap unfolding collide_def by (metis subsetD)
qed

lemma root_verifies_as_leaf:
  assumes "merkle_root_from_hashes c leaves = Some rt"
  shows "verify_merkle_path c rt (hd (merkle_up c (pad_leaves c leaves (next_power_of_two (length leaves))))) 0 1 []"
  using assms is_power_of_two_power [of 0] trailing_zeros_power [of 0]
  by (auto simp: verify_merkle_path_def merkle_root_from_hashes_def checked_next_power_of_two_def Let_def split: if_splits)

text \<open>A commitment hash does not determine what it commits to. Moving a byte from the data to the
  nonce gives two different data values with the same commitment hash, each accepted on opening.\<close>

lemma commitment_boundary_ambiguous:
  "cm_hash (commit c (data @ [b]) nonce) = cm_hash (commit c data (b # nonce)) \<and>
   Commitment_verify c \<lparr>cm_hash = cm_hash (commit c (data @ [b]) nonce), cm_nonce = b # nonce\<rparr> data = Ok ()"
  by (simp add: commit_def)

text \<open>Closed instances: a finalized tree with two leaves, and a list of two leaf hashes.\<close>

definition demo_tree_ops :: "tree_op list" where
  "demo_tree_ops = [TreeAdd [4], TreeAdd [5], TreeFinalize]"

lemma demo_tree:
  "mt_finalized (fold (tree_step demo_env) demo_tree_ops MerkleTree_new)"
  "length (mt_leaves (fold (tree_step demo_env) demo_tree_ops MerkleTree_new)) = 2"
proof -
  let ?t = "fold (tree_step demo_env) [TreeAdd [4], TreeAdd [5]] MerkleTree_new"
  have "\<not> mt_finalized ?t" "length (mt_leaves ?t) = 2"
    by (simp_all add: add_leaf_def Let_def)
  moreover from this have "mt_leaves ?t \<noteq> []" by auto
  ultimately obtain r rt where "tree_finalize demo_env ?t =
      (?t\<lparr>mt_root := Some r, mt_root_hash := Some rt, mt_finalized := True\<rparr>, Ok rt)"
    using tree_finalize_first [of ?t demo_env] by auto
  then show "mt_finalized (fold (tree_step demo_env) demo_tree_ops MerkleTree_new)"
      "length (mt_leaves (fold (tree_step demo_env) demo_tree_ops MerkleTree_new)) = 2"
    using \<open>length (mt_leaves ?t) = 2\<close> by (simp_all add: demo_tree_ops_def)
qed

definition demo_leaves :: "bytes list" where
  "demo_leaves = [replicate 32 4, replicate 32 5]"

lemma demo_leaves_root:
  "next_power_of_two (length demo_leaves) = 2"
  "merkle_root_from_hashes demo_env demo_leaves =
     Some (version_merkle_root demo_env (merkle_hash_node demo_env (replicate 32 4) (replicate 32 5) 0))"
proof -
  show two: "next_power_of_two (length demo_leaves) = 2"
    using next_power_of_two_power [of 1] by (simp add: demo_leaves_def numeral_2_eq_2)
  have "merkle_up demo_env demo_leaves = [merkle_hash_node demo_env (replicate 32 4) (replicate 32 5) 0]"
    by (subst merkle_up.simps) (simp add: demo_leaves_def merkle_up_one)
  with two show "merkle_root_from_hashes demo_env demo_leaves =
     Some (version_merkle_root demo_env (merkle_hash_node demo_env (replicate 32 4) (replicate 32 5) 0))"
    by (simp add: merkle_root_from_hashes_def checked_next_power_of_two_def pad_leaves_def)
       (simp add: demo_leaves_def)
qed

section \<open>Properties\<close>

text \<open>C29: three implementations, one root. For every non-empty list of leaf hashes the level-order
  array of \<open>SigCommitmentTree\<close> has the root that \<open>merkle_root_from_hashes\<close> computes level by level,
  and a finalized \<open>MerkleTree\<close> stores that same root for the leaves it was given.\<close>

theorem merkle_implementations_agree:
  assumes "t = fold (tree_step c) ops MerkleTree_new" "mt_finalized t" "length (mt_leaves t) < 2 ^ 63"
  shows "\<exists>st rt. merkle_root_from_hashes c (map ml_hash (mt_leaves t)) = Some rt \<and>
    tree_root t = Ok rt \<and>
    SigCommitmentTree_new c (map ml_hash (mt_leaves t)) = Ok st \<and> sig_tree_root c st = Ok rt"
proof -
  let ?hs = "map ml_hash (mt_leaves t)"
  have ok: "tree_ok c t" using tree_run_ok assms by auto
  then have ne: "?hs \<noteq> []" "mt_root_hash t = merkle_root_from_hashes c ?hs"
    using assms(2) by (auto simp: tree_ok_def leaf_hashes_def)
  obtain st where st: "SigCommitmentTree_new c ?hs = Ok st" using SigCommitmentTree_new_Ok ne(1) by blast
  obtain rt where "sig_tree_root c st = Ok rt" "merkle_root_from_hashes c ?hs = Some rt"
    using sig_tree_root_eq [OF ne(1) _ st] assms(3) by auto
  with st ne(2) show ?thesis by (auto simp: tree_root_def)
qed

theorem merkle_implementations_agree_witness:
  "\<exists>st rt. merkle_root_from_hashes demo_env
       (map ml_hash (mt_leaves (fold (tree_step demo_env) demo_tree_ops MerkleTree_new))) = Some rt \<and>
     SigCommitmentTree_new demo_env
       (map ml_hash (mt_leaves (fold (tree_step demo_env) demo_tree_ops MerkleTree_new))) = Ok st \<and>
     sig_tree_root demo_env st = Ok rt"
  using merkle_implementations_agree [OF refl demo_tree(1)] demo_tree(2) by auto

text \<open>Inclusion proofs are complete. In a finalized tree every leaf has an inclusion proof, the
  proof names the hash of the leaf's data, and it verifies against the tree's root.\<close>

theorem inclusion_proofs_complete:
  assumes "t = fold (tree_step c) ops MerkleTree_new" "mt_finalized t"
    and "length (mt_leaves t) < 2 ^ 63" "i < length (mt_leaves t)"
  shows "\<exists>p rt. prove_inclusion c t i = Ok p \<and> tree_root t = Ok rt \<and>
    MerkleProof_verify c p rt = Ok () \<and>
    mp_leaf_hash p = merkle_hash_leaf c (ml_data (mt_leaves t ! i))"
proof -
  let ?hs = "map ml_hash (mt_leaves t)"
  have ok: "tree_ok c t" using tree_run_ok assms(1,3) by auto
  obtain d where d: "next_power_of_two (length (mt_leaves t)) = 2 ^ d" using next_power_of_two_pow by blast
  have le: "length (mt_leaves t) \<le> 2 ^ d" using next_power_of_two_ge [of "length (mt_leaves t)"] d by simp
  then have P: "length (pad_leaves c ?hs (2 ^ d)) = 2 ^ d" by (simp add: length_pad_leaves)
  have i: "i < 2 ^ d" using assms(4) le by simp
  obtain path where path: "prove_path c (pad_leaves c ?hs (2 ^ d)) i = Ok path" "length path = d"
      "path_root c (pad_leaves c ?hs (2 ^ d) ! i) i path = hd (merkle_up c (pad_leaves c ?hs (2 ^ d)))"
    using prove_path_complete [OF P i] by blast
  have rt: "mt_root_hash t = Some (version_merkle_root c (hd (merkle_up c (pad_leaves c ?hs (2 ^ d)))))"
    using ok assms(2,3,4) d checked_next_power_of_two_Some [of "length (mt_leaves t)"]
    by (auto simp: tree_ok_def leaf_hashes_def merkle_root_from_hashes_def)
  have "ml_hash (mt_leaves t ! i) = merkle_hash_leaf c (ml_data (mt_leaves t ! i))"
    using ok assms(4) by (simp add: tree_ok_def list_all_length)
  moreover have "bt_get (mt_leaf_index t) i = Some i" using ok assms(4) by (simp add: tree_ok_def)
  ultimately show ?thesis using assms(2,3,4) path rt d i
    by (intro exI [of _ "\<lparr>mp_leaf_index = i, mp_leaf_hash = ml_hash (mt_leaves t ! i), mp_path = path,
          mp_padded_len = 2 ^ d, mp_root = the (mt_root_hash t)\<rparr>"])
       (simp add: prove_inclusion_def tree_root_def MerkleProof_verify_def verify_merkle_path_def
          pad_leaves_nth Let_def)
qed

theorem inclusion_proofs_complete_witness:
  "\<exists>p rt. prove_inclusion demo_env (fold (tree_step demo_env) demo_tree_ops MerkleTree_new) 1 = Ok p \<and>
     tree_root (fold (tree_step demo_env) demo_tree_ops MerkleTree_new) = Ok rt \<and>
     MerkleProof_verify demo_env p rt = Ok ()"
  using inclusion_proofs_complete [OF refl demo_tree(1), of 1] demo_tree(2) by auto

text \<open>Signature commitments verify. For every non-empty list of signatures the commitment is
  computed, validators accept it against the gossiped signature hashes, and every signature has an
  inclusion proof for its own hash that verifies against the committed root.\<close>

theorem sig_commitment_verifies:
  assumes "sigs \<noteq> []" "length sigs < 2 ^ 63"
  shows "\<exists>rt hs t. compute_sig_commitment c sigs = Ok (rt, hs) \<and> hs = map (hash_sig c) sigs \<and>
    verify_commitment_root c rt hs = Ok True \<and> SigCommitmentTree_new c hs = Ok t \<and>
    (\<forall>i. i < length sigs \<longrightarrow> (\<exists>p. generate_proof t i = Ok p \<and> sp_leaf p = hash_sig c (sigs ! i) \<and>
       verify_proof c rt p))"
proof -
  let ?hs = "map (hash_sig c) sigs"
  have ne: "?hs \<noteq> []" "length ?hs < 2 ^ 63" using assms by auto
  obtain t where t: "SigCommitmentTree_new c ?hs = Ok t" using SigCommitmentTree_new_Ok ne(1) by blast
  obtain rt where rt: "sig_tree_root c t = Ok rt" "merkle_root_from_hashes c ?hs = Some rt"
    using sig_tree_root_eq [OF ne t] by blast
  have "\<exists>p. generate_proof t i = Ok p \<and> sp_leaf p = hash_sig c (sigs ! i) \<and> verify_proof c rt p"
    if i: "i < length sigs" for i
  proof -
    obtain path d where p: "next_power_of_two (length ?hs) = 2 ^ d" "length path = d"
        "generate_proof t i = Ok \<lparr>sp_leaf_index = i, sp_leaf = ?hs ! i, sp_path = path, sp_padded_n = 2 ^ d\<rparr>"
        "path_root c (?hs ! i) i path = hd (merkle_up c (pad_leaves c ?hs (2 ^ d)))"
      using sig_proof_eq [OF ne(1) t, of i] i by auto
    have "i < 2 ^ d" using next_power_of_two_ge [of "length ?hs"] p(1) i by simp
    moreover have "rt = version_merkle_root c (hd (merkle_up c (pad_leaves c ?hs (2 ^ d))))"
      using rt(2) p(1) by (auto simp: merkle_root_from_hashes_def checked_next_power_of_two_def Let_def
          split: if_splits)
    ultimately show ?thesis using p i by (simp add: verify_merkle_path_def)
  qed
  with t rt ne assms show ?thesis
    by (auto simp: compute_sig_commitment_def)
qed

theorem sig_commitment_verifies_witness:
  "\<exists>rt hs. compute_sig_commitment demo_env [[1], [2], [3]] = Ok (rt, hs) \<and>
     verify_commitment_root demo_env rt hs = Ok True"
  using sig_commitment_verifies [of "[[1], [2], [3]]" demo_env] by auto

text \<open>C28: what a verifying inclusion path shows, for whatever tree width \<open>n\<close> the proof claims. If it claims the width of
  the committed list (its length rounded up to a power of two), the leaf hash is the one at that position of the padded
  list. If it claims a smaller one, the hash is the node at that position some levels above the leaves; if it claims
  a larger one, the leaf above that position is the digest of an input hashed along the path. Otherwise two different
  inputs, one hashed along the path and one for the root, have the same digest. The verifier itself does not
  check the width.\<close>

theorem inclusion_proofs_sound:
  assumes "digests_32 c" "merkle_root_from_hashes c leaves = Some rt"
    and "list_all (\<lambda>h. length h = 32) leaves" "list_all (\<lambda>h. length h = 32) path" "length leaf = 32"
    and "verify_merkle_path c rt leaf i n path"
    and "N = next_power_of_two (length leaves)" "P = pad_leaves c leaves N"
  shows "(n = N \<and> leaf = P ! i) \<or>
    (\<exists>k > 0. N = n * 2 ^ k \<and> leaf = level_at c P k ! i) \<or>
    (\<exists>k > 0. n = N * 2 ^ k \<and> (\<exists>a \<in> set (path_inputs c leaf i path). P ! (i div 2 ^ k) = blake3_256 c a)) \<or>
    (\<exists>a \<in> set (path_inputs c leaf i path). \<exists>b \<in> set (tree_inputs c P). a \<noteq> b \<and> blake3_256 c a = blake3_256 c b)"
proof -
  obtain d where d: "N = 2 ^ d" using next_power_of_two_pow assms(7) by blast
  have P: "length P = 2 ^ d"
    using next_power_of_two_ge [of "length leaves"] d assms(7,8) by (simp add: length_pad_leaves)
  have 32: "list_all (\<lambda>h. length h = 32) P"
    using assms(1,3,8) by (auto simp: pad_leaves_def digests_32D list_all_iff)
  obtain e where e: "n = 2 ^ e"
    using assms(6) next_power_of_two_pow [of n] by (auto simp: verify_merkle_path_def is_power_of_two_def split: if_splits)
  have v: "i < 2 ^ e" "length path = e" "version_merkle_root c (path_root c leaf i path) = rt"
    using assms(6) e by (auto simp: verify_merkle_path_def split: if_splits)
  have "rt = version_merkle_root c (hd (merkle_up c P))"
    using assms(2,7,8) by (auto simp: merkle_root_from_hashes_def checked_next_power_of_two_def Let_def split: if_splits)
  then have "(\<exists>k. d = e + k \<and> leaf = level_at c P k ! i) \<or>
      (\<exists>k > 0. e = d + k \<and> (\<exists>a \<in> set (path_inputs c leaf i path). P ! (i div 2 ^ k) = blake3_256 c a)) \<or>
      collide c (path_inputs c leaf i path) (tree_inputs c P)"
    using path_sound_any_width [OF digests_32D(3) [OF assms(1)] P 32 assms(4,5), of i] v by simp
  then show ?thesis
  proof (elim disjE exE conjE)
    fix k assume "d = e + k" "leaf = level_at c P k ! i"
    then show ?thesis using d e by (cases "k = 0") (auto simp: power_add)
  next
    fix k a assume "0 < k" "e = d + k" "\<exists>a \<in> set (path_inputs c leaf i path). P ! (i div 2 ^ k) = blake3_256 c a"
    then show ?thesis using d e by (auto simp: power_add)
  qed (simp add: collide_def)
qed

theorem inclusion_proofs_sound_witness:
  "verify_merkle_path demo_env
     (version_merkle_root demo_env (merkle_hash_node demo_env (replicate 32 4) (replicate 32 5) 0))
     (replicate 32 4) 0 2 [replicate 32 5] \<and>
   (replicate 32 4 = pad_leaves demo_env demo_leaves 2 ! 0 \<or>
    (\<exists>a \<in> set (path_inputs demo_env (replicate 32 4) 0 [replicate 32 5]).
     \<exists>b \<in> set (tree_inputs demo_env (pad_leaves demo_env demo_leaves 2)).
       a \<noteq> b \<and> blake3_256 demo_env a = blake3_256 demo_env b))"
proof -
  let ?rt = "version_merkle_root demo_env (merkle_hash_node demo_env (replicate 32 4) (replicate 32 5) 0)"
  have v: "verify_merkle_path demo_env ?rt (replicate 32 4) 0 2 [replicate 32 5]"
    using is_power_of_two_power [of 1] trailing_zeros_power [of 1]
    by (simp add: verify_merkle_path_def numeral_2_eq_2)
  have width: "(2 :: nat) \<noteq> 2 * 2 ^ k" if "k > 0" for k using that one_less_power [of "2::nat" k] by simp
  show ?thesis
    using inclusion_proofs_sound [OF demo_digests_32 demo_leaves_root(2) _ _ _ v, OF _ _ _ demo_leaves_root(1) [symmetric] refl] v width
    by (auto simp: demo_leaves_def)
qed

end
