(* ===== verification/Epoch.thy ===== *)
theory Epoch
  imports Prelude
begin

text \<open>
  \<open>crates/bleep-consensus/src/epoch.rs\<close>: the epoch configuration, the arithmetic between block
  heights and epochs, and the per-epoch consensus state built from it. Heights are 64-bit and every
  plain operator wraps; a division by a zero \<open>blocks_per_epoch\<close> (the field is public) panics. The
  lemmas show that \<open>build\<close> succeeds for every height of every epoch that ends inside the 64-bit
  range and that the epochs it builds partition the heights from genesis on.
\<close>

section \<open>Data\<close>

datatype ConsensusMode = PosNormal | PbftFastFinality | EmergencyPow

primrec ConsensusMode_as_str :: "ConsensusMode \<Rightarrow> string" where
  "ConsensusMode_as_str PosNormal = ''PoS_NORMAL''"
| "ConsensusMode_as_str PbftFastFinality = ''PBFT_FINALITY''"
| "ConsensusMode_as_str EmergencyPow = ''EMERGENCY_POW''"

record EpochConfig =
  blocks_per_epoch :: u64
  genesis_height :: u64
  protocol_version :: u32

record EpochState =
  es_epoch_id :: u64
  consensus_mode :: ConsensusMode
  start_height :: u64
  end_height :: u64

datatype EpochError =
    ZeroBlocksPerEpoch
  | EpochIdMismatch u64 u64
  | EpochRangeMismatch u64 u64

section \<open>Configuration\<close>

definition EpochConfig_new :: "u64 \<Rightarrow> u64 \<Rightarrow> u32 \<Rightarrow> (EpochError, EpochConfig) outcome" where
  "EpochConfig_new blocks genesis version =
     (if blocks = 0 then Err ZeroBlocksPerEpoch
      else Ok \<lparr>blocks_per_epoch = blocks, genesis_height = genesis, protocol_version = version\<rparr>)"

abbreviation epoch_id :: "EpochConfig \<Rightarrow> u64 \<Rightarrow> (EpochError, u64) outcome" where
  "epoch_id c height \<equiv> (if height < genesis_height c then Ok 0
      else if blocks_per_epoch c = 0 then Panic
      else Ok ((height - genesis_height c) div blocks_per_epoch c))"

abbreviation height_range :: "EpochConfig \<Rightarrow> u64 \<Rightarrow> u64 \<times> u64" where
  "height_range c e \<equiv> (let start = wrap_add 64 (genesis_height c) (wrap_mul 64 e (blocks_per_epoch c));
          fin = wrap_add 64 start (blocks_per_epoch c)
      in (start, fin))"

abbreviation is_in_epoch :: "EpochConfig \<Rightarrow> u64 \<Rightarrow> u64 \<Rightarrow> (EpochError, bool) outcome" where
  "is_in_epoch c height e \<equiv> bind_outcome (epoch_id c height) (\<lambda>i. Ok (i = e))"

abbreviation epoch_start_height :: "EpochConfig \<Rightarrow> u64 \<Rightarrow> u64" where
  "epoch_start_height c e \<equiv> wrap_add 64 (genesis_height c) (wrap_mul 64 e (blocks_per_epoch c))"

abbreviation epoch_end_height :: "EpochConfig \<Rightarrow> u64 \<Rightarrow> u64" where
  "epoch_end_height c e \<equiv> wrap_sub 64 (epoch_start_height c (wrap_add 64 e 1)) 1"

section \<open>Epoch state\<close>

definition EpochState_new :: "u64 \<Rightarrow> ConsensusMode \<Rightarrow> u64 \<Rightarrow> u64 \<Rightarrow> EpochState" where
  "EpochState_new i mode s e =
     \<lparr>es_epoch_id = i, consensus_mode = mode, start_height = s, end_height = e\<rparr>"

abbreviation contains_height :: "EpochState \<Rightarrow> u64 \<Rightarrow> bool" where
  "contains_height s height \<equiv> height \<ge> start_height s \<and> height \<le> end_height s"

definition EpochState_validate :: "EpochState \<Rightarrow> EpochConfig \<Rightarrow> (EpochError, unit) outcome" where
  "EpochState_validate s c =
     bind_outcome (epoch_id c (start_height s)) (\<lambda>expected_id.
       if es_epoch_id s \<noteq> expected_id then Err (EpochIdMismatch (es_epoch_id s) expected_id)
       else let blocks = wrap_add 64 (wrap_sub 64 (end_height s) (start_height s)) 1 in
         if blocks \<noteq> blocks_per_epoch c then Err (EpochRangeMismatch (blocks_per_epoch c) blocks)
         else Ok ())"

definition epoch_build ::
  "EpochConfig \<Rightarrow> u64 \<Rightarrow> ConsensusMode \<Rightarrow> (EpochError, EpochState) outcome" where
  "epoch_build c height mode =
     bind_outcome (epoch_id c height) (\<lambda>i.
       let s = EpochState_new i mode (epoch_start_height c i) (epoch_end_height c i) in
       bind_outcome (EpochState_validate s c) (\<lambda>_. Ok s))"

section \<open>Heights and epochs\<close>

text \<open>Epoch \<open>e\<close> ends inside the 64-bit height range.\<close>

definition epoch_fits :: "EpochConfig \<Rightarrow> u64 \<Rightarrow> bool" where
  "epoch_fits c e \<longleftrightarrow> 0 < blocks_per_epoch c \<and> genesis_height c + (e + 1) * blocks_per_epoch c < 2 ^ 64"

lemma epoch_fits_bounds:
  assumes "epoch_fits c e"
  shows "e + 1 < 2 ^ 64" "(e + 1) * blocks_per_epoch c < 2 ^ 64" "e * blocks_per_epoch c < 2 ^ 64"
    "genesis_height c + e * blocks_per_epoch c < 2 ^ 64"
proof -
  let ?b = "blocks_per_epoch c"
  have b: "0 < ?b" and t: "genesis_height c + (e + 1) * ?b < 2 ^ 64"
    using assms by (auto simp: epoch_fits_def)
  have "e + 1 \<le> (e + 1) * ?b"
    by (rule order_trans [OF _ mult_le_mono2 [of 1 ?b "e + 1"]]) (use b in simp_all)
  also have "\<dots> \<le> genesis_height c + (e + 1) * ?b" by simp
  also note t
  finally show "e + 1 < 2 ^ 64" .
  show "(e + 1) * ?b < 2 ^ 64" "e * ?b < 2 ^ 64" "genesis_height c + e * ?b < 2 ^ 64"
    using t by auto
qed

lemma start_height_exact:
  "epoch_fits c e \<Longrightarrow> epoch_start_height c e = genesis_height c + e * blocks_per_epoch c"
  using epoch_fits_bounds [of c e] by (simp add: wrap_add_exact wrap_mul_exact)

lemma end_height_exact:
  assumes "epoch_fits c e"
  shows "epoch_end_height c e = genesis_height c + (e + 1) * blocks_per_epoch c - 1"
proof -
  let ?n = "genesis_height c + (e + 1) * blocks_per_epoch c"
  have t: "?n < 2 ^ 64" "1 \<le> ?n" using assms by (auto simp: epoch_fits_def)
  have "epoch_start_height c (wrap_add 64 e 1) = ?n"
    using epoch_fits_bounds [OF assms] t(1) by (simp only: wrap_add_exact wrap_mul_exact)
  then show ?thesis using t by (simp only: wrap_sub_exact)
qed

lemma epoch_id_between:
  assumes "0 < blocks_per_epoch c" "genesis_height c \<le> h"
  shows "epoch_id c h = Ok e \<longleftrightarrow>
    genesis_height c + e * blocks_per_epoch c \<le> h \<and> h < genesis_height c + (e + 1) * blocks_per_epoch c"
proof -
  obtain d where d: "h = genesis_height c + d" using assms(2) le_Suc_ex by blast
  have "d div blocks_per_epoch c = e \<longleftrightarrow> e * blocks_per_epoch c \<le> d \<and> d < (e + 1) * blocks_per_epoch c"
    using assms(1) by (metis Suc_eq_plus1 div_nat_eqI div_times_less_eq_dividend dividend_less_div_times
        mult.commute mult_Suc)
  with assms d show ?thesis by simp
qed

lemma epoch_build_exact:
  assumes fits: "epoch_fits c e" and h: "epoch_id c h = Ok e"
  shows "epoch_build c h mode = Ok (EpochState_new e mode
    (genesis_height c + e * blocks_per_epoch c) (genesis_height c + (e + 1) * blocks_per_epoch c - 1))"
proof -
  let ?b = "blocks_per_epoch c" and ?s = "genesis_height c + e * blocks_per_epoch c"
  have b: "0 < ?b" "?b < 2 ^ 64" using fits by (auto simp: epoch_fits_def)
  have id: "epoch_id c ?s = Ok e" using b by (simp add: epoch_id_between)
  have len: "wrap_add 64 (wrap_sub 64 (genesis_height c + (e + 1) * ?b - 1) ?s) 1 = ?b"
  proof -
    have "wrap_sub 64 (genesis_height c + (e + 1) * ?b - 1) ?s = ?b - 1"
      using b fits by (subst wrap_sub_exact) (auto simp: epoch_fits_def)
    with b show ?thesis by (simp add: wrap_add_exact)
  qed
  show ?thesis unfolding epoch_build_def h EpochState_validate_def EpochState_new_def Let_def
    by (simp only: start_height_exact [OF fits] end_height_exact [OF fits] bind_outcome.simps id len EpochState.simps Let_def if_False simp_thms)
qed

section \<open>Properties\<close>

text \<open>The epochs partition the block heights. For every height from genesis on whose epoch ends
  inside the 64-bit range, \<open>build\<close> succeeds, its state records the requested mode and passes
  \<open>validate\<close>, contains the height, and contains exactly the heights from genesis on that have the
  same epoch id; it covers \<open>blocks_per_epoch\<close> heights and the next epoch starts right behind it.\<close>

theorem epochs_partition_heights:
  assumes "genesis_height c \<le> h" "epoch_id c h = Ok e" "epoch_fits c e"
  shows "\<exists>s. epoch_build c h mode = Ok s \<and> es_epoch_id s = e \<and> consensus_mode s = mode \<and>
    EpochState_validate s c = Ok () \<and> contains_height s h \<and>
    (\<forall>h'. genesis_height c \<le> h' \<longrightarrow> (contains_height s h' \<longleftrightarrow> is_in_epoch c h' e = Ok True)) \<and>
    end_height s + 1 = start_height s + blocks_per_epoch c \<and>
    height_range c e = (start_height s, end_height s + 1)"
proof -
  let ?b = "blocks_per_epoch c"
  let ?s = "EpochState_new e mode (genesis_height c + e * ?b) (genesis_height c + (e + 1) * ?b - 1)"
  have b: "0 < ?b" and n: "genesis_height c + (e + 1) * ?b < 2 ^ 64"
    using assms(3) by (auto simp: epoch_fits_def)
  have build: "epoch_build c h mode = Ok ?s" by (rule epoch_build_exact [OF assms(3,2)])
  then have valid: "EpochState_validate ?s c = Ok ()"
    by (auto simp: epoch_build_def bind_outcome_Ok Let_def)
  have iff: "contains_height ?s h' \<longleftrightarrow> is_in_epoch c h' e = Ok True" if "genesis_height c \<le> h'" for h'
    using epoch_id_between [OF b that, of e] b
    by (auto simp: EpochState_new_def bind_outcome_Ok)
  have "contains_height ?s h" using iff [OF assms(1)] assms(2) by simp
  moreover have "height_range c e = (genesis_height c + e * ?b, genesis_height c + (e + 1) * ?b)"
    using start_height_exact [OF assms(3)] n
    by (simp add: Let_def wrap_add_def)
  ultimately show ?thesis using build valid iff b
    by (intro exI [of _ ?s]) (auto simp: EpochState_new_def)
qed

theorem epochs_partition_heights_witness:
  "\<exists>s. epoch_build \<lparr>blocks_per_epoch = 1000, genesis_height = 10, protocol_version = 1\<rparr> 2500 PosNormal = Ok s
     \<and> es_epoch_id s = 2 \<and> contains_height s 2500"
  using epochs_partition_heights
    [of "\<lparr>blocks_per_epoch = 1000, genesis_height = 10, protocol_version = 1\<rparr>" 2500 2 PosNormal]
  by (auto simp: epoch_fits_def)

end
