(* ===== verification/Block.thy ===== *)
theory Block
  imports Merkle Epoch
begin

text \<open>
  \<open>crates/bleep-core/src/block.rs\<close> with \<open>crates/bleep-crypto/src/tx_signer.rs\<close>: transactions and their
  signed payload, block headers and their canonical hash, block signatures, compact and gossip
  forms, the envelope of the VRF and STARK proofs with its fixed-width public inputs, and the
  transaction Merkle root. The wall clock is the argument \<open>now\<close>; the Winterfell verifier is the pair
  of arguments \<open>stark_parses\<close> and \<open>stark_verifies\<close>. The lemmas show what the hashes and signatures
  bind, that signing and encoding round-trip, and where the transaction root is ambiguous.
\<close>

section \<open>Transactions\<close>

abbreviation TX_DOMAIN :: bytes where "TX_DOMAIN \<equiv> str_bytes ''BLEEP:TRANSACTION:V1'' @ [0]"
abbreviation ACCOUNT_DOMAIN :: bytes where "ACCOUNT_DOMAIN \<equiv> str_bytes ''BLEEP:ACCOUNT:ADDRESS:V1'' @ [0]"
abbreviation DEFAULT_CHAIN_ID :: string where "DEFAULT_CHAIN_ID \<equiv> ''BLEEP-PreTestnet-001''"

datatype BlockError =
    InvalidTxSecretKey | BadPublicKeyLength nat | InvalidBlockSecretKey nat | InvalidBlockPublicKey
  | InvalidBlockSignature

abbreviation sign_tx_payload :: "crypto_env \<Rightarrow> bytes \<Rightarrow> bytes \<Rightarrow> (BlockError, bytes) outcome" where
  "sign_tx_payload c payload sk \<equiv> (if \<not> sk_from_bytes_ok c sk then Err InvalidTxSecretKey else Ok (detached_sign c payload sk))"

definition verify_tx_signature :: "crypto_env \<Rightarrow> bytes \<Rightarrow> bytes \<Rightarrow> bytes \<Rightarrow> bool" where
  "verify_tx_signature c payload sig pk =
     (if \<not> pk_from_bytes_ok c pk then False
      else if \<not> sig_from_bytes_ok c sig then False
      else verify_detached_signature c sig payload pk)"

definition derive_account_address :: "crypto_env \<Rightarrow> bytes \<Rightarrow> string" where
  "derive_account_address c pk =
     (let first = sha2_256 c (ACCOUNT_DOMAIN @ to_le_bytes 8 (cast 64 (length pk)) @ pk);
          second = sha2_256 c first
      in ''BLEEP1'' @ hex_encode c (take 20 second))"

definition tx_preimage :: "string \<Rightarrow> string \<Rightarrow> string \<Rightarrow> u64 \<Rightarrow> u64 \<Rightarrow> u64 \<Rightarrow> bytes" where
  "tx_preimage chain_id sender receiver amount timestamp nonce =
     TX_DOMAIN @
     to_le_bytes 8 (cast 64 (length chain_id)) @ str_bytes chain_id @
     to_le_bytes 8 (cast 64 (length sender)) @ str_bytes sender @
     to_le_bytes 8 (cast 64 (length receiver)) @ str_bytes receiver @
     to_le_bytes 8 amount @ to_le_bytes 8 timestamp @ to_le_bytes 8 nonce"

definition tx_payload :: "crypto_env \<Rightarrow> string \<Rightarrow> string \<Rightarrow> string \<Rightarrow> u64 \<Rightarrow> u64 \<Rightarrow> u64 \<Rightarrow> bytes" where
  "tx_payload c chain_id sender receiver amount timestamp nonce =
     sha3_256 c (tx_preimage chain_id sender receiver amount timestamp nonce)"

definition validator_stake_payload ::
  "crypto_env \<Rightarrow> string \<Rightarrow> string \<Rightarrow> string \<Rightarrow> u64 \<Rightarrow> u64 \<Rightarrow> u64 \<Rightarrow> bytes \<Rightarrow> bytes \<Rightarrow> bytes" where
  "validator_stake_payload c chain_id sender label amount timestamp nonce kyber_pk vrf_pk =
     (let kem = hex_encode c (sha2_256 c kyber_pk);
          vrf = hex_encode c (sha2_256 c vrf_pk);
          receiver = ''validator:'' @ label @ '':kem:'' @ kem @ '':vrf:'' @ vrf
      in tx_payload c chain_id sender receiver amount timestamp nonce)"

record Transaction =
  tx_chain_id :: string
  tx_sender :: string
  tx_receiver :: string
  tx_amount :: u64
  tx_timestamp :: u64
  tx_nonce :: u64
  tx_signature :: bytes

abbreviation SPHINCS_PK_LEN :: usize where "SPHINCS_PK_LEN \<equiv> 64"
abbreviation SPHINCS_SIG_LEN :: usize where "SPHINCS_SIG_LEN \<equiv> 49856"
abbreviation VALIDATOR_SIG_LEN :: usize where "VALIDATOR_SIG_LEN \<equiv> SPHINCS_PK_LEN + SPHINCS_SIG_LEN"
abbreviation CURRENT_PROTOCOL_VERSION :: u32 where "CURRENT_PROTOCOL_VERSION \<equiv> 5"
abbreviation GENESIS_PROTOCOL_VERSION :: u32 where "GENESIS_PROTOCOL_VERSION \<equiv> 2"
abbreviation VRF_STARK_ENVELOPE_MAGIC :: bytes where "VRF_STARK_ENVELOPE_MAGIC \<equiv> str_bytes ''BLEEP_VRF_STARK_V1''"
definition VRF_OUTPUT_LEN :: usize where [const_defs]: "VRF_OUTPUT_LEN = 32"
abbreviation VRF_PROOF_LEN :: usize where "VRF_PROOF_LEN \<equiv> 64"
abbreviation VRF_STARK_ENVELOPE_HEADER_LEN :: usize where
  "VRF_STARK_ENVELOPE_HEADER_LEN \<equiv> length VRF_STARK_ENVELOPE_MAGIC + VRF_OUTPUT_LEN + VRF_PROOF_LEN"

definition tx_hash :: "crypto_env \<Rightarrow> Transaction \<Rightarrow> bytes" where
  "tx_hash c tx =
     tx_payload c (tx_chain_id tx) (tx_sender tx) (tx_receiver tx) (tx_amount tx) (tx_timestamp tx) (tx_nonce tx)"

definition tx_verify_signature :: "crypto_env \<Rightarrow> Transaction \<Rightarrow> bool" where
  "tx_verify_signature c tx =
     (if tx_signature tx = [] then False
      else if length (tx_signature tx) \<noteq> VALIDATOR_SIG_LEN \<or> tx_chain_id tx = [] then False
      else let pk = take SPHINCS_PK_LEN (tx_signature tx);
               sig = drop SPHINCS_PK_LEN (tx_signature tx)
           in if derive_account_address c pk \<noteq> tx_sender tx then False
              else verify_tx_signature c (tx_hash c tx) sig pk)"

section \<open>Headers and blocks\<close>

record BlockHeader =
  hdr_index :: u64
  hdr_timestamp :: u64
  hdr_chain_id :: string
  hdr_previous_hash :: string
  hdr_merkle_root :: string
  hdr_validator_signature :: bytes
  hdr_zk_proof :: bytes
  hdr_epoch_id :: u64
  hdr_consensus_mode :: ConsensusMode
  hdr_protocol_version :: u32
  hdr_shard_registry_root :: string
  hdr_shard_id :: u64
  hdr_shard_state_root :: string
  hdr_sig_commitment_root :: bytes

record CompactTransaction =
  ct_chain_id :: string
  ct_sender :: string
  ct_receiver :: string
  ct_amount :: u64
  ct_timestamp :: u64
  ct_nonce :: u64
  ct_sig_hash :: bytes

record CompactBlock =
  cb_header :: BlockHeader
  cb_tx_hashes :: "bytes list"
  cb_transactions :: "CompactTransaction list"

record Block =
  blk_index :: u64
  blk_timestamp :: u64
  blk_chain_id :: string
  blk_transactions :: "Transaction list"
  blk_previous_hash :: string
  blk_merkle_root :: string
  blk_validator_signature :: bytes
  blk_zk_proof :: bytes
  blk_epoch_id :: u64
  blk_consensus_mode :: ConsensusMode
  blk_protocol_version :: u32
  blk_shard_registry_root :: string
  blk_shard_id :: u64
  blk_shard_state_root :: string
  blk_sig_commitment_root :: bytes

definition header_from_block :: "Block \<Rightarrow> BlockHeader" where
  "header_from_block b =
     \<lparr>hdr_index = blk_index b, hdr_timestamp = blk_timestamp b, hdr_chain_id = blk_chain_id b,
      hdr_previous_hash = blk_previous_hash b, hdr_merkle_root = blk_merkle_root b,
      hdr_validator_signature = blk_validator_signature b, hdr_zk_proof = blk_zk_proof b,
      hdr_epoch_id = blk_epoch_id b, hdr_consensus_mode = blk_consensus_mode b,
      hdr_protocol_version = blk_protocol_version b,
      hdr_shard_registry_root = blk_shard_registry_root b, hdr_shard_id = blk_shard_id b,
      hdr_shard_state_root = blk_shard_state_root b, hdr_sig_commitment_root = blk_sig_commitment_root b\<rparr>"

abbreviation BLOCK_HEADER_HASH_DOMAIN_V2 :: bytes where
  "BLOCK_HEADER_HASH_DOMAIN_V2 \<equiv> str_bytes ''BLEEP_BLOCK_HEADER_V2''"
abbreviation BLOCK_HEADER_HASH_DOMAIN_V3 :: bytes where
  "BLOCK_HEADER_HASH_DOMAIN_V3 \<equiv> str_bytes ''BLEEP_BLOCK_HEADER_V3''"
abbreviation BLOCK_HEADER_HASH_PREIMAGE_LEN_V4 :: usize where
  "BLOCK_HEADER_HASH_PREIMAGE_LEN_V4 \<equiv> length BLOCK_HEADER_HASH_DOMAIN_V2 + 229"
abbreviation BLOCK_HEADER_HASH_PREIMAGE_LEN_V5 :: usize where
  "BLOCK_HEADER_HASH_PREIMAGE_LEN_V5 \<equiv> length BLOCK_HEADER_HASH_DOMAIN_V3 + 229 + VRF_OUTPUT_LEN"

definition fixed_hash_field :: "crypto_env \<Rightarrow> string \<Rightarrow> bytes" where
  "fixed_hash_field c value = sha3_256 c (str_bytes value)"

primrec consensus_mode_discriminant :: "ConsensusMode \<Rightarrow> u8" where
  "consensus_mode_discriminant PosNormal = 0"
| "consensus_mode_discriminant PbftFastFinality = 1"
| "consensus_mode_discriminant EmergencyPow = 2"

definition strip_prefix :: "bytes \<Rightarrow> bytes \<Rightarrow> bytes option" where
  "strip_prefix p b = (if take (length p) b = p then Some (drop (length p) b) else None)"

text \<open>The VRF output a version 5 header commits to; zeros when the proof carries none.\<close>

definition vrf_output :: "bytes \<Rightarrow> bytes" where
  "vrf_output zk_proof =
     (case strip_prefix VRF_STARK_ENVELOPE_MAGIC zk_proof of
        Some proof \<Rightarrow> if length proof \<ge> VRF_OUTPUT_LEN then take VRF_OUTPUT_LEN proof
                      else replicate VRF_OUTPUT_LEN 0
      | None \<Rightarrow> replicate VRF_OUTPUT_LEN 0)"

definition canonical_hash_preimage :: "crypto_env \<Rightarrow> BlockHeader \<Rightarrow> bytes" where
  "canonical_hash_preimage c h =
     (let is_vrf_protocol = hdr_protocol_version h \<ge> 5 in
      (if is_vrf_protocol then BLOCK_HEADER_HASH_DOMAIN_V3 else BLOCK_HEADER_HASH_DOMAIN_V2) @
      to_le_bytes 8 (hdr_index h) @ to_le_bytes 8 (hdr_timestamp h) @
      fixed_hash_field c (hdr_chain_id h) @ fixed_hash_field c (hdr_previous_hash h) @
      fixed_hash_field c (hdr_merkle_root h) @ to_le_bytes 8 (hdr_epoch_id h) @
      [consensus_mode_discriminant (hdr_consensus_mode h)] @ to_le_bytes 4 (hdr_protocol_version h) @
      fixed_hash_field c (hdr_shard_registry_root h) @ to_le_bytes 8 (hdr_shard_id h) @
      fixed_hash_field c (hdr_shard_state_root h) @ hdr_sig_commitment_root h @
      (if is_vrf_protocol then vrf_output (hdr_zk_proof h) else []))"

definition canonical_hash :: "crypto_env \<Rightarrow> BlockHeader \<Rightarrow> string" where
  "canonical_hash c h = hex_encode c (sha3_256 c (canonical_hash_preimage c h))"

abbreviation tx_count :: "CompactBlock \<Rightarrow> usize" where
  "tx_count cb \<equiv> length (cb_tx_hashes cb)"

section \<open>Transaction Merkle root\<close>

text \<open>\<open>chunks(2)\<close> on a list of even length.\<close>

fun pair_up :: "crypto_env \<Rightarrow> bytes list \<Rightarrow> bytes list" where
  "pair_up c (a # b # xs) = sha3_256 c (a @ b) # pair_up c xs"
| "pair_up c [a] = []"
| "pair_up c [] = []"

abbreviation make_even :: "bytes list \<Rightarrow> bytes list" where
  "make_even levels \<equiv> (if length levels mod 2 = 1 then levels @ [last levels] else levels)"

lemma length_pair_up [simp]: "length (pair_up c xs) = length xs div 2"
  by (induction c xs rule: pair_up.induct) auto

function root_levels :: "crypto_env \<Rightarrow> bytes list \<Rightarrow> bytes list" where
  "root_levels c levels = (if length levels > 1 then root_levels c (pair_up c (make_even levels)) else levels)"
  by auto
termination by (relation "measure (\<lambda>(c, levels). length levels)") auto

declare root_levels.simps [simp del]

definition calculate_merkle_root :: "crypto_env \<Rightarrow> Transaction list \<Rightarrow> string" where
  "calculate_merkle_root c txs =
     (if txs = [] then [] else hex_encode c (hd (root_levels c (map (tx_hash c) txs))))"

section \<open>Construction\<close>

definition block_new :: "crypto_env \<Rightarrow> u64 \<Rightarrow> u64 \<Rightarrow> Transaction list \<Rightarrow> string \<Rightarrow> Block" where
  "block_new c now index txs previous_hash =
     \<lparr>blk_index = index, blk_timestamp = now, blk_chain_id = DEFAULT_CHAIN_ID, blk_transactions = txs,
      blk_previous_hash = previous_hash, blk_merkle_root = calculate_merkle_root c txs,
      blk_validator_signature = [], blk_zk_proof = [], blk_epoch_id = 0, blk_consensus_mode = PosNormal,
      blk_protocol_version = CURRENT_PROTOCOL_VERSION,
      blk_shard_registry_root = replicate 64 (CHR ''0''), blk_shard_id = 0,
      blk_shard_state_root = replicate 64 (CHR ''0''), blk_sig_commitment_root = replicate 32 0\<rparr>"

abbreviation block_genesis :: "crypto_env \<Rightarrow> u64 \<Rightarrow> Block" where
  "block_genesis c now \<equiv> (block_new c now 0 [] ''0'')\<lparr>blk_timestamp := 0, blk_protocol_version := GENESIS_PROTOCOL_VERSION\<rparr>"

abbreviation genesis_for_chain :: "crypto_env \<Rightarrow> u64 \<Rightarrow> string \<Rightarrow> Block" where
  "genesis_for_chain c now chain_id \<equiv> (block_genesis c now)\<lparr>blk_chain_id := chain_id\<rparr>"

definition with_consensus_and_sharding ::
  "crypto_env \<Rightarrow> u64 \<Rightarrow> u64 \<Rightarrow> Transaction list \<Rightarrow> string \<Rightarrow> u64 \<Rightarrow> ConsensusMode \<Rightarrow> u32 \<Rightarrow>
   string \<Rightarrow> u64 \<Rightarrow> string \<Rightarrow> Block" where
  "with_consensus_and_sharding c now index txs previous_hash epoch mode version registry_root shard state_root =
     \<lparr>blk_index = index, blk_timestamp = now, blk_chain_id = DEFAULT_CHAIN_ID, blk_transactions = txs,
      blk_previous_hash = previous_hash, blk_merkle_root = calculate_merkle_root c txs,
      blk_validator_signature = [], blk_zk_proof = [], blk_epoch_id = epoch, blk_consensus_mode = mode,
      blk_protocol_version = version, blk_shard_registry_root = registry_root, blk_shard_id = shard,
      blk_shard_state_root = state_root, blk_sig_commitment_root = replicate 32 0\<rparr>"

abbreviation compact_tx :: "bytes list \<Rightarrow> nat \<Rightarrow> Transaction \<Rightarrow> CompactTransaction" where
  "compact_tx sig_hashes i tx \<equiv> \<lparr>ct_chain_id = tx_chain_id tx, ct_sender = tx_sender tx, ct_receiver = tx_receiver tx,
      ct_amount = tx_amount tx, ct_timestamp = tx_timestamp tx, ct_nonce = tx_nonce tx,
      ct_sig_hash = (if i < length sig_hashes then sig_hashes ! i else replicate 32 0)\<rparr>"

definition compact :: "crypto_env \<Rightarrow> Block \<Rightarrow> (MerkleError, CompactBlock) outcome" where
  "compact c b =
     (let raw_sigs = map tx_signature (blk_transactions b) in
      bind_outcome
        (if raw_sigs = [] then Ok []
         else bind_outcome (compute_sig_commitment c raw_sigs) (\<lambda>(_, hashes). Ok hashes))
        (\<lambda>sig_hashes.
           Ok \<lparr>cb_header = header_from_block b, cb_tx_hashes = map (tx_hash c) (blk_transactions b),
               cb_transactions = map (\<lambda>(i, tx). compact_tx sig_hashes i tx)
                 (List.enumerate 0 (blk_transactions b))\<rparr>))"

abbreviation to_gossip :: "Block \<Rightarrow> Block" where
  "to_gossip b \<equiv> b\<lparr>blk_transactions := map (\<lambda>tx. tx\<lparr>tx_signature := []\<rparr>) (blk_transactions b)\<rparr>"

section \<open>Hash and signature\<close>

definition compute_hash :: "crypto_env \<Rightarrow> Block \<Rightarrow> string" where
  "compute_hash c b = canonical_hash c (header_from_block b)"

definition compute_hash_bytes :: "crypto_env \<Rightarrow> Block \<Rightarrow> (BlockError, bytes) outcome" where
  "compute_hash_bytes c b =
     (let h = compute_hash c b in
      if length h < 64 then Panic
      else case hex_decode c (take 64 h) of
             Some out \<Rightarrow> if length out = 32 then Ok out else Panic
           | None \<Rightarrow> Panic)"

definition sign_block_with_pk ::
  "crypto_env \<Rightarrow> bytes \<Rightarrow> bytes \<Rightarrow> Block \<Rightarrow> Block \<times> (BlockError, unit) outcome" where
  "sign_block_with_pk c sk pk b =
     (if length pk \<noteq> SPHINCS_PK_LEN then (b, Err (BadPublicKeyLength (length pk)))
      else if \<not> sk_from_bytes_ok c sk then (b, Err (InvalidBlockSecretKey (length sk)))
      else case compute_hash_bytes c b of
             Ok h \<Rightarrow> (b\<lparr>blk_validator_signature := pk @ detached_sign c h sk\<rparr>, Ok ())
           | Err e \<Rightarrow> (b, Err e)
           | Panic \<Rightarrow> (b, Panic))"

definition verify_signature :: "crypto_env \<Rightarrow> Block \<Rightarrow> bytes \<Rightarrow> (BlockError, bool) outcome" where
  "verify_signature c b public_key =
     (if blk_validator_signature b = [] then Ok (blk_index b = 0)
      else if length (blk_validator_signature b) \<noteq> VALIDATOR_SIG_LEN then Ok False
      else let stored_pk = take SPHINCS_PK_LEN (blk_validator_signature b);
               sig = drop SPHINCS_PK_LEN (blk_validator_signature b)
           in if length public_key \<noteq> SPHINCS_PK_LEN \<or> stored_pk \<noteq> public_key then Ok False
              else if \<not> pk_from_bytes_ok c stored_pk then Err InvalidBlockPublicKey
              else if \<not> sig_from_bytes_ok c sig then Err InvalidBlockSignature
              else bind_outcome (compute_hash_bytes c b)
                     (\<lambda>h. Ok (verify_detached_signature c sig h stored_pk)))"

section \<open>Proof envelope\<close>

abbreviation EXTENDED_STARK_MAGIC :: bytes where "EXTENDED_STARK_MAGIC \<equiv> str_bytes ''EXTSTARK1''"
definition EXT_PUB_INPUTS_LEN :: usize where [const_defs]: "EXT_PUB_INPUTS_LEN = 232"

record ExtendedBlockPublicInputs =
  pi_block_index :: u64
  pi_epoch_id :: u64
  pi_tx_count :: u32
  pi_blocks_per_epoch :: u64
  pi_merkle_root_hash :: bytes
  pi_validator_pk_hash :: bytes
  pi_sk_seed_hash :: bytes
  pi_block_hash :: bytes
  pi_smt_root :: bytes
  pi_sig_commitment_root :: bytes
  pi_sig_count :: u32
  pi_batch_seq_id :: u64

definition slice :: "bytes \<Rightarrow> nat \<Rightarrow> nat \<Rightarrow> bytes" where
  "slice b from until = take (until - from) (drop from b)"

text \<open>The reads advance one offset: \<open>u64, u64, u32, u64, u32, u64\<close>, then six digests.\<close>

definition decode_ext_pub_inputs :: "bytes \<Rightarrow> ExtendedBlockPublicInputs option" where
  "decode_ext_pub_inputs b =
     (if length b < EXT_PUB_INPUTS_LEN then None
      else Some
        \<lparr>pi_block_index = from_le_bytes (slice b 0 8), pi_epoch_id = from_le_bytes (slice b 8 16),
         pi_tx_count = from_le_bytes (slice b 16 20), pi_blocks_per_epoch = from_le_bytes (slice b 20 28),
         pi_merkle_root_hash = slice b 40 72, pi_validator_pk_hash = slice b 72 104,
         pi_sk_seed_hash = slice b 104 136, pi_block_hash = slice b 136 168, pi_smt_root = slice b 168 200,
         pi_sig_commitment_root = slice b 200 232, pi_sig_count = from_le_bytes (slice b 28 32),
         pi_batch_seq_id = from_le_bytes (slice b 32 40)\<rparr>)"

definition encode_ext_pub_inputs :: "ExtendedBlockPublicInputs \<Rightarrow> bytes" where
  "encode_ext_pub_inputs p =
     to_le_bytes 8 (pi_block_index p) @ to_le_bytes 8 (pi_epoch_id p) @ to_le_bytes 4 (pi_tx_count p) @
     to_le_bytes 8 (pi_blocks_per_epoch p) @ to_le_bytes 4 (pi_sig_count p) @
     to_le_bytes 8 (pi_batch_seq_id p) @ pi_merkle_root_hash p @ pi_validator_pk_hash p @
     pi_sk_seed_hash p @ pi_block_hash p @ pi_smt_root p @ pi_sig_commitment_root p"

text \<open>\<open>starts_with\<close>.\<close>

definition starts_with :: "bytes \<Rightarrow> bytes \<Rightarrow> bool" where
  "starts_with b p \<longleftrightarrow> take (length p) b = p"

definition vrf_stark_proof_parts :: "Block \<Rightarrow> (bytes \<times> bytes \<times> bytes) option" where
  "vrf_stark_proof_parts b =
     (let z = blk_zk_proof b in
      if \<not> starts_with z VRF_STARK_ENVELOPE_MAGIC \<or> length z \<le> VRF_STARK_ENVELOPE_HEADER_LEN then None
      else let output_start = length VRF_STARK_ENVELOPE_MAGIC;
               proof_start = output_start + VRF_OUTPUT_LEN;
               stark_start = proof_start + VRF_PROOF_LEN
           in Some (slice z output_start proof_start, slice z proof_start stark_start, drop stark_start z))"

definition verify_extended_stark_zkp ::
  "crypto_env \<Rightarrow> (bytes \<Rightarrow> bool) \<Rightarrow> (ExtendedBlockPublicInputs \<Rightarrow> bytes \<Rightarrow> bool) \<Rightarrow> Block \<Rightarrow> bytes \<Rightarrow>
   (BlockError, bool) outcome" where
  "verify_extended_stark_zkp c stark_parses stark_verifies b proof_bytes =
     (let magic_len = length EXTENDED_STARK_MAGIC;
          total_header = magic_len + EXT_PUB_INPUTS_LEN
      in if length proof_bytes \<le> total_header then Ok False
      else case decode_ext_pub_inputs (slice proof_bytes magic_len total_header) of
        None \<Rightarrow> Ok False
      | Some p \<Rightarrow>
          if pi_block_index p \<noteq> blk_index b then Ok False
          else if pi_epoch_id p \<noteq> blk_epoch_id b then Ok False
          else if pi_tx_count p \<noteq> length (blk_transactions b) then Ok False
          else if pi_sig_count p \<noteq> length (blk_transactions b) then Ok False
          else if pi_merkle_root_hash p \<noteq> sha3_256 c (str_bytes (blk_merkle_root b)) then Ok False
          else if pi_smt_root p \<noteq> sha3_256 c (str_bytes (blk_shard_state_root b)) then Ok False
          else bind_outcome (compute_hash_bytes c b) (\<lambda>h.
            if pi_block_hash p \<noteq> h then Ok False
            else if pi_sig_commitment_root p \<noteq> blk_sig_commitment_root b then Ok False
            else let stark_bytes = drop total_header proof_bytes in
              if \<not> stark_parses stark_bytes then Ok False
              else Ok (stark_verifies p stark_bytes)))"

definition verify_zkp ::
  "crypto_env \<Rightarrow> (bytes \<Rightarrow> bool) \<Rightarrow> (ExtendedBlockPublicInputs \<Rightarrow> bytes \<Rightarrow> bool) \<Rightarrow> Block \<Rightarrow>
   (BlockError, bool) outcome" where
  "verify_zkp c stark_parses stark_verifies b =
     (if blk_zk_proof b = [] then Ok (blk_index b = 0 \<and> blk_validator_signature b = [])
      else if blk_protocol_version b \<ge> 5 then
        (case vrf_stark_proof_parts b of
           None \<Rightarrow> Ok False
         | Some (_, _, stark_proof) \<Rightarrow>
             if starts_with stark_proof EXTENDED_STARK_MAGIC
             then verify_extended_stark_zkp c stark_parses stark_verifies b stark_proof else Ok False)
      else if starts_with (blk_zk_proof b) EXTENDED_STARK_MAGIC
           then verify_extended_stark_zkp c stark_parses stark_verifies b (blk_zk_proof b) else Ok False)"

section \<open>What the encodings bind\<close>

lemma pow_64: "(2::nat) ^ 64 = 256 ^ 8" and pow_32: "(2::nat) ^ 32 = 256 ^ 4"
  by simp_all

lemma tx_preimage_prefixed:
  assumes "length chain < 2 ^ 64" "length sender < 2 ^ 64" "length receiver < 2 ^ 64"
  shows "tx_preimage chain sender receiver amount ts nonce =
    TX_DOMAIN @ len_prefix_le (str_bytes chain) @ len_prefix_le (str_bytes sender) @
    len_prefix_le (str_bytes receiver) @ to_le_bytes 8 amount @ to_le_bytes 8 ts @ to_le_bytes 8 nonce"
  using assms by (simp add: tx_preimage_def len_prefix_le_def cast_exact)

lemma consensus_mode_discriminant_inj:
  "consensus_mode_discriminant m = consensus_mode_discriminant m' \<longleftrightarrow> m = m'"
  by (cases m; cases m') auto

lemma length_vrf_output [simp]: "length (vrf_output z) = 32"
  by (simp add: vrf_output_def const_defs split: option.splits)

lemma length_header_domains [simp]:
  "length BLOCK_HEADER_HASH_DOMAIN_V2 = 21" "length BLOCK_HEADER_HASH_DOMAIN_V3 = 21"
  by simp_all

lemma header_domains_differ: "BLOCK_HEADER_HASH_DOMAIN_V2 \<noteq> BLOCK_HEADER_HASH_DOMAIN_V3"
  by simp

text \<open>Header fields as their Rust types admit them.\<close>

definition header_typed :: "BlockHeader \<Rightarrow> bool" where
  "header_typed h \<longleftrightarrow> hdr_index h < 2 ^ 64 \<and> hdr_timestamp h < 2 ^ 64 \<and> hdr_epoch_id h < 2 ^ 64 \<and>
     hdr_protocol_version h < 2 ^ 32 \<and> hdr_shard_id h < 2 ^ 64 \<and> length (hdr_sig_commitment_root h) = 32"

lemma length_preimage:
  assumes "digests_32 c" "header_typed h"
  shows "length (canonical_hash_preimage c h) =
    (if hdr_protocol_version h \<ge> 5 then BLOCK_HEADER_HASH_PREIMAGE_LEN_V5 else BLOCK_HEADER_HASH_PREIMAGE_LEN_V4)"
  using assms
  by (simp add: canonical_hash_preimage_def fixed_hash_field_def digests_32D header_typed_def
        VRF_OUTPUT_LEN_def Let_def)

lemma preimage_fields:
  assumes "digests_32 c" "header_typed h" "header_typed h'"
    "canonical_hash_preimage c h = canonical_hash_preimage c h'"
  shows "hdr_index h = hdr_index h' \<and> hdr_timestamp h = hdr_timestamp h' \<and> hdr_epoch_id h = hdr_epoch_id h' \<and>
    hdr_consensus_mode h = hdr_consensus_mode h' \<and> hdr_protocol_version h = hdr_protocol_version h' \<and>
    hdr_shard_id h = hdr_shard_id h' \<and> hdr_sig_commitment_root h = hdr_sig_commitment_root h' \<and>
    (hdr_protocol_version h \<ge> 5 \<longrightarrow> vrf_output (hdr_zk_proof h) = vrf_output (hdr_zk_proof h')) \<and>
    list_all (\<lambda>f. fixed_hash_field c (f h) = fixed_hash_field c (f h'))
      [hdr_chain_id, hdr_previous_hash, hdr_merkle_root, hdr_shard_registry_root, hdr_shard_state_root]"
proof -
  have len: "length (fixed_hash_field c s) = 32" for s
    using assms(1) by (simp add: fixed_hash_field_def digests_32D)
  have typed: "hdr_index h < 256 ^ 8" "hdr_timestamp h < 256 ^ 8" "hdr_epoch_id h < 256 ^ 8"
      "hdr_protocol_version h < 256 ^ 4" "hdr_shard_id h < 256 ^ 8" "length (hdr_sig_commitment_root h) = 32"
      "hdr_index h' < 256 ^ 8" "hdr_timestamp h' < 256 ^ 8" "hdr_epoch_id h' < 256 ^ 8"
      "hdr_protocol_version h' < 256 ^ 4" "hdr_shard_id h' < 256 ^ 8" "length (hdr_sig_commitment_root h') = 32"
    using assms(2,3) unfolding header_typed_def pow_64 pow_32 by blast+
  have both: "hdr_protocol_version h \<ge> 5 \<longleftrightarrow> hdr_protocol_version h' \<ge> 5"
    using assms(4) header_domains_differ
    by (auto simp: canonical_hash_preimage_def Let_def split: if_splits)
  show ?thesis
    using assms(4) both typed len
    by (auto simp: canonical_hash_preimage_def Let_def append_eq_fixed to_le_bytes_inj
          consensus_mode_discriminant_inj simp del: append_assoc append_eq_append_conv
          split: if_splits)
qed

lemma compute_hash_bytes_Ok:
  assumes "digests_32 c" "hex_ok c"
  shows "compute_hash_bytes c b = Ok (sha3_256 c (canonical_hash_preimage c (header_from_block b)))"
proof -
  let ?d = "sha3_256 c (canonical_hash_preimage c (header_from_block b))"
  have "hex_decode c (hex_encode c ?d) = Some ?d" "length (hex_encode c ?d) = 64" "length ?d = 32"
    using assms by (simp_all add: hex_ok_def digests_32D)
  then show ?thesis by (simp add: compute_hash_bytes_def compute_hash_def canonical_hash_def Let_def)
qed

text \<open>The hash reads neither the signature nor the transaction list.\<close>

lemma preimage_ignores_artifacts:
  "canonical_hash_preimage c (header_from_block (b\<lparr>blk_validator_signature := s\<rparr>)) =
   canonical_hash_preimage c (header_from_block b)"
  "canonical_hash_preimage c (header_from_block (b\<lparr>blk_transactions := txs\<rparr>)) =
   canonical_hash_preimage c (header_from_block b)"
  by (simp_all add: canonical_hash_preimage_def header_from_block_def Let_def)

lemma slice_append:
  "length a = from \<Longrightarrow> length x = until - from \<Longrightarrow> slice (a @ x @ y) from until = x"
  by (simp add: slice_def)

definition pi_typed :: "ExtendedBlockPublicInputs \<Rightarrow> bool" where
  "pi_typed p \<longleftrightarrow> pi_block_index p < 2 ^ 64 \<and> pi_epoch_id p < 2 ^ 64 \<and> pi_tx_count p < 2 ^ 32 \<and>
     pi_blocks_per_epoch p < 2 ^ 64 \<and> pi_sig_count p < 2 ^ 32 \<and> pi_batch_seq_id p < 2 ^ 64 \<and>
     length (pi_merkle_root_hash p) = 32 \<and> length (pi_validator_pk_hash p) = 32 \<and>
     length (pi_sk_seed_hash p) = 32 \<and> length (pi_block_hash p) = 32 \<and> length (pi_smt_root p) = 32 \<and>
     length (pi_sig_commitment_root p) = 32"

lemma encode_ext_length: "pi_typed p \<Longrightarrow> length (encode_ext_pub_inputs p) = EXT_PUB_INPUTS_LEN"
  by (simp add: pi_typed_def encode_ext_pub_inputs_def EXT_PUB_INPUTS_LEN_def)

lemma decode_encode_ext:
  assumes "pi_typed p"
  shows "decode_ext_pub_inputs (encode_ext_pub_inputs p @ rest) = Some p"
  using assms unfolding pi_typed_def pow_64 pow_32
  by (simp add: decode_ext_pub_inputs_def encode_ext_pub_inputs_def slice_def EXT_PUB_INPUTS_LEN_def
      from_to_le_bytes)

lemma make_even_odd:
  assumes "odd (length xs)"
  shows "make_even (xs @ [last xs]) = make_even xs"
  using assms by (simp add: mod_Suc odd_iff_mod_2_eq_one)

text \<open>A block whose proof carries matching public inputs, for the closed instance below.\<close>

definition demo_block :: Block where
  "demo_block = (block_new demo_env 9 1 [] ''ab'')\<lparr>blk_protocol_version := 4\<rparr>"

definition demo_inputs :: ExtendedBlockPublicInputs where
  "demo_inputs =
     \<lparr>pi_block_index = 1, pi_epoch_id = 0, pi_tx_count = 0, pi_blocks_per_epoch = 100,
      pi_merkle_root_hash = sha3_256 demo_env (str_bytes []), pi_validator_pk_hash = replicate 32 0,
      pi_sk_seed_hash = replicate 32 0,
      pi_block_hash = sha3_256 demo_env (canonical_hash_preimage demo_env (header_from_block demo_block)),
      pi_smt_root = sha3_256 demo_env (str_bytes (replicate 64 (CHR ''0''))),
      pi_sig_commitment_root = replicate 32 0, pi_sig_count = 0, pi_batch_seq_id = 0\<rparr>"

definition demo_proved :: Block where
  "demo_proved = demo_block\<lparr>blk_zk_proof := EXTENDED_STARK_MAGIC @ encode_ext_pub_inputs demo_inputs @ [1]\<rparr>"

lemma demo_inputs_typed: "pi_typed demo_inputs"
  by (simp add: pi_typed_def demo_inputs_def digests_32D [OF demo_digests_32])

lemma demo_proved_accepted: "verify_zkp demo_env (\<lambda>_. True) (\<lambda>_ s. s = [1]) demo_proved = Ok True"
proof -
  let ?e = "encode_ext_pub_inputs demo_inputs"
  have len: "length ?e = 232" using encode_ext_length [OF demo_inputs_typed] by (simp add: EXT_PUB_INPUTS_LEN_def)
  have dec: "decode_ext_pub_inputs ?e = Some demo_inputs"
    using decode_encode_ext [OF demo_inputs_typed, of "[]"] by simp
  have m: "length EXTENDED_STARK_MAGIC = 9" by simp
  have "canonical_hash_preimage demo_env (header_from_block demo_proved) =
      canonical_hash_preimage demo_env (header_from_block demo_block)"
    by (simp add: demo_proved_def demo_block_def canonical_hash_preimage_def header_from_block_def Let_def)
  then have h: "compute_hash_bytes demo_env demo_proved = Ok (pi_block_hash demo_inputs)"
    by (simp add: compute_hash_bytes_Ok [OF demo_digests_32 demo_hex_ok] demo_inputs_def)
  have sl: "slice (blk_zk_proof demo_proved) 9 241 = ?e" "drop 241 (blk_zk_proof demo_proved) = [1]"
      "length (blk_zk_proof demo_proved) = 242" "starts_with (blk_zk_proof demo_proved) EXTENDED_STARK_MAGIC"
    using len m by (simp_all add: demo_proved_def slice_def starts_with_def)
  have f: "blk_protocol_version demo_proved = 4" "blk_zk_proof demo_proved \<noteq> []" "blk_index demo_proved = 1"
      "blk_epoch_id demo_proved = 0" "blk_transactions demo_proved = []" "blk_merkle_root demo_proved = []"
      "blk_shard_state_root demo_proved = replicate 64 (CHR ''0'')"
      "blk_sig_commitment_root demo_proved = replicate 32 0"
    using sl(3) by (auto simp: demo_proved_def demo_block_def block_new_def calculate_merkle_root_def)
  have "verify_extended_stark_zkp demo_env (\<lambda>_. True) (\<lambda>_ s. s = [1]) demo_proved (blk_zk_proof demo_proved) = Ok True"
    unfolding verify_extended_stark_zkp_def Let_def m EXT_PUB_INPUTS_LEN_def
    using sl dec h f by (simp add: demo_inputs_def)
  then show ?thesis using f sl(4) by (simp add: verify_zkp_def)
qed

text \<open>Stripping the signatures for gossip keeps the block hash and the transaction root.\<close>

lemma to_gossip_keeps_hashes:
  "compute_hash c (to_gossip b) = compute_hash c b"
  "calculate_merkle_root c (blk_transactions (to_gossip b)) = calculate_merkle_root c (blk_transactions b)"
  by (simp_all add: compute_hash_def canonical_hash_def preimage_ignores_artifacts
        calculate_merkle_root_def comp_def tx_hash_def [abs_def])

section \<open>Properties\<close>

text \<open>A transaction signature covers every field. The encoding that is hashed and signed
  determines the chain, the sender, the receiver, the amount, the timestamp and the nonce.\<close>

theorem tx_payload_unambiguous:
  assumes "length chain < 2 ^ 64" "length sender < 2 ^ 64" "length receiver < 2 ^ 64"
    and "length chain' < 2 ^ 64" "length sender' < 2 ^ 64" "length receiver' < 2 ^ 64"
    and "amount < 2 ^ 64" "ts < 2 ^ 64" "nonce < 2 ^ 64" "amount' < 2 ^ 64" "ts' < 2 ^ 64" "nonce' < 2 ^ 64"
  shows "tx_preimage chain sender receiver amount ts nonce = tx_preimage chain' sender' receiver' amount' ts' nonce'
    \<longleftrightarrow> chain = chain' \<and> sender = sender' \<and> receiver = receiver' \<and> amount = amount' \<and> ts = ts' \<and> nonce = nonce'"
  unfolding tx_preimage_prefixed [OF assms(1-3)] tx_preimage_prefixed [OF assms(4-6)]
  using assms unfolding pow_64
  by (simp only: same_append_eq len_prefix_le_inj length_str_bytes append_eq_fixed length_to_le_bytes
      to_le_bytes_inj str_bytes_inj simp_thms)

theorem tx_payload_unambiguous_witness:
  "tx_preimage ''c'' ''ab'' ''c'' 5 6 7 \<noteq> tx_preimage ''c'' ''a'' ''bc'' 5 6 7"
  using tx_payload_unambiguous [of "''c''" "''ab''" "''c''" "''c''" "''a''" "''bc''" 5 6 7 5 6 7] by simp

text \<open>Signed blocks verify. Signing with a key pair succeeds, leaves the block hash as it was, and
  the result verifies under the signer's public key and under no other.\<close>

theorem sign_then_verify:
  assumes "key_pair c pk sk" "digests_32 c" "hex_ok c"
  shows "\<exists>b'. sign_block_with_pk c sk pk b = (b', Ok ()) \<and> compute_hash c b' = compute_hash c b \<and>
    verify_signature c b' pk = Ok True \<and> (\<forall>pk'. pk' \<noteq> pk \<longrightarrow> verify_signature c b' pk' = Ok False)"
proof -
  let ?h = "sha3_256 c (canonical_hash_preimage c (header_from_block b))"
  let ?b = "b\<lparr>blk_validator_signature := pk @ detached_sign c ?h sk\<rparr>"
  have pk: "length pk = 64" "pk_from_bytes_ok c pk" "sk_from_bytes_ok c sk"
      "length (detached_sign c ?h sk) = 49856" "sig_from_bytes_ok c (detached_sign c ?h sk)"
      "verify_detached_signature c (detached_sign c ?h sk) ?h pk"
    using assms(1) by (auto simp: key_pair_def)
  have "sign_block_with_pk c sk pk b = (?b, Ok ())"
    using pk by (simp add: sign_block_with_pk_def compute_hash_bytes_Ok [OF assms(2,3)])
  moreover have "compute_hash_bytes c ?b = Ok ?h"
    by (simp add: compute_hash_bytes_Ok [OF assms(2,3)] preimage_ignores_artifacts)
  then have "verify_signature c ?b pk' = Ok (pk' = pk)" for pk'
    using pk by (auto simp: verify_signature_def const_defs Let_def)
  ultimately show ?thesis
    by (auto simp: compute_hash_def canonical_hash_def preimage_ignores_artifacts)
qed

theorem sign_then_verify_witness:
  "\<exists>b'. sign_block_with_pk demo_env (replicate 128 1) demo_key (block_new demo_env 9 1 [] ''ab'') = (b', Ok ()) \<and>
     verify_signature demo_env b' demo_key = Ok True \<and> verify_signature demo_env b' [] = Ok False"
proof -
  have "demo_key \<noteq> []" by (simp add: demo_key_def)
  then show ?thesis
    using sign_then_verify [OF demo_key_pair demo_digests_32 demo_hex_ok, of "block_new demo_env 9 1 [] ''ab''"]
    by auto
qed

text \<open>C32: the block hash binds the header. Two headers with the same canonical hash agree in height,
  timestamp, epoch, mode, version, shard, signature commitment, the five root and chain strings and,
  from version 5 on, in the VRF output, or two of the inputs that were hashed for them collide.\<close>

theorem header_hash_binding:
  assumes "digests_32 c" "hex_ok c" "header_typed h" "header_typed h'" "canonical_hash c h = canonical_hash c h'"
  shows "(hdr_index h = hdr_index h' \<and> hdr_timestamp h = hdr_timestamp h' \<and> hdr_epoch_id h = hdr_epoch_id h' \<and>
      hdr_consensus_mode h = hdr_consensus_mode h' \<and> hdr_protocol_version h = hdr_protocol_version h' \<and>
      hdr_shard_id h = hdr_shard_id h' \<and> hdr_sig_commitment_root h = hdr_sig_commitment_root h' \<and>
      (hdr_protocol_version h \<ge> 5 \<longrightarrow> vrf_output (hdr_zk_proof h) = vrf_output (hdr_zk_proof h')) \<and>
      hdr_chain_id h = hdr_chain_id h' \<and> hdr_previous_hash h = hdr_previous_hash h' \<and>
      hdr_merkle_root h = hdr_merkle_root h' \<and> hdr_shard_registry_root h = hdr_shard_registry_root h' \<and>
      hdr_shard_state_root h = hdr_shard_state_root h') \<or>
    (\<exists>(a, b) \<in> set ((canonical_hash_preimage c h, canonical_hash_preimage c h') #
        map (\<lambda>f. (str_bytes (f h), str_bytes (f h')))
          [hdr_chain_id, hdr_previous_hash, hdr_merkle_root, hdr_shard_registry_root, hdr_shard_state_root]).
      a \<noteq> b \<and> sha3_256 c a = sha3_256 c b)"
proof -
  let ?p = "canonical_hash_preimage c"
  have "hex_decode c (hex_encode c (sha3_256 c m)) = Some (sha3_256 c m)" for m
    using assms(1,2) by (simp add: hex_ok_def digests_32D)
  then have d: "sha3_256 c (?p h) = sha3_256 c (?p h')"
    using assms(5) unfolding canonical_hash_def by (metis option.inject)
  show ?thesis
  proof (cases "?p h = ?p h'")
    case True
    from preimage_fields [OF assms(1,3,4) True] show ?thesis
      by (auto simp: fixed_hash_field_def)
  next
    case False
    with d show ?thesis by simp
  qed
qed

theorem header_hash_binding_witness:
  "hdr_index (header_from_block (block_new demo_env 9 1 [] ''ab'')) = 1 \<and>
   (let h = header_from_block (block_new demo_env 9 1 [] ''ab''); h' = h\<lparr>hdr_validator_signature := [1]\<rparr> in
    hdr_index h = hdr_index h' \<or>
    (\<exists>(a, b) \<in> set ((canonical_hash_preimage demo_env h, canonical_hash_preimage demo_env h') #
        map (\<lambda>f. (str_bytes (f h), str_bytes (f h')))
          [hdr_chain_id, hdr_previous_hash, hdr_merkle_root, hdr_shard_registry_root, hdr_shard_state_root]).
      a \<noteq> b \<and> sha3_256 demo_env a = sha3_256 demo_env b))"
proof -
  let ?h = "header_from_block (block_new demo_env 9 1 [] ''ab'')"
  let ?h' = "?h\<lparr>hdr_validator_signature := [1]\<rparr>"
  have t: "header_typed ?h" "header_typed ?h'"
    by (simp_all add: header_typed_def header_from_block_def block_new_def const_defs)
  have "canonical_hash demo_env ?h = canonical_hash demo_env ?h'"
    by (simp add: canonical_hash_def canonical_hash_preimage_def Let_def)
  from header_hash_binding [OF demo_digests_32 demo_hex_ok t this] show ?thesis
    unfolding Let_def by (auto simp: header_from_block_def block_new_def)
qed

text \<open>Public inputs round-trip. The fixed-width encoding of the public inputs of a block proof is
  232 bytes long and decodes to the inputs it was made from, whatever bytes follow.\<close>

theorem ext_pub_inputs_roundtrip:
  assumes "pi_typed p"
  shows "length (encode_ext_pub_inputs p) = EXT_PUB_INPUTS_LEN \<and>
    decode_ext_pub_inputs (encode_ext_pub_inputs p @ rest) = Some p"
  using encode_ext_length [OF assms] decode_encode_ext [OF assms] by simp

theorem ext_pub_inputs_roundtrip_witness:
  "\<exists>p :: ExtendedBlockPublicInputs. pi_block_index p = 7 \<and> decode_ext_pub_inputs (encode_ext_pub_inputs p @ [1, 2]) = Some p"
proof -
  let ?z = "replicate 32 (0::nat)"
  let ?p = "\<lparr>pi_block_index = 7, pi_epoch_id = 0, pi_tx_count = 3, pi_blocks_per_epoch = 100,
     pi_merkle_root_hash = ?z, pi_validator_pk_hash = ?z, pi_sk_seed_hash = ?z, pi_block_hash = ?z,
     pi_smt_root = ?z, pi_sig_commitment_root = ?z, pi_sig_count = 3, pi_batch_seq_id = 2\<rparr>"
  have "pi_typed ?p" by (simp add: pi_typed_def)
  from ext_pub_inputs_roundtrip [OF this, of "[1, 2]"] show ?thesis by (intro exI [of _ ?p]) simp
qed

text \<open>An accepted proof belongs to the block. If \<open>verify_zkp\<close> accepts a block with a proof, the
  STARK verifier accepted public inputs that carry the block's height, epoch, transaction count,
  transaction root, state root, signature commitment and canonical hash.\<close>

theorem zkp_binds_block:
  assumes "verify_zkp c stark_parses stark_verifies b = Ok True" "blk_zk_proof b \<noteq> []"
  shows "\<exists>p stark. stark_verifies p stark \<and> stark_parses stark \<and>
    pi_block_index p = blk_index b \<and> pi_epoch_id p = blk_epoch_id b \<and>
    pi_tx_count p = length (blk_transactions b) \<and> pi_sig_count p = length (blk_transactions b) \<and>
    pi_merkle_root_hash p = sha3_256 c (str_bytes (blk_merkle_root b)) \<and>
    pi_smt_root p = sha3_256 c (str_bytes (blk_shard_state_root b)) \<and>
    pi_sig_commitment_root p = blk_sig_commitment_root b \<and> compute_hash_bytes c b = Ok (pi_block_hash p)"
proof -
  obtain proof_bytes where "verify_extended_stark_zkp c stark_parses stark_verifies b proof_bytes = Ok True"
    using assms by (auto simp: verify_zkp_def split: if_splits option.splits prod.splits)
  then show ?thesis
    by (auto simp: verify_extended_stark_zkp_def Let_def bind_outcome_Ok split: if_splits option.splits)
qed

theorem zkp_binds_block_witness:
  "\<exists>p :: ExtendedBlockPublicInputs. pi_block_index p = blk_index demo_proved \<and>
     compute_hash_bytes demo_env demo_proved = Ok (pi_block_hash p)"
proof -
  have "blk_zk_proof demo_proved \<noteq> []" by (simp add: demo_proved_def str_bytes_def)
  from zkp_binds_block [OF demo_proved_accepted this] show ?thesis by blast
qed

text \<open>The transaction root does not determine the transactions. Repeating the last transaction of
  a block with an odd number of them gives a different list with the same root.\<close>

theorem merkle_root_duplicate_tail:
  assumes "odd (length txs)" "1 < length txs"
  shows "calculate_merkle_root c (txs @ [last txs]) = calculate_merkle_root c txs"
proof -
  let ?hs = "map (tx_hash c) txs"
  have ne: "txs \<noteq> []" using assms by auto
  then have "map (tx_hash c) (txs @ [last txs]) = ?hs @ [last ?hs]" by (simp add: last_map)
  moreover have "root_levels c (?hs @ [last ?hs]) = root_levels c ?hs"
    using assms ne make_even_odd [of ?hs]
    by (subst root_levels.simps, subst (2) root_levels.simps) simp
  ultimately show ?thesis using ne by (simp add: calculate_merkle_root_def)
qed

theorem merkle_root_duplicate_tail_witness:
  "let t = \<lparr>tx_chain_id = ''c'', tx_sender = ''a'', tx_receiver = ''b'', tx_amount = 1, tx_timestamp = 2,
     tx_nonce = 3, tx_signature = []\<rparr> in
   calculate_merkle_root demo_env ([t, t\<lparr>tx_nonce := 4\<rparr>, t\<lparr>tx_nonce := 5\<rparr>] @ [t\<lparr>tx_nonce := 5\<rparr>]) =
   calculate_merkle_root demo_env [t, t\<lparr>tx_nonce := 4\<rparr>, t\<lparr>tx_nonce := 5\<rparr>]"
proof -
  let ?t = "\<lparr>tx_chain_id = ''c'', tx_sender = ''a'', tx_receiver = ''b'', tx_amount = 1, tx_timestamp = 2,
     tx_nonce = 3, tx_signature = []\<rparr>"
  show ?thesis
    using merkle_root_duplicate_tail [of "[?t, ?t\<lparr>tx_nonce := 4\<rparr>, ?t\<lparr>tx_nonce := 5\<rparr>]" demo_env]
    by (simp add: Let_def)
qed

end
