(* ===== verification/TxPool.thy ===== *)
theory TxPool
  imports Block
begin

text \<open>
  The two pools of \<open>bleep-core\<close>: \<open>ZKTransaction\<close> of \<open>transaction.rs\<close>, the execution-facing
  \<open>TransactionPool\<close> of \<open>transaction_pool.rs\<close>, the P2P-facing \<open>Mempool\<close> of \<open>mempool.rs\<close>, and one
  tick of the bridge of \<open>mempool_bridge.rs\<close> between them. \<open>TransactionPool::add_transaction\<close> takes
  and releases its locks three times; each locked section is a definition, and \<open>pool_step\<close> is the
  interleaving of any number of calls made of these sections. The order in which a \<open>HashMap\<close> or
  \<open>HashSet\<close> is iterated is an argument where it matters. The lemmas show what every interleaving
  keeps and by how much it may overshoot the capacity, that the nonce search ends with the least free
  nonce, and where confirmed, rejected and repeated transactions are lost or stranded.
\<close>

section \<open>Transactions\<close>

text \<open>\<open>ZKTransaction\<close> has the seven fields of \<open>block::Transaction\<close>.\<close>

type_synonym ZKTransaction = Transaction

abbreviation payload_of :: "crypto_env \<Rightarrow> ZKTransaction \<Rightarrow> bytes" where
  "payload_of c tx \<equiv>
     tx_payload c (tx_chain_id tx) (tx_sender tx) (tx_receiver tx) (tx_amount tx) (tx_timestamp tx) (tx_nonce tx)"

definition verify_account_authorization :: "crypto_env \<Rightarrow> ZKTransaction \<Rightarrow> bool" where
  "verify_account_authorization c tx =
     (if tx_chain_id tx = [] \<or> length (tx_signature tx) \<le> SPHINCS_PK_LEN then False
      else let pk_bytes = take SPHINCS_PK_LEN (tx_signature tx);
               sig_bytes = drop SPHINCS_PK_LEN (tx_signature tx)
           in if derive_account_address c pk_bytes \<noteq> tx_sender tx then False
              else verify_tx_signature c (payload_of c tx) sig_bytes pk_bytes)"

text \<open>Decimal display of an unsigned integer, as \<open>format!\<close> writes it.\<close>

fun decimal :: "nat \<Rightarrow> string" where
  "decimal n = (if n < 10 then [char_of (48 + n)] else decimal (n div 10) @ [char_of (48 + n mod 10)])"

declare decimal.simps [simp del]

definition canonical_tx_id :: "ZKTransaction \<Rightarrow> string" where
  "canonical_tx_id tx =
     tx_sender tx @ '':'' @ tx_receiver tx @ '':'' @ decimal (tx_amount tx) @ '':'' @ decimal (tx_timestamp tx)"

abbreviation get_hash :: "crypto_env \<Rightarrow> ZKTransaction \<Rightarrow> string" where
  "get_hash c tx \<equiv> hex_encode c (sha3_256 c (tx_signature tx))"

section \<open>The transaction pool\<close>

record TransactionPool =
  tp_pool :: "ZKTransaction list"
  tp_seen_hashes :: "bytes list"
  tp_chain_id :: string
  tp_max_size :: usize

definition new_with_chain_id :: "usize \<Rightarrow> string \<Rightarrow> TransactionPool" where
  "new_with_chain_id max_size chain_id =
     \<lparr>tp_pool = [], tp_seen_hashes = [], tp_chain_id = chain_id, tp_max_size = max_size\<rparr>"

abbreviation TransactionPool_new :: "usize \<Rightarrow> TransactionPool" where
  "TransactionPool_new max_size \<equiv> new_with_chain_id max_size DEFAULT_CHAIN_ID"

text \<open>The first locked section of \<open>add_transaction\<close>: the capacity check.\<close>

definition at_capacity :: "TransactionPool \<Rightarrow> bool" where
  "at_capacity tp \<longleftrightarrow> length (tp_pool tp) \<ge> tp_max_size tp"

text \<open>The checks between the first and the second section hold no lock.\<close>

definition admission_checks :: "crypto_env \<Rightarrow> string \<Rightarrow> ZKTransaction \<Rightarrow> bool" where
  "admission_checks c chain_id tx =
     (if tx_sender tx = [] then False
      else if tx_chain_id tx \<noteq> chain_id then False
      else if tx_receiver tx = [] then False
      else if tx_sender tx = tx_receiver tx then False
      else if tx_amount tx = 0 then False
      else if tx_timestamp tx = 0 then False
      else if length (tx_signature tx) \<noteq> SPHINCS_PK_LEN + SPHINCS_SIG_LEN then False
      else verify_account_authorization c tx)"

abbreviation payload_hash :: "crypto_env \<Rightarrow> ZKTransaction \<Rightarrow> bytes" where
  "payload_hash c tx \<equiv> sha2_256 c (payload_of c tx)"

text \<open>The second locked section: duplicate detection, which also records the hash.\<close>

definition mark_seen :: "crypto_env \<Rightarrow> ZKTransaction \<Rightarrow> TransactionPool \<Rightarrow> TransactionPool \<times> bool" where
  "mark_seen c tx tp =
     (if payload_hash c tx \<in> set (tp_seen_hashes tp) then (tp, False)
      else (tp\<lparr>tp_seen_hashes := bs_insert (payload_hash c tx) (tp_seen_hashes tp)\<rparr>, True))"

text \<open>The third locked section.\<close>

definition push_back :: "ZKTransaction \<Rightarrow> TransactionPool \<Rightarrow> TransactionPool" where
  "push_back tx tp = tp\<lparr>tp_pool := tp_pool tp @ [tx]\<rparr>"

definition pool_add_transaction ::
  "crypto_env \<Rightarrow> ZKTransaction \<Rightarrow> TransactionPool \<Rightarrow> TransactionPool \<times> bool" where
  "pool_add_transaction c tx tp =
     (if at_capacity tp then (tp, False)
      else if \<not> admission_checks c (tp_chain_id tp) tx then (tp, False)
      else case mark_seen c tx tp of
             (tp', admitted) \<Rightarrow> if \<not> admitted then (tp', False) else (push_back tx tp', True))"

definition clear_pool :: "TransactionPool \<Rightarrow> TransactionPool" where
  "clear_pool tp = tp\<lparr>tp_pool := []\<rparr>"

definition pending_nonces :: "TransactionPool \<Rightarrow> string \<Rightarrow> u64 \<Rightarrow> u64 list" where
  "pending_nonces tp sender committed =
     bs_from (map tx_nonce (filter (\<lambda>tx. tx_sender tx = sender \<and> tx_nonce tx \<ge> committed) (tp_pool tp)))"

function next_nonce_loop :: "u64 list \<Rightarrow> u64 \<Rightarrow> u64 option" where
  "next_nonce_loop pending n =
     (if n \<in> set pending
      then case checked_add 64 n 1 of None \<Rightarrow> None | Some m \<Rightarrow> next_nonce_loop pending m
      else Some n)"
  by pat_completeness auto
termination
  by (relation "measure (\<lambda>(pending, n). 2 ^ 64 - n)") (auto simp: checked_add_Some)

declare next_nonce_loop.simps [simp del]

definition next_nonce :: "TransactionPool \<Rightarrow> string \<Rightarrow> u64 \<Rightarrow> u64 option" where
  "next_nonce tp sender committed = next_nonce_loop (pending_nonces tp sender committed) committed"

definition remove_confirmed :: "string \<Rightarrow> TransactionPool \<Rightarrow> TransactionPool" where
  "remove_confirmed tx_id tp = tp\<lparr>tp_pool := filter (\<lambda>tx. canonical_tx_id tx \<noteq> tx_id) (tp_pool tp)\<rparr>"

abbreviation peek_for_block :: "TransactionPool \<Rightarrow> usize \<Rightarrow> ZKTransaction list" where
  "peek_for_block tp limit \<equiv> take limit (tp_pool tp)"

section \<open>The mempool\<close>

abbreviation MAX_MEMPOOL_ENTRIES :: usize where "MAX_MEMPOOL_ENTRIES \<equiv> 100000"

record Mempool =
  mp_transactions :: "(string, ZKTransaction) btree_map"
  mp_seen_transactions :: "string list"
  mp_chain_id :: string
  mp_sender_public_key :: "string \<Rightarrow> bytes \<Rightarrow> bytes option"
  mp_max_entries :: usize

abbreviation mempool_with_capacity :: "string \<Rightarrow> (string \<Rightarrow> bytes \<Rightarrow> bytes option) \<Rightarrow> usize \<Rightarrow> Mempool" where
  "mempool_with_capacity chain_id resolver max_entries \<equiv> \<lparr>mp_transactions = [], mp_seen_transactions = [], mp_chain_id = chain_id,
      mp_sender_public_key = resolver, mp_max_entries = max_entries\<rparr>"

abbreviation Mempool_new :: "string \<Rightarrow> (string \<Rightarrow> bytes \<Rightarrow> bytes option) \<Rightarrow> Mempool" where
  "Mempool_new chain_id resolver \<equiv> mempool_with_capacity chain_id resolver MAX_MEMPOOL_ENTRIES"

definition embedded_sender_public_key :: "crypto_env \<Rightarrow> string \<Rightarrow> bytes \<Rightarrow> bytes option" where
  "embedded_sender_public_key c sender signature =
     (if length signature < SPHINCS_PK_LEN then None
      else let public_key = take SPHINCS_PK_LEN signature
           in if derive_account_address c public_key = sender then Some public_key else None)"

definition mempool_checks :: "crypto_env \<Rightarrow> Mempool \<Rightarrow> ZKTransaction \<Rightarrow> bool" where
  "mempool_checks c mp tx =
     (if tx_sender tx = [] \<or> tx_receiver tx = [] then False
      else if tx_amount tx = 0 then False
      else if tx_sender tx = tx_receiver tx then False
      else if tx_chain_id tx \<noteq> mp_chain_id mp then False
      else if length (tx_signature tx) \<noteq> SPHINCS_PK_LEN + SPHINCS_SIG_LEN then False
      else case mp_sender_public_key mp (tx_sender tx) (tx_signature tx) of
             None \<Rightarrow> False
           | Some sender_pk \<Rightarrow>
               if length sender_pk \<noteq> SPHINCS_PK_LEN \<or> derive_account_address c sender_pk \<noteq> tx_sender tx then False
               else verify_tx_signature c (payload_of c tx) (drop SPHINCS_PK_LEN (tx_signature tx)) sender_pk)"

definition mempool_add_transaction :: "crypto_env \<Rightarrow> ZKTransaction \<Rightarrow> Mempool \<Rightarrow> Mempool \<times> bool" where
  "mempool_add_transaction c tx mp =
     (if \<not> mempool_checks c mp tx then (mp, False)
      else let tx_id = get_hash c tx
           in if tx_id \<in> set (mp_seen_transactions mp) then (mp, False)
              else if length (mp_transactions mp) \<ge> mp_max_entries mp \<or>
                      length (mp_seen_transactions mp) \<ge> mp_max_entries mp then (mp, False)
              else (mp\<lparr>mp_seen_transactions := bs_insert tx_id (mp_seen_transactions mp),
                       mp_transactions := bt_insert tx_id tx (mp_transactions mp)\<rparr>, True))"

definition remove_transaction :: "string \<Rightarrow> Mempool \<Rightarrow> Mempool" where
  "remove_transaction tx_id mp =
     mp\<lparr>mp_transactions := bt_remove tx_id (mp_transactions mp),
        mp_seen_transactions := bs_remove tx_id (mp_seen_transactions mp)\<rparr>"

abbreviation get_pending_transactions :: "Mempool \<Rightarrow> ZKTransaction list" where
  "get_pending_transactions mp \<equiv> bt_values (mp_transactions mp)"

abbreviation transaction_exists :: "Mempool \<Rightarrow> string \<Rightarrow> bool" where
  "transaction_exists mp tx_id \<equiv> bt_contains (mp_transactions mp) tx_id"

definition clear_old_transactions :: "u64 \<Rightarrow> Mempool \<Rightarrow> Mempool" where
  "clear_old_transactions now mp =
     (let kept = filter (\<lambda>(_, tx). sat_add 64 (tx_timestamp tx) 600 > now) (mp_transactions mp)
      in mp\<lparr>mp_transactions := kept,
            mp_seen_transactions := filter (bt_contains kept) (mp_seen_transactions mp)\<rparr>)"

section \<open>The bridge\<close>

abbreviation MAX_SEEN :: usize where "MAX_SEEN \<equiv> 100000"

record MempoolBridge =
  br_mempool :: Mempool
  br_pool :: TransactionPool
  br_seen :: "string list"

definition forward_one :: "crypto_env \<Rightarrow> ZKTransaction \<Rightarrow> MempoolBridge \<Rightarrow> MempoolBridge" where
  "forward_one c tx b =
     (let tx_id = get_hash c tx
      in if tx_id \<in> set (br_seen b) then b
         else case pool_add_transaction c tx (br_pool b) of
                (pool', admitted) \<Rightarrow>
                  b\<lparr>br_pool := pool',
                    br_seen := (if admitted then bs_insert tx_id (br_seen b) else br_seen b),
                    br_mempool := remove_transaction tx_id (br_mempool b)\<rparr>)"

text \<open>
  One tick of the loop. \<open>order\<close> and \<open>seen_order\<close> are the iteration orders of the two hash tables.
\<close>

definition bridge_tick ::
  "crypto_env \<Rightarrow> (ZKTransaction list \<Rightarrow> ZKTransaction list) \<Rightarrow> (string list \<Rightarrow> string list) \<Rightarrow>
   MempoolBridge \<Rightarrow> MempoolBridge" where
  "bridge_tick c order seen_order b =
     (let pending = order (get_pending_transactions (br_mempool b))
      in if pending = [] then b
         else let b' = fold (forward_one c) pending b
              in if length (br_seen b') > MAX_SEEN
                 then b'\<lparr>br_seen := bs_from (take (MAX_SEEN div 2) (seen_order (br_seen b')))\<rparr>
                 else b')"

section \<open>Interleaved calls\<close>

text \<open>
  A call of \<open>add_transaction\<close> that has passed the capacity check, and one that has recorded its hash.
  At most \<open>callers\<close> calls are in flight at a time. Every transition is one locked section, or the end
  of a call that returns \<open>false\<close>.
\<close>

datatype pool_call = Checked ZKTransaction | Marked ZKTransaction

inductive pool_step ::
  "crypto_env \<Rightarrow> nat \<Rightarrow> TransactionPool \<times> pool_call list \<Rightarrow> TransactionPool \<times> pool_call list \<Rightarrow> bool"
  for c :: crypto_env and callers :: nat where
  enter: "\<not> at_capacity tp \<Longrightarrow> length calls < callers \<Longrightarrow>
    pool_step c callers (tp, calls) (tp, calls @ [Checked tx])"
| refuse: "\<not> admission_checks c (tp_chain_id tp) tx \<Longrightarrow>
    pool_step c callers (tp, xs @ Checked tx # ys) (tp, xs @ ys)"
| duplicate: "admission_checks c (tp_chain_id tp) tx \<Longrightarrow> mark_seen c tx tp = (tp', False) \<Longrightarrow>
    pool_step c callers (tp, xs @ Checked tx # ys) (tp', xs @ ys)"
| mark: "admission_checks c (tp_chain_id tp) tx \<Longrightarrow> mark_seen c tx tp = (tp', True) \<Longrightarrow>
    pool_step c callers (tp, xs @ Checked tx # ys) (tp', xs @ Marked tx # ys)"
| push: "pool_step c callers (tp, xs @ Marked tx # ys) (push_back tx tp, xs @ ys)"
| clear: "pool_step c callers (tp, calls) (clear_pool tp, calls)"
| confirm: "pool_step c callers (tp, calls) (remove_confirmed tx_id tp, calls)"

inductive_cases pool_stepE: "pool_step c callers (tp, calls) s"

text \<open>One call made of its sections in a row is the sequential \<open>add_transaction\<close>.\<close>

lemma sequential_call:
  assumes "0 < callers"
  shows "(pool_step c callers)\<^sup>*\<^sup>* (tp, []) (fst (pool_add_transaction c tx tp), [])"
proof -
  obtain tp' ok where m: "mark_seen c tx tp = (tp', ok)" by force
  have enter: "pool_step c callers (tp, []) (tp, [Checked tx])" if "\<not> at_capacity tp"
    using pool_step.enter [OF that, of "[]" callers c tx] assms by simp
  have refuse: "pool_step c callers (tp, [Checked tx]) (tp, [])" if "\<not> admission_checks c (tp_chain_id tp) tx"
    using pool_step.refuse [OF that, of callers "[]" "[]"] by simp
  have dup: "pool_step c callers (tp, [Checked tx]) (tp', [])" if "admission_checks c (tp_chain_id tp) tx" "\<not> ok"
    using pool_step.duplicate [OF that(1), of tp' callers "[]" "[]"] m that by simp
  have mark: "pool_step c callers (tp, [Checked tx]) (tp', [Marked tx])" if "admission_checks c (tp_chain_id tp) tx" ok
    using pool_step.mark [OF that(1), of tp' callers "[]" "[]"] m that by simp
  have push: "pool_step c callers (tp', [Marked tx]) (push_back tx tp', [])"
    using pool_step.push [of c callers tp' "[]" tx "[]"] by simp
  show ?thesis
    using enter refuse dup mark push m
    by (auto simp: pool_add_transaction_def intro: converse_rtranclp_into_rtranclp)
qed

subsection \<open>What every interleaving keeps\<close>

primrec marked :: "pool_call \<Rightarrow> ZKTransaction list" where
  "marked (Checked tx) = []"
| "marked (Marked tx) = [tx]"

abbreviation admitted :: "TransactionPool \<times> pool_call list \<Rightarrow> ZKTransaction list" where
  "admitted s \<equiv> tp_pool (fst s) @ concat (map marked (snd s))"

definition pool_inv :: "crypto_env \<Rightarrow> nat \<Rightarrow> usize \<Rightarrow> string \<Rightarrow> TransactionPool \<times> pool_call list \<Rightarrow> bool" where
  "pool_inv c callers max_size cid s \<longleftrightarrow>
     tp_chain_id (fst s) = cid \<and> tp_max_size (fst s) = max_size \<and>
     distinct (map (payload_hash c) (admitted s)) \<and>
     payload_hash c ` set (admitted s) \<subseteq> set (tp_seen_hashes (fst s)) \<and>
     list_all (admission_checks c cid) (admitted s) \<and>
     length (tp_pool (fst s)) + length (snd s) \<le> max_size + (callers - 1)"

lemmas section_defs = mark_seen_def push_back_def clear_pool_def remove_confirmed_def

lemma admission_checksD:
  assumes "admission_checks c cid tx"
  shows "tx_chain_id tx = cid \<and> 0 < tx_amount tx \<and> tx_sender tx \<noteq> tx_receiver tx \<and>
    derive_account_address c (take SPHINCS_PK_LEN (tx_signature tx)) = tx_sender tx \<and>
    verify_tx_signature c (payload_of c tx) (drop SPHINCS_PK_LEN (tx_signature tx)) (take SPHINCS_PK_LEN (tx_signature tx))"
  using assms by (simp add: admission_checks_def verify_account_authorization_def Let_def split: if_splits)

lemma distinct_map_filter_append: "distinct (map f (xs @ ys)) \<Longrightarrow> distinct (map f (filter P xs @ ys))"
  by (induction xs) auto

lemma distinct_map_insert: "f x \<notin> f ` set (xs @ ys) \<Longrightarrow> distinct (map f (xs @ ys)) \<Longrightarrow> distinct (map f (xs @ x # ys))"
  by auto

lemma pool_inv_step: "pool_step c callers s s' \<Longrightarrow> pool_inv c callers n cid s \<Longrightarrow> pool_inv c callers n cid s'"
proof (induction rule: pool_step.induct)
  case (confirm tp calls tx_id)
  have "length (filter (\<lambda>tx. canonical_tx_id tx \<noteq> tx_id) (tp_pool tp)) + length calls \<le> n + (callers - 1)"
    by (rule order.trans [OF add_right_mono [OF length_filter_le]]) (use confirm in \<open>simp add: pool_inv_def\<close>)
  moreover have "distinct (map (payload_hash c) (filter (\<lambda>tx. canonical_tx_id tx \<noteq> tx_id) (tp_pool tp) @ concat (map marked calls)))"
    by (rule distinct_map_filter_append) (use confirm in \<open>simp add: pool_inv_def\<close>)
  moreover have sub: "set (admitted (remove_confirmed tx_id tp, calls)) \<subseteq> set (admitted (tp, calls))"
    by (auto simp: remove_confirmed_def)
  have "payload_hash c ` set (admitted (tp, calls)) \<subseteq> set (tp_seen_hashes tp)" "\<forall>tx\<in>set (admitted (tp, calls)). admission_checks c cid tx"
    using confirm by (simp_all add: pool_inv_def list_all_iff)
  with sub have "payload_hash c ` set (admitted (remove_confirmed tx_id tp, calls)) \<subseteq> set (tp_seen_hashes tp)"
    "\<forall>tx\<in>set (admitted (remove_confirmed tx_id tp, calls)). admission_checks c cid tx"
    by (meson image_mono subset_trans, meson subsetD)
  ultimately show ?case using confirm by (simp add: pool_inv_def remove_confirmed_def list_all_iff)
next
  case (enter tp calls tx)
  then show ?case by (simp add: pool_inv_def at_capacity_def)
next
  case (refuse tp tx xs ys)
  then show ?case by (simp add: pool_inv_def)
next
  case (duplicate tp tx tp' xs ys)
  then have "tp' = tp" by (simp add: mark_seen_def split: if_splits)
  with duplicate show ?case by (simp add: pool_inv_def)
next
  case (mark tp tx tp' xs ys)
  then have fresh: "payload_hash c tx \<notin> set (tp_seen_hashes tp)"
    and tp': "tp' = tp\<lparr>tp_seen_hashes := bs_insert (payload_hash c tx) (tp_seen_hashes tp)\<rparr>"
    by (simp_all add: mark_seen_def split: if_splits)
  have "payload_hash c ` set (admitted (tp, xs @ Checked tx # ys)) \<subseteq> set (tp_seen_hashes tp)" using mark by (simp add: pool_inv_def)
  with fresh have new: "payload_hash c tx \<notin> payload_hash c ` set (admitted (tp, xs @ Checked tx # ys))" by blast
  have "distinct (map (payload_hash c) (admitted (tp', xs @ Marked tx # ys)))"
    using distinct_map_insert [of "payload_hash c" tx "tp_pool tp @ concat (map marked xs)" "concat (map marked ys)"] mark(3) new
    by (simp add: pool_inv_def tp')
  moreover have "set (admitted (tp', xs @ Marked tx # ys)) = insert tx (set (admitted (tp, xs @ Checked tx # ys)))"
    by (auto simp: tp')
  ultimately show ?case using mark(1,3) unfolding pool_inv_def list_all_iff
    by (simp del: set_append map_append concat_append add: tp' subset_insertI2)
next
  case (push tp xs tx ys)
  then show ?case by (simp add: pool_inv_def push_back_def image_Un)
next
  case (clear tp calls)
  then show ?case by (simp add: pool_inv_def clear_pool_def image_Un)
qed

lemma pool_inv_reachable:
  assumes "(pool_step c callers)\<^sup>*\<^sup>* (new_with_chain_id n cid, []) s"
  shows "pool_inv c callers n cid s"
  using assms by (induction rule: rtranclp_induct)
    (simp add: pool_inv_def new_with_chain_id_def, blast intro: pool_inv_step)

text \<open>A recorded payload that is no longer pending never comes back.\<close>

definition spent :: "crypto_env \<Rightarrow> bytes \<Rightarrow> TransactionPool \<times> pool_call list \<Rightarrow> bool" where
  "spent c h s \<longleftrightarrow> h \<in> set (tp_seen_hashes (fst s)) \<and> h \<notin> payload_hash c ` set (admitted s)"

lemma spent_step: "pool_step c callers s s' \<Longrightarrow> spent c h s \<Longrightarrow> spent c h s'"
  by (induction rule: pool_step.induct) (auto simp: spent_def section_defs split: if_splits)

lemma spent_run: "(pool_step c callers)\<^sup>*\<^sup>* s s' \<Longrightarrow> spent c h s \<Longrightarrow> spent c h s'"
  by (induction rule: rtranclp_induct) (auto intro: spent_step)

lemma spent_refused: "payload_hash c tx \<in> set (tp_seen_hashes tp) \<Longrightarrow> pool_add_transaction c tx tp = (tp, False)"
  by (simp add: pool_add_transaction_def mark_seen_def)

subsection \<open>How far the capacity can be overshot\<close>

lemma enter_all:
  "\<not> at_capacity tp \<Longrightarrow> length calls + length txs \<le> callers \<Longrightarrow>
   (pool_step c callers)\<^sup>*\<^sup>* (tp, calls) (tp, calls @ map Checked txs)"
proof (induction txs arbitrary: calls)
  case (Cons tx txs)
  have "pool_step c callers (tp, calls) (tp, calls @ [Checked tx])" using Cons.prems by (intro pool_step.enter) simp_all
  moreover have "(pool_step c callers)\<^sup>*\<^sup>* (tp, calls @ [Checked tx]) (tp, (calls @ [Checked tx]) @ map Checked txs)"
    by (rule Cons.IH) (use Cons.prems in auto)
  ultimately show ?case by (simp add: converse_rtranclp_into_rtranclp)
qed simp

lemma mark_all:
  "list_all (admission_checks c (tp_chain_id tp)) txs \<Longrightarrow> distinct (map (payload_hash c) txs) \<Longrightarrow>
   set (map (payload_hash c) txs) \<inter> set (tp_seen_hashes tp) = {} \<Longrightarrow>
   \<exists>tp'. (pool_step c callers)\<^sup>*\<^sup>* (tp, calls @ map Checked txs) (tp', calls @ map Marked txs) \<and>
     tp_pool tp' = tp_pool tp \<and> tp_max_size tp' = tp_max_size tp"
proof (induction txs arbitrary: tp calls)
  case (Cons tx txs)
  define tp1 where "tp1 = tp\<lparr>tp_seen_hashes := bs_insert (payload_hash c tx) (tp_seen_hashes tp)\<rparr>"
  have "mark_seen c tx tp = (tp1, True)" using Cons.prems by (simp add: mark_seen_def tp1_def)
  then have one: "pool_step c callers (tp, calls @ Checked tx # map Checked txs) (tp1, calls @ Marked tx # map Checked txs)"
    using Cons.prems by (auto intro: pool_step.mark)
  obtain tp' where "(pool_step c callers)\<^sup>*\<^sup>* (tp1, (calls @ [Marked tx]) @ map Checked txs) (tp', (calls @ [Marked tx]) @ map Marked txs)"
    "tp_pool tp' = tp_pool tp1" "tp_max_size tp' = tp_max_size tp1"
    using Cons.IH [of tp1 "calls @ [Marked tx]"] Cons.prems by (auto simp: tp1_def)
  with one show ?case by (auto simp: tp1_def intro: converse_rtranclp_into_rtranclp)
qed auto

lemma push_all:
  "(pool_step c callers)\<^sup>*\<^sup>* (tp, map Marked txs) (tp\<lparr>tp_pool := tp_pool tp @ txs\<rparr>, [])"
proof (induction txs arbitrary: tp)
  case (Cons tx txs)
  have "pool_step c callers (tp, [] @ Marked tx # map Marked txs) (push_back tx tp, [] @ map Marked txs)" by (rule pool_step.push)
  then show ?case using Cons.IH [of "push_back tx tp"] by (auto simp: push_back_def intro: converse_rtranclp_into_rtranclp)
qed simp

section \<open>The next nonce\<close>

lemma next_nonce_loop_Some:
  "next_nonce_loop pending n = Some m \<Longrightarrow> n \<le> m \<and> m \<notin> set pending \<and> {n..<m} \<subseteq> set pending"
proof (induction pending n rule: next_nonce_loop.induct)
  case (1 pending n)
  show ?case
  proof (cases "n \<in> set pending")
    case True
    with "1.prems" obtain k where k: "checked_add 64 n 1 = Some k" "next_nonce_loop pending k = Some m"
      by (subst (asm) next_nonce_loop.simps) (auto split: option.splits)
    then have "k = Suc n" by (simp add: checked_add_Some)
    with "1.IH" [OF True k] have rest: "Suc n \<le> m" "m \<notin> set pending" "{Suc n..<m} \<subseteq> set pending" by auto
    moreover have "{n..<m} = insert n {Suc n..<m}" using rest(1) by auto
    ultimately show ?thesis using True by simp
  next
    case False
    with "1.prems" show ?thesis by (subst (asm) next_nonce_loop.simps) auto
  qed
qed

lemma next_nonce_loop_None:
  "next_nonce_loop pending n = None \<Longrightarrow> n < 2 ^ 64 \<Longrightarrow> {n..<2 ^ 64} \<subseteq> set pending"
proof (induction pending n rule: next_nonce_loop.induct)
  case (1 pending n)
  from "1.prems"(1) have mem: "n \<in> set pending" by (subst (asm) next_nonce_loop.simps) (auto split: if_splits)
  show ?case
  proof (cases "checked_add 64 n 1")
    case None
    then have "{n..<2 ^ 64} = {n}" using "1.prems"(2) by (auto simp: checked_add_def split: if_splits)
    with mem show ?thesis by simp
  next
    case (Some k)
    then have k: "k = Suc n" "k < 2 ^ 64" by (auto simp: checked_add_Some)
    have "next_nonce_loop pending k = None" using "1.prems"(1) mem Some by (subst (asm) next_nonce_loop.simps) auto
    then have "{Suc n..<2 ^ 64} \<subseteq> set pending" using "1.IH" [OF mem Some] k by simp
    moreover have "{n..<2 ^ 64} = insert n {Suc n..<2 ^ 64}" using "1.prems"(2) by auto
    ultimately show ?thesis using mem by simp
  qed
qed

lemma set_pending_nonces:
  "set (pending_nonces tp s n) = {tx_nonce tx |tx. tx \<in> set (tp_pool tp) \<and> tx_sender tx = s \<and> n \<le> tx_nonce tx}"
  by (auto simp: pending_nonces_def)

lemma pending_run_short: "{n..<m} \<subseteq> set (pending_nonces tp s k) \<Longrightarrow> m - n \<le> length (tp_pool tp)"
proof -
  assume "{n..<m} \<subseteq> set (pending_nonces tp s k)"
  also have "\<dots> \<subseteq> tx_nonce ` set (tp_pool tp)" by (auto simp: set_pending_nonces)
  finally have "card {n..<m} \<le> card (tx_nonce ` set (tp_pool tp))" by (intro card_mono) simp_all
  also have "\<dots> \<le> length (tp_pool tp)" by (meson card_image_le card_length finite_set le_trans)
  finally show ?thesis by simp
qed

section \<open>Gossip and bridge together\<close>

text \<open>
  What happens to the mempool while the node runs: a transaction arrives, or the bridge ticks.
  \<open>clear_old_transactions\<close> has no caller in the sources.
\<close>

datatype bridge_op =
    Gossip ZKTransaction
  | Tick "ZKTransaction list \<Rightarrow> ZKTransaction list" "string list \<Rightarrow> string list"

primrec bridge_step :: "crypto_env \<Rightarrow> bridge_op \<Rightarrow> MempoolBridge \<Rightarrow> MempoolBridge" where
  "bridge_step c (Gossip tx) b = b\<lparr>br_mempool := fst (mempool_add_transaction c tx (br_mempool b))\<rparr>"
| "bridge_step c (Tick order seen_order) b = bridge_tick c order seen_order b"

text \<open>An iteration order visits exactly the elements of the table.\<close>

primrec iterates :: "bridge_op \<Rightarrow> bool" where
  "iterates (Gossip tx) = True"
| "iterates (Tick order seen_order) = (\<forall>xs. set (order xs) = set xs)"

definition jammed :: "crypto_env \<Rightarrow> MempoolBridge \<Rightarrow> bool" where
  "jammed c b \<longleftrightarrow>
     length (mp_transactions (br_mempool b)) \<ge> mp_max_entries (br_mempool b) \<and>
     list_all (\<lambda>tx. get_hash c tx \<in> set (br_seen b)) (get_pending_transactions (br_mempool b)) \<and>
     length (br_seen b) \<le> MAX_SEEN"

lemma forward_seen: "list_all (\<lambda>tx. get_hash c tx \<in> set (br_seen b)) txs \<Longrightarrow> fold (forward_one c) txs b = b"
  by (induction txs) (auto simp: forward_one_def)

lemma jammed_step: "jammed c b \<Longrightarrow> iterates a \<Longrightarrow> bridge_step c a b = b"
proof (cases a)
  case (Gossip tx)
  assume "jammed c b"
  then show ?thesis using Gossip by (auto simp: jammed_def mempool_add_transaction_def Let_def)
next
  case (Tick order seen_order)
  assume j: "jammed c b" and "iterates a"
  then have "set (order (get_pending_transactions (br_mempool b))) = set (get_pending_transactions (br_mempool b))" using Tick by simp
  with j have "fold (forward_one c) (order (get_pending_transactions (br_mempool b))) b = b"
    by (intro forward_seen) (auto simp: jammed_def list_all_iff)
  then show ?thesis using j Tick by (simp add: bridge_tick_def Let_def jammed_def)
qed

section \<open>A concrete instance\<close>

text \<open>A digest that keeps the last bytes of a transaction apart, and one sender's transactions.\<close>

definition pool_env :: crypto_env where
  "pool_env = demo_env\<lparr>sha3_256 := \<lambda>m. demo_digest (rev m)\<rparr>"

definition pool_tx :: "nat \<Rightarrow> ZKTransaction" where
  "pool_tx n = \<lparr>tx_chain_id = ''c'', tx_sender = derive_account_address pool_env demo_key, tx_receiver = ''r'',
     tx_amount = 5, tx_timestamp = 6, tx_nonce = n, tx_signature = demo_key @ demo_sig\<rparr>"

lemma pool_tx_fields [simp]:
  "tx_chain_id (pool_tx n) = ''c''" "tx_sender (pool_tx n) = derive_account_address pool_env demo_key"
  "tx_receiver (pool_tx n) = ''r''" "tx_amount (pool_tx n) = 5" "tx_timestamp (pool_tx n) = 6"
  "tx_nonce (pool_tx n) = n" "tx_signature (pool_tx n) = demo_key @ demo_sig"
  by (simp_all add: pool_tx_def)

lemma pool_tx_valid: "verify_tx_signature pool_env m demo_sig demo_key"
  by (simp add: verify_tx_signature_def pool_env_def demo_env_def)

lemma pool_tx_sender: "derive_account_address pool_env demo_key \<noteq> []" "derive_account_address pool_env demo_key \<noteq> ''r''"
  by (simp_all add: derive_account_address_def Let_def)

lemma pool_tx_admissible: "admission_checks pool_env ''c'' (pool_tx n)"
  by (simp add: admission_checks_def verify_account_authorization_def pool_tx_sender pool_tx_valid)

lemma le_bytes_mod: "map (\<lambda>b. b mod 256) (to_le_bytes n x) = to_le_bytes n x"
  by (induction n arbitrary: x) auto

lemma pool_tx_hash_prefix: "take 8 (payload_hash pool_env (pool_tx n)) = rev (to_le_bytes 8 n)"
proof -
  have "map (\<lambda>b. b mod 256) (rev (to_le_bytes 8 n)) = rev (to_le_bytes 8 n)" by (simp add: rev_map [symmetric] le_bytes_mod)
  then show ?thesis
    by (simp add: pool_env_def demo_env_def tx_payload_def tx_preimage_def demo_digest_def take_map take_append min_def)
qed

lemma pool_tx_hash_inj: "m < 2 ^ 64 \<Longrightarrow> n < 2 ^ 64 \<Longrightarrow> payload_hash pool_env (pool_tx m) = payload_hash pool_env (pool_tx n) \<longleftrightarrow> m = n"
  using pool_tx_hash_prefix [of m] pool_tx_hash_prefix [of n] to_le_bytes_inj [of m 8 n] by (metis pow_64 rev_is_rev_conv)

section \<open>Properties\<close>

text \<open>C21: However the calls of \<open>add_transaction\<close>, \<open>clear_pool\<close> and \<open>remove_confirmed\<close> interleave at their
  lock boundaries, with at most \<open>callers\<close> of them in flight: the pending transactions have pairwise
  different payload hashes, each is for the pool's chain, moves a positive amount between two
  different accounts and is signed by the key its sender address is derived from, and there are at
  most \<open>max_size + callers - 1\<close> of them, so at most \<open>max_size\<close> when calls do not overlap.\<close>

theorem pool_interleavings_safe:
  assumes "(pool_step c callers)\<^sup>*\<^sup>* (new_with_chain_id max_size cid, []) (tp, calls)"
  shows "distinct (map (payload_hash c) (tp_pool tp)) \<and>
    list_all (\<lambda>tx. tx_chain_id tx = cid \<and> 0 < tx_amount tx \<and> tx_sender tx \<noteq> tx_receiver tx \<and>
      derive_account_address c (take SPHINCS_PK_LEN (tx_signature tx)) = tx_sender tx \<and>
      verify_tx_signature c (payload_of c tx) (drop SPHINCS_PK_LEN (tx_signature tx)) (take SPHINCS_PK_LEN (tx_signature tx)))
      (tp_pool tp) \<and>
    length (tp_pool tp) \<le> max_size + (callers - 1)"
proof -
  have inv: "pool_inv c callers max_size cid (tp, calls)" by (rule pool_inv_reachable [OF assms])
  then have "list_all (admission_checks c cid) (tp_pool tp)" by (simp add: pool_inv_def)
  then have "list_all (\<lambda>tx. tx_chain_id tx = cid \<and> 0 < tx_amount tx \<and> tx_sender tx \<noteq> tx_receiver tx \<and>
      derive_account_address c (take SPHINCS_PK_LEN (tx_signature tx)) = tx_sender tx \<and>
      verify_tx_signature c (payload_of c tx) (drop SPHINCS_PK_LEN (tx_signature tx)) (take SPHINCS_PK_LEN (tx_signature tx)))
      (tp_pool tp)" by (rule list.pred_mono_strong) (rule admission_checksD)
  moreover have "distinct (map (payload_hash c) (tp_pool tp))" "length (tp_pool tp) \<le> max_size + (callers - 1)"
    using inv by (simp_all add: pool_inv_def)
  ultimately show ?thesis by blast
qed

theorem pool_interleavings_safe_witness:
  "pool_add_transaction pool_env (pool_tx 0) (new_with_chain_id 1 ''c'') =
     (\<lparr>tp_pool = [pool_tx 0], tp_seen_hashes = [payload_hash pool_env (pool_tx 0)], tp_chain_id = ''c'', tp_max_size = 1\<rparr>, True) \<and>
   distinct (map (payload_hash pool_env) [pool_tx 0])"
proof -
  have add: "pool_add_transaction pool_env (pool_tx 0) (new_with_chain_id 1 ''c'') =
     (\<lparr>tp_pool = [pool_tx 0], tp_seen_hashes = [payload_hash pool_env (pool_tx 0)], tp_chain_id = ''c'', tp_max_size = 1\<rparr>, True)"
    by (simp add: pool_add_transaction_def new_with_chain_id_def at_capacity_def pool_tx_admissible mark_seen_def push_back_def)
  then show ?thesis
    using pool_interleavings_safe [OF sequential_call [of 1 pool_env "new_with_chain_id 1 ''c''" "pool_tx 0", simplified add fst_conv]] by simp
qed

text \<open>C37: The capacity check and the insertion are separate locked sections, so overlapping calls
  overshoot the limit: when there is room for one more transaction, \<open>callers\<close> overlapping calls with
  new admissible transactions are all admitted, and the pool then holds
  \<open>max_size + callers - 1\<close>.\<close>

theorem pool_overshoots_capacity:
  assumes "Suc (length (tp_pool tp)) = tp_max_size tp" "length txs = callers"
    "list_all (admission_checks c (tp_chain_id tp)) txs"
    "distinct (map (payload_hash c) txs @ tp_seen_hashes tp)"
  shows "\<exists>tp'. (pool_step c callers)\<^sup>*\<^sup>* (tp, []) (tp', []) \<and> tp_pool tp' = tp_pool tp @ txs \<and>
    Suc (length (tp_pool tp')) = tp_max_size tp' + callers"
proof -
  have "(pool_step c callers)\<^sup>*\<^sup>* (tp, []) (tp, map Checked txs)"
    using enter_all [of tp "[]" txs callers c] assms(1,2) by (simp add: at_capacity_def)
  moreover obtain tp1 where "(pool_step c callers)\<^sup>*\<^sup>* (tp, map Checked txs) (tp1, map Marked txs)"
    "tp_pool tp1 = tp_pool tp" "tp_max_size tp1 = tp_max_size tp"
    using mark_all [of c tp txs callers "[]"] assms(3,4) by auto
  ultimately show ?thesis using push_all [of c callers tp1 txs] assms(1,2)
    by (intro exI [of _ "tp1\<lparr>tp_pool := tp_pool tp1 @ txs\<rparr>"]) (auto intro: rtranclp_trans)
qed

theorem pool_overshoots_capacity_witness:
  "\<exists>tp'. (pool_step pool_env 2)\<^sup>*\<^sup>* (new_with_chain_id 1 ''c'', []) (tp', []) \<and>
     tp_pool tp' = [pool_tx 0, pool_tx 1] \<and> Suc (length (tp_pool tp')) = tp_max_size tp' + 2"
  using pool_overshoots_capacity [of "new_with_chain_id 1 ''c''" "[pool_tx 0, pool_tx 1]" 2 pool_env] pool_tx_hash_inj [of 0 1]
  by (simp add: new_with_chain_id_def pool_tx_admissible)

text \<open>C38: \<open>next_nonce\<close> always returns. \<open>Some m\<close> is the least nonce from the committed one on that no
  pending transaction of the sender uses, \<open>None\<close> means that all nonces up to the end of the \<open>u64\<close>
  range are pending, and while the committed nonce plus the pool size is below \<open>2 ^ 64\<close> the result is
  \<open>Some\<close> of a nonce at most the pool size above the committed one.\<close>

theorem next_nonce_least:
  assumes "n < 2 ^ 64"
  shows "(case next_nonce tp s n of
      Some m \<Rightarrow> n \<le> m \<and> (\<forall>tx\<in>set (tp_pool tp). tx_sender tx = s \<longrightarrow> tx_nonce tx \<noteq> m) \<and>
        (\<forall>k\<in>{n..<m}. \<exists>tx\<in>set (tp_pool tp). tx_sender tx = s \<and> tx_nonce tx = k)
    | None \<Rightarrow> \<forall>k\<in>{n..<2 ^ 64}. \<exists>tx\<in>set (tp_pool tp). tx_sender tx = s \<and> tx_nonce tx = k) \<and>
    (n + length (tp_pool tp) < 2 ^ 64 \<longrightarrow> (\<exists>m \<le> n + length (tp_pool tp). next_nonce tp s n = Some m))"
proof (cases "next_nonce tp s n")
  case None
  then have all: "{n..<2 ^ 64} \<subseteq> set (pending_nonces tp s n)"
    using next_nonce_loop_None assms unfolding next_nonce_def by blast
  then have "2 ^ 64 - n \<le> length (tp_pool tp)" by (rule pending_run_short)
  moreover have "\<forall>k\<in>{n..<2 ^ 64}. \<exists>tx\<in>set (tp_pool tp). tx_sender tx = s \<and> tx_nonce tx = k"
    using all by (force simp: set_pending_nonces)
  ultimately show ?thesis using None by simp
next
  case (Some m)
  then have m: "n \<le> m" "m \<notin> set (pending_nonces tp s n)" "{n..<m} \<subseteq> set (pending_nonces tp s n)"
    using next_nonce_loop_Some unfolding next_nonce_def by blast+
  then have "m - n \<le> length (tp_pool tp)" by (intro pending_run_short)
  moreover have "\<forall>tx\<in>set (tp_pool tp). tx_sender tx = s \<longrightarrow> tx_nonce tx \<noteq> m" using m(1,2) by (auto simp: set_pending_nonces)
  moreover have "\<forall>k\<in>{n..<m}. \<exists>tx\<in>set (tp_pool tp). tx_sender tx = s \<and> tx_nonce tx = k"
    using m(3) by (force simp: set_pending_nonces)
  ultimately show ?thesis using Some m(1) by auto
qed

theorem next_nonce_least_witness:
  "\<exists>m \<le> 5. next_nonce \<lparr>tp_pool = [pool_tx 3, pool_tx 4], tp_seen_hashes = [], tp_chain_id = ''c'', tp_max_size = 9\<rparr>
     (tx_sender (pool_tx 0)) 3 = Some m"
  using next_nonce_least [of 3 "\<lparr>tp_pool = [pool_tx 3, pool_tx 4], tp_seen_hashes = [], tp_chain_id = ''c'', tp_max_size = 9\<rparr>" "tx_sender (pool_tx 0)"]
  by simp

text \<open>C39: The identifier \<open>remove_confirmed\<close> compares leaves out the nonce. Confirming (or dropping) one
  transaction therefore also removes every pending transaction with the same sender, receiver, amount
  and timestamp, and since its payload hash stays recorded, such a transaction is never pending again
  and every later attempt to submit it is refused, whatever happens in between.\<close>

theorem remove_confirmed_loses_sibling:
  assumes "(pool_step c callers)\<^sup>*\<^sup>* (new_with_chain_id max_size cid, []) (tp, calls)"
    "tx \<in> set (tp_pool tp)" "tx' \<in> set (tp_pool tp)"
    "tx_sender tx' = tx_sender tx" "tx_receiver tx' = tx_receiver tx"
    "tx_amount tx' = tx_amount tx" "tx_timestamp tx' = tx_timestamp tx"
    "(pool_step c callers)\<^sup>*\<^sup>* (remove_confirmed (canonical_tx_id tx) tp, calls) (tp', calls')"
  shows "tx' \<notin> set (tp_pool tp') \<and> pool_add_transaction c tx' tp' = (tp', False)"
proof -
  let ?h = "payload_hash c tx'"
  have inv: "pool_inv c callers max_size cid (tp, calls)" by (rule pool_inv_reachable [OF assms(1)])
  have seen: "?h \<in> set (tp_seen_hashes tp)" using inv assms(3) by (auto simp: pool_inv_def)
  have id: "canonical_tx_id tx' = canonical_tx_id tx" using assms(4-7) by (simp add: canonical_tx_id_def)
  have "distinct (map (payload_hash c) (tp_pool tp))"
    and flight: "payload_hash c ` set (tp_pool tp) \<inter> payload_hash c ` set (concat (map marked calls)) = {}"
    using inv by (simp_all add: pool_inv_def)
  then have only: "t = tx'" if "t \<in> set (tp_pool tp)" "payload_hash c t = ?h" for t
    using that assms(3) by (simp add: distinct_map inj_on_def)
  have "?h \<notin> payload_hash c ` set (concat (map marked calls))" using flight assms(3) by blast
  moreover have "?h \<notin> payload_hash c ` set (filter (\<lambda>t. canonical_tx_id t \<noteq> canonical_tx_id tx) (tp_pool tp))"
    using only id by fastforce
  ultimately have "spent c ?h (remove_confirmed (canonical_tx_id tx) tp, calls)"
    using seen by (simp add: spent_def remove_confirmed_def image_Un)
  then have "spent c ?h (tp', calls')" by (rule spent_run [OF assms(8)])
  then have "?h \<in> set (tp_seen_hashes tp')" "?h \<notin> payload_hash c ` set (tp_pool tp')" by (simp_all add: spent_def image_Un)
  then show ?thesis by (meson imageI spent_refused)
qed

theorem remove_confirmed_loses_sibling_witness:
  "\<exists>tp'. (pool_step pool_env 2)\<^sup>*\<^sup>* (new_with_chain_id 1 ''c'', []) (tp', []) \<and> pool_tx 1 \<in> set (tp_pool tp') \<and>
     pool_tx 1 \<notin> set (tp_pool (remove_confirmed (canonical_tx_id (pool_tx 0)) tp'))"
proof -
  have "distinct (map (payload_hash pool_env) [pool_tx 0, pool_tx 1])" using pool_tx_hash_inj [of 0 1] by simp
  then obtain tp1 where "(pool_step pool_env 2)\<^sup>*\<^sup>* (new_with_chain_id 1 ''c'', map Checked [pool_tx 0, pool_tx 1]) (tp1, map Marked [pool_tx 0, pool_tx 1])"
    and pool: "tp_pool tp1 = []"
    using mark_all [of pool_env "new_with_chain_id 1 ''c''" "[pool_tx 0, pool_tx 1]" 2 "[]"]
    by (auto simp: new_with_chain_id_def pool_tx_admissible)
  then have "(pool_step pool_env 2)\<^sup>*\<^sup>* (new_with_chain_id 1 ''c'', []) (tp1, map Marked [pool_tx 0, pool_tx 1])"
    using enter_all [of "new_with_chain_id 1 ''c''" "[]" "[pool_tx 0, pool_tx 1]" 2 pool_env]
    by (simp add: at_capacity_def new_with_chain_id_def)
  then have run: "(pool_step pool_env 2)\<^sup>*\<^sup>* (new_with_chain_id 1 ''c'', []) (tp1\<lparr>tp_pool := [pool_tx 0, pool_tx 1]\<rparr>, [])"
    using push_all [of pool_env 2 tp1 "[pool_tx 0, pool_tx 1]"] pool by (simp add: rtranclp_trans)
  let ?tp = "tp1\<lparr>tp_pool := [pool_tx 0, pool_tx 1]\<rparr>"
  have "pool_tx 1 \<notin> set (tp_pool (remove_confirmed (canonical_tx_id (pool_tx 0)) ?tp))"
    using remove_confirmed_loses_sibling [OF run, of "pool_tx 0" "pool_tx 1" "remove_confirmed (canonical_tx_id (pool_tx 0)) ?tp" "[]"] by simp
  then show ?thesis using run by (intro exI [of _ ?tp]) simp
qed

text \<open>The bridge skips a transaction it has forwarded before without removing it from the mempool,
  and removal had cleared the mempool's own duplicate record, so a transaction that is gossiped again
  occupies an entry for good. Once the mempool is full of such entries, nothing moves any more: no
  sequence of arrivals and ticks changes the mempool, the pool or the bridge.\<close>

theorem mempool_jams:
  assumes "jammed c b" "list_all iterates ops"
  shows "fold (bridge_step c) ops b = b"
  using assms by (induction ops) (simp_all add: jammed_step)

text \<open>With one entry: the transaction arrives, is forwarded, and arrives again.\<close>

theorem mempool_jams_witness:
  "fold (bridge_step pool_env) [Gossip (pool_tx 1), Tick id id]
     (fold (bridge_step pool_env) [Gossip (pool_tx 0), Tick id id, Gossip (pool_tx 0)]
       \<lparr>br_mempool = mempool_with_capacity ''c'' (embedded_sender_public_key pool_env) 1,
        br_pool = new_with_chain_id 9 ''c'', br_seen = []\<rparr>) =
   fold (bridge_step pool_env) [Gossip (pool_tx 0), Tick id id, Gossip (pool_tx 0)]
     \<lparr>br_mempool = mempool_with_capacity ''c'' (embedded_sender_public_key pool_env) 1,
      br_pool = new_with_chain_id 9 ''c'', br_seen = []\<rparr>"
proof (rule mempool_jams)
  have checks: "mempool_checks pool_env mp (pool_tx n)"
    if "mp_chain_id mp = ''c''" "mp_sender_public_key mp = embedded_sender_public_key pool_env" for mp n
    using that by (simp add: mempool_checks_def embedded_sender_public_key_def pool_tx_sender pool_tx_valid)
  have add: "pool_add_transaction pool_env (pool_tx 0) (new_with_chain_id 9 ''c'') =
     (\<lparr>tp_pool = [pool_tx 0], tp_seen_hashes = [payload_hash pool_env (pool_tx 0)], tp_chain_id = ''c'', tp_max_size = 9\<rparr>, True)"
    by (simp add: pool_add_transaction_def new_with_chain_id_def at_capacity_def pool_tx_admissible mark_seen_def push_back_def)
  show "jammed pool_env (fold (bridge_step pool_env) [Gossip (pool_tx 0), Tick id id, Gossip (pool_tx 0)]
     \<lparr>br_mempool = mempool_with_capacity ''c'' (embedded_sender_public_key pool_env) 1,
      br_pool = new_with_chain_id 9 ''c'', br_seen = []\<rparr>)"
    by (simp add: jammed_def mempool_add_transaction_def checks bridge_tick_def
        forward_one_def add remove_transaction_def bt_remove_def bs_remove_def Let_def)
  show "list_all iterates [Gossip (pool_tx 1), Tick id id]" by simp
qed

end
