(* ===== verification/Blockchain.thy ===== *)
theory Blockchain
  imports TxPool
begin

text \<open>
  \<open>crates/bleep-core/src/block_validation.rs\<close> and \<open>crates/bleep-core/src/blockchain.rs\<close>: the checks a
  block passes before it is accepted, the in-memory balance table with its forward and backward
  application of blocks, and the chain with acceptance, restoration, fork adoption and rollback. The
  two parameters of the STARK verifier are the fields of \<open>chain_env\<close> next to the primitives. The task
  \<open>add_block\<close> spawns to remove confirmed transactions is queued in \<open>bc_spawned\<close> and run by
  \<open>run_spawned\<close>. The lemmas show that the balance table equals the replay of the chain, also across
  forks and rollbacks, as long as blocks with one hash have the same transactions, what an accepted block has been checked for, and the one kind of block
  that is accepted unchecked.
\<close>

record chain_env =
  ch_crypto :: crypto_env
  ch_stark_parses :: "bytes \<Rightarrow> bool"
  ch_stark_verifies :: "ExtendedBlockPublicInputs \<Rightarrow> bytes \<Rightarrow> bool"

section \<open>Validation\<close>

definition verify_merkle_root :: "chain_env \<Rightarrow> Block \<Rightarrow> bool" where
  "verify_merkle_root e b \<longleftrightarrow> calculate_merkle_root (ch_crypto e) (blk_transactions b) = blk_merkle_root b"

abbreviation verify_transaction_signatures :: "chain_env \<Rightarrow> Transaction list \<Rightarrow> bool" where
  "verify_transaction_signatures e txs \<equiv> list_all (tx_verify_signature (ch_crypto e)) txs"

definition verify_sig_commitment_root :: "chain_env \<Rightarrow> Block \<Rightarrow> (BlockError, bool) outcome" where
  "verify_sig_commitment_root e b =
     (let zero_root = replicate 32 0;
          sig_count = length (filter (\<lambda>tx. tx_signature tx \<noteq> []) (blk_transactions b))
      in if blk_transactions b \<noteq> [] \<and> blk_sig_commitment_root b = zero_root then Ok False
         else if blk_sig_commitment_root b = zero_root then Ok True
         else if sig_count = 0 then Ok (blk_transactions b = [])
         else case compute_sig_commitment (ch_crypto e) (map tx_signature (blk_transactions b)) of
                Ok (computed_root, _) \<Rightarrow> Ok (computed_root = blk_sig_commitment_root b)
              | _ \<Rightarrow> Panic)"

definition validate_block :: "chain_env \<Rightarrow> Block \<Rightarrow> bytes \<Rightarrow> (BlockError, bool) outcome" where
  "validate_block e b public_key =
     (if \<not> verify_merkle_root e b then Ok False
      else case verify_signature (ch_crypto e) b public_key of
        Panic \<Rightarrow> Panic
      | Err _ \<Rightarrow> Ok False
      | Ok valid \<Rightarrow>
          if \<not> valid then Ok False
          else bind_outcome (verify_zkp (ch_crypto e) (ch_stark_parses e) (ch_stark_verifies e) b) (\<lambda>zkp.
            if \<not> zkp then Ok False
            else if blk_transactions b \<noteq> [] \<and> list_all (\<lambda>tx. tx_signature tx = []) (blk_transactions b) then Ok False
            else bind_outcome (verify_sig_commitment_root e b) (\<lambda>committed.
              if \<not> committed then Ok False
              else Ok (verify_transaction_signatures e (blk_transactions b)))))"

definition validate_block_with_validator_set ::
  "chain_env \<Rightarrow> Block \<Rightarrow> bytes list \<Rightarrow> (BlockError, bool) outcome" where
  "validate_block_with_validator_set e b validator_keys =
     (if length (blk_validator_signature b) < SPHINCS_PK_LEN then Ok False
      else let signer_key = take SPHINCS_PK_LEN (blk_validator_signature b)
           in if signer_key \<notin> set validator_keys then Ok False else validate_block e b signer_key)"

definition ai_validate :: "Block \<Rightarrow> bool" where
  "ai_validate b =
     (if blk_timestamp b = 0 then False
      else if blk_transactions b \<noteq> [] \<and> blk_merkle_root b = [] then False
      else if blk_transactions b = [] \<and> blk_merkle_root b \<noteq> [] then False
      else if length (blk_transactions b) > 10000 then False
      else True)"

abbreviation validate_block_link :: "chain_env \<Rightarrow> Block \<Rightarrow> Block \<Rightarrow> bool" where
  "validate_block_link e prev b \<equiv> blk_previous_hash b = compute_hash (ch_crypto e) prev"

definition network_validate :: "Block \<Rightarrow> bool" where
  "network_validate b =
     (if blk_previous_hash b = [] \<and> blk_index b > 0 then False
      else if blk_index b = 0 \<and> blk_previous_hash b \<noteq> [] \<and> blk_previous_hash b \<noteq> ''0'' then False
      else if blk_epoch_id b = 2 ^ 64 - 1 then False
      else if blk_shard_id b > 256 then False
      else True)"

definition validate_chain_id :: "Block \<Rightarrow> Block \<Rightarrow> bool" where
  "validate_chain_id prev b \<longleftrightarrow>
     blk_chain_id b \<noteq> [] \<and> blk_chain_id b = blk_chain_id prev \<and>
     list_all (\<lambda>tx. tx_chain_id tx = blk_chain_id b) (blk_transactions b)"

definition validate_full_block :: "chain_env \<Rightarrow> Block \<Rightarrow> Block \<Rightarrow> bytes \<Rightarrow> (BlockError, bool) outcome" where
  "validate_full_block e prev b public_key =
     (if \<not> validate_chain_id prev b then Ok False
      else bind_outcome (validate_block e b public_key) (\<lambda>valid.
        if \<not> valid then Ok False
        else if \<not> validate_block_link e prev b then Ok False
        else if \<not> network_validate b then Ok False
        else if \<not> ai_validate b then Ok False
        else Ok True))"

definition validate_full_block_with_validator_set ::
  "chain_env \<Rightarrow> Block \<Rightarrow> Block \<Rightarrow> bytes list \<Rightarrow> (BlockError, bool) outcome" where
  "validate_full_block_with_validator_set e prev b validator_keys =
     (if \<not> validate_chain_id prev b then Ok False
      else bind_outcome (validate_block_with_validator_set e b validator_keys) (\<lambda>valid.
        if \<not> valid then Ok False
        else if \<not> validate_block_link e prev b \<or> \<not> network_validate b \<or> \<not> ai_validate b then Ok False
        else Ok True))"

section \<open>The balance table\<close>

datatype ChainError =
    InsufficientChainBalance string u64 u64 | SelfTransferRejected string | ZeroAmountRejected
  | NoGenesisToRestore | HeightDoesNotFollow u64 u64 | NoSignerKey u64 | PersistedBlockInvalid u64
  | NoGenesisInFork | ForkGenesisDiffers | NoValidatorSetForEpoch u64 | ForkBlockInvalid u64
  | NoCommonAncestor | ForkTransitionFailed u64 ChainError

record BlockchainState =
  bs_balances :: "(string, u64) btree_map"

abbreviation chain_balance_of :: "BlockchainState \<Rightarrow> string \<Rightarrow> u64" where
  "chain_balance_of s address \<equiv> bt_get_or (bs_balances s) address 0"

definition state_credit :: "string \<Rightarrow> u64 \<Rightarrow> BlockchainState \<Rightarrow> BlockchainState" where
  "state_credit address amount s =
     s\<lparr>bs_balances := bt_insert address (wrap_add 64 (bt_get_or (bs_balances s) address 0) amount) (bs_balances s)\<rparr>"

definition state_debit :: "string \<Rightarrow> u64 \<Rightarrow> BlockchainState \<Rightarrow> BlockchainState \<times> (ChainError, unit) outcome" where
  "state_debit address amount s =
     (let balance = bt_get_or (bs_balances s) address 0;
          s' = s\<lparr>bs_balances := bt_insert address balance (bs_balances s)\<rparr>
      in if balance < amount then (s', Err (InsufficientChainBalance address balance amount))
         else (s'\<lparr>bs_balances := bt_insert address (balance - amount) (bs_balances s')\<rparr>, Ok ()))"

definition apply_transaction :: "Transaction \<Rightarrow> BlockchainState \<Rightarrow> BlockchainState \<times> (ChainError, unit) outcome" where
  "apply_transaction tx s =
     (if tx_sender tx = tx_receiver tx then (s, Err (SelfTransferRejected (tx_sender tx)))
      else if tx_amount tx = 0 then (s, Err ZeroAmountRejected)
      else and_then (state_debit (tx_sender tx) (tx_amount tx) s)
             (\<lambda>s' _. (state_credit (tx_receiver tx) (tx_amount tx) s', Ok ())))"

definition apply_block :: "Block \<Rightarrow> BlockchainState \<Rightarrow> BlockchainState \<times> (ChainError, unit) outcome" where
  "apply_block b s =
     (case for_each apply_transaction (blk_transactions b) s of
        (s', Ok _) \<Rightarrow> (s', Ok ())
      | (s', Err err) \<Rightarrow> (s'\<lparr>bs_balances := bs_balances s\<rparr>, Err err)
      | (s', Panic) \<Rightarrow> (s', Panic))"

definition revert_transaction :: "Transaction \<Rightarrow> BlockchainState \<Rightarrow> BlockchainState" where
  "revert_transaction tx s =
     (let s' = state_credit (tx_sender tx) (tx_amount tx) s
      in s'\<lparr>bs_balances := bt_modify (tx_receiver tx) (\<lambda>b. sat_sub b (tx_amount tx)) (bs_balances s')\<rparr>)"

definition revert_block :: "Block \<Rightarrow> BlockchainState \<Rightarrow> BlockchainState" where
  "revert_block b s = fold revert_transaction (rev (blk_transactions b)) s"

section \<open>The chain\<close>

record Blockchain =
  bc_chain :: "Block list"
  bc_state :: BlockchainState
  bc_pool :: TransactionPool
  bc_spawned :: "string list"

definition Blockchain_new :: "Block \<Rightarrow> BlockchainState \<Rightarrow> TransactionPool \<Rightarrow> Blockchain" where
  "Blockchain_new genesis s pool = \<lparr>bc_chain = [genesis], bc_state = s, bc_pool = pool, bc_spawned = []\<rparr>"

fun restore_loop :: "chain_env \<Rightarrow> Block \<Rightarrow> Block list \<Rightarrow> Blockchain \<Rightarrow> Blockchain \<times> (ChainError, unit) outcome" where
  "restore_loop e previous [] bc = (bc, Ok ())"
| "restore_loop e previous (b # bs) bc =
     (if blk_index b \<noteq> sat_add 64 (blk_index previous) 1
      then (bc, Err (HeightDoesNotFollow (blk_index b) (blk_index previous)))
      else if length (blk_validator_signature b) < SPHINCS_PK_LEN then (bc, Err (NoSignerKey (blk_index b)))
      else case validate_full_block e previous b (take SPHINCS_PK_LEN (blk_validator_signature b)) of
             Panic \<Rightarrow> (bc, Panic)
           | Ok True \<Rightarrow> restore_loop e b bs (bc\<lparr>bc_chain := bc_chain bc @ [b]\<rparr>)
           | _ \<Rightarrow> (bc, Err (PersistedBlockInvalid (blk_index b))))"

definition restore_blocks :: "chain_env \<Rightarrow> Block list \<Rightarrow> Blockchain \<Rightarrow> Blockchain \<times> (ChainError, unit) outcome" where
  "restore_blocks e blocks bc =
     (if bc_chain bc = [] then (bc, Err NoGenesisToRestore)
      else restore_loop e (last (bc_chain bc)) blocks bc)"

definition add_block_inner ::
  "(Block \<Rightarrow> Block \<Rightarrow> (BlockError, bool) outcome) \<Rightarrow> Block \<Rightarrow> Blockchain \<Rightarrow> Blockchain \<times> (ChainError, bool) outcome" where
  "add_block_inner validate b bc =
     (if bc_chain bc = [] then (bc, Ok False)
      else case (if blk_transactions b \<noteq> [] \<or> blk_index b \<noteq> 0 then validate (last (bc_chain bc)) b else Ok True) of
        Panic \<Rightarrow> (bc, Panic)
      | Err _ \<Rightarrow> (bc, Ok False)
      | Ok valid \<Rightarrow>
          if \<not> valid then (bc, Ok False)
          else case apply_block b (bc_state bc) of
            (s', Ok _) \<Rightarrow>
              (bc\<lparr>bc_state := s', bc_spawned := bc_spawned bc @ map canonical_tx_id (blk_transactions b),
                  bc_chain := bc_chain bc @ [b]\<rparr>, Ok True)
          | (s', Err _) \<Rightarrow> (bc\<lparr>bc_state := s'\<rparr>, Ok False)
          | (s', Panic) \<Rightarrow> (bc\<lparr>bc_state := s'\<rparr>, Panic))"

definition add_block :: "chain_env \<Rightarrow> Block \<Rightarrow> bytes \<Rightarrow> Blockchain \<Rightarrow> Blockchain \<times> (ChainError, bool) outcome" where
  "add_block e b public_key bc = add_block_inner (\<lambda>previous b. validate_full_block e previous b public_key) b bc"

definition add_block_with_validator_set ::
  "chain_env \<Rightarrow> Block \<Rightarrow> bytes list \<Rightarrow> Blockchain \<Rightarrow> Blockchain \<times> (ChainError, bool) outcome" where
  "add_block_with_validator_set e b validator_keys bc =
     add_block_inner (\<lambda>previous b. validate_full_block_with_validator_set e previous b validator_keys) b bc"

text \<open>The task \<open>add_block\<close> spawns.\<close>

definition run_spawned :: "Blockchain \<Rightarrow> Blockchain" where
  "run_spawned bc = bc\<lparr>bc_pool := fold remove_confirmed (bc_spawned bc) (bc_pool bc), bc_spawned := []\<rparr>"

fun verify_chain_from :: "chain_env \<Rightarrow> bytes \<Rightarrow> Block \<Rightarrow> Block list \<Rightarrow> (BlockError, bool) outcome" where
  "verify_chain_from e public_key prev [] = Ok True"
| "verify_chain_from e public_key prev (b # bs) =
     (if \<not> validate_block_link e prev b then Ok False
      else bind_outcome (validate_block e b public_key) (\<lambda>valid.
        if \<not> valid then Ok False else verify_chain_from e public_key b bs))"

definition verify_chain :: "chain_env \<Rightarrow> bytes \<Rightarrow> Blockchain \<Rightarrow> (BlockError, bool) outcome" where
  "verify_chain e public_key bc =
     (case bc_chain bc of [] \<Rightarrow> Ok True | g # bs \<Rightarrow> verify_chain_from e public_key g bs)"

fun check_fork ::
  "chain_env \<Rightarrow> (u64, bytes list) btree_map \<Rightarrow> Block \<Rightarrow> Block list \<Rightarrow> (ChainError, unit) outcome" where
  "check_fork e validator_sets previous [] = Ok ()"
| "check_fork e validator_sets previous (b # bs) =
     (case bt_get validator_sets (blk_epoch_id b) of
        None \<Rightarrow> Err (NoValidatorSetForEpoch (blk_epoch_id b))
      | Some validator_keys \<Rightarrow>
          if blk_index b \<noteq> sat_add 64 (blk_index previous) 1 then Err (ForkBlockInvalid (blk_index b))
          else case validate_full_block_with_validator_set e previous b validator_keys of
                 Panic \<Rightarrow> Panic
               | Ok True \<Rightarrow> check_fork e validator_sets b bs
               | _ \<Rightarrow> Err (ForkBlockInvalid (blk_index b)))"

fun common_prefix_len :: "chain_env \<Rightarrow> Block list \<Rightarrow> Block list \<Rightarrow> nat" where
  "common_prefix_len e (b # bs) (b' # bs') =
     (if compute_hash (ch_crypto e) b = compute_hash (ch_crypto e) b' then Suc (common_prefix_len e bs bs') else 0)"
| "common_prefix_len e _ _ = 0"

definition apply_fork_block :: "Block \<Rightarrow> BlockchainState \<Rightarrow> BlockchainState \<times> (ChainError, unit) outcome" where
  "apply_fork_block b s =
     (case apply_block b s of (s', r) \<Rightarrow> (s', map_err (ForkTransitionFailed (blk_index b)) r))"

definition handle_fork ::
  "chain_env \<Rightarrow> Block list \<Rightarrow> (u64, bytes list) btree_map \<Rightarrow> Blockchain \<Rightarrow> Blockchain \<times> (ChainError, unit) outcome" where
  "handle_fork e new_chain validator_sets bc =
     (if length new_chain \<le> length (bc_chain bc) then (bc, Ok ())
      else if new_chain = [] \<or> bc_chain bc = [] then (bc, Err NoGenesisInFork)
      else if compute_hash (ch_crypto e) (hd new_chain) \<noteq> compute_hash (ch_crypto e) (hd (bc_chain bc))
        then (bc, Err ForkGenesisDiffers)
      else case check_fork e validator_sets (hd new_chain) (tl new_chain) of
        Err err \<Rightarrow> (bc, Err err)
      | Panic \<Rightarrow> (bc, Panic)
      | Ok _ \<Rightarrow>
          let k = common_prefix_len e (bc_chain bc) new_chain in
          if k = 0 then (bc, Err NoCommonAncestor)
          else let staged = fold revert_block (rev (drop k (bc_chain bc))) (bc_state bc) in
            case for_each apply_fork_block (drop k new_chain) staged of
              (staged', Ok _) \<Rightarrow> (bc\<lparr>bc_state := staged', bc_chain := new_chain\<rparr>, Ok ())
            | (_, Err err) \<Rightarrow> (bc, Err err)
            | (_, Panic) \<Rightarrow> (bc, Panic))"

definition rollback :: "Blockchain \<Rightarrow> Blockchain" where
  "rollback bc =
     (if bc_chain bc = [] then bc
      else bc\<lparr>bc_chain := butlast (bc_chain bc), bc_state := revert_block (last (bc_chain bc)) (bc_state bc)\<rparr>)"

section \<open>The abstract ledger\<close>

text \<open>Balances as a function, and the transfers of blocks on it; \<open>None\<close> where a block is not applicable.\<close>

definition bal_tx :: "Transaction \<Rightarrow> (string \<Rightarrow> nat) \<Rightarrow> (string \<Rightarrow> nat) option" where
  "bal_tx tx f =
     (if tx_sender tx = tx_receiver tx \<or> tx_amount tx = 0 \<or> f (tx_sender tx) < tx_amount tx then None
      else Some (f(tx_sender tx := f (tx_sender tx) - tx_amount tx, tx_receiver tx := f (tx_receiver tx) + tx_amount tx)))"

primrec bal_txs :: "Transaction list \<Rightarrow> (string \<Rightarrow> nat) \<Rightarrow> (string \<Rightarrow> nat) option" where
  "bal_txs [] f = Some f"
| "bal_txs (tx # txs) f = Option.bind (bal_tx tx f) (bal_txs txs)"

primrec bal_blocks :: "Block list \<Rightarrow> (string \<Rightarrow> nat) \<Rightarrow> (string \<Rightarrow> nat) option" where
  "bal_blocks [] f = Some f"
| "bal_blocks (b # bs) f = Option.bind (bal_txs (blk_transactions b) f) (bal_blocks bs)"

lemma bal_txs_append: "bal_txs (xs @ ys) f = Option.bind (bal_txs xs f) (bal_txs ys)"
  by (induction xs arbitrary: f) (simp_all add: bind_assoc split: Option.bind_splits)

lemma bal_blocks_append: "bal_blocks (xs @ ys) f = Option.bind (bal_blocks xs f) (bal_blocks ys)"
  by (induction xs arbitrary: f) (simp_all add: bind_assoc split: Option.bind_splits)

text \<open>A balance table in key order with a given total.\<close>

definition table_ok :: "nat \<Rightarrow> BlockchainState \<Rightarrow> bool" where
  "table_ok n s \<longleftrightarrow> bt_wf (bs_balances s) \<and> bt_sum (\<lambda>x. x) (bs_balances s) = n \<and> n < 2 ^ 64"

lemma bt_sum_update:
  "bt_wf m \<Longrightarrow> bt_sum (\<lambda>x. x) (bt_insert k v m) + bt_get_or m k 0 = bt_sum (\<lambda>x. x) m + v"
  using bt_sum_insert [of m "\<lambda>x. x" k v] by (auto simp: bt_get_or_def split: option.splits)

lemma two_balances:
  assumes "bt_wf m" "k \<noteq> k'" shows "bt_get_or m k 0 + bt_get_or m k' 0 \<le> bt_sum (\<lambda>x. x) m"
proof -
  have "bt_get_or (bt_remove k m) k' 0 \<le> bt_sum (\<lambda>x. x) (bt_remove k m)"
    using bt_sum_ge [of "bt_remove k m" k' _ "\<lambda>x. x"] by (auto simp: bt_get_or_def split: option.splits)
  moreover have "bt_sum (\<lambda>x. x) (bt_remove k m) + bt_get_or m k 0 = bt_sum (\<lambda>x. x) m"
    using bt_sum_remove [OF assms(1), of "\<lambda>x. x" k] by (auto simp: bt_get_or_def split: option.splits)
  ultimately show ?thesis using assms(2) by (simp add: bt_get_or_def)
qed

lemma bt_insert_balance: "bt_get_or (bt_insert k (bt_get_or m k 0) m) a 0 = bt_get_or m a 0"
  by auto

lemma table_touch: "table_ok n s \<Longrightarrow> table_ok n (s\<lparr>bs_balances := bt_insert k (bt_get_or (bs_balances s) k 0) (bs_balances s)\<rparr>)"
  using bt_sum_update [of "bs_balances s" k "bt_get_or (bs_balances s) k 0"] by (auto simp: table_ok_def)

lemma debit_ok:
  assumes "table_ok n s" "amount \<le> chain_balance_of s a"
  obtains s' where "state_debit a amount s = (s', Ok ())" "bt_wf (bs_balances s')"
    "bt_sum (\<lambda>x. x) (bs_balances s') + amount = n"
    "chain_balance_of s' = (chain_balance_of s)(a := chain_balance_of s a - amount)"
proof -
  let ?m = "bt_insert a (bt_get_or (bs_balances s) a 0) (bs_balances s)"
  let ?s = "s\<lparr>bs_balances := bt_insert a (bt_get_or (bs_balances s) a 0 - amount) ?m\<rparr>"
  have "bt_wf ?m" "bt_sum (\<lambda>x. x) ?m = n" "bt_get_or ?m a 0 = bt_get_or (bs_balances s) a 0"
    using table_touch [OF assms(1), of a] by (simp_all add: table_ok_def)
  then have "bt_wf (bs_balances ?s)" "bt_sum (\<lambda>x. x) (bs_balances ?s) + amount = n"
    using bt_sum_update [of ?m a "bt_get_or (bs_balances s) a 0 - amount"] assms(2) by auto
  moreover have "state_debit a amount s = (?s, Ok ())" using assms(2) by (simp add: state_debit_def Let_def)
  moreover have "chain_balance_of ?s = (chain_balance_of s)(a := chain_balance_of s a - amount)" by auto
  ultimately show ?thesis using that by blast
qed

lemma credit_ok:
  assumes "bt_wf (bs_balances s)" "bt_sum (\<lambda>x. x) (bs_balances s) + amount < 2 ^ 64"
  shows "bt_wf (bs_balances (state_credit a amount s))"
    "bt_sum (\<lambda>x. x) (bs_balances (state_credit a amount s)) = bt_sum (\<lambda>x. x) (bs_balances s) + amount"
    "chain_balance_of (state_credit a amount s) = (chain_balance_of s)(a := chain_balance_of s a + amount)"
proof -
  have "bt_get_or (bs_balances s) a 0 \<le> bt_sum (\<lambda>x. x) (bs_balances s)"
    using bt_sum_ge [of "bs_balances s" a _ "\<lambda>x. x"] by (auto simp: bt_get_or_def split: option.splits)
  with assms(2) have w: "wrap_add 64 (bt_get_or (bs_balances s) a 0) amount = bt_get_or (bs_balances s) a 0 + amount"
    by (simp add: wrap_add_exact)
  then show "bt_wf (bs_balances (state_credit a amount s))" using assms(1) by (simp add: state_credit_def)
  show "bt_sum (\<lambda>x. x) (bs_balances (state_credit a amount s)) = bt_sum (\<lambda>x. x) (bs_balances s) + amount"
    using bt_sum_update [OF assms(1), of a "bt_get_or (bs_balances s) a 0 + amount"] w by (simp add: state_credit_def)
  show "chain_balance_of (state_credit a amount s) = (chain_balance_of s)(a := chain_balance_of s a + amount)"
    using w by (auto simp: state_credit_def)
qed

subsection \<open>Applying and reverting blocks\<close>

lemma apply_transaction_Some:
  assumes "table_ok n s" "bal_tx tx (chain_balance_of s) = Some f"
  obtains s' where "apply_transaction tx s = (s', Ok ())" "table_ok n s'" "chain_balance_of s' = f"
proof -
  have g: "tx_sender tx \<noteq> tx_receiver tx" "tx_amount tx \<noteq> 0" "tx_amount tx \<le> chain_balance_of s (tx_sender tx)"
    and f: "f = (chain_balance_of s)(tx_sender tx := chain_balance_of s (tx_sender tx) - tx_amount tx,
      tx_receiver tx := chain_balance_of s (tx_receiver tx) + tx_amount tx)"
    using assms(2) by (auto simp: bal_tx_def split: if_splits)
  obtain s1 where s1: "state_debit (tx_sender tx) (tx_amount tx) s = (s1, Ok ())" "bt_wf (bs_balances s1)"
    "bt_sum (\<lambda>x. x) (bs_balances s1) + tx_amount tx = n"
    "chain_balance_of s1 = (chain_balance_of s)(tx_sender tx := chain_balance_of s (tx_sender tx) - tx_amount tx)"
    using debit_ok [OF assms(1) g(3)] .
  have n: "n < 2 ^ 64" using assms(1) by (simp add: table_ok_def)
  note c = credit_ok [OF s1(2), of "tx_amount tx" "tx_receiver tx"]
  show ?thesis
  proof
    show "apply_transaction tx s = (state_credit (tx_receiver tx) (tx_amount tx) s1, Ok ())"
      using g s1(1) by (simp add: apply_transaction_def and_then_def)
    show "table_ok n (state_credit (tx_receiver tx) (tx_amount tx) s1)" using c(1,2) s1(3) n by (simp add: table_ok_def)
    have "chain_balance_of s1 (tx_receiver tx) = chain_balance_of s (tx_receiver tx)" using fun_cong [OF s1(4), of "tx_receiver tx"] g(1) by simp
    then show "chain_balance_of (state_credit (tx_receiver tx) (tx_amount tx) s1) = f"
      using c(3) s1(3) n unfolding f by (simp add: s1(4))
  qed
qed

lemma apply_transaction_None:
  assumes "bal_tx tx (chain_balance_of s) = None"
  shows "\<exists>s' err. apply_transaction tx s = (s', Err err)"
  using assms by (auto simp: bal_tx_def apply_transaction_def state_debit_def and_then_def Let_def split: if_splits)

lemma apply_txs:
  assumes "table_ok n s"
  shows "case bal_txs txs (chain_balance_of s) of
      Some f \<Rightarrow> \<exists>s'. for_each apply_transaction txs s = (s', Ok ()) \<and> table_ok n s' \<and> chain_balance_of s' = f
    | None \<Rightarrow> \<exists>s' err. for_each apply_transaction txs s = (s', Err err)"
  using assms
proof (induction txs arbitrary: s)
  case (Cons tx txs)
  show ?case
  proof (cases "bal_tx tx (chain_balance_of s)")
    case None
    then obtain s' err where "apply_transaction tx s = (s', Err err)" using apply_transaction_None by blast
    then show ?thesis using None by (simp add: and_then_def)
  next
    case (Some f)
    obtain s1 where s1: "apply_transaction tx s = (s1, Ok ())" "table_ok n s1" "chain_balance_of s1 = f"
      using apply_transaction_Some [OF Cons.prems Some] .
    have "for_each apply_transaction (tx # txs) s = for_each apply_transaction txs s1" by (simp add: and_then_def s1(1))
    moreover have "bal_txs (tx # txs) (chain_balance_of s) = bal_txs txs (chain_balance_of s1)" using Some s1(3) by simp
    ultimately show ?thesis using Cons.IH [OF s1(2)] by presburger
  qed
qed simp

lemma chain_apply_cases:
  assumes "table_ok n s"
  obtains (ok) s' where "bal_txs (blk_transactions b) (chain_balance_of s) = Some (chain_balance_of s')"
      "apply_block b s = (s', Ok ())" "table_ok n s'"
    | (error) err where "bal_txs (blk_transactions b) (chain_balance_of s) = None" "apply_block b s = (s, Err err)"
proof (cases "bal_txs (blk_transactions b) (chain_balance_of s)")
  case None
  then obtain s' err where "for_each apply_transaction (blk_transactions b) s = (s', Err err)"
    using apply_txs [OF assms, of "blk_transactions b"] by auto
  then have "apply_block b s = (s, Err err)" by (simp add: apply_block_def)
  with None error show ?thesis by blast
next
  case (Some f)
  then obtain s' where "for_each apply_transaction (blk_transactions b) s = (s', Ok ())" "table_ok n s'" "chain_balance_of s' = f"
    using apply_txs [OF assms, of "blk_transactions b"] by auto
  then have "apply_block b s = (s', Ok ())" by (simp add: apply_block_def)
  then show ?thesis using ok [of s'] Some \<open>table_ok n s'\<close> \<open>chain_balance_of s' = f\<close> by simp
qed

lemma revert_transaction_undoes:
  assumes "table_ok n s" "bal_tx tx f = Some (chain_balance_of s)"
  shows "table_ok n (revert_transaction tx s) \<and> chain_balance_of (revert_transaction tx s) = f"
proof -
  let ?a = "tx_sender tx" and ?r = "tx_receiver tx" and ?v = "tx_amount tx"
  have g: "?a \<noteq> ?r" "?v \<le> f ?a" "?v \<noteq> 0" and s: "chain_balance_of s = f(?a := f ?a - ?v, ?r := f ?r + ?v)"
    using assms(2) by (auto simp: bal_tx_def split: if_splits)
  have ar: "chain_balance_of s ?a = f ?a - ?v" "chain_balance_of s ?r = f ?r + ?v"
    using fun_cong [OF s, of ?a] fun_cong [OF s, of ?r] g(1) by simp_all
  have wf: "bt_wf (bs_balances s)" and n: "bt_sum (\<lambda>x. x) (bs_balances s) = n" "n < 2 ^ 64"
    using assms(1) by (simp_all add: table_ok_def)
  let ?w = "wrap_add 64 (bt_get_or (bs_balances s) ?a 0) ?v" and ?m = "bs_balances (state_credit ?a ?v s)"
  have "f ?a - ?v + (f ?r + ?v) \<le> n" using two_balances [OF wf g(1)] ar n(1) by simp
  then have w: "?w = f ?a" using ar(1) g(2) n(2) by (simp add: wrap_add_exact)
  have m: "?m = bt_insert ?a (f ?a) (bs_balances s)" using w by (simp add: state_credit_def)
  have wfm: "bt_wf ?m" using wf m by simp
  have sum: "bt_sum (\<lambda>x. x) ?m = n + ?v" using bt_sum_update [OF wf, of ?a "f ?a"] ar(1) g(2) n(1) m by simp
  have rm: "bt_get_or ?m ?r 0 = f ?r + ?v" using m ar(2) g(1) by simp
  show ?thesis
  proof (cases "bt_get ?m ?r")
    case None
    then show ?thesis using rm g(3) by (simp add: bt_get_or_def)
  next
    case (Some b)
    then have b: "b = f ?r + ?v" using rm by (simp add: bt_get_or_def)
    have t: "bs_balances (revert_transaction tx s) = bt_insert ?r (f ?r) ?m"
      using Some b by (simp add: revert_transaction_def Let_def bt_modify_def)
    then have "table_ok n (revert_transaction tx s)"
      using bt_sum_update [OF wfm, of ?r "f ?r"] rm sum n(2) wfm by (simp add: table_ok_def)
    moreover have "chain_balance_of (revert_transaction tx s) x = f x" for x
      using t m g fun_cong [OF s, of x] by simp
    ultimately show ?thesis by blast
  qed
qed

lemma revert_txs_undo:
  assumes "bal_txs txs f = Some (chain_balance_of s)" "table_ok n s"
  shows "table_ok n (fold revert_transaction (rev txs) s) \<and> chain_balance_of (fold revert_transaction (rev txs) s) = f"
  using assms
proof (induction txs arbitrary: s rule: rev_induct)
  case (snoc tx txs)
  then obtain f1 where f1: "bal_txs txs f = Some f1" "bal_tx tx f1 = Some (chain_balance_of s)"
    by (auto simp: bal_txs_append split: Option.bind_splits)
  with revert_transaction_undoes [OF snoc.prems(2) f1(2)] snoc.IH [of "revert_transaction tx s"] show ?case by simp
qed simp

lemma revert_blocks_undo:
  assumes "bal_blocks bs f = Some (chain_balance_of s)" "table_ok n s"
  shows "table_ok n (fold revert_block (rev bs) s) \<and> chain_balance_of (fold revert_block (rev bs) s) = f"
  using assms
proof (induction bs arbitrary: s rule: rev_induct)
  case (snoc b bs)
  then obtain f1 where f1: "bal_blocks bs f = Some f1" "bal_txs (blk_transactions b) f1 = Some (chain_balance_of s)"
    by (auto simp: bal_blocks_append split: Option.bind_splits)
  with revert_txs_undo [OF f1(2) snoc.prems(2)] snoc.IH [of "revert_block b s"] show ?case by (simp add: revert_block_def)
qed simp

lemma apply_fork_blocks:
  assumes "table_ok n s" "for_each apply_fork_block bs s = (s', Ok ())"
  shows "table_ok n s' \<and> bal_blocks bs (chain_balance_of s) = Some (chain_balance_of s')"
  using assms
proof (induction bs arbitrary: s)
  case (Cons b bs)
  from Cons.prems(2) obtain s1 where s1: "apply_fork_block b s = (s1, Ok ())" "for_each apply_fork_block bs s1 = (s', Ok ())"
    unfolding for_each.simps by (auto elim!: and_then_E)
  then have "apply_block b s = (s1, Ok ())" by (simp add: apply_fork_block_def split: prod.splits)
  then have "table_ok n s1" "bal_txs (blk_transactions b) (chain_balance_of s) = Some (chain_balance_of s1)"
    using chain_apply_cases [OF Cons.prems(1), of b] by auto
  then show ?case using Cons.IH [of s1] s1(2) by simp
qed simp

section \<open>Runs of a chain\<close>

datatype chain_op =
    AddBlock Block bytes
  | AddBlockWithSet Block "bytes list"
  | Fork "Block list" "(u64, bytes list) btree_map"
  | Rollback
  | RunSpawned

primrec chain_step :: "chain_env \<Rightarrow> chain_op \<Rightarrow> Blockchain \<Rightarrow> Blockchain" where
  "chain_step e (AddBlock b public_key) bc = fst (add_block e b public_key bc)"
| "chain_step e (AddBlockWithSet b validator_keys) bc = fst (add_block_with_validator_set e b validator_keys bc)"
| "chain_step e (Fork new_chain validator_sets) bc = fst (handle_fork e new_chain validator_sets bc)"
| "chain_step e Rollback bc = rollback bc"
| "chain_step e RunSpawned bc = run_spawned bc"

primrec op_blocks :: "chain_op \<Rightarrow> Block list" where
  "op_blocks (AddBlock b public_key) = [b]"
| "op_blocks (AddBlockWithSet b validator_keys) = [b]"
| "op_blocks (Fork new_chain validator_sets) = new_chain"
| "op_blocks Rollback = []"
| "op_blocks RunSpawned = []"

text \<open>No two blocks of a set have the same hash and different transactions.\<close>

definition hash_binds :: "chain_env \<Rightarrow> Block set \<Rightarrow> bool" where
  "hash_binds e S \<longleftrightarrow> (\<forall>b\<in>S. \<forall>b'\<in>S. compute_hash (ch_crypto e) b = compute_hash (ch_crypto e) b' \<longrightarrow>
     blk_transactions b = blk_transactions b')"

definition replayed :: "(string \<Rightarrow> nat) \<Rightarrow> nat \<Rightarrow> Blockchain \<Rightarrow> bool" where
  "replayed f n bc \<longleftrightarrow> table_ok n (bc_state bc) \<and> bal_blocks (bc_chain bc) f = Some (chain_balance_of (bc_state bc))"

definition replay_inv :: "chain_env \<Rightarrow> Block set \<Rightarrow> (string \<Rightarrow> nat) \<Rightarrow> nat \<Rightarrow> Blockchain \<Rightarrow> bool" where
  "replay_inv e S f n bc \<longleftrightarrow> hash_binds e S \<and> set (bc_chain bc) \<subseteq> S \<and> replayed f n bc"

text \<open>\<open>add_block\<close> appends a block and applies it, or leaves chain and state as they are.\<close>

lemma add_block_inner_cases:
  assumes "table_ok n (bc_state bc)"
  obtains (same) "bc_chain (fst (add_block_inner validate b bc)) = bc_chain bc" "bc_state (fst (add_block_inner validate b bc)) = bc_state bc"
    | (added) s' where "bc_chain (fst (add_block_inner validate b bc)) = bc_chain bc @ [b]"
      "bc_state (fst (add_block_inner validate b bc)) = s'" "table_ok n s'" "bc_chain bc \<noteq> []"
      "bal_txs (blk_transactions b) (chain_balance_of (bc_state bc)) = Some (chain_balance_of s')"
      "blk_transactions b \<noteq> [] \<or> blk_index b \<noteq> 0 \<longrightarrow> validate (last (bc_chain bc)) b = Ok True"
proof (cases "bc_chain bc = [] \<or> (if blk_transactions b \<noteq> [] \<or> blk_index b \<noteq> 0 then validate (last (bc_chain bc)) b else Ok True) \<noteq> Ok True")
  case True
  then show ?thesis by (intro same) (auto simp: add_block_inner_def split: outcome.splits)
next
  case False
  then have run: "add_block_inner validate b bc = (case apply_block b (bc_state bc) of
      (s', Ok _) \<Rightarrow> (bc\<lparr>bc_state := s', bc_spawned := bc_spawned bc @ map canonical_tx_id (blk_transactions b),
        bc_chain := bc_chain bc @ [b]\<rparr>, Ok True)
    | (s', Err _) \<Rightarrow> (bc\<lparr>bc_state := s'\<rparr>, Ok False)
    | (s', Panic) \<Rightarrow> (bc\<lparr>bc_state := s'\<rparr>, Panic))" by (simp add: add_block_inner_def)
  show ?thesis
  proof (cases rule: chain_apply_cases [OF assms, of b])
    case (1 s')
    with run False show ?thesis by (intro added [of s']) auto
  next
    case (2 err)
    with run show ?thesis by (intro same) auto
  qed
qed

subsection \<open>The table is the replay of the chain\<close>

lemma replay_inv_add:
  assumes "replay_inv e S f n bc" "b \<in> S"
  shows "replay_inv e S f n (fst (add_block_inner validate b bc))"
proof -
  have ok: "table_ok n (bc_state bc)" using assms(1) by (simp add: replay_inv_def replayed_def)
  show ?thesis
    by (cases rule: add_block_inner_cases [OF ok, of validate b])
      (use assms in \<open>auto simp: replay_inv_def replayed_def bal_blocks_append\<close>)
qed

lemma replay_inv_rollback: "replay_inv e S f n bc \<Longrightarrow> replay_inv e S f n (rollback bc)"
proof (cases "bc_chain bc" rule: rev_cases)
  case (snoc bs b)
  assume inv: "replay_inv e S f n bc"
  then obtain f1 where "bal_blocks bs f = Some f1" "bal_txs (blk_transactions b) f1 = Some (chain_balance_of (bc_state bc))"
    using snoc by (auto simp: replay_inv_def replayed_def bal_blocks_append split: Option.bind_splits)
  then show ?thesis using inv snoc revert_txs_undo [of "blk_transactions b" f1 "bc_state bc" n]
    by (auto simp: replay_inv_def replayed_def rollback_def revert_block_def)
qed (simp add: rollback_def)

lemma common_prefix_blocks:
  assumes "hash_binds e S" "set bs \<subseteq> S" "set bs' \<subseteq> S"
  shows "bal_blocks (take (common_prefix_len e bs bs') bs) f = bal_blocks (take (common_prefix_len e bs bs') bs') f"
  using assms(2,3)
proof (induction bs arbitrary: bs' f)
  case (Cons b bs)
  show ?case
  proof (cases bs')
    case bs': (Cons b' bs'')
    have "blk_transactions b = blk_transactions b'" if "compute_hash (ch_crypto e) b = compute_hash (ch_crypto e) b'"
      using assms(1) Cons.prems bs' that by (auto simp: hash_binds_def)
    with Cons.IH [of bs''] Cons.prems bs' show ?thesis by (auto split: Option.bind_splits)
  qed simp
qed simp

lemma replay_inv_fork:
  assumes inv: "replay_inv e S f n bc" and new: "set new_chain \<subseteq> S"
  shows "replay_inv e S f n (fst (handle_fork e new_chain validator_sets bc))"
proof (cases "fst (handle_fork e new_chain validator_sets bc) = bc")
  case False
  let ?k = "common_prefix_len e (bc_chain bc) new_chain"
  let ?staged = "fold revert_block (rev (drop ?k (bc_chain bc))) (bc_state bc)"
  from False obtain s' where s': "for_each apply_fork_block (drop ?k new_chain) ?staged = (s', Ok ())"
    and res: "fst (handle_fork e new_chain validator_sets bc) = bc\<lparr>bc_state := s', bc_chain := new_chain\<rparr>"
    by (auto simp: handle_fork_def Let_def split: if_splits outcome.splits prod.splits)
  have parts: "hash_binds e S" "set (bc_chain bc) \<subseteq> S" "table_ok n (bc_state bc)"
    "bal_blocks (take ?k (bc_chain bc) @ drop ?k (bc_chain bc)) f = Some (chain_balance_of (bc_state bc))"
    using inv by (simp_all add: replay_inv_def replayed_def)
  then obtain f1 where f1: "bal_blocks (take ?k (bc_chain bc)) f = Some f1"
    "bal_blocks (drop ?k (bc_chain bc)) f1 = Some (chain_balance_of (bc_state bc))"
    unfolding bal_blocks_append by (auto split: Option.bind_splits)
  then have "table_ok n ?staged" "chain_balance_of ?staged = f1" using revert_blocks_undo parts(3) by blast+
  then have "table_ok n s'" "bal_blocks (drop ?k new_chain) f1 = Some (chain_balance_of s')"
    using apply_fork_blocks s' by blast+
  moreover have "bal_blocks (take ?k new_chain) f = Some f1"
    using common_prefix_blocks [OF parts(1,2) new] f1(1) by simp
  ultimately have "bal_blocks (take ?k new_chain @ drop ?k new_chain) f = Some (chain_balance_of s')"
    unfolding bal_blocks_append by simp
  then show ?thesis using res \<open>table_ok n s'\<close> parts(1) new by (simp add: replay_inv_def replayed_def)
qed (use inv in simp)

interpretation replay: machine "chain_step e" "replay_inv e S f n" "\<lambda>op. set (op_blocks op) \<subseteq> S"
proof
  fix bc a
  assume "replay_inv e S f n bc" "set (op_blocks a) \<subseteq> S"
  then show "replay_inv e S f n (chain_step e a bc)"
    by (cases a) (simp_all add: add_block_def add_block_with_validator_set_def replay_inv_add replay_inv_fork replay_inv_rollback,
      simp add: run_spawned_def replay_inv_def replayed_def)
qed

subsection \<open>What accepted blocks were checked for\<close>

definition block_checked :: "chain_env \<Rightarrow> Block \<Rightarrow> Block \<Rightarrow> bool" where
  "block_checked e prev b \<longleftrightarrow>
     blk_previous_hash b = compute_hash (ch_crypto e) prev \<and> validate_chain_id prev b \<and>
     verify_merkle_root e b \<and> list_all (tx_verify_signature (ch_crypto e)) (blk_transactions b) \<and>
     verify_signature (ch_crypto e) b (take SPHINCS_PK_LEN (blk_validator_signature b)) = Ok True"

abbreviation exempt :: "Block \<Rightarrow> bool" where
  "exempt b \<equiv> blk_index b = 0 \<and> blk_transactions b = []"

lemma verify_signature_own_key:
  "verify_signature c b pk = Ok True \<Longrightarrow>
   verify_signature c b (take SPHINCS_PK_LEN (blk_validator_signature b)) = Ok True"
  by (auto simp: verify_signature_def Let_def split: if_splits)

lemma validate_block_True:
  assumes "validate_block e b pk = Ok True"
  shows "verify_merkle_root e b" "list_all (tx_verify_signature (ch_crypto e)) (blk_transactions b)"
    "verify_signature (ch_crypto e) b pk = Ok True"
  using assms by (auto simp: validate_block_def bind_outcome_Ok split: if_splits outcome.splits)

lemma validate_full_checked:
  "validate_full_block e prev b pk = Ok True \<Longrightarrow> block_checked e prev b"
  using validate_block_True [of e b pk] verify_signature_own_key
  by (auto simp: validate_full_block_def block_checked_def bind_outcome_Ok split: if_splits)

lemma validate_full_set_checked:
  assumes "validate_full_block_with_validator_set e prev b keys = Ok True"
  shows "block_checked e prev b \<and> take SPHINCS_PK_LEN (blk_validator_signature b) \<in> set keys"
proof -
  have v: "validate_block e b (take SPHINCS_PK_LEN (blk_validator_signature b)) = Ok True"
    "take SPHINCS_PK_LEN (blk_validator_signature b) \<in> set keys" "validate_chain_id prev b" "validate_block_link e prev b"
    using assms by (auto simp: validate_full_block_with_validator_set_def validate_block_with_validator_set_def Let_def
        bind_outcome_Ok split: if_splits)
  with validate_block_True [OF v(1)] show ?thesis by (simp add: block_checked_def)
qed

text \<open>Every block of a chain after the first is checked against its predecessor, or exempt.\<close>

definition chain_checked :: "chain_env \<Rightarrow> Blockchain \<Rightarrow> bool" where
  "chain_checked e bc \<longleftrightarrow> successively (\<lambda>prev b. exempt b \<or> block_checked e prev b) (bc_chain bc)"

lemma chain_checked_add:
  assumes "chain_checked e bc" "\<And>prev. validate prev b = Ok True \<Longrightarrow> block_checked e prev b"
  shows "chain_checked e (fst (add_block_inner validate b bc))"
proof (cases "bc_chain (fst (add_block_inner validate b bc)) = bc_chain bc")
  case False
  then have "bc_chain (fst (add_block_inner validate b bc)) = bc_chain bc @ [b]" "bc_chain bc \<noteq> []"
    "exempt b \<or> validate (last (bc_chain bc)) b = Ok True"
    by (auto simp: add_block_inner_def split: if_splits outcome.splits prod.splits)
  then show ?thesis using assms by (auto simp: chain_checked_def successively_append_iff)
qed (use assms(1) in \<open>simp add: chain_checked_def\<close>)

lemma check_fork_checked: "check_fork e sets prev bs = Ok () \<Longrightarrow> successively (\<lambda>prev b. exempt b \<or> block_checked e prev b) (prev # bs)"
proof (induction bs arbitrary: prev)
  case (Cons b bs)
  then obtain keys where "validate_full_block_with_validator_set e prev b keys = Ok True" "check_fork e sets b bs = Ok ()"
    by (auto split: option.splits if_splits outcome.splits bool.splits)
  then show ?case using Cons.IH validate_full_set_checked by auto
qed simp

lemma chain_checked_fork:
  assumes "chain_checked e bc" shows "chain_checked e (fst (handle_fork e new_chain sets bc))"
proof (cases "fst (handle_fork e new_chain sets bc) = bc")
  case False
  then have "bc_chain (fst (handle_fork e new_chain sets bc)) = new_chain" "new_chain \<noteq> []"
    "check_fork e sets (hd new_chain) (tl new_chain) = Ok ()"
    by (auto simp: handle_fork_def Let_def split: if_splits outcome.splits prod.splits)
  then show ?thesis using check_fork_checked [of e sets "hd new_chain" "tl new_chain"] by (simp add: chain_checked_def)
qed (use assms in simp)

lemma chain_checked_rollback: "chain_checked e bc \<Longrightarrow> chain_checked e (rollback bc)"
  by (cases "bc_chain bc" rule: rev_cases) (auto simp: chain_checked_def rollback_def successively_append_iff)

interpretation checked: machine "chain_step e" "chain_checked e" "\<lambda>_. True"
proof
  fix bc a
  assume "chain_checked e bc"
  then show "chain_checked e (chain_step e a bc)"
    by (cases a) (simp_all add: add_block_def add_block_with_validator_set_def chain_checked_add validate_full_checked
        validate_full_set_checked chain_checked_fork chain_checked_rollback, simp add: run_spawned_def chain_checked_def)
qed

section \<open>Properties\<close>

text \<open>A small chain for the closed instances: one transfer, applied by two blocks.\<close>

definition small_env :: chain_env where
  "small_env = \<lparr>ch_crypto = demo_env, ch_stark_parses = \<lambda>_. True, ch_stark_verifies = \<lambda>_ _. True\<rparr>"

definition small_block :: Block where
  "small_block = demo_block\<lparr>blk_transactions :=
     [\<lparr>tx_chain_id = ''c'', tx_sender = ''a'', tx_receiver = ''b'', tx_amount = 3, tx_timestamp = 1, tx_nonce = 0, tx_signature = []\<rparr>]\<rparr>"

definition small_chain :: Blockchain where
  "small_chain = \<lparr>bc_chain = [small_block, small_block], bc_state = \<lparr>bs_balances = [(''a'', 4), (''b'', 6)]\<rparr>,
     bc_pool = TransactionPool_new 1, bc_spawned = []\<rparr>"

text \<open>
  A block hash covers the Merkle root of the block, not its transactions, and \<open>handle_fork\<close> compares the first block of
  a fork by hash without checking its Merkle root.  So a fork whose first block has other transactions under the
  header of the canonical one is adopted, with a balance table that never saw them.
\<close>

lemma hash_ignores_transactions: "compute_hash c (b\<lparr>blk_transactions := txs\<rparr>) = compute_hash c b"
proof -
  have "header_from_block (b\<lparr>blk_transactions := txs\<rparr>) = header_from_block b" by (simp add: header_from_block_def)
  then show ?thesis by (simp add: compute_hash_def)
qed

lemma fork_replaces_first_block:
  assumes "bc_chain bc = [g]" "g' = g\<lparr>blk_transactions := txs\<rparr>" "bs \<noteq> []"
    and "check_fork e validator_sets g' bs = Ok u" "for_each apply_fork_block bs (bc_state bc) = (staged, Ok v)"
  shows "handle_fork e (g' # bs) validator_sets bc = (bc\<lparr>bc_state := staged, bc_chain := g' # bs\<rparr>, Ok ())"
  using assms by (simp add: handle_fork_def hash_ignores_transactions Let_def)

text \<open>C6: The balance table is the replay of the chain, when blocks of one hash have the same transactions. Start from a
  chain whose table has the balances that its blocks give from some opening balances, with a total below \<open>2 ^ 64\<close>.
  Assume that among the blocks on the chain and in the calls no two have the same hash and different
  transactions (a hash covers the Merkle root only, and the first block of a fork is not checked against its own). Then
  after any sequence of block additions, fork adoptions, rollbacks and pool clean-ups, successful or not, the table
  still has exactly the balances that the blocks now on the chain give from the same opening balances, and the
  same total.\<close>

theorem chain_state_is_replay:
  assumes "bal_blocks (bc_chain bc) f = Some (chain_balance_of (bc_state bc))" "bt_wf (bs_balances (bc_state bc))"
    "bt_sum (\<lambda>x. x) (bs_balances (bc_state bc)) = n" "n < 2 ^ 64"
    "hash_binds e S" "set (bc_chain bc) \<subseteq> S" "list_all (\<lambda>op. set (op_blocks op) \<subseteq> S) ops"
    "bc' = fold (chain_step e) ops bc"
  shows "bal_blocks (bc_chain bc') f = Some (chain_balance_of (bc_state bc')) \<and>
    bt_sum (\<lambda>x. x) (bs_balances (bc_state bc')) = n"
proof -
  have "replay_inv e S f n bc" using assms(1-6) by (simp add: replay_inv_def replayed_def table_ok_def)
  then have "replay_inv e S f n bc'" unfolding assms(8) by (rule replay.run_inv) (rule assms(7))
  then show ?thesis by (simp add: replay_inv_def replayed_def table_ok_def)
qed

theorem chain_state_is_replay_witness:
  "chain_balance_of (bc_state (fold (chain_step small_env) [Rollback] small_chain)) = (\<lambda>_. 0)(''a'' := 7, ''b'' := 3) \<and>
   bt_sum (\<lambda>x. x) (bs_balances (bc_state (fold (chain_step small_env) [Rollback] small_chain))) = 10"
proof -
  let ?f = "(\<lambda>_. 0)(''a'' := 10) :: string \<Rightarrow> nat"
  have txs: "blk_transactions small_block = [\<lparr>tx_chain_id = ''c'', tx_sender = ''a'', tx_receiver = ''b'', tx_amount = 3,
      tx_timestamp = 1, tx_nonce = 0, tx_signature = []\<rparr>]" by (simp add: small_block_def)
  have once: "bal_blocks [small_block] ?f = Some ((\<lambda>_. 0)(''a'' := 7, ''b'' := 3))"
    by (simp add: txs bal_tx_def fun_upd_twist)
  have "bal_blocks (bc_chain small_chain) ?f = Some (chain_balance_of (bc_state small_chain))"
    by (auto simp: small_chain_def txs bal_tx_def bt_get_or_def fun_eq_iff)
  moreover have "hash_binds small_env {small_block}" by (simp add: hash_binds_def)
  ultimately have "bal_blocks (bc_chain (fold (chain_step small_env) [Rollback] small_chain)) ?f =
      Some (chain_balance_of (bc_state (fold (chain_step small_env) [Rollback] small_chain))) \<and>
    bt_sum (\<lambda>x. x) (bs_balances (bc_state (fold (chain_step small_env) [Rollback] small_chain))) = 10"
    by (intro chain_state_is_replay [of small_chain, where S = "{small_block}" and ops = "[Rollback]" and e = small_env])
      (simp_all add: small_chain_def bt_wf_def bt_sum_def)
  moreover have "bc_chain (fold (chain_step small_env) [Rollback] small_chain) = [small_block]"
    by (simp add: rollback_def small_chain_def)
  ultimately show ?thesis using once by simp
qed

text \<open>C22: On every chain grown from a first block by any sequence of calls, each later block has the hash of
  its predecessor and its chain id, carries the Merkle root of its transactions, only transactions for
  that chain signed by their senders, and a valid signature of the key it names, unless it has
  height 0 and no transactions.\<close>

theorem accepted_blocks_checked:
  "successively (\<lambda>prev b. blk_index b = 0 \<and> blk_transactions b = [] \<or>
      blk_previous_hash b = compute_hash (ch_crypto e) prev \<and> blk_chain_id b = blk_chain_id prev \<and>
      calculate_merkle_root (ch_crypto e) (blk_transactions b) = blk_merkle_root b \<and>
      list_all (\<lambda>tx. tx_chain_id tx = blk_chain_id b \<and> tx_verify_signature (ch_crypto e) tx) (blk_transactions b) \<and>
      verify_signature (ch_crypto e) b (take SPHINCS_PK_LEN (blk_validator_signature b)) = Ok True)
    (bc_chain (fold (chain_step e) ops (Blockchain_new genesis s pool)))"
proof -
  have "chain_checked e (Blockchain_new genesis s pool)" by (simp add: chain_checked_def Blockchain_new_def)
  then have "chain_checked e (fold (chain_step e) ops (Blockchain_new genesis s pool))" by (rule checked.run_inv) (simp add: list_all_iff)
  then show ?thesis unfolding chain_checked_def
    by (rule successively_mono) (auto simp: block_checked_def validate_chain_id_def verify_merkle_root_def list_all_iff)
qed

text \<open>C40: A block of height 0 without transactions is appended to any non-empty chain without a check of its hash
  link, its chain id, its signature or its proof, not only as the first block. If it does not name the hash of the tip,
  \<open>verify_chain\<close> no longer accepts the chain it extends.\<close>

theorem empty_block_accepted_unchecked:
  assumes "bc_chain bc \<noteq> []" "blk_index b = 0" "blk_transactions b = []"
  shows "add_block_with_validator_set e b keys bc = (bc\<lparr>bc_chain := bc_chain bc @ [b]\<rparr>, Ok True) \<and>
    (blk_previous_hash b \<noteq> compute_hash (ch_crypto e) (last (bc_chain bc)) \<longrightarrow>
     verify_chain e pk (bc\<lparr>bc_chain := bc_chain bc @ [b]\<rparr>) \<noteq> Ok True)"
proof -
  have "add_block_with_validator_set e b keys bc = (bc\<lparr>bc_chain := bc_chain bc @ [b]\<rparr>, Ok True)"
    using assms by (simp add: add_block_with_validator_set_def add_block_inner_def apply_block_def)
  moreover have "verify_chain_from e pk g (bs @ [b]) \<noteq> Ok True"
    if "blk_previous_hash b \<noteq> compute_hash (ch_crypto e) (last (g # bs))" for g bs
    using that by (induction bs arbitrary: g) (auto simp: bind_outcome_Ok)
  ultimately show ?thesis using assms(1) by (cases "bc_chain bc") (simp_all add: verify_chain_def)
qed

theorem empty_block_accepted_unchecked_witness:
  "add_block_with_validator_set small_env (block_genesis demo_env 0) [] small_chain =
     (small_chain\<lparr>bc_chain := bc_chain small_chain @ [block_genesis demo_env 0]\<rparr>, Ok True)"
  using empty_block_accepted_unchecked [of small_chain "block_genesis demo_env 0" small_env "[]"]
  by (simp add: small_chain_def block_new_def)

end
