(* ===== verification/Governance.thy ===== *)
theory Governance
  imports Crypto
begin

text \<open>
  \<open>crates/bleep-governance/src/governance_core.rs\<close>: proposals with their voting windows, votes and
  tallies, the payloads (whose execution is not wired and always fails), and the engine that keeps all
  proposals and advances them by epochs. A proposal contains the copy of itself that \<open>execute\<close> saves,
  so it is a datatype with selectors instead of a record. Writing the JSON snapshot of \<open>persist\<close> is
  not modelled. The lemmas show that a proposal is only ever approved by its recorded votes with
  quorum and threshold, how exactly a vote is decided, that states only move forward, and that a
  proposal nobody votes on never ends.
\<close>

section \<open>Proposals\<close>

datatype ProposalType = ProtocolParameter | ValidatorSanction | Recovery | UpgradeAuthorization

datatype ProposalState =
    PDraft | PPending | PVoting | PTallying | PAwaitingExecution | PExecuting | PExecuted
  | PRolledBack | PRejected | PExpired

text \<open>The \<open>Debug\<close> names, which error messages show.\<close>

primrec state_name :: "ProposalState \<Rightarrow> string" where
  "state_name PDraft = ''Draft''"
| "state_name PPending = ''Pending''"
| "state_name PVoting = ''Voting''"
| "state_name PTallying = ''Tallying''"
| "state_name PAwaitingExecution = ''AwaitingExecution''"
| "state_name PExecuting = ''Executing''"
| "state_name PExecuted = ''Executed''"
| "state_name PRolledBack = ''RolledBack''"
| "state_name PRejected = ''Rejected''"
| "state_name PExpired = ''Expired''"

definition is_terminal :: "ProposalState \<Rightarrow> bool" where
  "is_terminal s \<longleftrightarrow> s = PExecuted \<or> s = PRolledBack \<or> s = PRejected \<or> s = PExpired"

record VotingWindow =
  vw_start_epoch :: u64
  vw_end_epoch :: u64
  vw_min_duration :: u64

definition VotingWindow_new :: "u64 \<Rightarrow> u64 \<Rightarrow> (string, VotingWindow) outcome" where
  "VotingWindow_new start_epoch end_epoch =
     (if start_epoch \<ge> end_epoch then Err ''start_epoch must be < end_epoch''
      else let duration = end_epoch - start_epoch
           in if duration < 2 then Err ''voting duration must be >= 2 epochs''
              else Ok \<lparr>vw_start_epoch = start_epoch, vw_end_epoch = end_epoch, vw_min_duration = duration\<rparr>)"

abbreviation window_is_active :: "VotingWindow \<Rightarrow> u64 \<Rightarrow> bool" where
  "window_is_active w current_epoch \<equiv> current_epoch \<ge> vw_start_epoch w \<and> current_epoch < vw_end_epoch w"

abbreviation window_is_closed :: "VotingWindow \<Rightarrow> u64 \<Rightarrow> bool" where
  "window_is_closed w current_epoch \<equiv> current_epoch \<ge> vw_end_epoch w"

record Vote =
  vo_validator_id :: string
  vo_approval :: bool
  vo_stake :: u128
  vo_vote_epoch :: u64
  vo_signature :: bytes

definition vote_compute_hash :: "crypto_env \<Rightarrow> Vote \<Rightarrow> string \<Rightarrow> bytes" where
  "vote_compute_hash c v proposal_id =
     sha2_256 c (str_bytes (vo_validator_id v) @ str_bytes proposal_id @ [if vo_approval v then 1 else 0] @
       to_le_bytes 16 (vo_stake v) @ to_le_bytes 8 (vo_vote_epoch v))"

record VoteTally =
  vt_stake_approve :: u128
  vt_stake_reject :: u128
  vt_stake_total :: u128
  vt_approval_percentage :: u64
  vt_approved :: bool
  vt_quorum_met :: bool

definition tally_compute :: "u128 \<Rightarrow> u128 \<Rightarrow> u128 \<Rightarrow> u64 \<Rightarrow> (string, VoteTally) outcome" where
  "tally_compute stake_approve stake_reject total_network_stake approval_threshold =
     (let stake_total = sat_add 128 stake_approve stake_reject
      in if stake_total = 0 then Err ''No votes cast''
         else let quorum_threshold = wrap_add 128 (total_network_stake div 3) 1;
                  quorum_met = (stake_total > quorum_threshold);
                  approval_percentage =
                    (if stake_total = 0 then 0 else cast 64 (wrap_mul 128 stake_approve 100 div stake_total));
                  approved = (quorum_met \<and> approval_percentage \<ge> approval_threshold)
              in Ok \<lparr>vt_stake_approve = stake_approve, vt_stake_reject = stake_reject, vt_stake_total = stake_total,
                     vt_approval_percentage = approval_percentage, vt_approved = approved, vt_quorum_met = quorum_met\<rparr>)"

datatype GovernanceError =
    InvalidStateTransition string | VotingNotActive | VotingWindowExpired | DoubleVoting string
  | QuorumNotMet | ThresholdNotMet | ProposalNotFound | InvalidValidator | ExecutionFailed string
  | RollbackFailed string | InternalError string | InvalidProposal string

datatype SanctionAction = SlashAction u64 | RemoveAction | JailAction u64

datatype GovernancePayload =
    ProtocolParameterChange string u128
  | ValidatorSanctionPayload string SanctionAction
  | RecoveryPayload string bytes
  | UpgradeAuthorizationPayload string string bytes

primrec payload_type :: "GovernancePayload \<Rightarrow> string" where
  "payload_type (ProtocolParameterChange rule_name new_value) = ''protocol parameter change''"
| "payload_type (ValidatorSanctionPayload validator_id action) = ''validator sanction''"
| "payload_type (RecoveryPayload description recovery_data) = ''recovery''"
| "payload_type (UpgradeAuthorizationPayload module_name version code_hash) = ''upgrade authorization''"

definition payload_execute :: "GovernancePayload \<Rightarrow> (string, unit) outcome" where
  "payload_execute p =
     Err (payload_type p @ '' execution not implemented: governance execution context is not wired'')"

datatype Proposal = MkProposal
  (pp_id: string) (pp_type: ProposalType) (pp_title: string) (pp_description: string)
  (pp_state: ProposalState) (pp_window: VotingWindow) (pp_execution_epoch: u64) (pp_threshold: u64)
  (pp_votes: "(string, Vote) btree_map") (pp_tally: "VoteTally option") (pp_payload: GovernancePayload)
  (pp_previous: "Proposal option") (pp_created: u64)

text \<open>Assignments to one field.\<close>

fun with_state :: "ProposalState \<Rightarrow> Proposal \<Rightarrow> Proposal" where
  "with_state s (MkProposal i ty t d _ w ee th vs ta pl pr ce) = MkProposal i ty t d s w ee th vs ta pl pr ce"

fun with_votes :: "(string, Vote) btree_map \<Rightarrow> Proposal \<Rightarrow> Proposal" where
  "with_votes vs (MkProposal i ty t d s w ee th _ ta pl pr ce) = MkProposal i ty t d s w ee th vs ta pl pr ce"

fun with_tally :: "VoteTally option \<Rightarrow> Proposal \<Rightarrow> Proposal" where
  "with_tally ta (MkProposal i ty t d s w ee th vs _ pl pr ce) = MkProposal i ty t d s w ee th vs ta pl pr ce"

fun with_previous :: "Proposal option \<Rightarrow> Proposal \<Rightarrow> Proposal" where
  "with_previous pr (MkProposal i ty t d s w ee th vs ta pl _ ce) = MkProposal i ty t d s w ee th vs ta pl pr ce"

definition Proposal_new ::
  "string \<Rightarrow> ProposalType \<Rightarrow> string \<Rightarrow> string \<Rightarrow> VotingWindow \<Rightarrow> u64 \<Rightarrow> u64 \<Rightarrow> GovernancePayload \<Rightarrow> u64 \<Rightarrow> Proposal" where
  "Proposal_new i ty title description window execution_epoch threshold payload created_epoch =
     MkProposal i ty title description PDraft window execution_epoch threshold [] None payload None created_epoch"

type_synonym proposal_result = "Proposal \<times> (GovernanceError, unit) outcome"

definition proposal_submit :: "Proposal \<Rightarrow> proposal_result" where
  "proposal_submit p =
     (if pp_state p \<noteq> PDraft
      then (p, Err (InvalidStateTransition (''Cannot submit proposal in state '' @ state_name (pp_state p))))
      else (with_state PPending p, Ok ()))"

definition proposal_start_voting :: "u64 \<Rightarrow> Proposal \<Rightarrow> proposal_result" where
  "proposal_start_voting current_epoch p =
     (if pp_state p \<noteq> PPending
      then (p, Err (InvalidStateTransition (''Cannot start voting from state '' @ state_name (pp_state p))))
      else if current_epoch < vw_start_epoch (pp_window p) then (p, Err VotingNotActive)
      else (with_state PVoting p, Ok ()))"

definition proposal_cast_vote :: "Vote \<Rightarrow> u64 \<Rightarrow> Proposal \<Rightarrow> proposal_result" where
  "proposal_cast_vote v current_epoch p =
     (if pp_state p \<noteq> PVoting then (p, Err VotingNotActive)
      else if \<not> window_is_active (pp_window p) current_epoch then (p, Err VotingWindowExpired)
      else if bt_contains (pp_votes p) (vo_validator_id v) then (p, Err (DoubleVoting (vo_validator_id v)))
      else (with_votes (bt_insert (vo_validator_id v) v (pp_votes p)) p, Ok ()))"

text \<open>The loop of \<open>close_voting\<close> over the votes.\<close>

definition count_vote :: "Vote \<Rightarrow> u128 \<times> u128 \<Rightarrow> u128 \<times> u128" where
  "count_vote v acc =
     (case acc of (stake_approve, stake_reject) \<Rightarrow>
        if vo_approval v then (sat_add 128 stake_approve (vo_stake v), stake_reject)
        else (stake_approve, sat_add 128 stake_reject (vo_stake v)))"

definition proposal_close_voting :: "u64 \<Rightarrow> u128 \<Rightarrow> Proposal \<Rightarrow> proposal_result" where
  "proposal_close_voting current_epoch total_network_stake p =
     (if pp_state p \<noteq> PVoting then (p, Err (InvalidStateTransition ''Can only close voting from Voting state''))
      else if \<not> window_is_closed (pp_window p) current_epoch then (p, Err VotingNotActive)
      else case fold count_vote (bt_values (pp_votes p)) (0, 0) of
        (stake_approve, stake_reject) \<Rightarrow>
          (case map_err InternalError (tally_compute stake_approve stake_reject total_network_stake (pp_threshold p)) of
             Err e \<Rightarrow> (p, Err e)
           | Panic \<Rightarrow> (p, Panic)
           | Ok tally \<Rightarrow>
               let p1 = with_tally (Some tally) p
               in if vt_approved tally then (with_state PAwaitingExecution p1, Ok ())
                  else if \<not> vt_quorum_met tally then (with_state PExpired p1, Ok ())
                  else (with_state PRejected p1, Ok ())))"

definition proposal_execute :: "u64 \<Rightarrow> Proposal \<Rightarrow> proposal_result" where
  "proposal_execute current_epoch p =
     (if pp_state p \<noteq> PAwaitingExecution
      then (p, Err (InvalidStateTransition (''Cannot execute from state '' @ state_name (pp_state p))))
      else if current_epoch < pp_execution_epoch p then (p, Err (ExecutionFailed ''Execution epoch not reached''))
      else let p1 = with_state PExecuting (with_previous (Some p) p)
           in case payload_execute (pp_payload p1) of
                Ok _ \<Rightarrow> (with_state PExecuted p1, Ok ())
              | Err e \<Rightarrow> (with_state PRolledBack p1, Err (ExecutionFailed e))
              | Panic \<Rightarrow> (p1, Panic))"

definition proposal_rollback :: "Proposal \<Rightarrow> proposal_result" where
  "proposal_rollback p =
     (if pp_state p \<noteq> PRolledBack then (p, Err (InvalidStateTransition ''Can only rollback from RolledBack state''))
      else case pp_previous p of
             Some prev \<Rightarrow> (with_state PRejected prev, Ok ())
           | None \<Rightarrow> (p, Err (RollbackFailed ''No previous state to restore'')))"

section \<open>The engine\<close>

record GovernanceEngine =
  ge_proposals :: "(string, Proposal) btree_map"
  ge_proposal_queue :: "string list"
  ge_total_network_stake :: u128

definition GovernanceEngine_new :: "u128 \<Rightarrow> GovernanceEngine" where
  "GovernanceEngine_new total_network_stake =
     \<lparr>ge_proposals = [], ge_proposal_queue = [], ge_total_network_stake = total_network_stake\<rparr>"

definition submit_proposal :: "Proposal \<Rightarrow> GovernanceEngine \<Rightarrow> GovernanceEngine \<times> (GovernanceError, string) outcome" where
  "submit_proposal p g =
     (if bt_contains (ge_proposals g) (pp_id p) then (g, Err (InvalidProposal ''Proposal already exists''))
      else case proposal_submit p of
             (p', Ok _) \<Rightarrow> (g\<lparr>ge_proposals := bt_insert (pp_id p') p' (ge_proposals g),
                                ge_proposal_queue := ge_proposal_queue g @ [pp_id p']\<rparr>, Ok (pp_id p'))
           | (_, Err e) \<Rightarrow> (g, Err e)
           | (_, Panic) \<Rightarrow> (g, Panic))"

abbreviation get_proposal :: "GovernanceEngine \<Rightarrow> string \<Rightarrow> (GovernanceError, Proposal) outcome" where
  "get_proposal g i \<equiv> ok_or ProposalNotFound (bt_get (ge_proposals g) i)"

text \<open>\<open>get_proposal_mut\<close> followed by a call on the proposal.\<close>

definition on_proposal ::
  "string \<Rightarrow> (Proposal \<Rightarrow> proposal_result) \<Rightarrow> GovernanceEngine \<Rightarrow> GovernanceEngine \<times> (GovernanceError, unit) outcome" where
  "on_proposal i f g =
     (case bt_get (ge_proposals g) i of
        None \<Rightarrow> (g, Err ProposalNotFound)
      | Some p \<Rightarrow> (case f p of (p', r) \<Rightarrow> (g\<lparr>ge_proposals := bt_insert i p' (ge_proposals g)\<rparr>, r)))"

definition gov_start_voting :: "string \<Rightarrow> u64 \<Rightarrow> GovernanceEngine \<Rightarrow> GovernanceEngine \<times> (GovernanceError, unit) outcome" where
  "gov_start_voting i current_epoch g = on_proposal i (proposal_start_voting current_epoch) g"

definition gov_cast_vote :: "string \<Rightarrow> Vote \<Rightarrow> u64 \<Rightarrow> GovernanceEngine \<Rightarrow> GovernanceEngine \<times> (GovernanceError, unit) outcome" where
  "gov_cast_vote i v current_epoch g = on_proposal i (proposal_cast_vote v current_epoch) g"

definition gov_close_voting :: "string \<Rightarrow> u64 \<Rightarrow> GovernanceEngine \<Rightarrow> GovernanceEngine \<times> (GovernanceError, unit) outcome" where
  "gov_close_voting i current_epoch g = on_proposal i (proposal_close_voting current_epoch (ge_total_network_stake g)) g"

definition execute_proposal :: "string \<Rightarrow> u64 \<Rightarrow> GovernanceEngine \<Rightarrow> GovernanceEngine \<times> (GovernanceError, unit) outcome" where
  "execute_proposal i current_epoch g = on_proposal i (proposal_execute current_epoch) g"

abbreviation get_proposals_by_state :: "GovernanceEngine \<Rightarrow> ProposalState \<Rightarrow> Proposal list" where
  "get_proposals_by_state g s \<equiv> filter (\<lambda>p. pp_state p = s) (bt_values (ge_proposals g))"

text \<open>The body of the loop of \<open>advance_epoch\<close>, on the proposal behind one identifier.\<close>

definition advance_proposal :: "u64 \<Rightarrow> u128 \<Rightarrow> Proposal \<Rightarrow> proposal_result" where
  "advance_proposal new_epoch total_network_stake p =
     (let p1 = (if pp_state p = PPending \<and> new_epoch \<ge> vw_start_epoch (pp_window p)
                then fst (proposal_start_voting new_epoch p) else p);
          p2 = (if pp_state p1 = PVoting \<and> new_epoch \<ge> vw_end_epoch (pp_window p1)
                then fst (proposal_close_voting new_epoch total_network_stake p1) else p1)
      in if pp_state p2 = PAwaitingExecution \<and> new_epoch \<ge> pp_execution_epoch p2
         then proposal_execute new_epoch p2 else (p2, Ok ()))"

definition advance_one :: "u64 \<Rightarrow> string \<Rightarrow> GovernanceEngine \<Rightarrow> GovernanceEngine \<times> (GovernanceError, unit) outcome" where
  "advance_one new_epoch i g =
     (case bt_get (ge_proposals g) i of
        None \<Rightarrow> (g, Ok ())
      | Some p \<Rightarrow> on_proposal i (advance_proposal new_epoch (ge_total_network_stake g)) g)"

definition gov_advance_epoch :: "u64 \<Rightarrow> GovernanceEngine \<Rightarrow> GovernanceEngine \<times> (GovernanceError, unit) outcome" where
  "gov_advance_epoch new_epoch g = for_each (advance_one new_epoch) (ge_proposal_queue g) g"

section \<open>Runs of the engine\<close>

datatype gov_op =
    Submit Proposal
  | StartVoting string u64
  | CastVote string Vote u64
  | CloseVoting string u64
  | ExecuteProposal string u64
  | AdvanceEpoch u64

primrec gov_step :: "gov_op \<Rightarrow> GovernanceEngine \<Rightarrow> GovernanceEngine" where
  "gov_step (Submit p) g = fst (submit_proposal p g)"
| "gov_step (StartVoting i ep) g = fst (gov_start_voting i ep g)"
| "gov_step (CastVote i v ep) g = fst (gov_cast_vote i v ep g)"
| "gov_step (CloseVoting i ep) g = fst (gov_close_voting i ep g)"
| "gov_step (ExecuteProposal i ep) g = fst (execute_proposal i ep g)"
| "gov_step (AdvanceEpoch ep) g = fst (gov_advance_epoch ep g)"

lemma with_simps [simp]:
  "pp_state (with_state s p) = s" "pp_votes (with_state s p) = pp_votes p" "pp_tally (with_state s p) = pp_tally p"
  "pp_threshold (with_state s p) = pp_threshold p" "pp_window (with_state s p) = pp_window p" "pp_id (with_state s p) = pp_id p"
  "pp_state (with_votes vs p) = pp_state p" "pp_votes (with_votes vs p) = vs" "pp_tally (with_votes vs p) = pp_tally p"
  "pp_threshold (with_votes vs p) = pp_threshold p" "pp_window (with_votes vs p) = pp_window p"
  "pp_state (with_tally t p) = pp_state p" "pp_votes (with_tally t p) = pp_votes p" "pp_tally (with_tally t p) = t"
  "pp_threshold (with_tally t p) = pp_threshold p" "pp_window (with_tally t p) = pp_window p"
  "pp_votes (with_previous q p) = pp_votes p" "pp_tally (with_previous q p) = pp_tally p"
  "pp_threshold (with_previous q p) = pp_threshold p" "pp_window (with_previous q p) = pp_window p"
  by (cases p; simp)+

text \<open>What one call does to one proposal; \<open>n\<close> is the network stake the engine was created with.\<close>

inductive proposal_step :: "u128 \<Rightarrow> Proposal \<Rightarrow> Proposal \<Rightarrow> bool" for n :: u128 where
  start: "proposal_step n p (fst (proposal_start_voting ep p))"
| vote: "proposal_step n p (fst (proposal_cast_vote v ep p))"
| close: "proposal_step n p (fst (proposal_close_voting ep n p))"
| execute: "proposal_step n p (fst (proposal_execute ep p))"

lemma advance_proposal_steps: "(proposal_step n)\<^sup>*\<^sup>* p (fst (advance_proposal ep n p))"
proof -
  define p1 where "p1 = (if pp_state p = PPending \<and> ep \<ge> vw_start_epoch (pp_window p) then fst (proposal_start_voting ep p) else p)"
  define p2 where "p2 = (if pp_state p1 = PVoting \<and> ep \<ge> vw_end_epoch (pp_window p1) then fst (proposal_close_voting ep n p1) else p1)"
  have "(proposal_step n)\<^sup>*\<^sup>* p p1" by (auto simp: p1_def intro: proposal_step.start)
  also have "(proposal_step n)\<^sup>*\<^sup>* p1 p2" by (auto simp: p2_def intro: proposal_step.close)
  also have "(proposal_step n)\<^sup>*\<^sup>* p2 (fst (advance_proposal ep n p))"
    by (auto simp: advance_proposal_def Let_def p1_def [symmetric] p2_def [symmetric] intro: proposal_step.execute)
  finally show ?thesis .
qed

text \<open>The engine keeps its stake, and every stored proposal moves by \<open>proposal_step\<close>.\<close>

definition moves :: "u128 \<Rightarrow> string \<Rightarrow> Proposal \<Rightarrow> GovernanceEngine \<Rightarrow> bool" where
  "moves n i p g \<longleftrightarrow> ge_total_network_stake g = n \<and>
     (\<exists>p'. bt_get (ge_proposals g) i = Some p' \<and> (proposal_step n)\<^sup>*\<^sup>* p p')"

lemma moves_on_proposal:
  assumes "moves n i p g" "\<And>q. (proposal_step n)\<^sup>*\<^sup>* q (fst (f q))"
  shows "moves n i p (fst (on_proposal j f g))"
proof -
  obtain p' where p': "bt_get (ge_proposals g) i = Some p'" "(proposal_step n)\<^sup>*\<^sup>* p p'" "ge_total_network_stake g = n"
    using assms(1) by (auto simp: moves_def)
  have "(proposal_step n)\<^sup>*\<^sup>* p (fst (f p'))" using p'(2) assms(2) by (rule rtranclp_trans)
  with p' show ?thesis by (auto simp: moves_def on_proposal_def split: option.splits prod.splits)
qed

lemma for_each_inv:
  assumes "\<And>x s. P s \<Longrightarrow> P (fst (f x s))" shows "P s \<Longrightarrow> P (fst (for_each f xs s))"
proof (induction xs arbitrary: s)
  case (Cons x xs)
  then show ?case unfolding for_each.simps by (intro and_then_keeps [where P = P]) (auto intro: assms)
qed simp

lemma moves_advance: "moves n i p g \<Longrightarrow> moves n i p (fst (gov_advance_epoch ep g))"
  unfolding gov_advance_epoch_def
proof (rule for_each_inv)
  fix j s
  assume m: "moves n i p s"
  then have "ge_total_network_stake s = n" by (simp add: moves_def)
  then show "moves n i p (fst (advance_one ep j s))"
    using m moves_on_proposal [OF m, of "advance_proposal ep n" j] advance_proposal_steps
    by (auto simp: advance_one_def split: option.splits)
qed

lemma moves_step: "moves n i p g \<Longrightarrow> moves n i p (gov_step a g)"
proof (cases a)
  case (Submit q)
  assume "moves n i p g"
  then show ?thesis using Submit
    by (auto simp: moves_def submit_proposal_def bt_contains_get proposal_submit_def split: outcome.splits prod.splits)
next
  case (CloseVoting j ep)
  assume m: "moves n i p g"
  then have "ge_total_network_stake g = n" by (simp add: moves_def)
  then show ?thesis using m CloseVoting
    by (auto simp: gov_close_voting_def intro!: moves_on_proposal proposal_step.close r_into_rtranclp)
qed (auto simp: gov_start_voting_def gov_cast_vote_def execute_proposal_def
      intro!: moves_on_proposal moves_advance r_into_rtranclp proposal_step.start proposal_step.vote proposal_step.execute)

interpretation gov: lifecycle gov_step "\<lambda>g :: GovernanceEngine. if ge_total_network_stake g = n then bt_get (ge_proposals g) i else None" "proposal_step n"
proof
  fix g :: GovernanceEngine and p a
  assume "(if ge_total_network_stake g = n then bt_get (ge_proposals g) i else None) = Some p"
  then have "moves n i p g" by (auto simp: moves_def split: if_splits)
  then have "moves n i p (gov_step a g)" by (rule moves_step)
  then show "\<exists>y. (if ge_total_network_stake (gov_step a g) = n then bt_get (ge_proposals (gov_step a g)) i else None) = Some y \<and>
      (proposal_step n)\<^sup>*\<^sup>* p y" by (auto simp: moves_def)
qed

subsection \<open>No execution without quorum and threshold\<close>

definition tally_of :: "u128 \<Rightarrow> Proposal \<Rightarrow> (string, VoteTally) outcome" where
  "tally_of n p =
     (case fold count_vote (bt_values (pp_votes p)) (0, 0) of (a, r) \<Rightarrow> tally_compute a r n (pp_threshold p))"

definition tallied :: "u128 \<Rightarrow> Proposal \<Rightarrow> (VoteTally \<Rightarrow> bool) \<Rightarrow> bool" where
  "tallied n p Q \<longleftrightarrow> (\<exists>t. tally_of n p = Ok t \<and> pp_tally p = Some t \<and> Q t)"

definition proposal_inv :: "u128 \<Rightarrow> Proposal \<Rightarrow> bool" where
  "proposal_inv n p \<longleftrightarrow>
     (case pp_state p of
        PPending \<Rightarrow> True
      | PVoting \<Rightarrow> True
      | PAwaitingExecution \<Rightarrow> tallied n p vt_approved
      | PRolledBack \<Rightarrow> tallied n p vt_approved
      | PRejected \<Rightarrow> tallied n p (\<lambda>t. \<not> vt_approved t \<and> vt_quorum_met t)
      | PExpired \<Rightarrow> tallied n p (\<lambda>t. \<not> vt_quorum_met t)
      | _ \<Rightarrow> False)"

lemma tally_of_with [simp]:
  "tally_of n (with_state s p) = tally_of n p" "tally_of n (with_tally t p) = tally_of n p"
  "tally_of n (with_previous q p) = tally_of n p"
  by (simp_all add: tally_of_def)

lemma close_voting_alt:
  "proposal_close_voting ep n p =
     (if pp_state p \<noteq> PVoting then (p, Err (InvalidStateTransition ''Can only close voting from Voting state''))
      else if \<not> window_is_closed (pp_window p) ep then (p, Err VotingNotActive)
      else case tally_of n p of
             Err e \<Rightarrow> (p, Err (InternalError e))
           | Panic \<Rightarrow> (p, Panic)
           | Ok t \<Rightarrow> (with_state (if vt_approved t then PAwaitingExecution else if \<not> vt_quorum_met t then PExpired else PRejected)
                        (with_tally (Some t) p), Ok ()))"
  by (auto simp: proposal_close_voting_def tally_of_def Let_def split: prod.splits outcome.splits)

lemma proposal_inv_step: "proposal_step n p p' \<Longrightarrow> proposal_inv n p \<Longrightarrow> proposal_inv n p'"
proof (induction rule: proposal_step.induct)
  case (start p ep)
  then show ?case by (auto simp: proposal_start_voting_def) (simp add: proposal_inv_def)
next
  case (vote p v ep)
  then show ?case by (auto simp: proposal_cast_vote_def) (simp add: proposal_inv_def)
next
  case (close p ep)
  then show ?case by (auto simp: close_voting_alt split: outcome.splits) (simp_all add: proposal_inv_def tallied_def)
next
  case (execute p ep)
  then show ?case by (auto simp: proposal_execute_def payload_execute_def Let_def) (simp add: proposal_inv_def tallied_def)
qed

lemma proposal_inv_steps: "(proposal_step n)\<^sup>*\<^sup>* p p' \<Longrightarrow> proposal_inv n p \<Longrightarrow> proposal_inv n p'"
  by (induction rule: rtranclp_induct) (auto intro: proposal_inv_step)

lemma on_proposal_absent:
  "bt_get (ge_proposals g) i = None \<Longrightarrow> bt_get (ge_proposals (fst (on_proposal j f g))) i = None"
  by (auto simp: on_proposal_def split: option.splits prod.splits)

lemma advance_absent:
  "bt_get (ge_proposals g) i = None \<Longrightarrow> bt_get (ge_proposals (fst (gov_advance_epoch ep g))) i = None"
  unfolding gov_advance_epoch_def
  by (rule for_each_inv [where P = "\<lambda>g. bt_get (ge_proposals g) i = None"]) (auto simp: advance_one_def on_proposal_absent split: option.splits)

lemma stake_kept: "ge_total_network_stake (gov_step a g) = ge_total_network_stake g"
proof -
  have one: "ge_total_network_stake (fst (on_proposal j f g)) = ge_total_network_stake g" for j f and g :: GovernanceEngine
    by (auto simp: on_proposal_def split: option.splits prod.splits)
  have "ge_total_network_stake (fst (advance_one ep j g)) = ge_total_network_stake g" for ep j and g :: GovernanceEngine
    by (simp add: advance_one_def one split: option.split)
  then have "ge_total_network_stake (fst (gov_advance_epoch ep g)) = ge_total_network_stake g" for ep
    unfolding gov_advance_epoch_def by (rule for_each_keeps)
  then show ?thesis
    by (cases a) (auto simp: one gov_start_voting_def gov_cast_vote_def gov_close_voting_def execute_proposal_def
        submit_proposal_def split: outcome.splits prod.splits)
qed

text \<open>A proposal that was not there has just been submitted.\<close>

lemma appeared:
  assumes "bt_get (ge_proposals g) i = None" "bt_get (ge_proposals (gov_step a g)) i = Some p"
  shows "pp_state p = PPending"
proof (cases a)
  case (Submit q)
  then show ?thesis using assms
    by (auto simp: submit_proposal_def proposal_submit_def split: if_splits outcome.splits prod.splits)
qed (use assms in \<open>auto simp: gov_start_voting_def gov_cast_vote_def gov_close_voting_def execute_proposal_def
      on_proposal_absent advance_absent\<close>)

definition gov_inv :: "u128 \<Rightarrow> GovernanceEngine \<Rightarrow> bool" where
  "gov_inv n g \<longleftrightarrow> ge_total_network_stake g = n \<and> (\<forall>i p. bt_get (ge_proposals g) i = Some p \<longrightarrow> proposal_inv n p)"

interpretation gov_run: machine gov_step "gov_inv n" "\<lambda>_. True"
proof
  fix g :: GovernanceEngine and a
  assume inv: "gov_inv n g"
  have "proposal_inv n p'" if p': "bt_get (ge_proposals (gov_step a g)) i = Some p'" for i p'
  proof (cases "bt_get (ge_proposals g) i")
    case None
    then have "pp_state p' = PPending" using appeared p' by blast
    then show ?thesis by (simp add: proposal_inv_def)
  next
    case (Some p)
    then have "moves n i p (gov_step a g)" using inv by (intro moves_step) (auto simp: moves_def gov_inv_def)
    then have "(proposal_step n)\<^sup>*\<^sup>* p p'" using p' by (auto simp: moves_def)
    then show ?thesis by (rule proposal_inv_steps) (use inv Some in \<open>simp add: gov_inv_def\<close>)
  qed
  then show "gov_inv n (gov_step a g)" using inv by (simp add: gov_inv_def stake_kept)
qed

lemma tally_approved: "tally_compute a r n th = Ok t \<Longrightarrow> vt_approved t \<Longrightarrow> vt_quorum_met t \<and> th \<le> vt_approval_percentage t"
  by (auto simp: tally_compute_def Let_def split: if_splits)

subsection \<open>Proposals move forward\<close>

inductive state_arrow :: "ProposalState \<Rightarrow> ProposalState \<Rightarrow> bool" where
  "state_arrow PPending PVoting"
| "state_arrow PVoting PAwaitingExecution"
| "state_arrow PVoting PExpired"
| "state_arrow PVoting PRejected"
| "state_arrow PAwaitingExecution PRolledBack"

definition forward :: "Proposal \<Rightarrow> Proposal \<Rightarrow> bool" where
  "forward p p' \<longleftrightarrow> state_arrow\<^sup>*\<^sup>* (pp_state p) (pp_state p') \<and>
     (\<forall>v x. bt_get (pp_votes p) v = Some x \<longrightarrow> bt_get (pp_votes p') v = Some x) \<and>
     (is_terminal (pp_state p) \<longrightarrow> p' = p)"

lemma forward_refl [simp]: "forward p p"
  by (simp add: forward_def)

lemma forward_step: "proposal_step n p p' \<Longrightarrow> forward p p'"
proof (induction rule: proposal_step.induct)
  case (start p ep)
  show ?case by (auto simp: proposal_start_voting_def) (auto simp: forward_def is_terminal_def intro: state_arrow.intros)
next
  case (vote p v ep)
  show ?case by (auto simp: proposal_cast_vote_def) (auto simp: forward_def is_terminal_def bt_contains_get)
next
  case (close p ep)
  show ?case by (auto simp: close_voting_alt split: outcome.splits)
    (auto simp: forward_def is_terminal_def intro: state_arrow.intros)
next
  case (execute p ep)
  show ?case by (auto simp: proposal_execute_def payload_execute_def Let_def)
    (auto simp: forward_def is_terminal_def intro: state_arrow.intros)
qed

lemma forward_trans: "forward p q \<Longrightarrow> forward q r \<Longrightarrow> forward p r"
  by (auto simp: forward_def intro: rtranclp_trans)

lemma forward_steps: "(proposal_step n)\<^sup>*\<^sup>* p p' \<Longrightarrow> forward p p'"
  by (induction rule: rtranclp_induct) (auto intro: forward_trans forward_step)

subsection \<open>Counting\<close>

abbreviation stake_for :: "Proposal \<Rightarrow> nat" where
  "stake_for p \<equiv> sum_list (map vo_stake (filter vo_approval (bt_values (pp_votes p))))"

abbreviation stake_against :: "Proposal \<Rightarrow> nat" where
  "stake_against p \<equiv> sum_list (map vo_stake (filter (\<lambda>v. \<not> vo_approval v) (bt_values (pp_votes p))))"

text \<open>Stakes at the edge of their type: sums saturate, the percentage wraps.\<close>

lemma count_votes_saturate:
  "fold count_vote vs (min a (2 ^ 128 - 1), min r (2 ^ 128 - 1)) =
     (min (a + sum_list (map vo_stake (filter vo_approval vs))) (2 ^ 128 - 1),
      min (r + sum_list (map vo_stake (filter (\<lambda>v. \<not> vo_approval v) vs))) (2 ^ 128 - 1))"
proof (induction vs arbitrary: a r)
  case (Cons v vs)
  have "count_vote v (min a (2 ^ 128 - 1), min r (2 ^ 128 - 1)) =
      (if vo_approval v then (min (a + vo_stake v) (2 ^ 128 - 1), min r (2 ^ 128 - 1))
       else (min a (2 ^ 128 - 1), min (r + vo_stake v) (2 ^ 128 - 1)))"
    by (auto simp: count_vote_def sat_add_def)
  then show ?case using Cons.IH [of "a + vo_stake v" r] Cons.IH [of a "r + vo_stake v"] by (simp add: add.assoc)
qed simp

abbreviation stake_cap :: "nat \<Rightarrow> nat" where
  "stake_cap x \<equiv> min x (2 ^ 128 - 1)"

lemma tally_compute_general:
  assumes "0 < a + r" "n < 2 ^ 128"
  shows "\<exists>t. tally_compute (stake_cap a) (stake_cap r) n th = Ok t \<and> vt_quorum_met t = (n div 3 + 1 < stake_cap (a + r)) \<and>
    vt_approved t = (n div 3 + 1 < stake_cap (a + r) \<and> th \<le> (stake_cap a * 100) mod 2 ^ 128 div stake_cap (a + r))"
proof -
  have s: "sat_add 128 (stake_cap a) (stake_cap r) = stake_cap (a + r)" "wrap_add 128 (n div 3) 1 = n div 3 + 1"
    using assms(2) by (simp_all add: sat_add_def wrap_add_exact)
  have "(stake_cap a * 100) mod 2 ^ 128 div stake_cap (a + r) \<le> (100 * stake_cap (a + r)) div stake_cap (a + r)"
    by (rule div_le_mono, rule order_trans [OF mod_less_eq_dividend]) simp
  also have "\<dots> = 100" using assms(1) by (intro nonzero_mult_div_cancel_right) simp
  finally have "cast 64 ((stake_cap a * 100) mod 2 ^ 128 div stake_cap (a + r)) = (stake_cap a * 100) mod 2 ^ 128 div stake_cap (a + r)"
    by (intro cast_exact) simp
  then show ?thesis using assms(1) unfolding tally_compute_def Let_def s wrap_mul_def by auto
qed

lemma percentage_exact:
  assumes "100 * (a + r) < 2 ^ 128" "0 < a + r"
  shows "(th \<le> (stake_cap a * 100) mod 2 ^ 128 div stake_cap (a + r)) = (th * (a + r) \<le> 100 * a)"
proof -
  have "stake_cap a = a" "stake_cap (a + r) = a + r" "(a * 100) mod 2 ^ 128 = 100 * a" using assms(1) by simp_all
  then show ?thesis using assms(2) by (simp add: less_eq_div_iff_mult_less_eq)
qed

subsection \<open>A proposal nobody votes on\<close>

primrec op_epoch :: "gov_op \<Rightarrow> u64 option" where
  "op_epoch (Submit p) = None"
| "op_epoch (StartVoting i ep) = Some ep"
| "op_epoch (CastVote i v ep) = Some ep"
| "op_epoch (CloseVoting i ep) = Some ep"
| "op_epoch (ExecuteProposal i ep) = Some ep"
| "op_epoch (AdvanceEpoch ep) = Some ep"

definition not_before :: "u64 \<Rightarrow> gov_op \<Rightarrow> bool" where
  "not_before e a \<longleftrightarrow> (case op_epoch a of None \<Rightarrow> True | Some ep \<Rightarrow> e \<le> ep)"

definition stuck :: "string \<Rightarrow> Proposal \<Rightarrow> u64 \<Rightarrow> GovernanceEngine \<Rightarrow> bool" where
  "stuck i p e g \<longleftrightarrow> bt_get (ge_proposals g) i = Some p \<and> pp_state p = PVoting \<and> pp_votes p = [] \<and>
     vw_end_epoch (pp_window p) \<le> e"

lemma stuck_calls:
  assumes "pp_state p = PVoting" "pp_votes p = []" "vw_end_epoch (pp_window p) \<le> e" "e \<le> ep"
  shows "fst (proposal_start_voting ep p) = p" "fst (proposal_cast_vote v ep p) = p"
    "fst (proposal_close_voting ep n p) = p" "fst (proposal_execute ep p) = p" "fst (advance_proposal ep n p) = p"
proof -
  show close: "fst (proposal_close_voting ep n p) = p"
    using assms by (simp add: close_voting_alt tally_of_def tally_compute_def sat_add_def)
  show "fst (advance_proposal ep n p) = p" using assms close by (simp add: advance_proposal_def)
qed (use assms in \<open>simp_all add: proposal_start_voting_def proposal_cast_vote_def proposal_execute_def\<close>)

lemma stuck_on_proposal:
  assumes "stuck i p e g" "fst (f p) = p" shows "stuck i p e (fst (on_proposal j f g))"
  using assms by (auto simp: stuck_def on_proposal_def split: option.splits prod.splits)

lemma stuck_advance: "stuck i p e g \<Longrightarrow> e \<le> ep \<Longrightarrow> stuck i p e (fst (gov_advance_epoch ep g))"
  unfolding gov_advance_epoch_def
proof (rule for_each_inv)
  fix j s
  assume st: "stuck i p e s" and "e \<le> ep"
  then have "fst (advance_proposal ep n p) = p" for n by (intro stuck_calls(5) [of p e]) (auto simp: stuck_def)
  then show "stuck i p e (fst (advance_one ep j s))"
    using st by (auto simp: advance_one_def intro: stuck_on_proposal split: option.splits)
qed

interpretation unvoted: machine gov_step "stuck i p e" "not_before e"
proof
  fix g :: GovernanceEngine and a
  assume st: "stuck i p e g" and a: "not_before e a"
  have f: "pp_state p = PVoting" "pp_votes p = []" "vw_end_epoch (pp_window p) \<le> e" using st by (auto simp: stuck_def)
  show "stuck i p e (gov_step a g)"
  proof (cases a)
    case (Submit q)
    then show ?thesis using st
      by (auto simp: stuck_def submit_proposal_def bt_contains_get proposal_submit_def split: outcome.splits prod.splits)
  qed (use a in \<open>auto simp: not_before_def gov_start_voting_def gov_cast_vote_def gov_close_voting_def execute_proposal_def
      intro!: stuck_on_proposal [OF st] stuck_calls [OF f] stuck_advance [OF st]\<close>)
qed

section \<open>Properties\<close>

text \<open>One proposal, open for votes in epochs 1 and 2, for the closed instances.\<close>

definition gov_demo :: Proposal where
  "gov_demo = Proposal_new ''p'' ProtocolParameter ''t'' ''d''
     \<lparr>vw_start_epoch = 1, vw_end_epoch = 3, vw_min_duration = 2\<rparr> 4 67 (ProtocolParameterChange ''r'' 6000) 0"

definition gov_demo_vote :: Vote where
  "gov_demo_vote = \<lparr>vo_validator_id = ''v'', vo_approval = True, vo_stake = 90, vo_vote_epoch = 1, vo_signature = []\<rparr>"

text \<open>C7: No proposal is executed without quorum and threshold. In every run of the engine a stored proposal is
  pending, open for votes, awaiting execution, rolled back, rejected or expired, never executed; and when
  it awaits execution or has been through it, its recorded tally is the tally of its recorded votes for
  the stake of the network, with the quorum met and the approval at or above the proposal's threshold.\<close>

theorem no_execution_without_quorum:
  assumes "bt_get (ge_proposals (fold gov_step ops (GovernanceEngine_new n))) i = Some p"
  shows "pp_state p \<in> {PPending, PVoting, PAwaitingExecution, PRolledBack, PRejected, PExpired} \<and>
    (pp_state p = PAwaitingExecution \<or> pp_state p = PRolledBack \<longrightarrow>
     (\<exists>t. tally_of n p = Ok t \<and> pp_tally p = Some t \<and> vt_quorum_met t \<and> pp_threshold p \<le> vt_approval_percentage t))"
proof -
  have "gov_inv n (GovernanceEngine_new n)" by (simp add: gov_inv_def GovernanceEngine_new_def)
  then have "gov_inv n (fold gov_step ops (GovernanceEngine_new n))" by (rule gov_run.run_inv) (simp add: list_all_iff)
  then have inv: "proposal_inv n p" using assms by (simp add: gov_inv_def)
  have "vt_quorum_met t \<and> pp_threshold p \<le> vt_approval_percentage t" if "tally_of n p = Ok t" "vt_approved t" for t
    using that tally_approved by (auto simp: tally_of_def split: prod.splits)
  then show ?thesis using inv by (cases "pp_state p") (auto simp: proposal_inv_def tallied_def)
qed

theorem no_execution_without_quorum_witness:
  "\<exists>p t. bt_get (ge_proposals (fold gov_step
       [Submit gov_demo, StartVoting ''p'' 1, CastVote ''p'' gov_demo_vote 1, CloseVoting ''p'' 3] (GovernanceEngine_new 120))) ''p'' = Some p \<and>
     pp_state p = PAwaitingExecution \<and> pp_tally p = Some t \<and> vt_quorum_met t"
proof -
  let ?g = "fold gov_step [Submit gov_demo, StartVoting ''p'' 1, CastVote ''p'' gov_demo_vote 1, CloseVoting ''p'' 3] (GovernanceEngine_new 120)"
  have "\<exists>p. bt_get (ge_proposals ?g) ''p'' = Some p \<and> pp_state p = PAwaitingExecution"
    by (simp add: GovernanceEngine_new_def submit_proposal_def gov_demo_def Proposal_new_def proposal_submit_def
        gov_start_voting_def gov_cast_vote_def gov_close_voting_def on_proposal_def proposal_start_voting_def
        proposal_cast_vote_def gov_demo_vote_def proposal_close_voting_def
        count_vote_def tally_compute_def Let_def arith_defs)
  then obtain p where p: "bt_get (ge_proposals ?g) ''p'' = Some p" "pp_state p = PAwaitingExecution" by blast
  with no_execution_without_quorum [OF p(1)] show ?thesis by blast
qed

text \<open>C23: How a vote is decided. Closing a proposal whose voting has ended fails and changes nothing when no stake
  voted. Otherwise it succeeds and keeps the votes, with the stakes summed up to the largest 128-bit number: the
  proposal expires when the voting stake is at most a third of the network's (rounded down) plus one, is approved when
  in addition the percentage of the approving stake, computed modulo \<open>2 ^ 128\<close>, reaches the threshold, and is rejected
  otherwise. While a hundred times the voting stake is below \<open>2 ^ 128\<close> the percentage test is the exact comparison.\<close>

theorem close_voting_decides:
  assumes "pp_state p = PVoting" "vw_end_epoch (pp_window p) \<le> ep" "n < 2 ^ 128"
  shows "if stake_for p + stake_against p = 0
    then proposal_close_voting ep n p = (p, Err (InternalError ''No votes cast''))
    else \<exists>p' reached. proposal_close_voting ep n p = (p', Ok ()) \<and> pp_votes p' = pp_votes p \<and>
      pp_state p' = (if min (stake_for p + stake_against p) (2 ^ 128 - 1) \<le> n div 3 + 1 then PExpired
        else if reached then PAwaitingExecution else PRejected) \<and>
      reached = (pp_threshold p \<le>
        (min (stake_for p) (2 ^ 128 - 1) * 100) mod 2 ^ 128 div min (stake_for p + stake_against p) (2 ^ 128 - 1)) \<and>
      (100 * (stake_for p + stake_against p) < 2 ^ 128 \<longrightarrow>
        reached = (pp_threshold p * (stake_for p + stake_against p) \<le> 100 * stake_for p))"
proof -
  have count: "fold count_vote (bt_values (pp_votes p)) (0, 0) = (stake_cap (stake_for p), stake_cap (stake_against p))"
    using count_votes_saturate [of "bt_values (pp_votes p)" 0 0] by simp
  show ?thesis
  proof (cases "stake_for p + stake_against p = 0")
    case True
    then have "stake_for p = 0" "stake_against p = 0" by simp_all
    then have "tally_of n p = Err ''No votes cast''" unfolding tally_of_def count by (simp only: tally_compute_def) (simp add: sat_add_def)
    then show ?thesis using True assms(1,2) by (simp add: close_voting_alt)
  next
    case False
    then have pos: "0 < stake_for p + stake_against p" by (rule neq0_conv [THEN iffD1])
    define T where "T = stake_cap (stake_for p + stake_against p)"
    define reached where "reached \<longleftrightarrow> pp_threshold p \<le> (stake_cap (stake_for p) * 100) mod 2 ^ 128 div T"
    have "tally_of n p = tally_compute (stake_cap (stake_for p)) (stake_cap (stake_against p)) n (pp_threshold p)"
      by (simp only: tally_of_def count prod.case)
    then obtain t where "tally_of n p = Ok t" "vt_quorum_met t = (n div 3 + 1 < T)" "vt_approved t = (n div 3 + 1 < T \<and> reached)"
      using tally_compute_general [OF pos assms(3), of "pp_threshold p"] unfolding T_def reached_def by metis
    then have "proposal_close_voting ep n p = (with_state (if T \<le> n div 3 + 1 then PExpired
        else if reached then PAwaitingExecution else PRejected) (with_tally (Some t) p), Ok ())"
      using assms(1,2) by (simp add: close_voting_alt not_less)
    moreover have "100 * (stake_for p + stake_against p) < 2 ^ 128 \<longrightarrow>
        reached = (pp_threshold p * (stake_for p + stake_against p) \<le> 100 * stake_for p)"
      unfolding reached_def T_def using percentage_exact [OF _ pos] by blast
    ultimately show ?thesis unfolding if_not_P [OF False] T_def [symmetric] reached_def [symmetric] by simp
  qed
qed

theorem close_voting_decides_witness:
  "\<exists>p'. proposal_close_voting 3 120 (with_votes [(''v'', gov_demo_vote)] (with_state PVoting gov_demo)) = (p', Ok ()) \<and>
     pp_state p' = PAwaitingExecution"
  using close_voting_decides [of "with_votes [(''v'', gov_demo_vote)] (with_state PVoting gov_demo)" 3 120]
  by (auto simp: gov_demo_def Proposal_new_def gov_demo_vote_def)

text \<open>The wrap is not harmless: a unanimous vote with a stake of \<open>2 ^ 127\<close> is rejected.\<close>

lemma large_unanimous_vote_rejected:
  assumes "n div 3 + 1 < 2 ^ 127" "0 < th"
  shows "\<exists>t. tally_compute (2 ^ 127) 0 n th = Ok t \<and> vt_quorum_met t \<and> \<not> vt_approved t"
proof -
  have "wrap_mul 128 (2 ^ 127) 100 = 0" "wrap_add 128 (n div 3) 1 = n div 3 + 1" "sat_add 128 (2 ^ 127) 0 = 2 ^ 127"
    using assms(1) by (simp_all add: wrap_mul_def wrap_add_def sat_add_def)
  then show ?thesis using assms by (simp add: tally_compute_def Let_def cast_def)
qed

text \<open>C24: Whatever calls follow, a stored proposal stays stored, its state moves along the documented arrows
  (pending, voting, then rejected, expired or awaiting execution, then rolled back) and never back, no
  recorded vote is changed or removed, and a proposal in a terminal state does not change at all.\<close>

theorem proposals_move_forward:
  assumes "bt_get (ge_proposals g) i = Some p"
  shows "\<exists>p'. bt_get (ge_proposals (fold gov_step ops g)) i = Some p' \<and>
    state_arrow\<^sup>*\<^sup>* (pp_state p) (pp_state p') \<and>
    (\<forall>v x. bt_get (pp_votes p) v = Some x \<longrightarrow> bt_get (pp_votes p') v = Some x) \<and>
    (is_terminal (pp_state p) \<longrightarrow> p' = p)"
proof -
  obtain p' where "bt_get (ge_proposals (fold gov_step ops g)) i = Some p'" "(proposal_step (ge_total_network_stake g))\<^sup>*\<^sup>* p p'"
    using gov.run_arrow [of g "ge_total_network_stake g" i p ops] assms by (auto split: if_splits)
  then show ?thesis using forward_steps by (auto simp: forward_def)
qed

theorem proposals_move_forward_witness:
  "\<exists>p'. bt_get (ge_proposals (fold gov_step [AdvanceEpoch 2, AdvanceEpoch 9]
      \<lparr>ge_proposals = [(''p'', with_state PExpired gov_demo)], ge_proposal_queue = [''p''], ge_total_network_stake = 120\<rparr>)) ''p'' = Some p' \<and>
    p' = with_state PExpired gov_demo"
  using proposals_move_forward [of "\<lparr>ge_proposals = [(''p'', with_state PExpired gov_demo)], ge_proposal_queue = [''p''],
      ge_total_network_stake = 120\<rparr>" "''p''" "with_state PExpired gov_demo" "[AdvanceEpoch 2, AdvanceEpoch 9]"]
  by (auto simp: is_terminal_def)

text \<open>C33: A proposal that is open for votes when its window ends and has none stays open for ever: closing it is
  an internal error that \<open>advance_epoch\<close> drops, votes are refused, and no later call, at any epoch from
  the end of the window on, changes it, so it never expires.\<close>

theorem unvoted_proposal_never_ends:
  assumes "bt_get (ge_proposals g) i = Some p" "pp_state p = PVoting" "pp_votes p = []"
    "vw_end_epoch (pp_window p) \<le> e" "list_all (not_before e) ops"
  shows "bt_get (ge_proposals (fold gov_step ops g)) i = Some p"
proof -
  have "stuck i p e g" using assms(1-4) by (simp add: stuck_def)
  then have "stuck i p e (fold gov_step ops g)" by (rule unvoted.run_inv) (rule assms(5))
  then show ?thesis by (simp add: stuck_def)
qed

theorem unvoted_proposal_never_ends_witness:
  "bt_get (ge_proposals (fold gov_step [CastVote ''p'' gov_demo_vote 3, CloseVoting ''p'' 3, AdvanceEpoch 100]
      \<lparr>ge_proposals = [(''p'', with_state PVoting gov_demo)], ge_proposal_queue = [''p''], ge_total_network_stake = 120\<rparr>)) ''p'' =
    Some (with_state PVoting gov_demo)"
  by (rule unvoted_proposal_never_ends [where e = 3]) (simp_all add: gov_demo_def Proposal_new_def not_before_def)

text \<open>
  The stake of a vote is what the vote says and its signature is not looked at: one vote of any claimed
  stake above the quorum approves a proposal.
\<close>

lemma one_vote_approves:
  assumes "pp_state p = PVoting" "pp_votes p = []" "window_is_active (pp_window p) ep" "vw_end_epoch (pp_window p) \<le> ep'"
    "vo_approval v" "n div 3 + 1 < vo_stake v" "100 * vo_stake v < 2 ^ 128" "n < 2 ^ 128" "pp_threshold p \<le> 100"
  shows "pp_state (fst (proposal_close_voting ep' n (fst (proposal_cast_vote v ep p)))) = PAwaitingExecution"
proof -
  have cast: "fst (proposal_cast_vote v ep p) = with_votes [(vo_validator_id v, v)] p"
    using assms(1-3) by (simp add: proposal_cast_vote_def)
  obtain t where t: "tally_compute (vo_stake v) 0 n (pp_threshold p) = Ok t" "vt_approved t"
    using tally_compute_general [of "vo_stake v" 0 n "pp_threshold p"] percentage_exact [of "vo_stake v" 0 "pp_threshold p"] assms(6-9)
    by auto
  have "fold count_vote [v] (0, 0) = (vo_stake v, 0)" using assms(5,7) by (simp add: count_vote_def sat_add_exact)
  then have "tally_of n (with_votes [(vo_validator_id v, v)] p) = Ok t" using t(1) by (simp add: tally_of_def)
  then show ?thesis using t(2) cast assms(1,4) by (simp add: close_voting_alt)
qed

end
