(* ===== verification/ValidatorIdentity.thy ===== *)
theory ValidatorIdentity
  imports BTree Float64
begin

text \<open>
  \<open>crates/bleep-consensus/src/validator_identity.rs\<close>: validator records with their lifecycle state
  machine, and the registry that keeps the active set and the cached active stake. The check of a
  VRF key by the \<open>schnorrkel\<close> crate is the argument \<open>vrf_key_ok\<close>. The lemmas show that lifecycle
  states only move along the documented transitions, that a slashed validator stays out of
  consensus for good, that slashing conserves stake plus slashed total, and that the active set is
  exactly the set of validators in state Active.
\<close>

section \<open>Data\<close>

datatype ValidatorState = Inactive | Active | PendingExit | Exited | Slashed | Ejected

record ValidatorIdentity =
  vid :: string
  kyber_public_key :: bytes
  signing_key_id :: string
  vrf_public_key :: bytes
  stake :: u128
  vstate :: ValidatorState
  reputation :: f64
  double_sign_count :: u32
  equivocation_count :: u32
  downtime_count :: u32
  joined_epoch :: u64
  exited_epoch :: "u64 option"
  total_slashed :: u128

datatype RegistryError =
    EmptyValidatorId
  | ZeroStake
  | BadKyberKeyLength
  | InvalidVrfKey
  | CannotActivate ValidatorState
  | CannotMarkForExit ValidatorState
  | CannotFinalizeExit ValidatorState
  | SlashExceedsStake u128 u128
  | AlreadyRegistered string
  | ValidatorNotFound string

record ValidatorRegistry =
  validators :: "(string, ValidatorIdentity) btree_map"
  active_validators :: "string list"
  total_active_stake :: u128

section \<open>One validator\<close>

definition ValidatorIdentity_new ::
  "string \<Rightarrow> bytes \<Rightarrow> string \<Rightarrow> u128 \<Rightarrow> u64 \<Rightarrow> (RegistryError, ValidatorIdentity) outcome" where
  "ValidatorIdentity_new i kyber signing st joined =
     (if i = [] then Err EmptyValidatorId
      else if st = 0 then Err ZeroStake
      else if length kyber \<noteq> 1568 then Err BadKyberKeyLength
      else Ok \<lparr>vid = i, kyber_public_key = kyber, signing_key_id = signing, vrf_public_key = [],
               stake = st, vstate = Inactive, reputation = 1, double_sign_count = 0,
               equivocation_count = 0, downtime_count = 0, joined_epoch = joined,
               exited_epoch = None, total_slashed = 0\<rparr>)"

definition new_with_vrf_public_key ::
  "(bytes \<Rightarrow> bool) \<Rightarrow> string \<Rightarrow> bytes \<Rightarrow> string \<Rightarrow> bytes \<Rightarrow> u128 \<Rightarrow> u64 \<Rightarrow>
   (RegistryError, ValidatorIdentity) outcome" where
  "new_with_vrf_public_key vrf_key_ok i kyber signing vrf st joined =
     bind_outcome (ValidatorIdentity_new i kyber signing st joined)
       (\<lambda>identity. if \<not> vrf_key_ok vrf then Err InvalidVrfKey
                   else Ok (identity\<lparr>vrf_public_key := vrf\<rparr>))"

type_synonym validator_op = "ValidatorIdentity \<Rightarrow> ValidatorIdentity \<times> (RegistryError, unit) outcome"

definition activate :: validator_op where
  "activate v = (case vstate v of
     Inactive \<Rightarrow> (v\<lparr>vstate := Active\<rparr>, Ok ())
   | s \<Rightarrow> (v, Err (CannotActivate s)))"

definition mark_for_exit :: validator_op where
  "mark_for_exit v = (case vstate v of
     Active \<Rightarrow> (v\<lparr>vstate := PendingExit\<rparr>, Ok ())
   | s \<Rightarrow> (v, Err (CannotMarkForExit s)))"

definition finalize_exit :: "u64 \<Rightarrow> validator_op" where
  "finalize_exit exit_epoch v = (case vstate v of
     PendingExit \<Rightarrow> (v\<lparr>vstate := Exited, exited_epoch := Some exit_epoch\<rparr>, Ok ())
   | s \<Rightarrow> (v, Err (CannotFinalizeExit s)))"

definition slash_for_double_signing :: "u128 \<Rightarrow> validator_op" where
  "slash_for_double_signing slash_amount v =
     (if slash_amount > stake v then (v, Err (SlashExceedsStake slash_amount (stake v)))
      else (v\<lparr>double_sign_count := wrap_add 32 (double_sign_count v) 1,
              stake := sat_sub (stake v) slash_amount,
              total_slashed := sat_add 128 (total_slashed v) slash_amount,
              reputation := f64_mul (reputation v) (1 / 2),
              vstate := Slashed\<rparr>, Ok ()))"

definition slash_for_equivocation :: "u128 \<Rightarrow> validator_op" where
  "slash_for_equivocation slash_amount v =
     (if slash_amount > stake v then (v, Err (SlashExceedsStake slash_amount (stake v)))
      else (v\<lparr>equivocation_count := wrap_add 32 (equivocation_count v) 1,
              stake := sat_sub (stake v) slash_amount,
              total_slashed := sat_add 128 (total_slashed v) slash_amount,
              reputation := f64_mul (reputation v) (3 / 4),
              vstate := Slashed\<rparr>, Ok ()))"

definition record_downtime :: "u128 \<Rightarrow> validator_op" where
  "record_downtime slash_amount v =
     (if slash_amount > stake v then (v, Err (SlashExceedsStake slash_amount (stake v)))
      else (v\<lparr>downtime_count := wrap_add 32 (downtime_count v) 1,
              stake := sat_sub (stake v) slash_amount,
              total_slashed := sat_add 128 (total_slashed v) slash_amount,
              reputation := f64_mul (reputation v) (f64_round (95 / 100))\<rparr>, Ok ()))"

definition can_participate :: "ValidatorIdentity \<Rightarrow> bool" where
  "can_participate v \<longleftrightarrow>
     vstate v = Active \<and> reputation v > 0 \<and> stake v > 0 \<and> double_sign_count v = 0"

abbreviation is_ejected :: "ValidatorIdentity \<Rightarrow> bool" where
  "is_ejected v \<equiv> vstate v = Slashed \<or> vstate v = Ejected \<or> double_sign_count v > 0"

definition effective_stake :: "ValidatorIdentity \<Rightarrow> u128" where
  "effective_stake v = (if is_ejected v then 0 else stake v)"

section \<open>The registry\<close>

abbreviation registry_new :: ValidatorRegistry where
  "registry_new \<equiv> \<lparr>validators = [], active_validators = [], total_active_stake = 0\<rparr>"

abbreviation active_validator_count :: "ValidatorRegistry \<Rightarrow> u32" where
  "active_validator_count r \<equiv> cast 32 (length (active_validators r))"

definition register_validator ::
  "ValidatorIdentity \<Rightarrow> ValidatorRegistry \<Rightarrow> ValidatorRegistry \<times> (RegistryError, unit) outcome" where
  "register_validator v r =
     (if bt_contains (validators r) (vid v) then (r, Err (AlreadyRegistered (vid v)))
      else (r\<lparr>validators := bt_insert (vid v) v (validators r)\<rparr>, Ok ()))"

definition registry_get :: "ValidatorRegistry \<Rightarrow> string \<Rightarrow> ValidatorIdentity option" where
  "registry_get r i = bt_get (validators r) i"

abbreviation get_all_validators :: "ValidatorRegistry \<Rightarrow> ValidatorIdentity list" where
  "get_all_validators r \<equiv> bt_values (validators r)"

text \<open>
  \<open>get_mut(id).ok_or_else(..)?\<close> followed by a method call; on success the closure gives the
  registry's own update from the changed validator.
\<close>

definition on_validator ::
  "string \<Rightarrow> validator_op \<Rightarrow> (ValidatorIdentity \<Rightarrow> ValidatorRegistry \<Rightarrow> ValidatorRegistry) \<Rightarrow>
   ValidatorRegistry \<Rightarrow> ValidatorRegistry \<times> (RegistryError, unit) outcome" where
  "on_validator i f upd r =
     (case bt_get (validators r) i of
        None \<Rightarrow> (r, Err (ValidatorNotFound i))
      | Some v \<Rightarrow>
          (case f v of
             (v', Ok _) \<Rightarrow> (upd v' (r\<lparr>validators := bt_insert i v' (validators r)\<rparr>), Ok ())
           | (v', Err e) \<Rightarrow> (r\<lparr>validators := bt_insert i v' (validators r)\<rparr>, Err e)
           | (v', Panic) \<Rightarrow> (r\<lparr>validators := bt_insert i v' (validators r)\<rparr>, Panic)))"

definition activate_validator ::
  "string \<Rightarrow> ValidatorRegistry \<Rightarrow> ValidatorRegistry \<times> (RegistryError, unit) outcome" where
  "activate_validator i =
     on_validator i activate
       (\<lambda>v r. r\<lparr>active_validators := bs_insert i (active_validators r),
               total_active_stake := sat_add 128 (total_active_stake r) (stake v)\<rparr>)"

definition mark_validator_for_exit ::
  "string \<Rightarrow> ValidatorRegistry \<Rightarrow> ValidatorRegistry \<times> (RegistryError, unit) outcome" where
  "mark_validator_for_exit i =
     on_validator i mark_for_exit
       (\<lambda>v r. r\<lparr>active_validators := bs_remove i (active_validators r),
               total_active_stake := sat_sub (total_active_stake r) (stake v)\<rparr>)"

definition finalize_validator_exit ::
  "string \<Rightarrow> u64 \<Rightarrow> ValidatorRegistry \<Rightarrow> ValidatorRegistry \<times> (RegistryError, unit) outcome" where
  "finalize_validator_exit i epoch = on_validator i (finalize_exit epoch) (\<lambda>v r. r)"

definition slash_validator_double_sign ::
  "string \<Rightarrow> u128 \<Rightarrow> ValidatorRegistry \<Rightarrow> ValidatorRegistry \<times> (RegistryError, unit) outcome" where
  "slash_validator_double_sign i slash_amount =
     on_validator i (slash_for_double_signing slash_amount)
       (\<lambda>v r. r\<lparr>active_validators := bs_remove i (active_validators r),
               total_active_stake := sat_sub (total_active_stake r) slash_amount\<rparr>)"

definition slash_validator_equivocation ::
  "string \<Rightarrow> u128 \<Rightarrow> ValidatorRegistry \<Rightarrow> ValidatorRegistry \<times> (RegistryError, unit) outcome" where
  "slash_validator_equivocation i slash_amount =
     on_validator i (slash_for_equivocation slash_amount)
       (\<lambda>v r. r\<lparr>active_validators := bs_remove i (active_validators r),
               total_active_stake := sat_sub (total_active_stake r) slash_amount\<rparr>)"

definition record_validator_downtime ::
  "string \<Rightarrow> u128 \<Rightarrow> ValidatorRegistry \<Rightarrow> ValidatorRegistry \<times> (RegistryError, unit) outcome" where
  "record_validator_downtime i slash_amount =
     on_validator i (record_downtime slash_amount) (\<lambda>v r. r)"

definition get_active_validators :: "ValidatorRegistry \<Rightarrow> ValidatorIdentity list" where
  "get_active_validators r = List.map_filter (bt_get (validators r)) (active_validators r)"

definition ascii_lower :: "char \<Rightarrow> char" where
  "ascii_lower c =
     (let n = of_char c :: nat in if 65 \<le> n \<and> n \<le> 90 then char_of (n + 32) else c)"

definition eq_ignore_ascii_case :: "string \<Rightarrow> string \<Rightarrow> bool" where
  "eq_ignore_ascii_case a b \<longleftrightarrow> map ascii_lower a = map ascii_lower b"

abbreviation has_active_signing_key :: "ValidatorRegistry \<Rightarrow> string \<Rightarrow> bool" where
  "has_active_signing_key r key \<equiv> list_ex (\<lambda>v. eq_ignore_ascii_case (signing_key_id v) key) (get_active_validators r)"

abbreviation get_voting_power :: "ValidatorRegistry \<Rightarrow> string \<Rightarrow> u128" where
  "get_voting_power r i \<equiv> (case registry_get r i of None \<Rightarrow> 0 | Some v \<Rightarrow> effective_stake v)"

abbreviation active_count :: "ValidatorRegistry \<Rightarrow> usize" where
  "active_count r \<equiv> length (active_validators r)"

abbreviation registry_can_participate :: "ValidatorRegistry \<Rightarrow> string \<Rightarrow> bool" where
  "registry_can_participate r i \<equiv> (case registry_get r i of None \<Rightarrow> False | Some v \<Rightarrow> can_participate v)"

section \<open>Registry calls as steps\<close>

datatype reg_op =
    RegNew string bytes string u128 u64
  | RegActivate string
  | RegMarkExit string
  | RegFinalizeExit string u64
  | RegSlashDouble string u128
  | RegSlashEquiv string u128
  | RegDowntime string u128

primrec reg_step :: "reg_op \<Rightarrow> ValidatorRegistry \<Rightarrow> ValidatorRegistry" where
  "reg_step (RegNew i kyber signing st joined) r =
     (case ValidatorIdentity_new i kyber signing st joined of
        Ok v \<Rightarrow> fst (register_validator v r) | Err _ \<Rightarrow> r | Panic \<Rightarrow> r)"
| "reg_step (RegActivate i) r = fst (activate_validator i r)"
| "reg_step (RegMarkExit i) r = fst (mark_validator_for_exit i r)"
| "reg_step (RegFinalizeExit i e) r = fst (finalize_validator_exit i e r)"
| "reg_step (RegSlashDouble i a) r = fst (slash_validator_double_sign i a r)"
| "reg_step (RegSlashEquiv i a) r = fst (slash_validator_equivocation i a r)"
| "reg_step (RegDowntime i a) r = fst (record_validator_downtime i a r)"

text \<open>The documented lifecycle: one rule per arrow of the state machine.\<close>

inductive lifecycle_step :: "ValidatorState \<Rightarrow> ValidatorState \<Rightarrow> bool" where
  activated: "lifecycle_step Inactive Active"
| exit_marked: "lifecycle_step Active PendingExit"
| exit_final: "lifecycle_step PendingExit Exited"
| slashed: "lifecycle_step s Slashed"

inductive_cases from_Slashed: "lifecycle_step Slashed s"
inductive_cases to_Active: "lifecycle_step s Active"

code_pred lifecycle_step .

section \<open>What one call changes\<close>

text \<open>The stored record of a registered validator after one registry call.\<close>

inductive validator_change :: "ValidatorIdentity \<Rightarrow> ValidatorIdentity \<Rightarrow> bool" where
  vc_same: "validator_change v v"
| vc_activate: "validator_change v (fst (activate v))"
| vc_mark: "validator_change v (fst (mark_for_exit v))"
| vc_exit: "validator_change v (fst (finalize_exit e v))"
| vc_double: "validator_change v (fst (slash_for_double_signing a v))"
| vc_equiv: "validator_change v (fst (slash_for_equivocation a v))"
| vc_down: "validator_change v (fst (record_downtime a v))"

lemmas validator_op_defs =
  activate_def mark_for_exit_def finalize_exit_def slash_for_double_signing_def
  slash_for_equivocation_def record_downtime_def

lemmas registry_op_defs =
  activate_validator_def mark_validator_for_exit_def finalize_validator_exit_def
  slash_validator_double_sign_def slash_validator_equivocation_def record_validator_downtime_def

lemma on_validator_get:
  assumes "\<And>v r. validators (upd v r) = validators r"
  shows "bt_get (validators (fst (on_validator i f upd r))) j =
     (if j = i then map_option (\<lambda>v. fst (f v)) (bt_get (validators r) i) else bt_get (validators r) j)"
  using assms by (auto simp: on_validator_def split: option.splits prod.splits outcome.splits)

lemma on_validator_wf:
  assumes "\<And>v r. validators (upd v r) = validators r" "bt_wf (validators r)"
  shows "bt_wf (validators (fst (on_validator i f upd r)))"
  using assms by (auto simp: on_validator_def split: option.splits prod.splits outcome.splits)

lemma reg_step_get:
  assumes "bt_get (validators r) j = Some v"
  shows "\<exists>v'. bt_get (validators (reg_step a r)) j = Some v' \<and> validator_change v v'"
proof (cases a)
  case (RegNew i kyber signing st joined)
  then show ?thesis using assms
    by (auto simp: register_validator_def bt_contains_get split: outcome.splits
          intro: validator_change.intros)
qed (use assms in \<open>auto simp: registry_op_defs on_validator_get intro: validator_change.intros\<close>)

lemma reg_step_fresh:
  assumes "bt_get (validators r) j = None" "bt_get (validators (reg_step a r)) j = Some v"
  shows "\<exists>kyber signing st joined. a = RegNew j kyber signing st joined \<and>
    ValidatorIdentity_new j kyber signing st joined = Ok v \<and>
    active_validators (reg_step a r) = active_validators r"
proof (cases a)
  case (RegNew i kyber signing st joined)
  then show ?thesis using assms
    by (auto simp: register_validator_def ValidatorIdentity_new_def split: outcome.splits if_splits)
qed (use assms in \<open>auto simp: registry_op_defs on_validator_get split: if_splits\<close>)

lemma validator_change_fixed:
  "validator_change v v' \<Longrightarrow> vid v' = vid v \<and> signing_key_id v' = signing_key_id v
     \<and> kyber_public_key v' = kyber_public_key v \<and> joined_epoch v' = joined_epoch v"
  by (induction rule: validator_change.induct)
     (auto simp: validator_op_defs split: ValidatorState.splits)

lemma validator_change_lifecycle:
  "validator_change v v' \<Longrightarrow> lifecycle_step\<^sup>*\<^sup>* (vstate v) (vstate v')"
  by (induction rule: validator_change.induct)
     (auto simp: validator_op_defs split: ValidatorState.splits intro: lifecycle_step.intros)

lemma validator_change_stake:
  "validator_change v v' \<Longrightarrow> stake v + total_slashed v < 2 ^ 128 \<Longrightarrow>
   stake v' + total_slashed v' = stake v + total_slashed v \<and> total_slashed v \<le> total_slashed v'"
  by (induction rule: validator_change.induct)
     (auto simp: validator_op_defs sat_add_def split: ValidatorState.splits)

lemma lifecycle_from_Slashed: "lifecycle_step\<^sup>*\<^sup>* Slashed s \<Longrightarrow> s = Slashed"
  by (induction rule: rtranclp_induct) (auto elim: from_Slashed)

section \<open>Invariant of the registry\<close>

definition registry_ok :: "ValidatorRegistry \<Rightarrow> bool" where
  "registry_ok r \<longleftrightarrow>
     bt_wf (validators r) \<and> bs_wf (active_validators r) \<and>
     (\<forall>i. i \<in> set (active_validators r) \<longleftrightarrow>
        (\<exists>v. bt_get (validators r) i = Some v \<and> vstate v = Active)) \<and>
     (\<forall>i v. bt_get (validators r) i = Some v \<longrightarrow> vid v = i \<and> stake v + total_slashed v < 2 ^ 128)"

text \<open>Arguments as their Rust types admit them.\<close>

primrec reg_typed :: "reg_op \<Rightarrow> bool" where
  "reg_typed (RegNew i kyber signing st joined) \<longleftrightarrow> st < 2 ^ 128"
| "reg_typed (RegActivate i) \<longleftrightarrow> True"
| "reg_typed (RegMarkExit i) \<longleftrightarrow> True"
| "reg_typed (RegFinalizeExit i e) \<longleftrightarrow> True"
| "reg_typed (RegSlashDouble i a) \<longleftrightarrow> True"
| "reg_typed (RegSlashEquiv i a) \<longleftrightarrow> True"
| "reg_typed (RegDowntime i a) \<longleftrightarrow> True"

lemma registry_ok_step_records:
  assumes ok: "registry_ok r" and typed: "reg_typed a"
    and get: "bt_get (validators (reg_step a r)) i = Some v"
  shows "vid v = i \<and> stake v + total_slashed v < 2 ^ 128"
proof (cases "bt_get (validators r) i")
  case None
  from reg_step_fresh [OF None get] typed show ?thesis
    by (auto simp: ValidatorIdentity_new_def split: if_splits)
next
  case (Some u)
  with reg_step_get [OF Some, of a] get have ch: "validator_change u v" by simp
  from ok Some have "vid u = i" "stake u + total_slashed u < 2 ^ 128"
    by (auto simp: registry_ok_def)
  with validator_change_fixed [OF ch] validator_change_stake [OF ch] show ?thesis by simp
qed

lemma registry_ok_step_active:
  assumes ok: "registry_ok r"
  shows "i \<in> set (active_validators (reg_step a r)) \<longleftrightarrow>
     (\<exists>v. bt_get (validators (reg_step a r)) i = Some v \<and> vstate v = Active)"
  using ok unfolding registry_ok_def
  by (cases a)
     (auto simp: registry_op_defs on_validator_def register_validator_def ValidatorIdentity_new_def
        validator_op_defs bt_contains_get
        split: option.splits prod.splits outcome.splits ValidatorState.splits if_splits)

lemma registry_ok_step_wf:
  assumes ok: "registry_ok r"
  shows "bt_wf (validators (reg_step a r))" "bs_wf (active_validators (reg_step a r))"
  using ok unfolding registry_ok_def
  by (cases a; auto simp: registry_op_defs on_validator_def register_validator_def
        split: option.splits prod.splits outcome.splits)+

lemma registry_new_ok: "registry_ok registry_new"
  by (simp add: registry_ok_def)

lemma registry_step_ok: "registry_ok r \<Longrightarrow> reg_typed a \<Longrightarrow> registry_ok (reg_step a r)"
  unfolding registry_ok_def [of "reg_step a r"]
  using registry_ok_step_records registry_ok_step_active registry_ok_step_wf by blast

definition slashed_of :: "string \<Rightarrow> ValidatorRegistry \<Rightarrow> u128" where
  "slashed_of i r = (case bt_get (validators r) i of None \<Rightarrow> 0 | Some v \<Rightarrow> total_slashed v)"

lemma slashed_of_mono:
  assumes ok: "registry_ok r"
  shows "slashed_of i r \<le> slashed_of i (reg_step a r)"
proof (cases "bt_get (validators r) i")
  case (Some v)
  then obtain v' where "bt_get (validators (reg_step a r)) i = Some v'" "validator_change v v'"
    using reg_step_get by blast
  with Some ok validator_change_stake [of v v'] show ?thesis
    by (auto simp: slashed_of_def registry_ok_def)
qed (simp add: slashed_of_def)

interpretation reg: monotone_machine reg_step registry_ok reg_typed "slashed_of i" for i
  by unfold_locales (auto intro: registry_step_ok slashed_of_mono)

definition state_of :: "string \<Rightarrow> ValidatorRegistry \<Rightarrow> ValidatorState option" where
  "state_of i r = map_option vstate (bt_get (validators r) i)"

interpretation reg_life: lifecycle reg_step "state_of i" lifecycle_step for i
proof
  fix s x a
  assume "state_of i s = Some x"
  then obtain v where v: "bt_get (validators s) i = Some v" "x = vstate v"
    by (auto simp: state_of_def)
  with reg_step_get [OF v(1), of a] show "\<exists>y. state_of i (reg_step a s) = Some y \<and> lifecycle_step\<^sup>*\<^sup>* x y"
    by (auto simp: state_of_def dest: validator_change_lifecycle)
qed

lemma registry_run_ok: "list_all reg_typed ops \<Longrightarrow> registry_ok (fold reg_step ops registry_new)"
  by (rule reg.run_inv [OF registry_new_ok])

lemma run_stake_conserved:
  assumes "registry_ok r" "list_all reg_typed ops" "bt_get (validators r) i = Some v"
  shows "\<exists>v'. bt_get (validators (fold reg_step ops r)) i = Some v' \<and>
    stake v' + total_slashed v' = stake v + total_slashed v"
  using assms
proof (induction ops arbitrary: r v)
  case Nil
  then show ?case by simp
next
  case (Cons a ops)
  obtain u where u: "bt_get (validators (reg_step a r)) i = Some u" "validator_change v u"
    using reg_step_get [OF Cons.prems(3)] by blast
  have "stake v + total_slashed v < 2 ^ 128"
    using Cons.prems(1,3) by (auto simp: registry_ok_def)
  with u(2) have "stake u + total_slashed u = stake v + total_slashed v"
    by (simp add: validator_change_stake)
  with Cons.IH [OF registry_step_ok _ u(1)] Cons.prems show ?case by simp
qed

lemma Slashed_out:
  assumes "vstate v = Slashed"
  shows "\<not> can_participate v" "effective_stake v = 0"
  using assms by (simp_all add: can_participate_def effective_stake_def)

text \<open>A registry with one active validator, for the closed instances below.\<close>

definition demo_validator :: ValidatorIdentity where
  "demo_validator =
     \<lparr>vid = ''v1'', kyber_public_key = [], signing_key_id = ''ab'', vrf_public_key = [],
      stake = 1000, vstate = Active, reputation = 1, double_sign_count = 0,
      equivocation_count = 0, downtime_count = 0, joined_epoch = 0, exited_epoch = None,
      total_slashed = 0\<rparr>"

definition zero_key :: bytes where
  "zero_key = replicate 1568 0"

lemma length_zero_key [simp]: "length zero_key = 1568"
  by (simp add: zero_key_def)

definition demo_registry :: ValidatorRegistry where
  "demo_registry =
     \<lparr>validators = [(''v1'', demo_validator)], active_validators = [''v1''],
      total_active_stake = 1000\<rparr>"

lemma demo_registry_ok: "registry_ok demo_registry"
  by (simp add: registry_ok_def demo_registry_def demo_validator_def bt_wf_def bs_wf_def)

definition demo_named :: "string \<Rightarrow> string \<Rightarrow> ValidatorIdentity" where
  "demo_named i k = demo_validator\<lparr>vid := i, signing_key_id := k, kyber_public_key := zero_key\<rparr>"

lemma new_demo: "ValidatorIdentity_new i zero_key k 1000 0 = (if i = [] then Err EmptyValidatorId else Ok ((demo_named i k)\<lparr>vstate := Inactive\<rparr>))"
  by (simp add: ValidatorIdentity_new_def demo_named_def demo_validator_def)

lemma demo_one:
  "active_validators (fold reg_step [RegNew ''v1'' zero_key ''ab'' 1000 0, RegActivate ''v1''] registry_new)
   = [''v1'']"
  by (simp add: ValidatorIdentity_new_def register_validator_def
        activate_validator_def on_validator_def activate_def)

lemma demo_two: "fold reg_step
       [RegNew ''v1'' zero_key ''a'' 1000 0, RegActivate ''v1'',
        RegNew ''v2'' zero_key ''b'' 1000 0, RegActivate ''v2''] registry_new =
   \<lparr>validators = [(''v1'', demo_named ''v1'' ''a''), (''v2'', demo_named ''v2'' ''b'')],
    active_validators = [''v1'', ''v2''], total_active_stake = 2000\<rparr>"
  by (simp add: new_demo register_validator_def bt_contains_def
        activate_validator_def on_validator_def activate_def demo_named_def demo_validator_def sat_add_def)
section \<open>Properties\<close>

text \<open>The validator lifecycle. Whatever sequence of registry calls is made, a registered
  validator stays registered and its state moves only along the documented arrows Inactive to
  Active to PendingExit to Exited, or to Slashed.\<close>

theorem validator_lifecycle:
  assumes "registry_get r i = Some v"
  shows "\<exists>v'. registry_get (fold reg_step ops r) i = Some v' \<and> lifecycle_step\<^sup>*\<^sup>* (vstate v) (vstate v')"
  using assms reg_life.run_arrow [of i r "vstate v" ops] by (auto simp: registry_get_def state_of_def)

theorem validator_lifecycle_witness:
  "\<exists>v'. registry_get (fold reg_step [RegMarkExit ''v1'', RegFinalizeExit ''v1'' 3] demo_registry) ''v1''
     = Some v' \<and> lifecycle_step\<^sup>*\<^sup>* Active (vstate v')"
  using validator_lifecycle [of demo_registry "''v1''" demo_validator
      "[RegMarkExit ''v1'', RegFinalizeExit ''v1'' 3]"]
  by (simp add: registry_get_def demo_registry_def demo_validator_def)

text \<open>C26: slashing is irreversible. Once a validator is in state Slashed, no sequence of registry
  calls brings it back: it stays Slashed, cannot participate in consensus, has no effective stake
  and is not in the active set.\<close>

theorem slashed_never_returns:
  assumes "registry_ok r" "list_all reg_typed ops"
    and "registry_get r i = Some v" "vstate v = Slashed"
  shows "\<exists>v'. registry_get (fold reg_step ops r) i = Some v' \<and> vstate v' = Slashed \<and>
    \<not> can_participate v' \<and> effective_stake v' = 0 \<and>
    i \<notin> set (active_validators (fold reg_step ops r))"
proof -
  obtain v' where v': "registry_get (fold reg_step ops r) i = Some v'" "vstate v' = Slashed"
    using reg_life.run_arrow [of i r Slashed ops] assms(3,4)
    by (auto simp: state_of_def registry_get_def dest: lifecycle_from_Slashed)
  have "registry_ok (fold reg_step ops r)" by (rule reg.run_inv [OF assms(1,2)])
  with v' have "i \<notin> set (active_validators (fold reg_step ops r))"
    by (auto simp: registry_ok_def registry_get_def)
  with v' show ?thesis by (auto simp: Slashed_out)
qed

theorem slashed_never_returns_witness:
  "\<exists>v'. registry_get (fold reg_step [RegActivate ''v1'']
          (demo_registry\<lparr>validators := [(''v1'', demo_validator\<lparr>vstate := Slashed\<rparr>)],
                         active_validators := []\<rparr>)) ''v1'' = Some v' \<and> vstate v' = Slashed"
proof -
  let ?r = "demo_registry\<lparr>validators := [(''v1'', demo_validator\<lparr>vstate := Slashed\<rparr>)],
                          active_validators := []\<rparr>"
  have "registry_ok ?r"
    by (simp add: registry_ok_def demo_registry_def demo_validator_def bt_wf_def)
  then show ?thesis
    using slashed_never_returns [of ?r "[RegActivate ''v1'']" "''v1''" "demo_validator\<lparr>vstate := Slashed\<rparr>"]
    by (auto simp: registry_get_def)
qed

text \<open>The cached active set is exact. After any sequence of registry calls on an empty registry,
  the ids in the active set are, without repetition, exactly the ids registered in state Active.\<close>

theorem active_set_exact:
  assumes "list_all reg_typed ops"
  shows "let r = fold reg_step ops registry_new in
    distinct (active_validators r) \<and>
    (\<forall>i. i \<in> set (active_validators r) \<longleftrightarrow>
       (\<exists>v. registry_get r i = Some v \<and> vid v = i \<and> vstate v = Active))"
  using registry_run_ok [OF assms]
  by (auto simp: Let_def registry_ok_def registry_get_def bs_wf_distinct)

theorem active_set_exact_witness:
  "\<exists>v. registry_get (fold reg_step [RegNew ''v1'' zero_key ''ab'' 1000 0, RegActivate ''v1''] registry_new) ''v1''
     = Some v \<and> vid v = ''v1'' \<and> vstate v = Active"
proof -
  have "list_all reg_typed [RegNew ''v1'' zero_key ''ab'' 1000 0, RegActivate ''v1'']" by simp
  from active_set_exact [OF this, unfolded Let_def demo_one, THEN conjunct2, THEN spec, of "''v1''"]
  show ?thesis by (rule iffD1) (rule list.set_intros)
qed

text \<open>Slashing conserves value. Over any sequence of registry calls a validator's remaining stake
  plus its cumulative slashed total is unchanged, and the slashed total never decreases.\<close>

theorem slashing_conserves_stake:
  assumes "registry_ok r" "list_all reg_typed ops" "registry_get r i = Some v"
  shows "\<exists>v'. registry_get (fold reg_step ops r) i = Some v' \<and>
    stake v' + total_slashed v' = stake v + total_slashed v \<and> total_slashed v \<le> total_slashed v'"
proof -
  obtain v' where v': "bt_get (validators (fold reg_step ops r)) i = Some v'"
      "stake v' + total_slashed v' = stake v + total_slashed v"
    using run_stake_conserved [OF assms(1,2), of i v] assms(3) by (auto simp: registry_get_def)
  moreover have "total_slashed v \<le> total_slashed v'"
    using reg.run_mono [OF assms(1,2), of i] v'(1) assms(3)
    by (simp add: slashed_of_def registry_get_def)
  ultimately show ?thesis by (auto simp: registry_get_def)
qed

theorem slashing_conserves_stake_witness:
  "\<exists>v'. registry_get (fold reg_step [RegDowntime ''v1'' 100, RegSlashEquiv ''v1'' 300] demo_registry) ''v1''
     = Some v' \<and> stake v' + total_slashed v' = 1000"
  using slashing_conserves_stake [OF demo_registry_ok,
      of "[RegDowntime ''v1'' 100, RegSlashEquiv ''v1'' 300]" "''v1''" demo_validator]
  by (auto simp: registry_get_def demo_registry_def demo_validator_def)

text \<open>The cached active stake is not the stake of the active set. After two validators with a
  stake of 1000 are activated and one is slashed by 250 for equivocation, the slashed validator
  leaves the active set with all its stake, but the cached total drops by the slashed amount only.\<close>

theorem cached_active_stake_drifts:
  "let r = fold reg_step
       [RegNew ''v1'' zero_key ''a'' 1000 0, RegActivate ''v1'',
        RegNew ''v2'' zero_key ''b'' 1000 0, RegActivate ''v2'',
        RegSlashEquiv ''v1'' 250] registry_new in
   sum_list (map stake (get_active_validators r)) = 1000 \<and> total_active_stake r = 1750"
proof -
  have "fold reg_step
       [RegNew ''v1'' zero_key ''a'' 1000 0, RegActivate ''v1'',
        RegNew ''v2'' zero_key ''b'' 1000 0, RegActivate ''v2'',
        RegSlashEquiv ''v1'' 250] registry_new =
     reg_step (RegSlashEquiv ''v1'' 250) (fold reg_step
       [RegNew ''v1'' zero_key ''a'' 1000 0, RegActivate ''v1'',
        RegNew ''v2'' zero_key ''b'' 1000 0, RegActivate ''v2''] registry_new)"
    by (simp only: fold_simps)
  also have "\<dots> = \<lparr>validators =
       [(''v1'', fst (slash_for_equivocation 250 (demo_named ''v1'' ''a''))), (''v2'', demo_named ''v2'' ''b'')],
      active_validators = [''v2''], total_active_stake = 1750\<rparr>"
    unfolding demo_two
    by (simp add: slash_validator_equivocation_def on_validator_def slash_for_equivocation_def
          demo_named_def demo_validator_def bs_remove_def)
  finally show ?thesis
    by (simp add: Let_def get_active_validators_def map_filter_simps demo_named_def demo_validator_def)
qed

end
