(* ===== verification/SlashingEngine.thy ===== *)
theory SlashingEngine
  imports ValidatorIdentity Crypto
begin

text \<open>
  \<open>crates/bleep-consensus/src/slashing_engine.rs\<close>: evidence of an offence, its form check, its
  signature check against the registered key, the penalty, and the engine that applies the slash to
  the validator registry and keeps the audit trail. The \<open>hex\<close> crate and SPHINCS+ are
  parameters (theory \<open>Crypto\<close>). The lemmas show that nothing is slashed without two verified
  signatures on two different messages, that an offence is punished once, that a rejected call
  changes nothing, and that the audit trail accounts for every slashed unit.
\<close>

section \<open>Data\<close>

abbreviation SPHINCS_PUBLIC_KEY_LEN :: usize where "SPHINCS_PUBLIC_KEY_LEN \<equiv> 64"
abbreviation SPHINCS_SIGNATURE_LEN :: usize where "SPHINCS_SIGNATURE_LEN \<equiv> 49856"
abbreviation SIGNED_BLOCK_SIGNATURE_LEN :: usize where
  "SIGNED_BLOCK_SIGNATURE_LEN \<equiv> SPHINCS_PUBLIC_KEY_LEN + SPHINCS_SIGNATURE_LEN"
abbreviation EQUIVOCATION_DOMAIN :: bytes where
  "EQUIVOCATION_DOMAIN \<equiv> str_bytes ''BLEEP:CONSENSUS:VOTE:V1'' @ [0]"
abbreviation DOUBLE_SIGN_DOMAIN :: bytes where
  "DOUBLE_SIGN_DOMAIN \<equiv> str_bytes ''BLEEP_SLASH_DOUBLE_SIGN_V1:''"
abbreviation PENALTY_BPS_DENOMINATOR :: u128 where "PENALTY_BPS_DENOMINATOR \<equiv> 10000"

text \<open>
  \<open>DoubleSigning validator_id height block_hash_1 block_hash_2 signature_1 signature_2\<close>,
  \<open>Equivocation validator_id height vote_1 vote_2 signature_1 signature_2 timestamp_1 timestamp_2\<close>,
  \<open>Downtime validator_id missed_blocks total_blocks_in_epoch\<close>.
\<close>

datatype SlashingEvidence =
    DoubleSigning string u64 string string bytes bytes
  | Equivocation string u64 bytes bytes bytes bytes u64 u64
  | Downtime string u64 u64

datatype SlashError =
    EvidenceEmptyId | EvidenceZeroHeight | EvidenceHashLength | EvidenceHashNotHex
  | EvidenceDecodedLength | EvidenceSameHash | EvidenceSignatureLength | EvidenceVoteLength
  | EvidenceSameVote | EvidenceSameTimestamp | EvidenceNoMissedBlocks | EvidenceNoBlocks
  | EvidenceMissedExceedsTotal | EvidenceAlreadyProcessed | SlashValidatorNotFound string
  | InvalidSigningKeyId string | SigningKeyLength string | InvalidSphincsKey string
  | SignatureKeyMismatch | InvalidSignatureLength | InvalidSphincsSignature | SignatureRejected
  | FirstDoubleSignProof u64 SlashError | SecondDoubleSignProof u64 SlashError
  | FirstEquivocationProof SlashError | SecondEquivocationProof SlashError
  | NotInCanonicalChain | DowntimeNotAuthenticated | PenaltyOverflow | ZeroSlashAmount
  | SlashRegistry RegistryError

record SlashingPenalty =
  double_signing_penalty_bps :: u32
  equivocation_penalty_bps :: u32
  downtime_penalty_per_block :: f64

abbreviation SlashingPenalty_default :: SlashingPenalty where
  "SlashingPenalty_default \<equiv> \<lparr>double_signing_penalty_bps = 10000, equivocation_penalty_bps = 2500,
      downtime_penalty_per_block = f64_round (1 / 1000)\<rparr>"

record SlashingEvent =
  ev_evidence_type :: string
  ev_validator_id :: string
  ev_block_height :: u64
  ev_slash_amount :: u128
  ev_processed_at_epoch :: u64
  ev_timestamp :: u64

record SlashingEngine =
  penalties :: SlashingPenalty
  slashing_history :: "SlashingEvent list"
  processed_evidence :: "(string \<times> u64, SlashingEvidence) btree_map"

section \<open>Evidence\<close>

primrec evidence_validator_id :: "SlashingEvidence \<Rightarrow> string" where
  "evidence_validator_id (DoubleSigning i _ _ _ _ _) = i"
| "evidence_validator_id (Equivocation i _ _ _ _ _ _ _) = i"
| "evidence_validator_id (Downtime i _ _) = i"

abbreviation has_valid_signature_length :: "bytes \<Rightarrow> bool" where
  "has_valid_signature_length s \<equiv> length s = SPHINCS_SIGNATURE_LEN \<or> length s = SIGNED_BLOCK_SIGNATURE_LEN"

primrec is_well_formed :: "crypto_env \<Rightarrow> SlashingEvidence \<Rightarrow> (SlashError, unit) outcome" where
  "is_well_formed c (DoubleSigning i height h1 h2 s1 s2) =
     (if i = [] then Err EvidenceEmptyId
      else if height = 0 then Err EvidenceZeroHeight
      else if length h1 \<noteq> 64 \<or> length h2 \<noteq> 64 then Err EvidenceHashLength
      else bind_outcome (ok_or EvidenceHashNotHex (hex_decode c h1)) (\<lambda>d1.
           bind_outcome (ok_or EvidenceHashNotHex (hex_decode c h2)) (\<lambda>d2.
             if length d1 \<noteq> 32 \<or> length d2 \<noteq> 32 then Err EvidenceDecodedLength
             else if d1 = d2 then Err EvidenceSameHash
             else if \<not> has_valid_signature_length s1 \<or> \<not> has_valid_signature_length s2
                  then Err EvidenceSignatureLength
             else Ok ())))"
| "is_well_formed c (Equivocation i height v1 v2 s1 s2 t1 t2) =
     (if i = [] then Err EvidenceEmptyId
      else if height = 0 then Err EvidenceZeroHeight
      else if length v1 \<noteq> 32 \<or> length v2 \<noteq> 32 then Err EvidenceVoteLength
      else if v1 = v2 then Err EvidenceSameVote
      else if t1 = t2 then Err EvidenceSameTimestamp
      else if \<not> has_valid_signature_length s1 \<or> \<not> has_valid_signature_length s2
           then Err EvidenceSignatureLength
      else Ok ())"
| "is_well_formed c (Downtime i missed blocks) =
     (if i = [] then Err EvidenceEmptyId
      else if missed = 0 then Err EvidenceNoMissedBlocks
      else if blocks = 0 then Err EvidenceNoBlocks
      else if missed > blocks then Err EvidenceMissedExceedsTotal
      else Ok ())"

section \<open>Signatures\<close>

abbreviation decode_block_hash :: "crypto_env \<Rightarrow> string \<Rightarrow> (SlashError, bytes) outcome" where
  "decode_block_hash c h \<equiv> bind_outcome (ok_or EvidenceHashNotHex (hex_decode c h))
       (\<lambda>d. if length d = 32 then Ok d else Err EvidenceDecodedLength)"

definition double_sign_message :: "u64 \<Rightarrow> bytes \<Rightarrow> bytes" where
  "double_sign_message height h = DOUBLE_SIGN_DOMAIN @ to_be_bytes 8 height @ h"

definition equivocation_vote_message :: "string \<Rightarrow> u64 \<Rightarrow> u64 \<Rightarrow> bytes \<Rightarrow> bytes" where
  "equivocation_vote_message i height timestamp vote =
     EQUIVOCATION_DOMAIN @ to_le_bytes 8 (cast 64 (length i)) @ str_bytes i @
     to_le_bytes 8 height @ to_le_bytes 8 timestamp @ to_le_bytes 8 (cast 64 (length vote)) @ vote"

text \<open>The parsed key is represented by the bytes it was parsed from.\<close>

definition verify_validator_signature ::
  "crypto_env \<Rightarrow> bytes \<Rightarrow> bytes \<Rightarrow> bytes \<Rightarrow> (SlashError, unit) outcome" where
  "verify_validator_signature c signature message key =
     bind_outcome
       (if length signature = SPHINCS_SIGNATURE_LEN then Ok signature
        else if length signature = SIGNED_BLOCK_SIGNATURE_LEN then
          (if take SPHINCS_PUBLIC_KEY_LEN signature \<noteq> key then Err SignatureKeyMismatch
           else Ok (drop SPHINCS_PUBLIC_KEY_LEN signature))
        else Err InvalidSignatureLength)
       (\<lambda>s. if \<not> sig_from_bytes_ok c s then Err InvalidSphincsSignature
            else if \<not> verify_detached_signature c s message key then Err SignatureRejected
            else Ok ())"

definition verify_block_hash ::
  "crypto_env \<Rightarrow> u64 \<Rightarrow> bytes \<Rightarrow> bytes \<Rightarrow> bytes \<Rightarrow> (SlashError, unit) outcome" where
  "verify_block_hash c height h signature key =
     verify_validator_signature c signature (double_sign_message height h) key"

definition verify_evidence_signatures ::
  "crypto_env \<Rightarrow> SlashingEvidence \<Rightarrow> ValidatorIdentity \<Rightarrow> (u64 \<Rightarrow> bytes \<Rightarrow> bool) \<Rightarrow>
   (SlashError, unit) outcome" where
  "verify_evidence_signatures c evidence v canonical =
     bind_outcome (ok_or (InvalidSigningKeyId (vid v)) (hex_decode c (signing_key_id v))) (\<lambda>key.
       if length key \<noteq> SPHINCS_PUBLIC_KEY_LEN then Err (SigningKeyLength (vid v))
       else if \<not> pk_from_bytes_ok c key then Err (InvalidSphincsKey (vid v))
       else (case evidence of
         DoubleSigning _ height h1 h2 s1 s2 \<Rightarrow>
           bind_outcome (decode_block_hash c h1) (\<lambda>d1.
           bind_outcome (decode_block_hash c h2) (\<lambda>d2.
           bind_outcome (map_err (FirstDoubleSignProof height) (verify_block_hash c height d1 s1 key)) (\<lambda>_.
           bind_outcome (map_err (SecondDoubleSignProof height) (verify_block_hash c height d2 s2 key)) (\<lambda>_.
             if \<not> canonical height d1 \<and> \<not> canonical height d2 then Err NotInCanonicalChain
             else Ok ()))))
       | Equivocation i height v1 v2 s1 s2 t1 t2 \<Rightarrow>
           bind_outcome (map_err FirstEquivocationProof
             (verify_validator_signature c s1 (equivocation_vote_message i height t1 v1) key)) (\<lambda>_.
           map_err SecondEquivocationProof
             (verify_validator_signature c s2 (equivocation_vote_message i height t2 v2) key))
       | Downtime _ _ _ \<Rightarrow> Err DowntimeNotAuthenticated))"

section \<open>Penalty\<close>

text \<open>
  The downtime branch divides two counters as \<open>f64\<close>; \<open>is_well_formed\<close> has rejected a zero divisor
  before the engine calls it.
\<close>

definition calculate_slash_amount ::
  "SlashingPenalty \<Rightarrow> SlashingEvidence \<Rightarrow> ValidatorIdentity \<Rightarrow> (SlashError, u128) outcome" where
  "calculate_slash_amount p evidence v =
     bind_outcome
       (case evidence of
          DoubleSigning _ _ _ _ _ _ \<Rightarrow>
            bind_outcome (ok_or PenaltyOverflow (checked_mul 128 (stake v) (double_signing_penalty_bps p)))
              (\<lambda>n. Ok (n div PENALTY_BPS_DENOMINATOR))
        | Equivocation _ _ _ _ _ _ _ _ \<Rightarrow>
            bind_outcome (ok_or PenaltyOverflow (checked_mul 128 (stake v) (equivocation_penalty_bps p)))
              (\<lambda>n. Ok (min (n div PENALTY_BPS_DENOMINATOR) (stake v)))
        | Downtime _ missed blocks \<Rightarrow>
            (let missed_ratio = f64_div (f64_of_nat missed) (f64_of_nat blocks);
                 penalty_percentage = f64_mul missed_ratio (downtime_penalty_per_block p);
                 amount = f64_to_uint 128 (f64_mul (f64_of_nat (stake v)) penalty_percentage)
             in Ok (min amount (stake v))))
       (\<lambda>slash_amount. if slash_amount = 0 then Err ZeroSlashAmount else Ok slash_amount)"

section \<open>The engine\<close>

definition engine_with_penalties :: "SlashingPenalty \<Rightarrow> SlashingEngine" where
  "engine_with_penalties p = \<lparr>penalties = p, slashing_history = [], processed_evidence = []\<rparr>"

abbreviation engine_new :: SlashingEngine where
  "engine_new \<equiv> engine_with_penalties SlashingPenalty_default"

abbreviation evidence_key :: "SlashingEvidence \<Rightarrow> u64 \<Rightarrow> string \<times> u64" where
  "evidence_key evidence current_epoch \<equiv> (evidence_validator_id evidence,
      case evidence of DoubleSigning _ height _ _ _ _ \<Rightarrow> height
      | Equivocation _ height _ _ _ _ _ _ \<Rightarrow> height
      | Downtime _ _ _ \<Rightarrow> current_epoch)"

definition apply_slash ::
  "SlashingEvidence \<Rightarrow> string \<Rightarrow> u128 \<Rightarrow> ValidatorRegistry \<Rightarrow>
   ValidatorRegistry \<times> (RegistryError, unit) outcome" where
  "apply_slash evidence i amount r =
     (case evidence of
        DoubleSigning _ _ _ _ _ _ \<Rightarrow> slash_validator_double_sign i amount r
      | Equivocation _ _ _ _ _ _ _ _ \<Rightarrow> slash_validator_equivocation i amount r
      | Downtime _ _ _ \<Rightarrow> record_validator_downtime i amount r)"

abbreviation slashing_event :: "SlashingEvidence \<Rightarrow> u128 \<Rightarrow> u64 \<Rightarrow> u64 \<Rightarrow> SlashingEvent" where
  "slashing_event evidence amount current_epoch timestamp \<equiv> \<lparr>ev_evidence_type = (case evidence of DoubleSigning _ _ _ _ _ _ \<Rightarrow> ''DOUBLE_SIGNING''
        | Equivocation _ _ _ _ _ _ _ _ \<Rightarrow> ''EQUIVOCATION'' | Downtime _ _ _ \<Rightarrow> ''DOWNTIME''),
      ev_validator_id = evidence_validator_id evidence,
      ev_block_height = (case evidence of DoubleSigning _ height _ _ _ _ \<Rightarrow> height
        | Equivocation _ height _ _ _ _ _ _ \<Rightarrow> height | Downtime _ _ _ \<Rightarrow> 0),
      ev_slash_amount = amount, ev_processed_at_epoch = current_epoch, ev_timestamp = timestamp\<rparr>"

text \<open>The checks before the first write: the slash amount, or the error that is returned.\<close>

definition assess_evidence ::
  "crypto_env \<Rightarrow> SlashingEvidence \<Rightarrow> u64 \<Rightarrow> (u64 \<Rightarrow> bytes \<Rightarrow> bool) \<Rightarrow>
   SlashingEngine \<Rightarrow> ValidatorRegistry \<Rightarrow> (SlashError, u128) outcome" where
  "assess_evidence c evidence current_epoch canonical e r =
     bind_outcome (is_well_formed c evidence) (\<lambda>_.
       if bt_contains (processed_evidence e) (evidence_key evidence current_epoch)
       then Err EvidenceAlreadyProcessed
       else bind_outcome (ok_or (SlashValidatorNotFound (evidence_validator_id evidence))
              (registry_get r (evidence_validator_id evidence))) (\<lambda>v.
            bind_outcome (verify_evidence_signatures c evidence v canonical) (\<lambda>_.
              calculate_slash_amount (penalties e) evidence v)))"

definition process_evidence_with_canonical_chain ::
  "crypto_env \<Rightarrow> SlashingEvidence \<Rightarrow> u64 \<Rightarrow> u64 \<Rightarrow> (u64 \<Rightarrow> bytes \<Rightarrow> bool) \<Rightarrow>
   SlashingEngine \<times> ValidatorRegistry \<Rightarrow>
   (SlashingEngine \<times> ValidatorRegistry) \<times> (SlashError, SlashingEvent) outcome" where
  "process_evidence_with_canonical_chain c evidence current_epoch timestamp canonical st =
     (let (e, r) = st in
      case assess_evidence c evidence current_epoch canonical e r of
        Err x \<Rightarrow> (st, Err x)
      | Panic \<Rightarrow> (st, Panic)
      | Ok amount \<Rightarrow>
          (case apply_slash evidence (evidence_validator_id evidence) amount r of
             (r', Err x) \<Rightarrow> ((e, r'), Err (SlashRegistry x))
           | (r', Panic) \<Rightarrow> ((e, r'), Panic)
           | (r', Ok _) \<Rightarrow>
               (let event = slashing_event evidence amount current_epoch timestamp in
                ((e\<lparr>slashing_history := slashing_history e @ [event],
                    processed_evidence := bt_insert (evidence_key evidence current_epoch) evidence
                      (processed_evidence e)\<rparr>, r'), Ok event))))"

definition process_evidence ::
  "crypto_env \<Rightarrow> SlashingEvidence \<Rightarrow> u64 \<Rightarrow> u64 \<Rightarrow> SlashingEngine \<times> ValidatorRegistry \<Rightarrow>
   (SlashingEngine \<times> ValidatorRegistry) \<times> (SlashError, SlashingEvent) outcome" where
  "process_evidence c evidence current_epoch timestamp =
     process_evidence_with_canonical_chain c evidence current_epoch timestamp (\<lambda>_ _. False)"

abbreviation has_evidence :: "SlashingEngine \<Rightarrow> string \<Rightarrow> u64 \<Rightarrow> bool" where
  "has_evidence e i height \<equiv> bt_contains (processed_evidence e) (i, height)"

abbreviation engine_total_slashed :: "SlashingEngine \<Rightarrow> u128" where
  "engine_total_slashed e \<equiv> wrap_sum 128 (map ev_slash_amount (slashing_history e))"

section \<open>Accepted evidence\<close>

text \<open>The signature \<open>s\<close>, bare or behind the signer's key, verifies the message under the key.\<close>

definition proves :: "crypto_env \<Rightarrow> bytes \<Rightarrow> bytes \<Rightarrow> bytes \<Rightarrow> bool" where
  "proves c key s m \<longleftrightarrow>
     length s = SPHINCS_SIGNATURE_LEN \<and> verify_detached_signature c s m key \<or>
     (\<exists>raw. s = key @ raw \<and> length raw = SPHINCS_SIGNATURE_LEN \<and> verify_detached_signature c raw m key)"

lemma verify_validator_signature_Ok:
  assumes "verify_validator_signature c s m key = Ok u"
  shows "proves c key s m"
proof (cases "length s = SPHINCS_SIGNATURE_LEN")
  case True
  with assms show ?thesis by (auto simp: verify_validator_signature_def proves_def split: if_splits)
next
  case False
  with assms have "length s = SIGNED_BLOCK_SIGNATURE_LEN" "take SPHINCS_PUBLIC_KEY_LEN s = key"
      "verify_detached_signature c (drop SPHINCS_PUBLIC_KEY_LEN s) m key"
    by (auto simp: verify_validator_signature_def split: if_splits)
  then show ?thesis unfolding proves_def
    by (intro disjI2 exI [of _ "drop SPHINCS_PUBLIC_KEY_LEN s"]) auto
qed

text \<open>What the engine has checked of a piece of evidence against the registered key.\<close>

definition authentic ::
  "crypto_env \<Rightarrow> (u64 \<Rightarrow> bytes \<Rightarrow> bool) \<Rightarrow> bytes \<Rightarrow> SlashingEvidence \<Rightarrow> bool" where
  "authentic c canonical key evidence \<longleftrightarrow>
     (case evidence of
        DoubleSigning _ height h1 h2 s1 s2 \<Rightarrow>
          (\<exists>d1 d2. hex_decode c h1 = Some d1 \<and> hex_decode c h2 = Some d2 \<and> d1 \<noteq> d2 \<and>
             proves c key s1 (double_sign_message height d1) \<and>
             proves c key s2 (double_sign_message height d2) \<and>
             (canonical height d1 \<or> canonical height d2))
      | Equivocation i height v1 v2 s1 s2 t1 t2 \<Rightarrow>
          v1 \<noteq> v2 \<and> proves c key s1 (equivocation_vote_message i height t1 v1) \<and>
          proves c key s2 (equivocation_vote_message i height t2 v2)
      | Downtime _ _ _ \<Rightarrow> False)"

lemma accepted_authentic:
  assumes "is_well_formed c ev = Ok u" "verify_evidence_signatures c ev v canonical = Ok u'"
  shows "\<exists>key. hex_decode c (signing_key_id v) = Some key \<and> authentic c canonical key ev"
  using assms
  by (cases ev)
     (auto simp: verify_evidence_signatures_def bind_outcome_Ok verify_block_hash_def
        authentic_def split: if_splits dest!: verify_validator_signature_Ok)

lemma assess_Ok:
  assumes "assess_evidence c ev epoch canonical e r = Ok a"
  shows "\<exists>v key. registry_get r (evidence_validator_id ev) = Some v \<and>
    hex_decode c (signing_key_id v) = Some key \<and> authentic c canonical key ev \<and>
    \<not> bt_contains (processed_evidence e) (evidence_key ev epoch) \<and>
    calculate_slash_amount (penalties e) ev v = Ok a"
  using assms accepted_authentic [of c ev]
  by (fastforce simp: assess_evidence_def bind_outcome_Ok split: if_splits)

lemma authentic_cases:
  assumes "authentic c canonical key ev"
  obtains i h h1 h2 s1 s2 where "ev = DoubleSigning i h h1 h2 s1 s2"
  | i h v1 v2 s1 s2 t1 t2 where "ev = Equivocation i h v1 v2 s1 s2 t1 t2"
  using assms by (cases ev) (auto simp: authentic_def)

section \<open>Effect on the registry\<close>

lemma apply_slash_step:
  "\<exists>a. reg_typed a \<and> fst (apply_slash ev i amount r) = reg_step a r"
proof (cases ev)
  case (DoubleSigning _ _ _ _ _ _)
  then show ?thesis by (intro exI [of _ "RegSlashDouble i amount"]) (simp add: apply_slash_def)
next
  case (Equivocation _ _ _ _ _ _ _ _)
  then show ?thesis by (intro exI [of _ "RegSlashEquiv i amount"]) (simp add: apply_slash_def)
next
  case (Downtime _ _ _)
  then show ?thesis by (intro exI [of _ "RegDowntime i amount"]) (simp add: apply_slash_def)
qed

lemma apply_slash_failed:
  assumes "registry_ok r" "apply_slash ev i amount r = (r', x)" "\<not> is_ok x"
  shows "r' = r"
  using assms
  by (cases ev)
     (auto simp: apply_slash_def registry_op_defs on_validator_def validator_op_defs bt_insert_same
        registry_ok_def split: option.splits if_splits)

lemma apply_slash_Ok:
  assumes "apply_slash ev i amount r = (r', Ok u)" "bt_get (validators r) i = Some v"
  shows "\<exists>v'. bt_get (validators r') i = Some v' \<and> stake v' = stake v - amount \<and> amount \<le> stake v \<and>
    total_slashed v' = sat_add 128 (total_slashed v) amount \<and>
    (\<forall>j. j \<noteq> i \<longrightarrow> bt_get (validators r') j = bt_get (validators r) j)"
  using assms
  by (cases ev)
     (auto simp: apply_slash_def registry_op_defs on_validator_def validator_op_defs
        split: if_splits)

lemma apply_slash_Slashed:
  assumes "apply_slash ev i amount r = (r', Ok u)" "authentic c canonical key ev"
    "bt_get (validators r) i = Some v"
  shows "\<exists>v'. bt_get (validators r') i = Some v' \<and> vstate v' = Slashed"
  using assms(2) by (rule authentic_cases)
    (use assms(1,3) in \<open>auto simp: apply_slash_def registry_op_defs on_validator_def validator_op_defs
       split: if_splits\<close>)

text \<open>The two outcomes of one call: rejected and nothing changed, or slashed and recorded.\<close>

lemma process_evidence_cases:
  assumes ok: "registry_ok r"
  obtains (rejected) x where
      "process_evidence_with_canonical_chain c ev epoch ts canonical (e, r) = ((e, r), x)" "\<not> is_ok x"
  | (slashed) amount r' v key where
      "process_evidence_with_canonical_chain c ev epoch ts canonical (e, r) =
        ((e\<lparr>slashing_history := slashing_history e @ [slashing_event ev amount epoch ts],
            processed_evidence := bt_insert (evidence_key ev epoch) ev (processed_evidence e)\<rparr>, r'),
         Ok (slashing_event ev amount epoch ts))"
      "apply_slash ev (evidence_validator_id ev) amount r = (r', Ok ())"
      "bt_get (validators r) (evidence_validator_id ev) = Some v"
      "hex_decode c (signing_key_id v) = Some key" "authentic c canonical key ev"
      "\<not> bt_contains (processed_evidence e) (evidence_key ev epoch)"
      "calculate_slash_amount (penalties e) ev v = Ok amount"
proof (cases "assess_evidence c ev epoch canonical e r")
  case (Ok amount)
  obtain r' x where ap: "apply_slash ev (evidence_validator_id ev) amount r = (r', x)" by force
  show ?thesis
  proof (cases "is_ok x")
    case True
    then have "x = Ok ()" by (auto simp: is_ok_iff)
    with Ok ap assess_Ok [OF Ok] slashed show ?thesis
      by (force simp: process_evidence_with_canonical_chain_def registry_get_def Let_def)
  next
    case False
    with apply_slash_failed [OF ok ap] Ok ap rejected show ?thesis
      by (cases x) (auto simp: process_evidence_with_canonical_chain_def Let_def)
  qed
qed (use rejected in \<open>auto simp: process_evidence_with_canonical_chain_def Let_def\<close>)

section \<open>Runs of the engine\<close>

datatype slash_op = SlashOp SlashingEvidence u64 u64 "u64 \<Rightarrow> bytes \<Rightarrow> bool"

fun slash_step :: "crypto_env \<Rightarrow> slash_op \<Rightarrow> SlashingEngine \<times> ValidatorRegistry \<Rightarrow>
    SlashingEngine \<times> ValidatorRegistry" where
  "slash_step c (SlashOp ev epoch ts canonical) st =
     fst (process_evidence_with_canonical_chain c ev epoch ts canonical st)"

definition event_key :: "SlashingEvent \<Rightarrow> string \<times> u64" where
  "event_key ev = (ev_validator_id ev, ev_block_height ev)"

definition slashed_events :: "SlashingEngine \<Rightarrow> string \<Rightarrow> u128" where
  "slashed_events e i =
     sum_list (map ev_slash_amount (filter (\<lambda>ev. ev_validator_id ev = i) (slashing_history e)))"

text \<open>The trail against a registry \<open>r0\<close> the engine started with.\<close>

definition trail_ok :: "ValidatorRegistry \<Rightarrow> SlashingEngine \<times> ValidatorRegistry \<Rightarrow> bool" where
  "trail_ok r0 st \<longleftrightarrow> (case st of (e, r) \<Rightarrow>
     registry_ok r \<and> distinct (map event_key (slashing_history e)) \<and>
     (\<forall>k. bt_contains (processed_evidence e) k \<longleftrightarrow> k \<in> event_key ` set (slashing_history e)) \<and>
     (\<forall>i v0. bt_get (validators r0) i = Some v0 \<longrightarrow>
        (\<exists>v. bt_get (validators r) i = Some v \<and>
             total_slashed v = total_slashed v0 + slashed_events e i)))"

lemma event_key_slashing_event:
  "authentic c canonical key ev \<Longrightarrow> event_key (slashing_event ev amount epoch ts) = evidence_key ev epoch"
  by (erule authentic_cases) (simp_all add: event_key_def)

lemma slashing_event_simps [simp]:
  "ev_validator_id (slashing_event ev amount epoch ts) = evidence_validator_id ev"
  "ev_slash_amount (slashing_event ev amount epoch ts) = amount"
  by simp_all

lemma trail_ok_step:
  assumes "trail_ok r0 (e, r)"
  shows "trail_ok r0 (fst (process_evidence_with_canonical_chain c ev epoch ts canonical (e, r)))"
proof -
  have ok: "registry_ok r" using assms by (simp add: trail_ok_def)
  from ok show ?thesis
  proof (cases rule: process_evidence_cases [of r c ev epoch ts canonical e])
    case (rejected x)
    with assms show ?thesis by simp
  next
    case (slashed amount r' v key)
    let ?i = "evidence_validator_id ev" and ?ev = "slashing_event ev amount epoch ts"
    let ?e = "e\<lparr>slashing_history := slashing_history e @ [?ev],
               processed_evidence := bt_insert (evidence_key ev epoch) ev (processed_evidence e)\<rparr>"
    note key = event_key_slashing_event [OF slashed(5), of amount epoch ts]
    have r': "registry_ok r'"
      using apply_slash_step [of ev ?i amount r] slashed(2) registry_step_ok [OF ok] by auto
    obtain v' where v': "bt_get (validators r') ?i = Some v'" "amount \<le> stake v"
        "total_slashed v' = sat_add 128 (total_slashed v) amount"
        "\<forall>j. j \<noteq> ?i \<longrightarrow> bt_get (validators r') j = bt_get (validators r) j"
      using apply_slash_Ok [OF slashed(2,3)] by blast
    have "stake v + total_slashed v < 2 ^ 128" using ok slashed(3) by (auto simp: registry_ok_def)
    with v'(2) have "sat_add 128 (total_slashed v) amount = total_slashed v + amount"
      by (intro sat_add_exact) linarith
    with v' slashed(3) have tot: "bt_get (validators r) j = Some u \<Longrightarrow>
        \<exists>u'. bt_get (validators r') j = Some u' \<and>
          total_slashed u' = total_slashed u + (if j = ?i then amount else 0)" for j u
      by (cases "j = ?i") auto
    have ev: "slashed_events ?e j = slashed_events e j + (if j = ?i then amount else 0)" for j
      by (simp add: slashed_events_def)
    have "\<exists>u'. bt_get (validators r') j = Some u' \<and> total_slashed u' = total_slashed u0 + slashed_events ?e j"
      if start: "bt_get (validators r0) j = Some u0" for j u0
    proof -
      obtain u where "bt_get (validators r) j = Some u" "total_slashed u = total_slashed u0 + slashed_events e j"
        using assms start by (force simp: trail_ok_def)
      with tot [of j u] show ?thesis unfolding ev by auto
    qed
    moreover have "evidence_key ev epoch \<notin> event_key ` set (slashing_history e)"
      using assms slashed(6) by (simp add: trail_ok_def del: split_paired_All)
    ultimately show ?thesis
      using assms r' slashed(1) key by (simp add: trail_ok_def del: split_paired_All)
  qed
qed

interpretation slash: machine "slash_step c" "trail_ok r0" "\<lambda>_. True" for c r0
proof
  fix st a
  assume "trail_ok r0 st"
  then show "trail_ok r0 (slash_step c a st)"
    by (cases a; cases st) (auto intro: trail_ok_step)
qed

lemma trail_ok_new: "registry_ok r \<Longrightarrow> trail_ok r (engine_with_penalties p, r)"
  by (simp add: trail_ok_def engine_with_penalties_def slashed_events_def)

lemma trail_run: "registry_ok r \<Longrightarrow> trail_ok r (fold (slash_step c) ops (engine_with_penalties p, r))"
  by (rule slash.run_inv [OF trail_ok_new]) (simp_all add: list_all_iff)

section \<open>Message encodings\<close>

lemma domains_differ: "take 6 EQUIVOCATION_DOMAIN \<noteq> take 6 DOUBLE_SIGN_DOMAIN"
  by (simp add: str_bytes_def)

lemma length_domains [simp]: "length EQUIVOCATION_DOMAIN = 24" "length DOUBLE_SIGN_DOMAIN = 27"
  by simp_all

lemma message_domains_differ: "equivocation_vote_message i h t v \<noteq> double_sign_message h' d"
proof
  assume "equivocation_vote_message i h t v = double_sign_message h' d"
  then have "take 6 (equivocation_vote_message i h t v) = take 6 (double_sign_message h' d)" by simp
  then show False
    using domains_differ by (simp add: equivocation_vote_message_def double_sign_message_def)
qed

lemma equivocation_vote_message_prefixed:
  assumes "length i < 2 ^ 64" "length v < 2 ^ 64"
  shows "equivocation_vote_message i h t v =
    EQUIVOCATION_DOMAIN @ len_prefix_le (str_bytes i) @ to_le_bytes 8 h @ to_le_bytes 8 t @ len_prefix_le v @ []"
  using assms by (simp add: equivocation_vote_message_def len_prefix_le_def cast_exact)

text \<open>A concrete instance: one key, a scheme that accepts every signature under it, two votes.\<close>

definition demo_vote :: "u8 \<Rightarrow> bytes" where "demo_vote b = replicate 32 b"

lemma length_demo_vote [simp]: "length (demo_vote b) = 32"
  by (simp add: demo_vote_def)

lemma demo_votes_differ [simp]: "demo_vote 0 \<noteq> demo_vote 2"
  by (simp add: demo_vote_def replicate_eq_replicate)

definition demo_crypto :: crypto_env where
  "demo_crypto = demo_env\<lparr>hex_decode := (\<lambda>s. if s = ''ab'' then Some demo_key else None)\<rparr>"

definition demo_evidence :: SlashingEvidence where
  "demo_evidence = Equivocation ''v1'' 5 (demo_vote 0) (demo_vote 2) demo_sig demo_sig 1 2"

lemmas demo_slash_defs =
  demo_crypto_def demo_env_def demo_evidence_def demo_registry_def demo_validator_def
  engine_with_penalties_def process_evidence_with_canonical_chain_def
  assess_evidence_def registry_get_def verify_evidence_signatures_def
  verify_validator_signature_def calculate_slash_amount_def
  apply_slash_def slash_validator_equivocation_def on_validator_def slash_for_equivocation_def
  const_defs

lemma demo_slash:
  "snd (process_evidence_with_canonical_chain demo_crypto demo_evidence 4 2 (\<lambda>_ _. False)
     (engine_new, demo_registry)) = Ok (slashing_event demo_evidence 250 4 2)"
  by (simp add: demo_slash_defs checked_mul_def Let_def)

lemma demo_registry_get:
  "registry_get demo_registry ''v1'' = Some demo_validator" "total_slashed demo_validator = 0"
  by (simp_all add: registry_get_def demo_registry_def demo_validator_def)

section \<open>Properties\<close>

text \<open>C27: no slash without proof. When the engine accepts evidence, the accused validator is
  registered, its registered key verifies both signatures of the evidence, on two different block
  hashes of one height (for double signing with one of them in the canonical chain), the offence
  was not punished before, the validator ends in state Slashed with its stake reduced by exactly
  the recorded amount, and no other validator record is touched.\<close>

theorem no_slash_without_proof:
  assumes "registry_ok r"
    and "process_evidence_with_canonical_chain c ev epoch ts canonical (e, r) = ((e', r'), Ok event)"
  shows "\<exists>v key v'. registry_get r (evidence_validator_id ev) = Some v \<and>
    hex_decode c (signing_key_id v) = Some key \<and> authentic c canonical key ev \<and>
    \<not> has_evidence e (fst (evidence_key ev epoch)) (snd (evidence_key ev epoch)) \<and>
    registry_get r' (evidence_validator_id ev) = Some v' \<and> vstate v' = Slashed \<and>
    0 < ev_slash_amount event \<and> stake v = stake v' + ev_slash_amount event \<and>
    (\<forall>j. j \<noteq> evidence_validator_id ev \<longrightarrow> registry_get r' j = registry_get r j)"
  using assms(1)
proof (cases rule: process_evidence_cases [of r c ev epoch ts canonical e])
  case (rejected x)
  with assms(2) show ?thesis by (simp add: is_ok_iff)
next
  case (slashed amount r'' v key)
  with assms(2) have eq: "r'' = r'" "event = slashing_event ev amount epoch ts" by auto
  have pos: "0 < amount"
    using slashed(7) by (auto simp: calculate_slash_amount_def bind_outcome_Ok split: if_splits)
  show ?thesis
    using slashed pos apply_slash_Ok [OF slashed(2,3)] apply_slash_Slashed [OF slashed(2,5,3)]
    unfolding eq(1) eq(2) by (auto simp: registry_get_def)
qed

theorem no_slash_without_proof_witness:
  "\<exists>v'. registry_get (snd (fst (process_evidence_with_canonical_chain demo_crypto demo_evidence 4 2
      (\<lambda>_ _. False) (engine_new, demo_registry)))) ''v1'' = Some v' \<and> vstate v' = Slashed \<and> stake v' = 750"
proof -
  obtain e' r' where p: "process_evidence_with_canonical_chain demo_crypto demo_evidence 4 2
      (\<lambda>_ _. False) (engine_new, demo_registry) = ((e', r'), Ok (slashing_event demo_evidence 250 4 2))"
    using demo_slash by (metis prod.collapse)
  have "registry_get demo_registry ''v1'' = Some demo_validator" "evidence_validator_id demo_evidence = ''v1''"
    by (simp_all add: registry_get_def demo_registry_def demo_evidence_def)
  with no_slash_without_proof [OF demo_registry_ok p] show ?thesis
    unfolding p by (auto simp: demo_validator_def)
qed

text \<open>A rejected call changes nothing. On a well-formed registry, every call that does not
  return a slashing event leaves the engine and the registry exactly as they were.\<close>

theorem rejected_evidence_changes_nothing:
  assumes "registry_ok r"
    and "process_evidence_with_canonical_chain c ev epoch ts canonical (e, r) = (st', x)" "\<not> is_ok x"
  shows "st' = (e, r)"
  using assms(1)
  by (cases rule: process_evidence_cases [of r c ev epoch ts canonical e])
     (use assms(2,3) in auto)

theorem rejected_evidence_changes_nothing_witness:
  "fst (process_evidence_with_canonical_chain demo_crypto (Downtime ''v1'' 3 10) 1 2 (\<lambda>_ _. True)
     (engine_new, demo_registry)) = (engine_new, demo_registry)"
proof -
  have "\<not> is_ok (snd (process_evidence_with_canonical_chain demo_crypto (Downtime ''v1'' 3 10) 1 2 (\<lambda>_ _. True)
     (engine_new, demo_registry)))"
    by (simp add: demo_slash_defs Let_def)
  then show ?thesis by (intro rejected_evidence_changes_nothing [OF demo_registry_ok]) auto
qed

text \<open>C19: one punishment per offence, and a complete audit trail. Over any sequence of evidence
  submissions to a new engine, no validator and height occur twice in the history, and each
  validator's slashed total has grown by exactly the sum of its recorded events.\<close>

theorem audit_trail_complete:
  assumes "registry_ok r"
  shows "case fold (slash_step c) ops (engine_with_penalties p, r) of (e, r') \<Rightarrow>
    distinct (map (\<lambda>ev. (ev_validator_id ev, ev_block_height ev)) (slashing_history e)) \<and>
    (\<forall>i v. registry_get r i = Some v \<longrightarrow> (\<exists>v'. registry_get r' i = Some v' \<and>
       total_slashed v' = total_slashed v +
         sum_list (map ev_slash_amount (filter (\<lambda>ev. ev_validator_id ev = i) (slashing_history e)))))"
  using trail_run [OF assms, of c ops p]
  by (auto simp: trail_ok_def registry_get_def event_key_def [abs_def] slashed_events_def split: prod.splits)

theorem audit_trail_complete_witness:
  "case fold (slash_step demo_crypto) [SlashOp demo_evidence 4 2 (\<lambda>_ _. False),
       SlashOp demo_evidence 4 3 (\<lambda>_ _. False)] (engine_with_penalties SlashingPenalty_default, demo_registry)
   of (e, r') \<Rightarrow> \<exists>v'. registry_get r' ''v1'' = Some v' \<and> total_slashed v' =
     sum_list (map ev_slash_amount (filter (\<lambda>ev. ev_validator_id ev = ''v1'') (slashing_history e)))"
  using audit_trail_complete [OF demo_registry_ok, of demo_crypto
      "[SlashOp demo_evidence 4 2 (\<lambda>_ _. False), SlashOp demo_evidence 4 3 (\<lambda>_ _. False)]"
      SlashingPenalty_default]
  by (auto simp del: fold.simps fold_simps slash_step.simps split: prod.splits
        dest!: spec [of _ "''v1''"] spec [of _ demo_validator] simp: demo_registry_get)

text \<open>The entry point without a chain view rejects the gravest offence. \<open>process_evidence\<close> never
  accepts double-signing or downtime evidence, whatever the signatures.\<close>

theorem process_evidence_only_equivocation:
  assumes "snd (process_evidence c ev epoch ts (e, r)) = Ok event" "registry_ok r"
  shows "ev_evidence_type event = ''EQUIVOCATION''"
proof -
  obtain st' where p: "process_evidence_with_canonical_chain c ev epoch ts (\<lambda>_ _. False) (e, r) = (st', Ok event)"
    using assms(1) by (metis process_evidence_def prod.collapse)
  from assms(2) show ?thesis
    by (cases rule: process_evidence_cases [of r c ev epoch ts "\<lambda>_ _. False" e])
       (use p in \<open>auto simp: is_ok_iff authentic_def split: SlashingEvidence.splits\<close>)
qed

theorem process_evidence_only_equivocation_witness:
  "ev_evidence_type (slashing_event demo_evidence 250 4 2) = ''EQUIVOCATION''"
  by (rule process_evidence_only_equivocation [of demo_crypto demo_evidence 4 2 engine_new demo_registry])
     (simp_all add: process_evidence_def demo_slash demo_registry_ok)

text \<open>Signed messages are unambiguous. An equivocation vote message determines the validator, the
  height, the timestamp and the vote it was made from, and never equals a double-signing message.\<close>

theorem slash_messages_unambiguous:
  assumes "length i < 2 ^ 64" "length i' < 2 ^ 64" "length v < 2 ^ 64" "length v' < 2 ^ 64"
    and "h < 2 ^ 64" "h' < 2 ^ 64" "t < 2 ^ 64" "t' < 2 ^ 64"
  shows "(equivocation_vote_message i h t v = equivocation_vote_message i' h' t' v'
      \<longleftrightarrow> i = i' \<and> h = h' \<and> t = t' \<and> v = v') \<and>
    (double_sign_message h d = double_sign_message h' d' \<longleftrightarrow> h = h' \<and> d = d') \<and>
    equivocation_vote_message i h t v \<noteq> double_sign_message h' d"
proof (intro conjI)
  have "(2::nat) ^ 64 = 256 ^ 8" by simp
  note b = assms [unfolded this]
  show "equivocation_vote_message i h t v = equivocation_vote_message i' h' t' v'
      \<longleftrightarrow> i = i' \<and> h = h' \<and> t = t' \<and> v = v'"
    unfolding equivocation_vote_message_prefixed [OF assms(1,3)]
      equivocation_vote_message_prefixed [OF assms(2,4)]
    using b by (simp only: same_append_eq len_prefix_le_inj length_str_bytes append_eq_fixed
        length_to_le_bytes to_le_bytes_inj str_bytes_inj simp_thms)
  show "double_sign_message h d = double_sign_message h' d' \<longleftrightarrow> h = h' \<and> d = d'"
    using b by (simp only: double_sign_message_def same_append_eq append_eq_fixed length_to_be_bytes to_be_bytes_inj)
qed (rule message_domains_differ)

theorem slash_messages_unambiguous_witness:
  "equivocation_vote_message ''v1'' 5 1 [0] \<noteq> equivocation_vote_message ''v1'' 5 2 [1]"
  using slash_messages_unambiguous [of "''v1''" "''v1''" "[0]" "[1]" 5 5 1 2 "[]" "[]"] by simp

end
