(* ===== verification/Finality.thy ===== *)
theory Finality
  imports SlashingEngine Block
begin

text \<open>
  \<open>crates/bleep-consensus/src/finality.rs\<close> with the signature types of
  \<open>crates/bleep-crypto/src/pq_crypto.rs\<close>: finality headers, the committee derived from the validator
  registry, certificates with their signed message, proofs, and the manager of finalized blocks. The
  interface \<open>weighted_quorum\<close> is instantiated with the committee's voting power and the two-thirds
  threshold of the code. The lemmas show that two certificates for one committee share signers with
  more than a third of the power, that only verified signatures of participating validators finalize
  a block, that a finalized height is final, and what the signed message binds.
\<close>

section \<open>Signatures of bleep-crypto\<close>

abbreviation DigitalSignature_SIG_LEN :: usize where "DigitalSignature_SIG_LEN \<equiv> 49856"
abbreviation PublicKey_LEN :: usize where "PublicKey_LEN \<equiv> 64"

record DigitalSignature =
  ds_sig_bytes :: bytes
  ds_message_hash :: bytes

datatype CryptoError =
    SignatureFormat nat | KeyFormat nat | MessageHashMismatch | KeyParse | SignatureParse
  | VerificationFailed

abbreviation DigitalSignature_as_bytes :: "DigitalSignature \<Rightarrow> bytes" where
  "DigitalSignature_as_bytes s \<equiv> ds_message_hash s @ ds_sig_bytes s"

definition DigitalSignature_from_bytes :: "bytes \<Rightarrow> (CryptoError, DigitalSignature) outcome" where
  "DigitalSignature_from_bytes b =
     (if length b \<noteq> 32 + DigitalSignature_SIG_LEN then Err (SignatureFormat (length b))
      else Ok \<lparr>ds_sig_bytes = drop 32 b, ds_message_hash = take 32 b\<rparr>)"

definition PublicKey_from_bytes :: "bytes \<Rightarrow> (CryptoError, bytes) outcome" where
  "PublicKey_from_bytes b = (if length b \<noteq> PublicKey_LEN then Err (KeyFormat (length b)) else Ok b)"

definition SignatureScheme_verify ::
  "crypto_env \<Rightarrow> bytes \<Rightarrow> DigitalSignature \<Rightarrow> bytes \<Rightarrow> (CryptoError, unit) outcome" where
  "SignatureScheme_verify c message s key =
     (if sha3_256 c message \<noteq> ds_message_hash s then Err MessageHashMismatch
      else if \<not> pk_from_bytes_ok c key then Err KeyParse
      else if \<not> sig_from_bytes_ok c (ds_sig_bytes s) then Err SignatureParse
      else if \<not> verify_detached_signature c (ds_sig_bytes s) message key then Err VerificationFailed
      else Ok ())"

section \<open>Finality headers\<close>

abbreviation FINALITY_DOMAIN :: bytes where "FINALITY_DOMAIN \<equiv> str_bytes ''BLEEP_FINALITY_CERTIFICATE_V1''"
abbreviation COMMITTEE_DOMAIN :: bytes where "COMMITTEE_DOMAIN \<equiv> str_bytes ''BLEEP_FINALITY_COMMITTEE_V1''"

record FinalityHeader =
  fh_height :: u64
  fh_timestamp :: u64
  fh_chain_id :: string
  fh_previous_hash :: string
  fh_merkle_root :: string
  fh_epoch_id :: u64
  fh_consensus_mode :: ConsensusMode
  fh_protocol_version :: u32
  fh_shard_registry_root :: string
  fh_shard_id :: u64
  fh_shard_state_root :: string
  fh_sig_commitment_root :: bytes
  fh_block_hash :: string

datatype FinalityError =
    HeaderHashMismatch | EpochMismatch | EmptyCommittee | EmptySignerId | AlreadySigned string
  | NoSignatures | DuplicateSignature string | NotInCommittee string | BadRegisteredKey string CryptoError
  | BadSignature string CryptoError | SignatureFailed string CryptoError | CommitteeHashMismatch
  | SignerPowerOverflow | RegisteredKeyNotHex string | DuplicateSigningKey | ZeroVotingPower string
  | CommitteePowerOverflow | QuorumNotMet u128 | AlreadyFinalized u64 | NotFinalized u64 | ProofMismatch
  | BlockQuorumNotMet u64

definition finality_from_block :: "crypto_env \<Rightarrow> Block \<Rightarrow> FinalityHeader" where
  "finality_from_block c b =
     \<lparr>fh_height = blk_index b, fh_timestamp = blk_timestamp b, fh_chain_id = blk_chain_id b,
      fh_previous_hash = blk_previous_hash b, fh_merkle_root = blk_merkle_root b,
      fh_epoch_id = blk_epoch_id b, fh_consensus_mode = blk_consensus_mode b,
      fh_protocol_version = blk_protocol_version b, fh_shard_registry_root = blk_shard_registry_root b,
      fh_shard_id = blk_shard_id b, fh_shard_state_root = blk_shard_state_root b,
      fh_sig_commitment_root = blk_sig_commitment_root b, fh_block_hash = compute_hash c b\<rparr>"

definition as_block_header :: "FinalityHeader \<Rightarrow> BlockHeader" where
  "as_block_header h =
     \<lparr>hdr_index = fh_height h, hdr_timestamp = fh_timestamp h, hdr_chain_id = fh_chain_id h,
      hdr_previous_hash = fh_previous_hash h, hdr_merkle_root = fh_merkle_root h,
      hdr_validator_signature = [], hdr_zk_proof = [], hdr_epoch_id = fh_epoch_id h,
      hdr_consensus_mode = fh_consensus_mode h, hdr_protocol_version = fh_protocol_version h,
      hdr_shard_registry_root = fh_shard_registry_root h, hdr_shard_id = fh_shard_id h,
      hdr_shard_state_root = fh_shard_state_root h, hdr_sig_commitment_root = fh_sig_commitment_root h\<rparr>"

abbreviation fh_canonical_bytes :: "crypto_env \<Rightarrow> FinalityHeader \<Rightarrow> bytes" where
  "fh_canonical_bytes c h \<equiv> canonical_hash_preimage c (as_block_header h) @ sha3_256 c (str_bytes (fh_block_hash h))"

abbreviation calculated_block_hash :: "crypto_env \<Rightarrow> FinalityHeader \<Rightarrow> string" where
  "calculated_block_hash c h \<equiv> canonical_hash c (as_block_header h)"

abbreviation fh_verify_hash :: "crypto_env \<Rightarrow> FinalityHeader \<Rightarrow> (FinalityError, unit) outcome" where
  "fh_verify_hash c h \<equiv> (if fh_block_hash h \<noteq> calculated_block_hash c h then Err HeaderHashMismatch else Ok ())"

section \<open>The committee\<close>

record CommitteeMember =
  member_key :: bytes
  member_power :: u128

record FinalityCommittee =
  members :: "(string, CommitteeMember) btree_map"
  total_power :: u128
  committee_digest :: bytes

abbreviation append_string :: "string \<Rightarrow> bytes" where
  "append_string s \<equiv> to_le_bytes 8 (cast 64 (length s)) @ str_bytes s"

abbreviation append_bytes :: "bytes \<Rightarrow> bytes" where
  "append_bytes b \<equiv> to_le_bytes 8 (cast 64 (length b)) @ b"

text \<open>The loop over the active validators: members so far, keys seen, power so far, hasher input.\<close>

fun committee_loop ::
  "crypto_env \<Rightarrow> ValidatorIdentity list \<Rightarrow> (string, CommitteeMember) btree_map \<Rightarrow> bytes list \<Rightarrow> u128 \<Rightarrow>
   bytes \<Rightarrow> (FinalityError, FinalityCommittee) outcome" where
  "committee_loop c [] ms owners tally input =
     Ok \<lparr>members = ms, total_power = tally, committee_digest = sha3_256 c input\<rparr>"
| "committee_loop c (v # vs) ms owners tally input =
     (if \<not> can_participate v then committee_loop c vs ms owners tally input
      else case hex_decode c (signing_key_id v) of
        None \<Rightarrow> Err (RegisteredKeyNotHex (vid v))
      | Some key \<Rightarrow>
          (case PublicKey_from_bytes key of
             Err e \<Rightarrow> Err (BadRegisteredKey (vid v) e)
           | Panic \<Rightarrow> Panic
           | Ok _ \<Rightarrow>
               (if key \<in> set owners then Err DuplicateSigningKey
                else let voting_power = effective_stake v in
                  if voting_power = 0 then Err (ZeroVotingPower (vid v))
                  else case checked_add 128 tally voting_power of
                    None \<Rightarrow> Err CommitteePowerOverflow
                  | Some tally' \<Rightarrow>
                      committee_loop c vs
                        (bt_insert (vid v) \<lparr>member_key = key, member_power = voting_power\<rparr> ms)
                        (key # owners) tally'
                        (input @ append_string (vid v) @ append_bytes key @ to_le_bytes 16 voting_power))))"

definition committee_from_registry ::
  "crypto_env \<Rightarrow> ValidatorRegistry \<Rightarrow> (FinalityError, FinalityCommittee) outcome" where
  "committee_from_registry c r = committee_loop c (get_active_validators r) [] [] 0 COMMITTEE_DOMAIN"

definition two_thirds_threshold :: "u128 \<Rightarrow> u128" where
  "two_thirds_threshold t =
     wrap_add 128 (wrap_mul 128 (t div 3) 2) (wrap_mul 128 (t mod 3) 2 div 3)"

section \<open>Certificates\<close>

record ValidatorSignature =
  vs_validator_id :: string
  vs_signature :: bytes

record FinalizyCertificate =
  fc_header :: FinalityHeader
  finalized_epoch :: u64
  finalized_timestamp :: u64
  committee_hash :: bytes
  validator_signatures :: "ValidatorSignature list"

definition FinalizyCertificate_new ::
  "crypto_env \<Rightarrow> FinalityHeader \<Rightarrow> u64 \<Rightarrow> u64 \<Rightarrow> ValidatorRegistry \<Rightarrow>
   (FinalityError, FinalizyCertificate) outcome" where
  "FinalizyCertificate_new c header epoch timestamp r =
     bind_outcome (fh_verify_hash c header) (\<lambda>_.
       if fh_epoch_id header \<noteq> epoch then Err EpochMismatch
       else bind_outcome (committee_from_registry c r) (\<lambda>committee.
         if total_power committee = 0 then Err EmptyCommittee
         else Ok \<lparr>fc_header = header, finalized_epoch = epoch, finalized_timestamp = timestamp,
                  committee_hash = committee_digest committee, validator_signatures = []\<rparr>))"

definition signature_message :: "crypto_env \<Rightarrow> FinalizyCertificate \<Rightarrow> bytes" where
  "signature_message c cert =
     (let header = fh_canonical_bytes c (fc_header cert) in
      FINALITY_DOMAIN @ to_le_bytes 8 (cast 64 (length header)) @ header @
      to_le_bytes 8 (finalized_epoch cert) @ to_le_bytes 8 (finalized_timestamp cert) @ committee_hash cert)"

definition add_validator_signature ::
  "string \<Rightarrow> bytes \<Rightarrow> FinalizyCertificate \<Rightarrow> FinalizyCertificate \<times> (FinalityError, unit) outcome" where
  "add_validator_signature i sig cert =
     (if i = [] then (cert, Err EmptySignerId)
      else if list_ex (\<lambda>signer. vs_validator_id signer = i) (validator_signatures cert)
           then (cert, Err (AlreadySigned i))
      else (cert\<lparr>validator_signatures := validator_signatures cert @
              [\<lparr>vs_validator_id = i, vs_signature = sig\<rparr>]\<rparr>, Ok ()))"

abbreviation signer_count :: "FinalizyCertificate \<Rightarrow> usize" where
  "signer_count cert \<equiv> length (validator_signatures cert)"

abbreviation verify_committee_hash ::
  "FinalizyCertificate \<Rightarrow> FinalityCommittee \<Rightarrow> (FinalityError, unit) outcome" where
  "verify_committee_hash cert committee \<equiv> (if committee_hash cert \<noteq> committee_digest committee then Err CommitteeHashMismatch else Ok ())"

fun power_loop ::
  "FinalityCommittee \<Rightarrow> ValidatorSignature list \<Rightarrow> string list \<Rightarrow> u128 \<Rightarrow> (FinalityError, u128) outcome" where
  "power_loop cm [] seen tally = Ok tally"
| "power_loop cm (s # ss) seen tally =
     (if vs_validator_id s \<in> set seen then Err (DuplicateSignature (vs_validator_id s))
      else case bt_get (members cm) (vs_validator_id s) of
        None \<Rightarrow> Err (NotInCommittee (vs_validator_id s))
      | Some m \<Rightarrow>
          (case checked_add 128 tally (member_power m) of
             None \<Rightarrow> Err SignerPowerOverflow
           | Some tally' \<Rightarrow> power_loop cm ss (vs_validator_id s # seen) tally'))"

definition signer_voting_power ::
  "FinalizyCertificate \<Rightarrow> FinalityCommittee \<Rightarrow> (FinalityError, u128) outcome" where
  "signer_voting_power cert cm = power_loop cm (validator_signatures cert) [] 0"

abbreviation total_voting_power ::
  "crypto_env \<Rightarrow> FinalizyCertificate \<Rightarrow> ValidatorRegistry \<Rightarrow> (FinalityError, u128) outcome" where
  "total_voting_power c cert r \<equiv> bind_outcome (committee_from_registry c r) (\<lambda>cm.
     bind_outcome (verify_committee_hash cert cm) (\<lambda>_. signer_voting_power cert cm))"

definition meets_quorum ::
  "crypto_env \<Rightarrow> FinalizyCertificate \<Rightarrow> ValidatorRegistry \<Rightarrow> (FinalityError, bool) outcome" where
  "meets_quorum c cert r =
     bind_outcome (committee_from_registry c r) (\<lambda>cm.
     bind_outcome (verify_committee_hash cert cm) (\<lambda>_.
     bind_outcome (signer_voting_power cert cm) (\<lambda>signed_power.
       Ok (signed_power > two_thirds_threshold (total_power cm)))))"

fun verify_loop ::
  "crypto_env \<Rightarrow> bytes \<Rightarrow> FinalityCommittee \<Rightarrow> ValidatorSignature list \<Rightarrow> string list \<Rightarrow>
   (FinalityError, unit) outcome" where
  "verify_loop c message cm [] seen = Ok ()"
| "verify_loop c message cm (s # ss) seen =
     (if vs_validator_id s \<in> set seen then Err (DuplicateSignature (vs_validator_id s))
      else case bt_get (members cm) (vs_validator_id s) of
        None \<Rightarrow> Err (NotInCommittee (vs_validator_id s))
      | Some m \<Rightarrow>
          bind_outcome (map_err (BadRegisteredKey (vs_validator_id s)) (PublicKey_from_bytes (member_key m))) (\<lambda>key.
          bind_outcome (map_err (BadSignature (vs_validator_id s)) (DigitalSignature_from_bytes (vs_signature s))) (\<lambda>sig.
          bind_outcome (map_err (SignatureFailed (vs_validator_id s)) (SignatureScheme_verify c message sig key)) (\<lambda>_.
            verify_loop c message cm ss (vs_validator_id s # seen)))))"

definition verify_signatures ::
  "crypto_env \<Rightarrow> FinalizyCertificate \<Rightarrow> ValidatorRegistry \<Rightarrow> (FinalityError, unit) outcome" where
  "verify_signatures c cert r =
     bind_outcome (fh_verify_hash c (fc_header cert)) (\<lambda>_.
       if fh_epoch_id (fc_header cert) \<noteq> finalized_epoch cert then Err EpochMismatch
       else if validator_signatures cert = [] then Err NoSignatures
       else bind_outcome (committee_from_registry c r) (\<lambda>cm.
            bind_outcome (verify_committee_hash cert cm) (\<lambda>_.
              verify_loop c (signature_message c cert) cm (validator_signatures cert) [])))"

section \<open>Proofs and the manager\<close>

record FinalityProof =
  fp_certificate :: FinalizyCertificate
  fp_merkle_path :: "string list"
  fp_dependent_blocks :: "u64 list"

abbreviation FinalityProof_new :: "FinalizyCertificate \<Rightarrow> FinalityProof" where
  "FinalityProof_new cert \<equiv> \<lparr>fp_certificate = cert, fp_merkle_path = [], fp_dependent_blocks = []\<rparr>"

definition set_merkle_path :: "string list \<Rightarrow> FinalityProof \<Rightarrow> FinalityProof" where
  "set_merkle_path path p = p\<lparr>fp_merkle_path := path\<rparr>"

definition add_dependent_block :: "u64 \<Rightarrow> FinalityProof \<Rightarrow> FinalityProof" where
  "add_dependent_block height p =
     (if height \<in> set (fp_dependent_blocks p) then p
      else p\<lparr>fp_dependent_blocks := fp_dependent_blocks p @ [height]\<rparr>)"

definition FinalityProof_verify ::
  "crypto_env \<Rightarrow> FinalityProof \<Rightarrow> ValidatorRegistry \<Rightarrow> (FinalityError, unit) outcome" where
  "FinalityProof_verify c p r =
     bind_outcome (verify_signatures c (fp_certificate p) r) (\<lambda>_.
     bind_outcome (meets_quorum c (fp_certificate p) r) (\<lambda>met.
       if \<not> met then bind_outcome (total_voting_power c (fp_certificate p) r) (\<lambda>w. Err (QuorumNotMet w))
       else Ok ()))"

record FinalizityManager =
  finalized_blocks :: "(u64, FinalizyCertificate) btree_map"
  finality_proofs :: "(u64, FinalityProof) btree_map"
  highest_finalized_height :: u64

abbreviation FinalizityManager_new :: FinalizityManager where
  "FinalizityManager_new \<equiv> \<lparr>finalized_blocks = [], finality_proofs = [], highest_finalized_height = 0\<rparr>"

definition finalize_block ::
  "crypto_env \<Rightarrow> FinalizyCertificate \<Rightarrow> ValidatorRegistry \<Rightarrow> FinalizityManager \<Rightarrow>
   FinalizityManager \<times> (FinalityError, unit) outcome" where
  "finalize_block c cert r m =
     (let height = fh_height (fc_header cert) in
      if bt_contains (finalized_blocks m) height then (m, Err (AlreadyFinalized height))
      else case bind_outcome (verify_signatures c cert r) (\<lambda>_. meets_quorum c cert r) of
             Err e \<Rightarrow> (m, Err e)
           | Panic \<Rightarrow> (m, Panic)
           | Ok met \<Rightarrow>
               (if \<not> met then (m, Err (BlockQuorumNotMet height))
                else (m\<lparr>finalized_blocks := bt_insert height cert (finalized_blocks m),
                        highest_finalized_height := max (highest_finalized_height m) height\<rparr>, Ok ())))"

definition record_proof ::
  "crypto_env \<Rightarrow> FinalityProof \<Rightarrow> ValidatorRegistry \<Rightarrow> FinalizityManager \<Rightarrow>
   FinalizityManager \<times> (FinalityError, unit) outcome" where
  "record_proof c p r m =
     (let height = fh_height (fc_header (fp_certificate p)) in
      case bt_get (finalized_blocks m) height of
        None \<Rightarrow> (m, Err (NotFinalized height))
      | Some finalized \<Rightarrow>
          (if signature_message c finalized \<noteq> signature_message c (fp_certificate p) then (m, Err ProofMismatch)
           else case FinalityProof_verify c p r of
                  Err e \<Rightarrow> (m, Err e)
                | Panic \<Rightarrow> (m, Panic)
                | Ok _ \<Rightarrow> (m\<lparr>finality_proofs := bt_insert height p (finality_proofs m)\<rparr>, Ok ())))"

abbreviation is_finalized :: "FinalizityManager \<Rightarrow> u64 \<Rightarrow> bool" where
  "is_finalized m height \<equiv> bt_contains (finalized_blocks m) height"

abbreviation get_certificate :: "FinalizityManager \<Rightarrow> u64 \<Rightarrow> FinalizyCertificate option" where
  "get_certificate m height \<equiv> bt_get (finalized_blocks m) height"

abbreviation get_proof :: "FinalizityManager \<Rightarrow> u64 \<Rightarrow> FinalityProof option" where
  "get_proof m height \<equiv> bt_get (finality_proofs m) height"

abbreviation is_proven_finalized :: "FinalizityManager \<Rightarrow> u64 \<Rightarrow> bool" where
  "is_proven_finalized m height \<equiv> bt_contains (finalized_blocks m) height \<and> bt_contains (finality_proofs m) height"

abbreviation finalized_count :: "FinalizityManager \<Rightarrow> usize" where
  "finalized_count m \<equiv> length (finalized_blocks m)"

section \<open>Weighted quorums\<close>

text \<open>
  Voters with weights and a threshold that separates more than two thirds of the total: any two
  quorums share voters with more than a third of the total weight.
\<close>

locale weighted_quorum =
  fixes voters :: "'v set" and weight :: "'v \<Rightarrow> nat" and threshold :: "nat \<Rightarrow> nat" and bound :: nat
  assumes finite_voters: "finite voters"
    and total_bound: "sum weight voters < bound"
    and threshold_law: "t < bound \<Longrightarrow> threshold t < w \<longleftrightarrow> 2 * t < 3 * w"
begin

definition quorum :: "'v set \<Rightarrow> bool" where
  "quorum S \<longleftrightarrow> S \<subseteq> voters \<and> threshold (sum weight voters) < sum weight S"

lemma quorum_intersection:
  assumes "quorum S" "quorum T"
  shows "sum weight voters < 3 * sum weight (S \<inter> T)"
proof -
  let ?w = "sum weight"
  have sub: "S \<subseteq> voters" "T \<subseteq> voters" and q: "2 * ?w voters < 3 * ?w S" "2 * ?w voters < 3 * ?w T"
    using assms threshold_law [OF total_bound] by (auto simp: quorum_def)
  have fin: "finite S" "finite T" using sub finite_voters finite_subset by auto
  have "?w (S \<union> T) + ?w (S \<inter> T) = ?w S + ?w T" by (rule sum.union_inter [OF fin])
  moreover have "?w (S \<union> T) \<le> ?w voters" using sub finite_voters by (intro sum_mono2) auto
  ultimately show ?thesis using q by linarith
qed

lemma quorums_meet: "quorum S \<Longrightarrow> quorum T \<Longrightarrow> S \<inter> T \<noteq> {}"
  using quorum_intersection by fastforce

end

lemma two_thirds_exact: "t < 2 ^ 128 \<Longrightarrow> two_thirds_threshold t = 2 * t div 3"
proof -
  assume t: "t < 2 ^ 128"
  have a: "t div 3 * 2 < 2 ^ 128" "t mod 3 * 2 < 2 ^ 128" using t by simp_all
  have split: "t div 3 * 2 + t mod 3 * 2 div 3 = 2 * t div 3"
  proof -
    have "2 * t = 3 * (t div 3 * 2) + t mod 3 * 2" using div_mult_mod_eq [of t 3] by linarith
    then show ?thesis by simp
  qed
  moreover have "2 * t div 3 < 2 ^ 128" using t by simp
  ultimately show "two_thirds_threshold t = 2 * t div 3"
    unfolding two_thirds_threshold_def wrap_mul_exact [OF a(1)] wrap_mul_exact [OF a(2)]
    by (subst wrap_add_exact) simp_all
qed

lemma two_thirds_law: "t < 2 ^ 128 \<Longrightarrow> two_thirds_threshold t < w \<longleftrightarrow> 2 * t < 3 * w"
  by (simp add: two_thirds_exact) linarith

section \<open>The committee of a registry\<close>

definition power_of :: "FinalityCommittee \<Rightarrow> string \<Rightarrow> u128" where
  "power_of cm i = (case bt_get (members cm) i of None \<Rightarrow> 0 | Some m \<Rightarrow> member_power m)"

definition is_member :: "crypto_env \<Rightarrow> ValidatorIdentity \<Rightarrow> CommitteeMember \<Rightarrow> bool" where
  "is_member c v m \<longleftrightarrow> can_participate v \<and> hex_decode c (signing_key_id v) = Some (member_key m) \<and>
     length (member_key m) = 64 \<and> member_power m = effective_stake v \<and> 0 < member_power m"

lemma committee_loop_Ok:
  assumes "committee_loop c vs ms owners tally input = Ok cm"
    and "distinct (map vid vs)" "vid ` set vs \<inter> set (bt_keys ms) = {}"
    and "bt_wf ms" "tally = bt_sum member_power ms" "tally < 2 ^ 128"
  shows "bt_wf (members cm) \<and> total_power cm = bt_sum member_power (members cm) \<and> total_power cm < 2 ^ 128 \<and>
    (\<forall>i m. bt_get (members cm) i = Some m \<longrightarrow>
       bt_get ms i = Some m \<or> (\<exists>v\<in>set vs. vid v = i \<and> is_member c v m))"
  using assms
proof (induction c vs ms owners tally input rule: committee_loop.induct)
  case (1 c ms owners tally input)
  then show ?case by auto
next
  case (2 c v vs ms owners tally input)
  show ?case
  proof (cases "can_participate v")
    case False
    with 2 show ?thesis by (auto simp: disjoint_iff)
  next
    case True
    with 2(3) obtain key where key: "hex_decode c (signing_key_id v) = Some key"
        "PublicKey_from_bytes key = Ok key" "key \<notin> set owners" "effective_stake v \<noteq> 0"
        "checked_add 128 tally (effective_stake v) = Some (tally + effective_stake v)"
      by (auto simp: PublicKey_from_bytes_def checked_add_def Let_def split: option.splits outcome.splits if_splits)
    let ?m = "\<lparr>member_key = key, member_power = effective_stake v\<rparr>"
    let ?ms = "bt_insert (vid v) ?m ms"
    have fresh: "bt_get ms (vid v) = None" using 2(5) by (auto simp: map_of_eq_None_iff)
    have run: "committee_loop c vs ?ms (key # owners) (tally + effective_stake v)
        (input @ append_string (vid v) @ append_bytes key @ to_le_bytes 16 (effective_stake v)) = Ok cm"
      using 2(3) True key by (simp add: Let_def)
    have sum: "tally + effective_stake v = bt_sum member_power ?ms"
      using bt_sum_insert [OF 2(6), of member_power "vid v" ?m] fresh 2(7) by simp
    have less: "tally + effective_stake v < 2 ^ 128" using key(5) by (simp add: checked_add_Some)
    have mem: "is_member c v ?m"
      using True key by (auto simp: is_member_def PublicKey_from_bytes_def split: if_splits)
    have "bt_wf (members cm) \<and> total_power cm = bt_sum member_power (members cm) \<and> total_power cm < 2 ^ 128 \<and>
      (\<forall>i m. bt_get (members cm) i = Some m \<longrightarrow>
         bt_get ?ms i = Some m \<or> (\<exists>v\<in>set vs. vid v = i \<and> is_member c v m))"
      using True key run 2(4,5,6) sum less
      by (intro "2.IH"(2) [of key key "effective_stake v" "tally + effective_stake v"]) auto
    then show ?thesis using mem by (auto split: if_splits)
  qed
qed

lemma active_vids: "registry_ok r \<Longrightarrow> map vid (get_active_validators r) = active_validators r"
proof -
  assume ok: "registry_ok r"
  have "map vid (List.map_filter (bt_get (validators r)) is) = is"
    if "set is \<subseteq> set (active_validators r)" for "is"
    using that
  proof (induction "is")
    case (Cons i "is")
    then obtain v where "bt_get (validators r) i = Some v" "vid v = i"
      using ok by (force simp: registry_ok_def)
    with Cons show ?case by (simp add: map_filter_simps)
  qed (simp add: map_filter_simps)
  then show ?thesis by (simp add: get_active_validators_def)
qed

lemma active_registered: "v \<in> set (get_active_validators r) \<Longrightarrow> registry_ok r \<Longrightarrow> registry_get r (vid v) = Some v"
  by (auto simp: get_active_validators_def map_filter_def registry_get_def registry_ok_def)

lemma committee_ok:
  assumes ok: "registry_ok r" and cm: "committee_from_registry c r = Ok cm"
  shows "bt_wf (members cm)" "total_power cm = bt_sum member_power (members cm)" "total_power cm < 2 ^ 128"
    "bt_get (members cm) i = Some m \<Longrightarrow> \<exists>v. registry_get r i = Some v \<and> is_member c v m"
proof -
  have "distinct (map vid (get_active_validators r))"
    using active_vids [OF ok] ok by (simp add: registry_ok_def bs_wf_distinct)
  note * = committee_loop_Ok [OF cm [unfolded committee_from_registry_def] this]
  show "bt_wf (members cm)" "total_power cm = bt_sum member_power (members cm)" "total_power cm < 2 ^ 128"
    using * by (simp_all add: bt_sum_def)
  show "bt_get (members cm) i = Some m \<Longrightarrow> \<exists>v. registry_get r i = Some v \<and> is_member c v m"
    using * active_registered [OF _ ok] by (fastforce simp: bt_sum_def)
qed

lemma bt_sum_keys: "bt_wf m \<Longrightarrow> bt_sum f m = (\<Sum>k\<in>set (bt_keys m). f (the (bt_get m k)))"
proof -
  assume wf: "bt_wf m"
  have "bt_sum f m = sum_list (map (\<lambda>k. f (the (bt_get m k))) (bt_keys m))"
    unfolding bt_sum_def using bt_get_in [OF wf] by (simp add: comp_def) (rule arg_cong [of _ _ sum_list], force)
  also have "\<dots> = (\<Sum>k\<in>set (bt_keys m). f (the (bt_get m k)))"
    by (rule sum_list_distinct_conv_sum_set [OF bt_wf_distinct [OF wf]])
  finally show ?thesis .
qed

lemma total_power_sum:
  assumes "registry_ok r" "committee_from_registry c r = Ok cm"
  shows "sum (power_of cm) (set (bt_keys (members cm))) = total_power cm"
proof -
  have "power_of cm k = member_power (the (bt_get (members cm) k))" if "k \<in> set (bt_keys (members cm))" for k
    using that by (auto simp: power_of_def split: option.splits dest: weak_map_of_SomeI)
  then show ?thesis
    using committee_ok(1,2) [OF assms] bt_sum_keys [OF committee_ok(1) [OF assms], of member_power] by simp
qed

text \<open>The voters of a registry: the committee's ids; nobody when the committee cannot be formed.\<close>

definition voters_of :: "crypto_env \<Rightarrow> ValidatorRegistry \<Rightarrow> string set" where
  "voters_of c r = (case committee_from_registry c r of
     Ok cm \<Rightarrow> if registry_ok r then set (bt_keys (members cm)) else {} | Err _ \<Rightarrow> {} | Panic \<Rightarrow> {})"

definition weight_of :: "crypto_env \<Rightarrow> ValidatorRegistry \<Rightarrow> string \<Rightarrow> u128" where
  "weight_of c r i = (case committee_from_registry c r of
     Ok cm \<Rightarrow> power_of cm i | Err _ \<Rightarrow> 0 | Panic \<Rightarrow> 0)"

lemma weight_total:
  assumes "registry_ok r" "committee_from_registry c r = Ok cm"
  shows "sum (weight_of c r) (voters_of c r) = total_power cm"
proof -
  have "weight_of c r = power_of cm" using assms(2) by (simp add: weight_of_def [abs_def])
  with assms total_power_sum [OF assms] show ?thesis by (simp add: voters_of_def)
qed

interpretation committee: weighted_quorum "voters_of c r" "weight_of c r" two_thirds_threshold "2 ^ 128" for c r
proof
  show "finite (voters_of c r)" by (simp add: voters_of_def split: outcome.splits)
  show "sum (weight_of c r) (voters_of c r) < 2 ^ 128"
  proof (cases "committee_from_registry c r")
    case (Ok cm)
    then show ?thesis
      using weight_total [of r c cm] committee_ok(3) [of r c cm]
      by (cases "registry_ok r") (simp_all add: voters_of_def)
  qed (simp_all add: voters_of_def)
qed (rule two_thirds_law)

section \<open>What the checks of a certificate establish\<close>

lemma power_loop_Ok:
  assumes "power_loop cm ss seen tally = Ok w"
  shows "distinct (map vs_validator_id ss) \<and> vs_validator_id ` set ss \<inter> set seen = {} \<and>
    vs_validator_id ` set ss \<subseteq> set (bt_keys (members cm)) \<and>
    w = tally + sum_list (map (\<lambda>s. power_of cm (vs_validator_id s)) ss)"
  using assms
proof (induction cm ss seen tally rule: power_loop.induct)
  case (1 cm seen tally)
  then show ?case by simp
next
  case (2 cm s ss seen tally)
  then obtain m where m: "bt_get (members cm) (vs_validator_id s) = Some m" "vs_validator_id s \<notin> set seen"
      "power_loop cm ss (vs_validator_id s # seen) (tally + member_power m) = Ok w"
      "checked_add 128 tally (member_power m) = Some (tally + member_power m)"
    by (auto simp: checked_add_def split: if_splits option.splits)
  have "vs_validator_id s \<in> set (bt_keys (members cm))" using m(1) by (force dest: map_of_SomeD)
  moreover have "power_of cm (vs_validator_id s) = member_power m" using m(1) by (simp add: power_of_def)
  ultimately show ?case using "2.IH" [OF m(2,1,4,3)] m(2) by auto
qed

definition signed_by :: "crypto_env \<Rightarrow> bytes \<Rightarrow> bytes \<Rightarrow> ValidatorSignature \<Rightarrow> bool" where
  "signed_by c message key s \<longleftrightarrow> verify_detached_signature c (drop 32 (vs_signature s)) message key"

lemma verify_loop_Ok:
  assumes "verify_loop c message cm ss seen = Ok u" "s \<in> set ss"
  shows "\<exists>m. bt_get (members cm) (vs_validator_id s) = Some m \<and> signed_by c message (member_key m) s"
  using assms
proof (induction c message cm ss seen rule: verify_loop.induct)
  case (1 c message cm seen)
  then show ?case by simp
next
  case (2 c message cm s' ss seen)
  then show ?case
    by (auto simp: bind_outcome_Ok PublicKey_from_bytes_def DigitalSignature_from_bytes_def
          SignatureScheme_verify_def signed_by_def split: if_splits option.splits)
qed

lemma meets_quorum_Ok:
  assumes "registry_ok r" "meets_quorum c cert r = Ok True"
  shows "committee.quorum c r (vs_validator_id ` set (validator_signatures cert)) \<and>
    distinct (map vs_validator_id (validator_signatures cert))"
proof -
  obtain cm w where cm: "committee_from_registry c r = Ok cm"
      "power_loop cm (validator_signatures cert) [] 0 = Ok w" "two_thirds_threshold (total_power cm) < w"
    using assms(2) by (auto simp: meets_quorum_def signer_voting_power_def bind_outcome_Ok)
  note p = power_loop_Ok [OF cm(2)]
  let ?ids = "map vs_validator_id (validator_signatures cert)"
  have "w = sum_list (map (power_of cm) ?ids)" using p by (simp add: comp_def)
  also have "\<dots> = sum (power_of cm) (set ?ids)" using p by (intro sum_list_distinct_conv_sum_set) simp
  finally have "w = sum (weight_of c r) (vs_validator_id ` set (validator_signatures cert))"
    using cm(1) by (simp add: weight_of_def [abs_def])
  with cm(1,3) p weight_total [OF assms(1) cm(1)] assms(1) show ?thesis
    unfolding committee.quorum_def by (simp add: voters_of_def)
qed

lemma finalize_block_Ok:
  assumes "finalize_block c cert r m = (m', Ok u)"
  shows "verify_signatures c cert r = Ok ()" "meets_quorum c cert r = Ok True"
    "\<not> bt_contains (finalized_blocks m) (fh_height (fc_header cert))"
    "m' = m\<lparr>finalized_blocks := bt_insert (fh_height (fc_header cert)) cert (finalized_blocks m),
       highest_finalized_height := max (highest_finalized_height m) (fh_height (fc_header cert))\<rparr>"
  using assms by (auto simp: finalize_block_def Let_def bind_outcome_Ok split: if_splits outcome.splits)

section \<open>Runs of the manager\<close>

datatype fin_op =
    FinalizeOp FinalizyCertificate ValidatorRegistry
  | ProofOp FinalityProof ValidatorRegistry

primrec fin_step :: "crypto_env \<Rightarrow> fin_op \<Rightarrow> FinalizityManager \<Rightarrow> FinalizityManager" where
  "fin_step c (FinalizeOp cert r) m = fst (finalize_block c cert r m)"
| "fin_step c (ProofOp p r) m = fst (record_proof c p r m)"

text \<open>Certificates are filed under their own height, proofs match the certificate, and the highest
  height bounds them all.\<close>

definition manager_ok :: "crypto_env \<Rightarrow> FinalizityManager \<Rightarrow> bool" where
  "manager_ok c m \<longleftrightarrow>
     (\<forall>h cert. bt_get (finalized_blocks m) h = Some cert \<longrightarrow>
        fh_height (fc_header cert) = h \<and> h \<le> highest_finalized_height m) \<and>
     (\<forall>h p. bt_get (finality_proofs m) h = Some p \<longrightarrow>
        (\<exists>cert. bt_get (finalized_blocks m) h = Some cert \<and>
           signature_message c cert = signature_message c (fp_certificate p)))"

lemma fin_step_cases:
  "fin_step c a m = m \<or>
   (\<exists>cert r. a = FinalizeOp cert r \<and> \<not> bt_contains (finalized_blocks m) (fh_height (fc_header cert)) \<and>
      fin_step c a m = m\<lparr>finalized_blocks := bt_insert (fh_height (fc_header cert)) cert (finalized_blocks m),
         highest_finalized_height := max (highest_finalized_height m) (fh_height (fc_header cert))\<rparr>) \<or>
   (\<exists>p r cert. a = ProofOp p r \<and> bt_get (finalized_blocks m) (fh_height (fc_header (fp_certificate p))) = Some cert \<and>
      signature_message c cert = signature_message c (fp_certificate p) \<and>
      fin_step c a m = m\<lparr>finality_proofs := bt_insert (fh_height (fc_header (fp_certificate p))) p (finality_proofs m)\<rparr>)"
  by (cases a) (auto simp: finalize_block_def record_proof_def Let_def split: option.splits outcome.splits)

lemma manager_ok_step: "manager_ok c m \<Longrightarrow> manager_ok c (fin_step c a m)"
  using fin_step_cases [of c a m] by (fastforce simp: manager_ok_def bt_contains_get)

lemma highest_mono: "highest_finalized_height m \<le> highest_finalized_height (fin_step c a m)"
  using fin_step_cases [of c a m] by auto

interpretation fin: monotone_machine "fin_step c" "manager_ok c" "\<lambda>_. True" highest_finalized_height for c
  by unfold_locales (auto intro: manager_ok_step highest_mono)

text \<open>The certificate of a height, as a lifecycle: once set it stays.\<close>

interpretation fin_cert: lifecycle "fin_step c" "\<lambda>m. get_certificate m h" "(=)" for c h
proof
  fix m cert a
  assume "get_certificate m h = Some cert"
  then have "get_certificate (fin_step c a m) h = Some cert"
    using fin_step_cases [of c a m] by (auto simp: bt_contains_get)
  then show "\<exists>y. get_certificate (fin_step c a m) h = Some y \<and> (=)\<^sup>*\<^sup>* cert y" by auto
qed

lemma rtranclp_eq: "(=)\<^sup>*\<^sup>* x y \<Longrightarrow> x = y"
  by (induction rule: rtranclp_induct) auto

text \<open>Certificate fields as their Rust types admit them.\<close>

definition certificate_typed :: "FinalizyCertificate \<Rightarrow> bool" where
  "certificate_typed cert \<longleftrightarrow> header_typed (as_block_header (fc_header cert)) \<and>
     finalized_epoch cert < 2 ^ 64 \<and> finalized_timestamp cert < 2 ^ 64 \<and> length (committee_hash cert) = 32"

text \<open>A closed instance: the committee of one validator and its certificate for a block.\<close>

definition demo_committee :: FinalityCommittee where
  "demo_committee =
     \<lparr>members = [(''v1'', \<lparr>member_key = demo_key, member_power = 1000\<rparr>)], total_power = 1000,
      committee_digest = sha3_256 demo_crypto
        (COMMITTEE_DOMAIN @ append_string ''v1'' @ append_bytes demo_key @ to_le_bytes 16 1000)\<rparr>"

definition demo_unsigned :: FinalizyCertificate where
  "demo_unsigned =
     \<lparr>fc_header = finality_from_block demo_crypto demo_block, finalized_epoch = 0, finalized_timestamp = 9,
      committee_hash = committee_digest demo_committee, validator_signatures = []\<rparr>"

definition demo_cert :: FinalizyCertificate where
  "demo_cert = demo_unsigned\<lparr>validator_signatures :=
     [\<lparr>vs_validator_id = ''v1'',
       vs_signature = sha3_256 demo_crypto (signature_message demo_crypto demo_unsigned) @ demo_sig\<rparr>]\<rparr>"

lemma demo_crypto_digests: "digests_32 demo_crypto"
  using demo_digests_32 by (simp add: digests_32_def demo_crypto_def)

lemma demo_committee_of: "committee_from_registry demo_crypto demo_registry = Ok demo_committee"
  by (simp add: committee_from_registry_def get_active_validators_def demo_registry_def demo_validator_def
      map_filter_simps can_participate_def demo_crypto_def PublicKey_from_bytes_def
      effective_stake_def checked_add_def demo_committee_def)

lemma demo_message: "signature_message demo_crypto demo_cert = signature_message demo_crypto demo_unsigned"
  by (simp add: signature_message_def demo_cert_def)

lemma demo_header_ok: "fh_verify_hash demo_crypto (finality_from_block demo_crypto demo_block) = Ok ()"
  by (simp add: finality_from_block_def as_block_header_def
      compute_hash_def header_from_block_def canonical_hash_def canonical_hash_preimage_def Let_def demo_block_def)

lemma demo_verify: "verify_signatures demo_crypto demo_cert demo_registry = Ok ()"
proof -
  have "fh_epoch_id (finality_from_block demo_crypto demo_block) = 0"
    by (simp add: finality_from_block_def demo_block_def block_new_def)
  moreover have "length (sha3_256 demo_crypto m) = 32" for m by (rule digests_32D(2) [OF demo_crypto_digests])
  moreover have "pk_from_bytes_ok demo_crypto demo_key" "sig_from_bytes_ok demo_crypto demo_sig"
      "verify_detached_signature demo_crypto demo_sig m demo_key" for m
    by (simp_all add: demo_crypto_def demo_env_def)
  ultimately show ?thesis
    unfolding verify_signatures_def demo_message
    by (simp add: demo_cert_def demo_unsigned_def demo_header_ok demo_committee_of
        demo_committee_def PublicKey_from_bytes_def DigitalSignature_from_bytes_def
        SignatureScheme_verify_def)
qed

lemma demo_quorum: "meets_quorum demo_crypto demo_cert demo_registry = Ok True"
proof -
  have "two_thirds_threshold 1000 < 1000" by (simp add: two_thirds_threshold_def wrap_mul_def wrap_add_def)
  then show ?thesis
    by (simp add: meets_quorum_def demo_committee_of demo_cert_def demo_unsigned_def
        signer_voting_power_def demo_committee_def checked_add_def)
qed

lemma demo_finalize:
  "finalize_block demo_crypto demo_cert demo_registry FinalizityManager_new =
     (\<lparr>finalized_blocks = [(1, demo_cert)], finality_proofs = [], highest_finalized_height = 1\<rparr>, Ok ())"
proof -
  have "fh_height (fc_header demo_cert) = 1"
    by (simp add: demo_cert_def demo_unsigned_def finality_from_block_def demo_block_def block_new_def)
  then show ?thesis
    by (simp add: finalize_block_def Let_def demo_verify demo_quorum)
qed

section \<open>Properties\<close>

text \<open>Quorum intersection. When two certificates, for whatever blocks, both meet the quorum of one
  registered committee, the validators that signed both hold more than a third of the committee's
  voting power; so two conflicting finalized blocks need more than a third of the power to sign twice.\<close>

theorem finality_quorum_intersection:
  assumes "registry_ok r" "meets_quorum c cert1 r = Ok True" "meets_quorum c cert2 r = Ok True"
  shows "\<exists>cm. committee_from_registry c r = Ok cm \<and>
    total_power cm < 3 * sum (power_of cm)
      (vs_validator_id ` set (validator_signatures cert1) \<inter> vs_validator_id ` set (validator_signatures cert2))"
proof -
  obtain cm where cm: "committee_from_registry c r = Ok cm"
    using assms(2) by (auto simp: meets_quorum_def bind_outcome_Ok)
  have "weight_of c r = power_of cm" using cm by (simp add: weight_of_def [abs_def])
  with committee.quorum_intersection [OF meets_quorum_Ok [OF assms(1,2), THEN conjunct1]
      meets_quorum_Ok [OF assms(1,3), THEN conjunct1]] weight_total [OF assms(1) cm] cm
  show ?thesis by simp
qed

theorem finality_quorum_intersection_witness:
  "total_power demo_committee < 3 * sum (power_of demo_committee) (vs_validator_id ` set (validator_signatures demo_cert))"
  using finality_quorum_intersection [OF demo_registry_ok demo_quorum demo_quorum]
  by (simp add: demo_committee_of)

text \<open>C25: only a verified supermajority finalizes. When \<open>finalize_block\<close> succeeds, the header's fields
  hash to its block hash, each signer is a different registered validator that may participate, its
  registered key verifies its signature on the certificate's message, and the signers' stakes are more
  than two thirds of the committee's.\<close>

theorem finalized_by_verified_supermajority:
  assumes "registry_ok r" "finalize_block c cert r m = (m', Ok u)"
  shows "fh_block_hash (fc_header cert) = calculated_block_hash c (fc_header cert) \<and>
    distinct (map vs_validator_id (validator_signatures cert)) \<and>
    (\<forall>s \<in> set (validator_signatures cert). \<exists>v key. registry_get r (vs_validator_id s) = Some v \<and>
       can_participate v \<and> hex_decode c (signing_key_id v) = Some key \<and>
       signed_by c (signature_message c cert) key s) \<and>
    (\<exists>cm. committee_from_registry c r = Ok cm \<and> 2 * total_power cm <
       3 * sum_list (map (\<lambda>s. get_voting_power r (vs_validator_id s)) (validator_signatures cert)))"
proof -
  note f = finalize_block_Ok [OF assms(2)]
  obtain cm where cm: "committee_from_registry c r = Ok cm"
      "verify_loop c (signature_message c cert) cm (validator_signatures cert) [] = Ok ()"
      "fh_block_hash (fc_header cert) = calculated_block_hash c (fc_header cert)"
    using f(1) by (auto simp: verify_signatures_def bind_outcome_Ok split: if_splits)
  have mem: "\<exists>v m. registry_get r (vs_validator_id s) = Some v \<and> is_member c v m \<and>
      bt_get (members cm) (vs_validator_id s) = Some m \<and> signed_by c (signature_message c cert) (member_key m) s"
    if "s \<in> set (validator_signatures cert)" for s
    using verify_loop_Ok [OF cm(2) that] committee_ok(4) [OF assms(1) cm(1)] by blast
  have pow: "power_of cm (vs_validator_id s) = get_voting_power r (vs_validator_id s)"
    if "s \<in> set (validator_signatures cert)" for s
    using mem [OF that] by (auto simp: power_of_def is_member_def)
  obtain w where w: "power_loop cm (validator_signatures cert) [] 0 = Ok w" "two_thirds_threshold (total_power cm) < w"
    using f(2) cm(1) by (auto simp: meets_quorum_def signer_voting_power_def bind_outcome_Ok)
  have "w = sum_list (map (\<lambda>s. get_voting_power r (vs_validator_id s)) (validator_signatures cert))"
    using power_loop_Ok [OF w(1)] pow by (simp cong: map_cong)
  with w(2) two_thirds_law [OF committee_ok(3) [OF assms(1) cm(1)]]
  have "2 * total_power cm < 3 * sum_list (map (\<lambda>s. get_voting_power r (vs_validator_id s)) (validator_signatures cert))"
    by simp
  with cm meets_quorum_Ok [OF assms(1) f(2)] mem show ?thesis
    by (auto simp: is_member_def) blast+
qed

theorem finalized_by_verified_supermajority_witness:
  "2 * total_power demo_committee <
     3 * sum_list (map (\<lambda>s. get_voting_power demo_registry (vs_validator_id s)) (validator_signatures demo_cert))"
  using finalized_by_verified_supermajority [OF demo_registry_ok demo_finalize]
  by (simp add: demo_committee_of)

text \<open>Finality is final. Over any sequence of calls the certificate filed for a height is never
  replaced, the highest finalized height never decreases and bounds every finalized height, and every
  recorded proof carries the same signed message as the certificate of its height.\<close>

theorem finality_is_final:
  assumes "m = fold (fin_step c) ops FinalizityManager_new" "get_certificate m h = Some cert"
  shows "get_certificate (fold (fin_step c) later m) h = Some cert \<and>
    highest_finalized_height m \<le> highest_finalized_height (fold (fin_step c) later m) \<and>
    fh_height (fc_header cert) = h \<and> h \<le> highest_finalized_height m \<and>
    (\<forall>p. get_proof m h = Some p \<longrightarrow> signature_message c (fp_certificate p) = signature_message c cert)"
proof -
  have "manager_ok c FinalizityManager_new" by (simp add: manager_ok_def)
  then have ok: "manager_ok c m" unfolding assms(1) by (rule fin.run_inv) (simp add: list_all_iff)
  have "get_certificate (fold (fin_step c) later m) h = Some cert"
    using fin_cert.run_arrow [OF assms(2), of c later] by (auto dest: rtranclp_eq)
  moreover have "highest_finalized_height m \<le> highest_finalized_height (fold (fin_step c) later m)"
    by (rule fin.run_mono [OF ok]) (simp add: list_all_iff)
  moreover have "fh_height (fc_header cert) = h \<and> h \<le> highest_finalized_height m"
    using ok assms(2) by (simp add: manager_ok_def)
  moreover have "signature_message c (fp_certificate p) = signature_message c cert" if "get_proof m h = Some p" for p
    using ok assms(2) that unfolding manager_ok_def
    by (metis option.inject)
  ultimately show ?thesis by blast
qed

theorem finality_is_final_witness:
  "get_certificate (fold (fin_step demo_crypto) [FinalizeOp demo_unsigned demo_registry]
     (fold (fin_step demo_crypto) [FinalizeOp demo_cert demo_registry] FinalizityManager_new)) 1 = Some demo_cert"
proof -
  have "get_certificate (fold (fin_step demo_crypto) [FinalizeOp demo_cert demo_registry] FinalizityManager_new) 1
      = Some demo_cert"
    by (simp add: demo_finalize)
  from finality_is_final [OF refl this, of "[FinalizeOp demo_unsigned demo_registry]"] show ?thesis by blast
qed

text \<open>The signed message is unambiguous. Two certificates with the same signed message finalize
  the same height in the same epoch at the same time for the same committee, with equal header
  encodings and equal digests of the claimed block hash.\<close>

theorem finality_message_unambiguous:
  assumes "digests_32 c" "certificate_typed cert" "certificate_typed cert'"
    and "signature_message c cert = signature_message c cert'"
  shows "fh_height (fc_header cert) = fh_height (fc_header cert') \<and>
    canonical_hash_preimage c (as_block_header (fc_header cert)) = canonical_hash_preimage c (as_block_header (fc_header cert')) \<and>
    sha3_256 c (str_bytes (fh_block_hash (fc_header cert))) = sha3_256 c (str_bytes (fh_block_hash (fc_header cert'))) \<and>
    finalized_epoch cert = finalized_epoch cert' \<and> finalized_timestamp cert = finalized_timestamp cert' \<and>
    committee_hash cert = committee_hash cert'"
proof -
  let ?b = "\<lambda>x. fh_canonical_bytes c (fc_header x)"
  have len: "length (?b x) < 256 ^ 8" "cast 64 (length (?b x)) = length (?b x)" if "certificate_typed x" for x
    using that assms(1) length_preimage [OF assms(1), of "as_block_header (fc_header x)"]
    by (auto simp: certificate_typed_def digests_32D cast_exact
        VRF_OUTPUT_LEN_def)
  have "len_prefix_le (?b cert) @ to_le_bytes 8 (finalized_epoch cert) @ to_le_bytes 8 (finalized_timestamp cert) @ committee_hash cert
      = len_prefix_le (?b cert') @ to_le_bytes 8 (finalized_epoch cert') @ to_le_bytes 8 (finalized_timestamp cert') @ committee_hash cert'"
    using assms(4) len(2) [OF assms(2)] len(2) [OF assms(3)]
    by (simp add: signature_message_def Let_def len_prefix_le_def)
  then have eq: "?b cert = ?b cert'" and rest: "to_le_bytes 8 (finalized_epoch cert) = to_le_bytes 8 (finalized_epoch cert')"
      "to_le_bytes 8 (finalized_timestamp cert) = to_le_bytes 8 (finalized_timestamp cert')"
      "committee_hash cert = committee_hash cert'"
    by (simp_all add: len_prefix_le_inj [OF len(1) [OF assms(2)] len(1) [OF assms(3)]])
  have pre: "canonical_hash_preimage c (as_block_header (fc_header cert)) =
      canonical_hash_preimage c (as_block_header (fc_header cert'))"
    and dig: "sha3_256 c (str_bytes (fh_block_hash (fc_header cert))) =
      sha3_256 c (str_bytes (fh_block_hash (fc_header cert')))"
    using eq digests_32D(2) [OF assms(1)] by simp_all
  have "hdr_index (as_block_header (fc_header cert)) = hdr_index (as_block_header (fc_header cert'))"
    using preimage_fields [OF assms(1) _ _ pre] assms(2,3) by (simp add: certificate_typed_def)
  then have "fh_height (fc_header cert) = fh_height (fc_header cert')" by (simp add: as_block_header_def)
  with pre dig rest assms(2,3) show ?thesis
    unfolding certificate_typed_def pow_64 by (simp add: to_le_bytes_inj)
qed

theorem finality_message_unambiguous_witness:
  "fh_height (fc_header demo_cert) = fh_height (fc_header demo_unsigned) \<and>
   committee_hash demo_cert = committee_hash demo_unsigned"
proof -
  have "certificate_typed demo_cert" "certificate_typed demo_unsigned"
    by (simp_all add: certificate_typed_def demo_cert_def demo_unsigned_def demo_committee_def
        digests_32D [OF demo_crypto_digests] header_typed_def as_block_header_def finality_from_block_def
        demo_block_def block_new_def)
  from finality_message_unambiguous [OF demo_crypto_digests this demo_message] show ?thesis by simp
qed

text \<open>Blocks with a VRF output cannot be finalized. For a block of protocol version 5 or later
  whose proof carries a VRF output other than zeros, the header taken from the block fails its own
  hash check, so neither creating nor verifying a certificate for it succeeds, unless the two
  different header encodings have the same digest.\<close>

theorem vrf_blocks_not_finalizable:
  assumes "digests_32 c" "hex_ok c" "header_typed (header_from_block b)"
    and "blk_protocol_version b \<ge> 5" "vrf_output (blk_zk_proof b) \<noteq> replicate 32 0"
  shows "FinalizyCertificate_new c (finality_from_block c b) epoch ts r = Err HeaderHashMismatch \<and>
      verify_signatures c (cert\<lparr>fc_header := finality_from_block c b\<rparr>) r = Err HeaderHashMismatch \<or>
    (let x = canonical_hash_preimage c (header_from_block b);
         y = canonical_hash_preimage c (as_block_header (finality_from_block c b))
     in x \<noteq> y \<and> sha3_256 c x = sha3_256 c y)"
proof -
  let ?h = "header_from_block b" and ?g = "as_block_header (finality_from_block c b)"
  have g: "?g = ?h\<lparr>hdr_validator_signature := [], hdr_zk_proof := []\<rparr>"
    by (simp add: as_block_header_def finality_from_block_def header_from_block_def)
  have zero: "vrf_output [] = replicate 32 0"
    by (simp add: vrf_output_def strip_prefix_def VRF_OUTPUT_LEN_def str_bytes_def)
  have ver: "hdr_protocol_version ?h \<ge> 5" "vrf_output (hdr_zk_proof ?h) \<noteq> vrf_output (hdr_zk_proof ?g)"
    using assms(4,5) zero unfolding g by (simp_all add: header_from_block_def)
  have typed: "header_typed ?g" using assms(3) unfolding g by (simp add: header_typed_def)
  have ne: "canonical_hash_preimage c ?h \<noteq> canonical_hash_preimage c ?g"
    using preimage_fields [OF assms(1,3) typed] ver by blast
  have hex: "hex_decode c (hex_encode c (sha3_256 c m)) = Some (sha3_256 c m)" for m
    using assms(1,2) by (simp add: hex_ok_def digests_32D)
  show ?thesis
  proof (cases "compute_hash c b = calculated_block_hash c (finality_from_block c b)")
    case True
    then have "sha3_256 c (canonical_hash_preimage c ?h) = sha3_256 c (canonical_hash_preimage c ?g)"
      unfolding compute_hash_def canonical_hash_def by (metis hex option.inject)
    with ne show ?thesis by (simp add: Let_def)
  next
    case False
    then have "fh_verify_hash c (finality_from_block c b) = Err HeaderHashMismatch"
      by (simp add: finality_from_block_def)
    then show ?thesis by (simp add: FinalizyCertificate_new_def verify_signatures_def)
  qed
qed

theorem vrf_blocks_not_finalizable_witness:
  "let b = (block_new demo_env 9 1 [] ''ab'')\<lparr>blk_zk_proof := VRF_STARK_ENVELOPE_MAGIC @ replicate 32 1\<rparr> in
   FinalizyCertificate_new demo_env (finality_from_block demo_env b) 0 9 registry_new = Err HeaderHashMismatch \<or>
   (let x = canonical_hash_preimage demo_env (header_from_block b);
        y = canonical_hash_preimage demo_env (as_block_header (finality_from_block demo_env b))
    in x \<noteq> y \<and> sha3_256 demo_env x = sha3_256 demo_env y)"
proof -
  let ?b = "(block_new demo_env 9 1 [] ''ab'')\<lparr>blk_zk_proof := VRF_STARK_ENVELOPE_MAGIC @ replicate 32 1\<rparr>"
  have "header_typed (header_from_block ?b)"
    by (simp add: header_typed_def header_from_block_def block_new_def const_defs)
  moreover have "blk_protocol_version ?b \<ge> 5" by (simp add: block_new_def const_defs)
  moreover have "vrf_output (blk_zk_proof ?b) \<noteq> replicate 32 0"
    by (simp add: vrf_output_def strip_prefix_def VRF_OUTPUT_LEN_def replicate_eq_replicate)
  ultimately show ?thesis
    using vrf_blocks_not_finalizable [OF demo_digests_32 demo_hex_ok, of ?b 0 9 registry_new demo_cert]
    unfolding Let_def by blast
qed

end
