(* ===== verification/Pbft.thy ===== *)
theory Pbft
  imports Finality Float64
begin

text \<open>
  \<open>crates/bleep-consensus/src/pbft_engine.rs\<close>: the PBFT finality engine (\<open>PbftConsensusEngine\<close>) with its
  committee, vote books and phase changes.  A \<open>HashMap\<close> is a sorted association list and a \<open>HashSet\<close> one with
  unit values: where the code iterates, its result does not depend on the order, except for the identity
  named in the error of a block signed by a key that two identities share.  A rejection carries a value of
  \<open>RejectReason\<close> for the text it prints.  The lemmas show that finality is irrevocable, that it needs a
  verified quorum, and that two conflicting finalizations expose more than a third of the committee.
\<close>

section \<open>Data\<close>

datatype PbftPhase = PrePrepare | Prepare | Commit

datatype PbftBlockState = Proposed | Prepared | Committed

datatype RejectReason =
    NoValidators
  | LocalNotRegistered string
  | InvalidIdOrKey string
  | DuplicateId string
  | LocalHasNoKey string
  | EmptyCommittee
  | HeightMismatch u64 u64
  | AlreadyInPipeline u64
  | NoBlockHash u64
  | OutsideEpoch u64 u64 u64
  | CannotPropose

datatype ConsensusError =
    CeInvalidBlockHash u64 string
  | CeEpochMismatch u64 u64 u64
  | CeConsensusModeMismatch ConsensusMode ConsensusMode u64
  | CeProtocolVersionMismatch u32 u32
  | CeInsufficientValidatorParticipation f64 f64
  | CeInvalidSignature string
  | CeProposalRejected RejectReason
  | CeInsufficientProofOfWork string
  | CePbftQuorumNotReached usize usize
  | CeOther string

record PbftConsensusEngine =
  total_validators :: usize
  quorum_size :: usize
  pb_blocks :: "(u64, PbftBlockState) btree_map"
  current_view :: u64
  prepare_votes :: "(u64, (string, unit) btree_map) btree_map"
  commit_votes :: "(u64, (string, unit) btree_map) btree_map"
  known_validators :: "(string, unit) btree_map"
  validator_pubkeys :: "(string, bytes) btree_map"
  block_hashes :: "(u64, string) btree_map"

definition pbft_vote_message :: "PbftPhase \<Rightarrow> u64 \<Rightarrow> string \<Rightarrow> string \<Rightarrow> bytes" where
  "pbft_vote_message phase height hash validator =
     str_bytes ''BLEEP:PBFT:VOTE:V1'' @ [0] @
     [case phase of PrePrepare \<Rightarrow> 0 | Prepare \<Rightarrow> 1 | Commit \<Rightarrow> 2] @ to_le_bytes 8 height @
     len_prefix_le (str_bytes hash) @ len_prefix_le (str_bytes validator)"

abbreviation quorum_of :: "usize \<Rightarrow> usize" where
  "quorum_of n \<equiv> wrap_mul 64 n 2 div 3 + 1"

section \<open>Committee\<close>

definition from_validator_keys :: "(string, unit) btree_map \<Rightarrow> (string, bytes) btree_map \<Rightarrow> PbftConsensusEngine" where
  "from_validator_keys known pubkeys =
     \<lparr>total_validators = length known, quorum_size = quorum_of (length known), pb_blocks = [], current_view = 0,
      prepare_votes = [], commit_votes = [], known_validators = known, validator_pubkeys = pubkeys, block_hashes = []\<rparr>"

definition pbft_new :: "string \<Rightarrow> string list \<Rightarrow> (ConsensusError, PbftConsensusEngine) outcome" where
  "pbft_new validator_id validator_ids =
     (let known = fold (\<lambda>i m. bt_insert i () m) validator_ids [] in
      if known = [] then Err (CeProposalRejected NoValidators)
      else if \<not> bt_contains known validator_id then Err (CeProposalRejected (LocalNotRegistered validator_id))
      else Ok (from_validator_keys known []))"

fun collect_keys ::
  "crypto_env \<Rightarrow> (string \<times> bytes) list \<Rightarrow> (string, bytes) btree_map \<Rightarrow> (ConsensusError, (string, bytes) btree_map) outcome" where
  "collect_keys c [] m = Ok m"
| "collect_keys c ((i, key) # ks) m =
     (if i = [] \<or> length key \<noteq> SPHINCS_PK_LEN then Err (CeProposalRejected (InvalidIdOrKey i))
      else if \<not> pk_from_bytes_ok c key then Err (CeProposalRejected (InvalidIdOrKey i))
      else if bt_contains m i then Err (CeProposalRejected (DuplicateId i))
      else collect_keys c ks (bt_insert i key m))"

definition new_with_validator_keys ::
  "crypto_env \<Rightarrow> string \<Rightarrow> (string \<times> bytes) list \<Rightarrow> (ConsensusError, PbftConsensusEngine) outcome" where
  "new_with_validator_keys c validator_id ks =
     (if ks = [] then Err (CeProposalRejected NoValidators)
      else bind_outcome (collect_keys c ks []) (\<lambda>keys.
        if \<not> bt_contains keys validator_id then Err (CeProposalRejected (LocalHasNoKey validator_id))
        else Ok (from_validator_keys (map (\<lambda>(i, _). (i, ())) keys) keys)))"

text \<open>The loop of \<open>set_committee\<close> at one height: the new state, and whether its votes are dropped.\<close>

abbreviation reached :: "usize \<Rightarrow> (u64, (string, unit) btree_map) btree_map \<Rightarrow> u64 \<Rightarrow> bool" where
  "reached q votes h \<equiv> (case bt_get votes h of None \<Rightarrow> False | Some v \<Rightarrow> length v \<ge> q)"

definition recheck ::
  "usize \<Rightarrow> (u64, (string, unit) btree_map) btree_map \<Rightarrow> (u64, (string, unit) btree_map) btree_map \<Rightarrow> u64 \<Rightarrow>
   PbftBlockState \<Rightarrow> PbftBlockState" where
  "recheck q prep comm h s0 =
     (let s1 = (if s0 = Proposed \<and> reached q prep h then Prepared else s0) in
      if s1 = Prepared \<and> \<not> reached q prep h then Proposed
      else if s1 = Prepared \<and> reached q comm h then Committed
      else s1)"

definition set_committee ::
  "crypto_env \<Rightarrow> (string \<times> bytes) list \<Rightarrow> PbftConsensusEngine \<Rightarrow> PbftConsensusEngine \<times> (ConsensusError, unit) outcome" where
  "set_committee c ks e =
     (if ks = [] then (e, Err (CeProposalRejected EmptyCommittee))
      else case collect_keys c ks [] of
        Err x \<Rightarrow> (e, Err x)
      | Panic \<Rightarrow> (e, Panic)
      | Ok keys \<Rightarrow>
          let retained = (\<lambda>i. bt_contains keys i \<and> bt_get (validator_pubkeys e) i = bt_get keys i);
              prune = map (\<lambda>(h, v). (h, filter (\<lambda>(i, _). retained i) v));
              prep = prune (prepare_votes e); comm = prune (commit_votes e); q = quorum_of (length keys);
              blocks = map (\<lambda>(h, s). (h, recheck q prep comm h s)) (pb_blocks e);
              newly = (\<lambda>h. bt_get (pb_blocks e) h \<noteq> Some Committed \<and> bt_get blocks h = Some Committed);
              rolled = (\<lambda>h. bt_get (pb_blocks e) h = Some Prepared \<and> bt_get blocks h = Some Proposed)
          in (e\<lparr>known_validators := map (\<lambda>(i, _). (i, ())) keys, validator_pubkeys := keys,
                total_validators := length keys, quorum_size := q, pb_blocks := blocks,
                prepare_votes := filter (\<lambda>(h, _). \<not> newly h) prep,
                commit_votes := filter (\<lambda>(h, _). \<not> newly h \<and> \<not> rolled h) comm\<rparr>, Ok ()))"

definition pbft_add_validator :: "string \<Rightarrow> PbftConsensusEngine \<Rightarrow> PbftConsensusEngine" where
  "pbft_add_validator i e =
     (let known = bt_insert i () (known_validators e) in
      e\<lparr>known_validators := known, total_validators := length known, quorum_size := quorum_of (length known)\<rparr>)"

definition add_validator_with_public_key ::
  "crypto_env \<Rightarrow> string \<Rightarrow> bytes \<Rightarrow> PbftConsensusEngine \<Rightarrow> PbftConsensusEngine \<times> (ConsensusError, unit) outcome" where
  "add_validator_with_public_key c i key e =
     (if i = [] \<or> length key \<noteq> SPHINCS_PK_LEN then (e, Err (CeProposalRejected (InvalidIdOrKey i)))
      else if \<not> pk_from_bytes_ok c key then (e, Err (CeProposalRejected (InvalidIdOrKey i)))
      else ((pbft_add_validator i e)\<lparr>validator_pubkeys := bt_insert i key (validator_pubkeys e)\<rparr>, Ok ()))"

definition pbft_remove_validator :: "string \<Rightarrow> PbftConsensusEngine \<Rightarrow> PbftConsensusEngine" where
  "pbft_remove_validator i e =
     (let known = bt_remove i (known_validators e) in
      e\<lparr>known_validators := known, validator_pubkeys := bt_remove i (validator_pubkeys e), total_validators := length known,
        quorum_size := (if length known > 0 then quorum_of (length known) else 1)\<rparr>)"

section \<open>Voting\<close>

definition verify_registered_block_signature ::
  "crypto_env \<Rightarrow> PbftConsensusEngine \<Rightarrow> Block \<Rightarrow> (ConsensusError, unit) outcome" where
  "verify_registered_block_signature c e b =
     (if length (blk_validator_signature b) \<noteq> SPHINCS_PK_LEN + SPHINCS_SIG_LEN then Err (CeInvalidSignature ''unknown'')
      else case find (\<lambda>(_, key). key = take SPHINCS_PK_LEN (blk_validator_signature b)) (validator_pubkeys e) of
        None \<Rightarrow> Err (CeInvalidSignature ''unregistered'')
      | Some (i, key) \<Rightarrow>
          bind_outcome (map_err (\<lambda>_. CeInvalidSignature i) (verify_signature c b key)) (\<lambda>ok.
            if \<not> ok then Err (CeInvalidSignature i) else Ok ()))"

definition pre_prepare ::
  "crypto_env \<Rightarrow> u64 \<Rightarrow> Block \<Rightarrow> PbftConsensusEngine \<Rightarrow> PbftConsensusEngine \<times> (ConsensusError, unit) outcome" where
  "pre_prepare c height b e =
     (if blk_index b \<noteq> height then (e, Err (CeProposalRejected (HeightMismatch height (blk_index b))))
      else case verify_registered_block_signature c e b of
        Err x \<Rightarrow> (e, Err x)
      | Panic \<Rightarrow> (e, Panic)
      | Ok _ \<Rightarrow>
          if bt_contains (pb_blocks e) height then (e, Err (CeProposalRejected (AlreadyInPipeline height)))
          else
            (e\<lparr>pb_blocks := bt_insert height Proposed (pb_blocks e),
               block_hashes := bt_insert height (compute_hash c b) (block_hashes e),
               prepare_votes := bt_insert height (bt_get_or (prepare_votes e) height []) (prepare_votes e),
               commit_votes := bt_insert height (bt_get_or (commit_votes e) height []) (commit_votes e)\<rparr>, Ok ()))"

definition verify_vote ::
  "crypto_env \<Rightarrow> PbftPhase \<Rightarrow> u64 \<Rightarrow> string \<Rightarrow> bytes \<Rightarrow> PbftConsensusEngine \<Rightarrow> (ConsensusError, unit) outcome" where
  "verify_vote c phase height i sig e =
     (case bt_get (validator_pubkeys e) i of
        None \<Rightarrow> Err (CeInvalidSignature i)
      | Some key \<Rightarrow>
          if length sig \<noteq> SPHINCS_SIG_LEN then Err (CeInvalidSignature i)
          else case bt_get (block_hashes e) height of
            None \<Rightarrow> Err (CeProposalRejected (NoBlockHash height))
          | Some hash \<Rightarrow>
              if \<not> pk_from_bytes_ok c key \<or> \<not> sig_from_bytes_ok c sig then Err (CeInvalidSignature i)
              else if verify_detached_signature c sig (pbft_vote_message phase height hash i) key then Ok ()
              else Err (CeInvalidSignature i))"

definition process_prepare ::
  "crypto_env \<Rightarrow> u64 \<Rightarrow> string \<Rightarrow> bytes \<Rightarrow> PbftConsensusEngine \<Rightarrow> PbftConsensusEngine \<times> (ConsensusError, unit) outcome" where
  "process_prepare c height i sig e =
     (if bt_get (pb_blocks e) height \<noteq> Some Proposed then (e, Ok ())
      else if \<not> bt_contains (known_validators e) i then (e, Ok ())
      else case verify_vote c Prepare height i sig e of
        Err x \<Rightarrow> (e, Err x)
      | Panic \<Rightarrow> (e, Panic)
      | Ok _ \<Rightarrow>
          let votes = bt_insert i () (bt_get_or (prepare_votes e) height []);
              e1 = e\<lparr>prepare_votes := bt_insert height votes (prepare_votes e)\<rparr>
          in (if length votes \<ge> quorum_size e then e1\<lparr>pb_blocks := bt_insert height Prepared (pb_blocks e)\<rparr> else e1, Ok ()))"

definition process_commit ::
  "crypto_env \<Rightarrow> u64 \<Rightarrow> string \<Rightarrow> bytes \<Rightarrow> PbftConsensusEngine \<Rightarrow> PbftConsensusEngine \<times> (ConsensusError, unit) outcome" where
  "process_commit c height i sig e =
     (if bt_get (pb_blocks e) height \<noteq> Some Prepared then (e, Ok ())
      else if \<not> bt_contains (known_validators e) i then (e, Ok ())
      else case verify_vote c Commit height i sig e of
        Err x \<Rightarrow> (e, Err x)
      | Panic \<Rightarrow> (e, Panic)
      | Ok _ \<Rightarrow>
          let votes = bt_insert i () (bt_get_or (commit_votes e) height []);
              e1 = e\<lparr>commit_votes := bt_insert height votes (commit_votes e)\<rparr>
          in (if length votes \<ge> quorum_size e
              then e1\<lparr>pb_blocks := bt_insert height Committed (pb_blocks e),
                      prepare_votes := bt_remove height (prepare_votes e), commit_votes := bt_remove height (commit_votes e1)\<rparr>
              else e1, Ok ()))"

abbreviation prepare_vote_count :: "PbftConsensusEngine \<Rightarrow> u64 \<Rightarrow> usize" where
  "prepare_vote_count e height \<equiv> length (bt_get_or (prepare_votes e) height [])"

abbreviation commit_vote_count :: "PbftConsensusEngine \<Rightarrow> u64 \<Rightarrow> usize" where
  "commit_vote_count e height \<equiv> length (bt_get_or (commit_votes e) height [])"

definition pbft_is_finalized :: "PbftConsensusEngine \<Rightarrow> u64 \<Rightarrow> bool" where
  "pbft_is_finalized e height \<longleftrightarrow> bt_get (pb_blocks e) height = Some Committed"

abbreviation block_state :: "PbftConsensusEngine \<Rightarrow> u64 \<Rightarrow> PbftBlockState option" where
  "block_state e height \<equiv> bt_get (pb_blocks e) height"

definition pbft_verify_block :: "crypto_env \<Rightarrow> PbftConsensusEngine \<Rightarrow> Block \<Rightarrow> EpochState \<Rightarrow> (ConsensusError, unit) outcome" where
  "pbft_verify_block c e b es =
     (if blk_consensus_mode b \<noteq> PbftFastFinality then
        Err (CeConsensusModeMismatch PbftFastFinality (blk_consensus_mode b) (es_epoch_id es))
      else if \<not> contains_height es (blk_index b) then
        Err (CeProposalRejected (OutsideEpoch (blk_index b) (start_height es) (end_height es)))
      else verify_registered_block_signature c e b)"

abbreviation pbft_propose_block :: "(ConsensusError, Block) outcome" where
  "pbft_propose_block \<equiv> Err (CeProposalRejected CannotPropose)"

abbreviation health_status :: "PbftConsensusEngine \<Rightarrow> f64" where
  "health_status e \<equiv> (if pb_blocks e = [] then 1
      else f64_div (f64_of_nat (length (filter (\<lambda>s. s = Committed) (bt_values (pb_blocks e))))) (f64_of_nat (length (pb_blocks e))))"

section \<open>Runs\<close>

datatype pb_op =
    PbPropose u64 Block
  | PbPrepare u64 string bytes
  | PbCommit u64 string bytes
  | PbCommittee "(string \<times> bytes) list"
  | PbAdd string
  | PbAddKey string bytes
  | PbRemove string

primrec pb_step :: "crypto_env \<Rightarrow> pb_op \<Rightarrow> PbftConsensusEngine \<Rightarrow> PbftConsensusEngine" where
  "pb_step c (PbPropose h b) e = fst (pre_prepare c h b e)"
| "pb_step c (PbPrepare h i sig) e = fst (process_prepare c h i sig e)"
| "pb_step c (PbCommit h i sig) e = fst (process_commit c h i sig e)"
| "pb_step c (PbCommittee ks) e = fst (set_committee c ks e)"
| "pb_step c (PbAdd i) e = pbft_add_validator i e"
| "pb_step c (PbAddKey i key) e = fst (add_validator_with_public_key c i key e)"
| "pb_step c (PbRemove i) e = pbft_remove_validator i e"

text \<open>The operations that leave the committee as it is.\<close>

primrec voting_op :: "pb_op \<Rightarrow> bool" where
  "voting_op (PbPropose h b) = True"
| "voting_op (PbPrepare h i sig) = True"
| "voting_op (PbCommit h i sig) = True"
| "voting_op (PbCommittee ks) = False"
| "voting_op (PbAdd i) = False"
| "voting_op (PbAddKey i key) = False"
| "voting_op (PbRemove i) = False"

definition final_at :: "u64 \<Rightarrow> string \<Rightarrow> PbftConsensusEngine \<Rightarrow> bool" where
  "final_at h x e \<longleftrightarrow> pbft_is_finalized e h \<and> bt_get (block_hashes e) h = Some x"

lemma recheck_committed [simp]: "recheck q prep comm h Committed = Committed"
  by (simp add: recheck_def)

lemma final_propose: "final_at h x e \<Longrightarrow> final_at h x (fst (pre_prepare c h' b e))"
  by (cases "verify_registered_block_signature c e b")
     (auto simp: pre_prepare_def final_at_def pbft_is_finalized_def bt_contains_get)

lemma final_prepare: "final_at h x e \<Longrightarrow> final_at h x (fst (process_prepare c h' i sig e))"
  by (cases "verify_vote c Prepare h' i sig e")
     (auto simp: process_prepare_def final_at_def pbft_is_finalized_def Let_def)

lemma final_commit: "final_at h x e \<Longrightarrow> final_at h x (fst (process_commit c h' i sig e))"
  by (cases "verify_vote c Commit h' i sig e")
     (auto simp: process_commit_def final_at_def pbft_is_finalized_def Let_def)

lemma bt_get_map_state: "bt_get (map (\<lambda>(h, s). (h, f h s)) m) k = map_option (f k) (bt_get m k)"
  by (induction m) auto

lemma final_committee: "final_at h x e \<Longrightarrow> final_at h x (fst (set_committee c ks e))"
  by (cases "collect_keys c ks []")
     (auto simp: set_committee_def final_at_def pbft_is_finalized_def Let_def bt_get_map_state)

lemma final_step: "final_at h x e \<Longrightarrow> final_at h x (pb_step c a e)"
  by (cases a) (simp_all add: final_propose final_prepare final_commit final_committee,
    simp_all add: final_at_def pbft_is_finalized_def pbft_add_validator_def add_validator_with_public_key_def
      pbft_remove_validator_def Let_def)

interpretation pbft_final: machine "pb_step c" "final_at h x" "\<lambda>_. True" for c h x
  by unfold_locales (rule final_step)

section \<open>Verified quorums\<close>

text \<open>
  The vote an operation presents to the engine; below, \<open>V\<close> is a set of presented votes, and every vote counted
  in a certificate is one of them.
\<close>

primrec presents :: "pb_op \<Rightarrow> (PbftPhase \<times> u64 \<times> string \<times> bytes) set" where
  "presents (PbPropose h b) = {}"
| "presents (PbPrepare h i sig) = {(Prepare, h, i, sig)}"
| "presents (PbCommit h i sig) = {(Commit, h, i, sig)}"
| "presents (PbCommittee ks) = {}"
| "presents (PbAdd i) = {}"
| "presents (PbAddKey i key) = {}"
| "presents (PbRemove i) = {}"

abbreviation votes_in :: "(PbftPhase \<times> u64 \<times> string \<times> bytes) set \<Rightarrow> pb_op \<Rightarrow> bool" where
  "votes_in V a \<equiv> voting_op a \<and> presents a \<subseteq> V"

definition signed :: "(PbftPhase \<times> u64 \<times> string \<times> bytes) set \<Rightarrow> crypto_env \<Rightarrow> (string, bytes) btree_map \<Rightarrow> PbftPhase \<Rightarrow> u64 \<Rightarrow> string \<Rightarrow> string \<Rightarrow> bool" where
  "signed V c keys phase h x i \<longleftrightarrow> (\<exists>key sig. (phase, h, i, sig) \<in> V \<and> bt_get keys i = Some key \<and> length sig = SPHINCS_SIG_LEN \<and>
     verify_detached_signature c sig (pbft_vote_message phase h x i) key)"

definition certified :: "(PbftPhase \<times> u64 \<times> string \<times> bytes) set \<Rightarrow> crypto_env \<Rightarrow> (string, bytes) btree_map \<Rightarrow> PbftPhase \<Rightarrow> u64 \<Rightarrow> string \<Rightarrow> bool" where
  "certified V c keys phase h x \<longleftrightarrow>
     (\<exists>S \<subseteq> set (bt_keys keys). quorum_of (length keys) \<le> card S \<and> (\<forall>i \<in> S. signed V c keys phase h x i))"

definition book_ok :: "(PbftPhase \<times> u64 \<times> string \<times> bytes) set \<Rightarrow> crypto_env \<Rightarrow> (string, bytes) btree_map \<Rightarrow> PbftPhase \<Rightarrow> (u64, string) btree_map \<Rightarrow>
    (u64, (string, unit) btree_map) btree_map \<Rightarrow> bool" where
  "book_ok V c keys phase hashes votes \<longleftrightarrow> (\<forall>h v. bt_get votes h = Some v \<longrightarrow> bt_wf v \<and>
     (\<forall>i. bt_contains v i \<longrightarrow> (\<exists>x. bt_get hashes h = Some x \<and> signed V c keys phase h x i)))"

definition pb_inv :: "(PbftPhase \<times> u64 \<times> string \<times> bytes) set \<Rightarrow> crypto_env \<Rightarrow> (string, bytes) btree_map \<Rightarrow> PbftConsensusEngine \<Rightarrow> bool" where
  "pb_inv V c keys e \<longleftrightarrow> validator_pubkeys e = keys \<and> quorum_size e = quorum_of (length keys) \<and>
     (\<forall>h. bt_contains (block_hashes e) h \<longleftrightarrow> bt_contains (pb_blocks e) h) \<and>
     book_ok V c keys Prepare (block_hashes e) (prepare_votes e) \<and> book_ok V c keys Commit (block_hashes e) (commit_votes e) \<and>
     (\<forall>h x. bt_get (block_hashes e) h = Some x \<longrightarrow>
        (bt_get (pb_blocks e) h \<noteq> Some Proposed \<longrightarrow> certified V c keys Prepare h x) \<and>
        (bt_get (pb_blocks e) h = Some Committed \<longrightarrow> certified V c keys Commit h x))"

lemma verify_vote_signed:
  assumes "verify_vote c phase h i sig e = Ok u" "validator_pubkeys e = keys" "(phase, h, i, sig) \<in> V"
  obtains x where "bt_get (block_hashes e) h = Some x" "signed V c keys phase h x i"
  using assms by (auto simp: verify_vote_def signed_def split: option.splits if_splits)

lemma book_vote:
  assumes "book_ok V c keys phase hashes votes" "bt_get hashes h = Some x" "signed V c keys phase h x i"
  shows "book_ok V c keys phase hashes (bt_insert h (bt_insert i () (bt_get_or votes h [])) votes)"
proof -
  let ?v = "bt_get_or votes h []"
  have v: "bt_wf ?v \<and> (\<forall>j. bt_contains ?v j \<longrightarrow> signed V c keys phase h x j)"
  proof (cases "bt_get votes h")
    case None
    then show ?thesis by (simp add: bt_get_or_def bt_contains_def)
  next
    case (Some w)
    then show ?thesis using assms(1,2) unfolding book_ok_def by (fastforce simp: bt_get_or_def)
  qed
  then have "bt_wf (bt_insert i () ?v) \<and> (\<forall>j. bt_contains (bt_insert i () ?v) j \<longrightarrow> signed V c keys phase h x j)"
    using assms(3) by (auto simp: bt_contains_get)
  then show ?thesis using assms(1,2) unfolding book_ok_def by (simp add: bt_get_insert)
qed

lemma book_remove: "book_ok V c keys phase hashes votes \<Longrightarrow> book_ok V c keys phase hashes (bt_remove h votes)"
  by (auto simp: book_ok_def)

text \<open>A full book at a height is a certificate.\<close>

lemma book_certifies:
  assumes "book_ok V c keys phase hashes votes" "bt_get votes h = Some v" "bt_get hashes h = Some x"
    "quorum_of (length keys) \<le> length v"
  shows "certified V c keys phase h x"
proof -
  have sg: "signed V c keys phase h x i" if "bt_contains v i" for i
    using assms(1-3) that unfolding book_ok_def by fastforce
  have wf: "bt_wf v" using assms(1,2) unfolding book_ok_def by blast
  have "card (set (bt_keys v)) = length v" using distinct_card [OF bt_wf_distinct [OF wf]] by simp
  moreover have "signed V c keys phase h x i" if "i \<in> set (bt_keys v)" for i using sg that by (simp add: bt_contains_iff)
  moreover have "i \<in> set (bt_keys keys)" if "signed V c keys phase h x i" for i
    using that unfolding signed_def by (metis bt_contains_get bt_contains_iff)
  ultimately show ?thesis using assms(4) unfolding certified_def by (intro exI [of _ "set (bt_keys v)"]) auto
qed

lemma pb_inv_propose:
  assumes inv: "pb_inv V c keys e"
  shows "pb_inv V c keys (fst (pre_prepare c h b e))"
proof (cases "fst (pre_prepare c h b e) = e")
  case False
  then have none: "\<not> bt_contains (pb_blocks e) h" and e': "fst (pre_prepare c h b e) =
      e\<lparr>pb_blocks := bt_insert h Proposed (pb_blocks e), block_hashes := bt_insert h (compute_hash c b) (block_hashes e),
        prepare_votes := bt_insert h (bt_get_or (prepare_votes e) h []) (prepare_votes e),
        commit_votes := bt_insert h (bt_get_or (commit_votes e) h []) (commit_votes e)\<rparr>"
    by (auto simp: pre_prepare_def split: outcome.splits if_splits)
  have nohash: "bt_get (block_hashes e) h = None"
  proof -
    have "\<not> bt_contains (block_hashes e) h" using inv none by (simp add: pb_inv_def)
    then show ?thesis by (cases "bt_get (block_hashes e) h") (auto simp: bt_contains_get)
  qed
  have book: "book_ok V c keys phase (bt_insert h y (block_hashes e)) (bt_insert h (bt_get_or votes h []) votes)"
    if bk: "book_ok V c keys phase (block_hashes e) votes" for phase y votes
  proof -
    have at: "bt_wf (bt_get_or votes h []) \<and> (\<forall>i. \<not> bt_contains (bt_get_or votes h []) i)"
      using bk nohash unfolding book_ok_def by (cases "bt_get votes h") (fastforce simp: bt_get_or_def bt_contains_def)+
    show ?thesis unfolding book_ok_def
    proof (intro allI impI)
      fix k v assume g: "bt_get (bt_insert h (bt_get_or votes h []) votes) k = Some v"
      show "bt_wf v \<and> (\<forall>i. bt_contains v i \<longrightarrow>
          (\<exists>x. bt_get (bt_insert h y (block_hashes e)) k = Some x \<and> signed V c keys phase k x i))"
        using g at bk unfolding book_ok_def by (cases "k = h") simp_all
    qed
  qed
  show ?thesis using inv book unfolding pb_inv_def e' by (auto simp: bt_contains_get)
qed (use inv in simp)

lemma pb_inv_prepare:
  assumes inv: "pb_inv V c keys e" and shown: "(Prepare, h, i, sig) \<in> V"
  shows "pb_inv V c keys (fst (process_prepare c h i sig e))"
proof (cases "fst (process_prepare c h i sig e) = e")
  case False
  let ?v = "bt_insert i () (bt_get_or (prepare_votes e) h [])" and ?q = "quorum_of (length keys)"
  from False have at: "bt_get (pb_blocks e) h = Some Proposed" and ok: "verify_vote c Prepare h i sig e = Ok ()"
    by (auto simp: process_prepare_def Let_def split: outcome.splits if_splits)
  have q: "quorum_size e = ?q" and pk: "validator_pubkeys e = keys" using inv by (simp_all add: pb_inv_def)
  obtain x where x: "bt_get (block_hashes e) h = Some x" "signed V c keys Prepare h x i"
    using verify_vote_signed [OF ok pk shown] by blast
  have book: "book_ok V c keys Prepare (block_hashes e) (bt_insert h ?v (prepare_votes e))"
    using book_vote [OF _ x] inv by (simp add: pb_inv_def)
  have cert: "certified V c keys Prepare h x" if "?q \<le> length ?v"
    using book_certifies [OF book _ x(1), of ?v] that by simp
  have e': "fst (process_prepare c h i sig e) = (let e1 = e\<lparr>prepare_votes := bt_insert h ?v (prepare_votes e)\<rparr> in
      if ?q \<le> length ?v then e1\<lparr>pb_blocks := bt_insert h Prepared (pb_blocks e)\<rparr> else e1)"
    using False at ok q by (auto simp: process_prepare_def Let_def)
  show ?thesis
  proof (cases "?q \<le> length ?v")
    case True
    then show ?thesis using inv book cert [OF True] x(1) at unfolding pb_inv_def e' Let_def by (auto simp: bt_contains_get)
  next
    case False
    then show ?thesis using inv book unfolding pb_inv_def e' Let_def by simp
  qed
qed (use inv in simp)

lemma pb_inv_commit:
  assumes inv: "pb_inv V c keys e" and shown: "(Commit, h, i, sig) \<in> V"
  shows "pb_inv V c keys (fst (process_commit c h i sig e))"
proof (cases "fst (process_commit c h i sig e) = e")
  case False
  let ?v = "bt_insert i () (bt_get_or (commit_votes e) h [])" and ?q = "quorum_of (length keys)"
  from False have at: "bt_get (pb_blocks e) h = Some Prepared" and ok: "verify_vote c Commit h i sig e = Ok ()"
    by (auto simp: process_commit_def Let_def split: outcome.splits if_splits)
  have q: "quorum_size e = ?q" and pk: "validator_pubkeys e = keys" using inv by (simp_all add: pb_inv_def)
  obtain x where x: "bt_get (block_hashes e) h = Some x" "signed V c keys Commit h x i"
    using verify_vote_signed [OF ok pk shown] by blast
  let ?b = "bt_insert h ?v (commit_votes e)"
  have book: "book_ok V c keys Commit (block_hashes e) ?b" using book_vote [OF _ x] inv by (simp add: pb_inv_def)
  have cert: "certified V c keys Commit h x" if "?q \<le> length ?v"
    using book_certifies [OF book _ x(1), of ?v] that by simp
  have prep: "certified V c keys Prepare h x" using inv at x(1) by (simp add: pb_inv_def)
  have rem: "book_ok V c keys Prepare (block_hashes e) (bt_remove h (prepare_votes e))" "book_ok V c keys Commit (block_hashes e) (bt_remove h ?b)"
    using book_remove book inv by (simp_all add: pb_inv_def)
  have e': "fst (process_commit c h i sig e) = (let e1 = e\<lparr>commit_votes := ?b\<rparr> in
      if ?q \<le> length ?v then e1\<lparr>pb_blocks := bt_insert h Committed (pb_blocks e), prepare_votes := bt_remove h (prepare_votes e),
        commit_votes := bt_remove h ?b\<rparr> else e1)"
    using False at ok q by (auto simp: process_commit_def Let_def)
  show ?thesis
  proof (cases "?q \<le> length ?v")
    case True
    then show ?thesis using inv rem cert [OF True] prep x(1) at unfolding pb_inv_def e' Let_def by (auto simp: bt_contains_get)
  next
    case False
    then show ?thesis using inv book unfolding pb_inv_def e' Let_def by simp
  qed
qed (use inv in simp)

interpretation pbft_votes: machine "pb_step c" "pb_inv V c keys" "votes_in V" for V c keys
proof
  fix e a assume "pb_inv V c keys e" "votes_in V a"
  then show "pb_inv V c keys (pb_step c a e)" by (cases a) (simp_all add: pb_inv_propose pb_inv_prepare pb_inv_commit)
qed

lemma collect_keys_wf: "collect_keys c ks m = Ok keys \<Longrightarrow> bt_wf m \<Longrightarrow> bt_wf keys"
  by (induction c ks m rule: collect_keys.induct) (auto split: if_splits)

lemma pb_inv_new:
  assumes "new_with_validator_keys c i ks = Ok e"
  shows "collect_keys c ks [] = Ok (validator_pubkeys e)" "pb_inv V c (validator_pubkeys e) e"
    "total_validators e = length (validator_pubkeys e)" "bt_keys (known_validators e) = bt_keys (validator_pubkeys e)"
  using assms by (auto simp: new_with_validator_keys_def from_validator_keys_def bind_outcome_Ok pb_inv_def book_ok_def
      bt_contains_def case_prod_beta comp_def split: if_splits)

lemma pbft_run:
  assumes "new_with_validator_keys c i ks = Ok e0" "list_all (votes_in V) ops"
    and "pbft_is_finalized (fold (pb_step c) ops e0) h" "bt_get (block_hashes (fold (pb_step c) ops e0)) h = Some x"
  shows "certified V c (validator_pubkeys e0) Prepare h x" "certified V c (validator_pubkeys e0) Commit h x"
  using pbft_votes.run_inv [OF pb_inv_new(2) [OF assms(1)] assms(2)] assms(3,4)
  by (simp_all add: pb_inv_def pbft_is_finalized_def)

interpretation pbft_committee: weighted_quorum "set (bt_keys keys)" "\<lambda>_. 1" "\<lambda>t. t * 2 div 3" "Suc (card (set (bt_keys keys)))"
  for keys :: "(string, bytes) btree_map"
proof
  fix t w :: nat
  show "t * 2 div 3 < w \<longleftrightarrow> 2 * t < 3 * w" by linarith
qed simp_all

lemma certificates_overlap:
  assumes wf: "bt_wf keys" and n: "length keys < 2 ^ 63" and "certified V c keys p h x" "certified W c keys p' h' y"
  shows "\<exists>S \<subseteq> set (bt_keys keys). length keys < 3 * card S \<and> (\<forall>i \<in> S. signed V c keys p h x i \<and> signed W c keys p' h' y i)"
proof -
  have card: "card (set (bt_keys keys)) = length keys" using distinct_card [OF bt_wf_distinct [OF wf]] by simp
  have q: "quorum_of (length keys) = length keys * 2 div 3 + 1" using n by (simp add: wrap_mul_exact)
  obtain A B where A: "A \<subseteq> set (bt_keys keys)" "quorum_of (length keys) \<le> card A" "\<forall>i \<in> A. signed V c keys p h x i"
    and B: "B \<subseteq> set (bt_keys keys)" "quorum_of (length keys) \<le> card B" "\<forall>i \<in> B. signed W c keys p' h' y i"
    using assms(3,4) unfolding certified_def by blast
  have "pbft_committee.quorum keys A" "pbft_committee.quorum keys B"
    using A(1,2) B(1,2) unfolding q pbft_committee.quorum_def by (simp_all add: card [simplified])
  then have "length keys < 3 * card (A \<inter> B)" using pbft_committee.quorum_intersection [of keys A B] by (simp add: card [simplified])
  then show ?thesis using A B by (intro exI [of _ "A \<inter> B"]) auto
qed

text \<open>The votes of a removed validator stay in the books, although the quorum shrinks.\<close>

lemma removed_votes_still_count:
  "prepare_votes (pbft_remove_validator i e) = prepare_votes e" "commit_votes (pbft_remove_validator i e) = commit_votes e"
  by (simp_all add: pbft_remove_validator_def Let_def)

definition demo_signed_block :: Block where
  "demo_signed_block = (block_new demo_env 1 1 [] ''ab'')\<lparr>blk_validator_signature := demo_key @ demo_sig\<rparr>"

definition demo_votes :: "pb_op list" where
  "demo_votes = [PbPropose 1 demo_signed_block, PbPrepare 1 ''v'' demo_sig, PbCommit 1 ''v'' demo_sig]"

lemma demo_block_verifies: "verify_signature demo_env demo_signed_block demo_key = Ok True" "blk_index demo_signed_block = 1"
proof -
  have "demo_key \<noteq> []" by (simp add: demo_key_def)
  then show "verify_signature demo_env demo_signed_block demo_key = Ok True"
    using compute_hash_bytes_Ok [OF demo_digests_32 demo_hex_ok, of demo_signed_block]
    by (simp add: verify_signature_def demo_signed_block_def const_defs demo_env_def)
  show "blk_index demo_signed_block = 1" by (simp add: demo_signed_block_def block_new_def Let_def)
qed

lemma demo_pbft:
  "\<exists>e0. new_with_validator_keys demo_env ''v'' [(''v'', demo_key)] = Ok e0 \<and> total_validators e0 = 1 \<and>
     final_at 1 (compute_hash demo_env demo_signed_block) (fold (pb_step demo_env) demo_votes e0)"
proof -
  let ?e = "from_validator_keys [(''v'', ())] [(''v'', demo_key)]"
  have new: "new_with_validator_keys demo_env ''v'' [(''v'', demo_key)] = Ok ?e"
    by (simp add: new_with_validator_keys_def const_defs demo_env_def bt_contains_def)
  have sigb: "blk_validator_signature demo_signed_block = demo_key @ demo_sig" by (simp add: demo_signed_block_def)
  have reg: "verify_registered_block_signature demo_env ?e demo_signed_block = Ok ()"
    by (simp add: verify_registered_block_signature_def sigb const_defs from_validator_keys_def
        demo_block_verifies(1))
  have vote: "verify_vote demo_env p k ''v'' demo_sig f = Ok ()"
    if "validator_pubkeys f = [(''v'', demo_key)]" "bt_get (block_hashes f) k = Some x" for p k f x
    using that by (simp add: verify_vote_def const_defs demo_env_def)
  have "final_at 1 (compute_hash demo_env demo_signed_block) (fold (pb_step demo_env) demo_votes ?e)"
    by (simp add: demo_votes_def pre_prepare_def demo_block_verifies(2) reg, simp add: from_validator_keys_def
        process_prepare_def process_commit_def Let_def vote bt_contains_def bt_get_or_def wrap_mul_def final_at_def pbft_is_finalized_def)
  moreover have "total_validators ?e = 1" by (simp add: from_validator_keys_def)
  ultimately show ?thesis using new by blast
qed

text \<open>Two finalized blocks at one height have more than a third of the committee behind both.\<close>

lemma conflicting_signers:
  assumes "new_with_validator_keys c v ks = Ok e0" "new_with_validator_keys c v' ks = Ok e0'"
    and "total_validators e0 < 2 ^ 63" "list_all (votes_in V) ops" "list_all (votes_in W) ops'"
    and "e = fold (pb_step c) ops e0" "e' = fold (pb_step c) ops' e0'"
    and "pbft_is_finalized e h" "bt_get (block_hashes e) h = Some x"
    and "pbft_is_finalized e' h" "bt_get (block_hashes e') h = Some y"
  shows "(\<exists>S \<subseteq> set (bt_keys (known_validators e0)). total_validators e0 < 3 * card S \<and>
      (\<forall>i \<in> S. signed V c (validator_pubkeys e0) Commit h x i \<and> signed W c (validator_pubkeys e0) Commit h y i)) \<and>
    certified V c (validator_pubkeys e0) Prepare h x \<and> certified W c (validator_pubkeys e0) Prepare h y"
proof -
  note n = pb_inv_new [OF assms(1)] and n' = pb_inv_new [OF assms(2)]
  have same: "validator_pubkeys e0' = validator_pubkeys e0" using n(1) n'(1) by simp
  have wf: "bt_wf (validator_pubkeys e0)" using collect_keys_wf [OF n(1)] by simp
  have x: "certified V c (validator_pubkeys e0) Prepare h x" "certified V c (validator_pubkeys e0) Commit h x"
    using pbft_run [OF assms(1,4)] assms(6,8,9) by simp_all
  have y: "certified W c (validator_pubkeys e0) Prepare h y" "certified W c (validator_pubkeys e0) Commit h y"
    using pbft_run [OF assms(2,5)] assms(7,10,11) by (simp_all add: same)
  have len: "length (validator_pubkeys e0) < 2 ^ 63" using assms(3) n(3) by simp
  show ?thesis using certificates_overlap [OF wf len x(2) y(2)] x(1) y(1) n(3,4) by simp
qed

section \<open>Properties\<close>

text \<open>Accountable safety. Two engines start from the same committee, whatever their local validators, and process
  any proposals and votes. If both finalize a block at the same height, then for more than a third of the committee
  valid commit signatures were presented for both block hashes, and each block also has a verified prepare quorum;
  so conflicting finalizations expose more than a third of the committee as equivocators.\<close>

theorem pbft_conflict_accountable:
  assumes "new_with_validator_keys c v ks = Ok e0" "new_with_validator_keys c v' ks = Ok e0'"
    and "total_validators e0 < 2 ^ 63" "list_all (votes_in V) ops" "list_all (votes_in W) ops'"
    and "e = fold (pb_step c) ops e0" "e' = fold (pb_step c) ops' e0'"
    and "pbft_is_finalized e h" "bt_get (block_hashes e) h = Some x"
    and "pbft_is_finalized e' h" "bt_get (block_hashes e') h = Some y"
  shows "(\<exists>S \<subseteq> set (bt_keys (known_validators e0)). total_validators e0 < 3 * card S \<and>
      (\<forall>i \<in> S. signed V c (validator_pubkeys e0) Commit h x i \<and> signed W c (validator_pubkeys e0) Commit h y i)) \<and>
    certified V c (validator_pubkeys e0) Prepare h x \<and> certified W c (validator_pubkeys e0) Prepare h y"
  by (rule conflicting_signers [OF assms])

theorem pbft_conflict_accountable_witness:
  "\<exists>e0 S. new_with_validator_keys demo_env ''v'' [(''v'', demo_key)] = Ok e0 \<and> 1 < 3 * card S \<and>
     (\<forall>i \<in> S. signed UNIV demo_env (validator_pubkeys e0) Commit 1 (compute_hash demo_env demo_signed_block) i)"
proof -
  obtain e0 where e0: "new_with_validator_keys demo_env ''v'' [(''v'', demo_key)] = Ok e0" "total_validators e0 = 1"
    "pbft_is_finalized (fold (pb_step demo_env) demo_votes e0) 1"
    "bt_get (block_hashes (fold (pb_step demo_env) demo_votes e0)) 1 = Some (compute_hash demo_env demo_signed_block)"
    using demo_pbft unfolding final_at_def by blast
  have "list_all (votes_in UNIV) demo_votes" "total_validators e0 < 2 ^ 63" using e0(2) by (simp_all add: demo_votes_def)
  from pbft_conflict_accountable [OF e0(1,1) this(2) this(1) this(1) refl refl e0(3,4,3,4)] e0(1,2)
  show ?thesis by metis
qed

text \<open>Finality is irrevocable. Once an engine has finalized a block at a height, no sequence of proposals, votes,
  committee replacements, additions and removals takes the finality away or changes the block hash.\<close>

theorem pbft_finality_irrevocable:
  assumes "pbft_is_finalized e h" "bt_get (block_hashes e) h = Some x"
  shows "pbft_is_finalized (fold (pb_step c) ops e) h \<and> bt_get (block_hashes (fold (pb_step c) ops e)) h = Some x"
proof -
  have "final_at h x (fold (pb_step c) ops e)"
    by (rule pbft_final.run_inv) (use assms in \<open>simp_all add: final_at_def list_all_iff\<close>)
  then show ?thesis by (simp add: final_at_def)
qed

theorem pbft_finality_irrevocable_witness:
  "\<exists>e. pbft_is_finalized e 1 \<and> pbft_is_finalized (fold (pb_step demo_env) [PbRemove ''v'', PbPropose 1 demo_signed_block] e) 1"
proof -
  obtain e where "pbft_is_finalized e 1" "bt_get (block_hashes e) 1 = Some (compute_hash demo_env demo_signed_block)"
    using demo_pbft unfolding final_at_def by blast
  then show ?thesis using pbft_finality_irrevocable by blast
qed

end
