(* ===== verification/PbftLive.thy ===== *)
theory PbftLive
  imports Pbft
begin

text \<open>
  \<open>crates/bleep-consensus/src/pbft_engine.rs\<close>: the coordinator (\<open>LivePbftFinality\<close>) that drives the PBFT engine
  of a running node: it starts proposals, casts the votes of the local validator and forwards the votes of
  others.  Each method runs as one step.  Its messages to the peers are appended to \<open>lp_outbox\<close> and its
  notifications to \<open>lp_wakeups\<close>; \<open>lp_signed\<close> records every vote the node has signed and is read by no
  operation.  The JSON encoding of a message is a parameter.  The lemmas show that a node signs one block per
  height, that its vote sending ends, and that nodes which keep one committee agree when at most a third of it is faulty.
\<close>

section \<open>Data\<close>

datatype PbftMessage =
    PmProposal Block
  | PmVote PbftPhase u64 string string bytes

datatype LiveError =
    LeNotInSet string
  | LeKeyMismatch
  | LeInvalidSecretKey
  | LeInvalidPublicKey
  | LeSecretKeyMismatch
  | LeInit ConsensusError
  | LeSync ConsensusError
  | LeNoProposerKey u64
  | LeNotLocalProposer u64 string
  | LeUnknownBlock string u64
  | LeVoteIsProposal
  | LeConflictingProposal u64
  | LeNoProposal u64
  | LeCannotSignPrePrepare
  | LeSerialization
  | LeEngine ConsensusError

datatype wakeup = NotifyOne | NotifyWaiters

record LivePbftFinality =
  lp_id :: string
  lp_secret_key :: bytes
  lp_public_key :: bytes
  lp_p2p :: bool
  lp_engine :: PbftConsensusEngine
  lp_prepare_sent :: "u64 list"
  lp_commit_sent :: "u64 list"
  lp_wakeups :: "wakeup list"
  lp_outbox :: "PbftMessage list"
  lp_signed :: "(PbftPhase \<times> u64 \<times> string) list"

type_synonym live_call = "LivePbftFinality \<Rightarrow> LivePbftFinality \<times> (LiveError, unit) outcome"

abbreviation KEY_CHECK_CHALLENGE :: bytes where
  "KEY_CHECK_CHALLENGE \<equiv> str_bytes ''BLEEP:PBFT:LOCAL-KEY-CHECK:V1''"

section \<open>Operations\<close>

definition live_new ::
  "crypto_env \<Rightarrow> string \<Rightarrow> (string \<times> bytes) list \<Rightarrow> bytes \<Rightarrow> bytes \<Rightarrow> bool \<Rightarrow> (LiveError, LivePbftFinality) outcome" where
  "live_new c local_id validator_keys sk pk p2p =
     (case find (\<lambda>(i, _). i = local_id) validator_keys of
        None \<Rightarrow> Err (LeNotInSet local_id)
      | Some (_, local_key) \<Rightarrow>
          if local_key \<noteq> pk then Err LeKeyMismatch
          else if \<not> sk_from_bytes_ok c sk then Err LeInvalidSecretKey
          else if \<not> pk_from_bytes_ok c pk then Err LeInvalidPublicKey
          else if \<not> verify_detached_signature c (detached_sign c KEY_CHECK_CHALLENGE sk) KEY_CHECK_CHALLENGE pk
          then Err LeSecretKeyMismatch
          else bind_outcome (map_err LeInit (new_with_validator_keys c local_id validator_keys)) (\<lambda>engine.
            Ok \<lparr>lp_id = local_id, lp_secret_key = sk, lp_public_key = pk, lp_p2p = p2p, lp_engine = engine,
                lp_prepare_sent = [], lp_commit_sent = [], lp_wakeups = [], lp_outbox = [], lp_signed = []\<rparr>))"

abbreviation matches_committee :: "LivePbftFinality \<Rightarrow> (string \<times> bytes) list \<Rightarrow> bool" where
  "matches_committee s validator_keys \<equiv> total_validators (lp_engine s) = length validator_keys \<and>
     list_all (\<lambda>(i, key). bt_get (validator_pubkeys (lp_engine s)) i = Some key) validator_keys"

definition on_engine ::
  "(PbftConsensusEngine \<Rightarrow> PbftConsensusEngine \<times> (ConsensusError, unit) outcome) \<Rightarrow> (ConsensusError \<Rightarrow> LiveError) \<Rightarrow> live_call" where
  "on_engine f err s = (case f (lp_engine s) of (e, r) \<Rightarrow> (s\<lparr>lp_engine := e\<rparr>, map_err err r))"

definition notify :: "wakeup \<Rightarrow> bool \<Rightarrow> LivePbftFinality \<Rightarrow> LivePbftFinality" where
  "notify w cond s = (if cond then s\<lparr>lp_wakeups := lp_wakeups s @ [w]\<rparr> else s)"

definition sync_committee :: "crypto_env \<Rightarrow> (string \<times> bytes) list \<Rightarrow> live_call" where
  "sync_committee c validator_keys s =
     (let finalized_before = (\<lambda>height. bt_get (pb_blocks (lp_engine s)) height = Some Committed)
      in and_then (on_engine (set_committee c validator_keys) LeSync s) (\<lambda>s _.
        let newly_finalized =
              list_ex (\<lambda>(height, state). state = Committed \<and> \<not> finalized_before height) (pb_blocks (lp_engine s))
        in (notify NotifyWaiters newly_finalized (s\<lparr>lp_prepare_sent := [], lp_commit_sent := []\<rparr>), Ok ())))"

definition broadcast :: "(PbftMessage \<Rightarrow> bytes option) \<Rightarrow> PbftMessage \<Rightarrow> live_call" where
  "broadcast json message s =
     (if \<not> lp_p2p s then (s, Ok ())
      else case json message of
             None \<Rightarrow> (s, Err LeSerialization)
           | Some payload \<Rightarrow> (s\<lparr>lp_outbox := lp_outbox s @ [message]\<rparr>, Ok ()))"

definition start_proposal :: "crypto_env \<Rightarrow> Block \<Rightarrow> LivePbftFinality \<Rightarrow> LivePbftFinality \<times> (LiveError, bool) outcome" where
  "start_proposal c block s =
     (case bt_get (block_hashes (lp_engine s)) (blk_index block) of
        Some existing_hash \<Rightarrow>
          if existing_hash \<noteq> compute_hash c block then (s, Err (LeConflictingProposal (blk_index block)))
          else (s, Ok False)
      | None \<Rightarrow> and_then (on_engine (pre_prepare c (blk_index block) block) LeEngine s) (\<lambda>s _. (s, Ok True)))"

text \<open>
  The two methods call each other: a prepare vote may start the commit vote, which ends the chain.  The
  insertion into \<open>local_prepare_sent\<close> is the condition of the first early return.
\<close>

function (sequential) send_local_vote :: "crypto_env \<Rightarrow> (PbftMessage \<Rightarrow> bytes option) \<Rightarrow> PbftPhase \<Rightarrow> u64 \<Rightarrow> live_call"
  and start_local_commit_if_prepared :: "crypto_env \<Rightarrow> (PbftMessage \<Rightarrow> bytes option) \<Rightarrow> u64 \<Rightarrow> live_call" where
  "send_local_vote c json phase height s =
     (if phase = Prepare \<and> height \<in> set (lp_prepare_sent s) then (s, Ok ())
      else
        let s = (if phase = Prepare then s\<lparr>lp_prepare_sent := bs_insert height (lp_prepare_sent s)\<rparr> else s)
        in case bt_get (block_hashes (lp_engine s)) height of
             None \<Rightarrow> (s, Err (LeNoProposal height))
           | Some block_hash \<Rightarrow>
               if \<not> sk_from_bytes_ok c (lp_secret_key s) then (s, Err LeInvalidSecretKey)
               else
                 let signature = detached_sign c (pbft_vote_message phase height block_hash (lp_id s)) (lp_secret_key s);
                     s = s\<lparr>lp_signed := lp_signed s @ [(phase, height, block_hash)]\<rparr>
                 in and_then
                      (case phase of
                         Prepare \<Rightarrow> on_engine (process_prepare c height (lp_id s) signature) LeEngine s
                       | Commit \<Rightarrow> on_engine (process_commit c height (lp_id s) signature) LeEngine s
                       | PrePrepare \<Rightarrow> (s, Err LeCannotSignPrePrepare)) (\<lambda>s _.
                    and_then (broadcast json (PmVote phase height block_hash (lp_id s) signature) s) (\<lambda>s _.
                      if phase = Prepare then start_local_commit_if_prepared c json height s
                      else (notify NotifyOne (pbft_is_finalized (lp_engine s) height) s, Ok ()))))"
| "start_local_commit_if_prepared c json height s =
     (if block_state (lp_engine s) height \<noteq> Some Prepared then (s, Ok ())
      else if height \<in> set (lp_commit_sent s) then (s, Ok ())
      else send_local_vote c json Commit height (s\<lparr>lp_commit_sent := bs_insert height (lp_commit_sent s)\<rparr>))"
  by pat_completeness auto

termination
  by (relation "measure (\<lambda>x. case x of Inl (_, _, phase, _, _) \<Rightarrow> if phase = Prepare then 2 else 0 | Inr _ \<Rightarrow> 1)") auto

declare send_local_vote.simps [simp del] start_local_commit_if_prepared.simps [simp del]

definition propose :: "crypto_env \<Rightarrow> (PbftMessage \<Rightarrow> bytes option) \<Rightarrow> Block \<Rightarrow> live_call" where
  "propose c json block s =
     (if length (blk_validator_signature block) < SPHINCS_PK_LEN then (s, Err (LeNoProposerKey (blk_index block)))
      else if take SPHINCS_PK_LEN (blk_validator_signature block) \<noteq> lp_public_key s
      then (s, Err (LeNotLocalProposer (blk_index block) (lp_id s)))
      else
        and_then (start_proposal c block s) (\<lambda>s _.
        and_then (broadcast json (PmProposal block) s) (\<lambda>s _.
          send_local_vote c json Prepare (blk_index block) s)))"

definition receive_proposal :: "crypto_env \<Rightarrow> (PbftMessage \<Rightarrow> bytes option) \<Rightarrow> Block \<Rightarrow> live_call" where
  "receive_proposal c json block s =
     and_then (start_proposal c block s) (\<lambda>s is_new.
       if is_new then send_local_vote c json Prepare (blk_index block) s else (s, Ok ()))"

definition receive_vote ::
  "crypto_env \<Rightarrow> (PbftMessage \<Rightarrow> bytes option) \<Rightarrow> PbftPhase \<Rightarrow> u64 \<Rightarrow> string \<Rightarrow> string \<Rightarrow> bytes \<Rightarrow> live_call" where
  "receive_vote c json phase height block_hash validator_id signature s =
     (if bt_get (block_hashes (lp_engine s)) height \<noteq> Some block_hash then (s, Err (LeUnknownBlock validator_id height))
      else
        and_then
          (case phase of
             Prepare \<Rightarrow> on_engine (process_prepare c height validator_id signature) LeEngine s
           | Commit \<Rightarrow> on_engine (process_commit c height validator_id signature) LeEngine s
           | PrePrepare \<Rightarrow> (s, Err LeVoteIsProposal)) (\<lambda>s _.
          let s = notify NotifyOne (pbft_is_finalized (lp_engine s) height) s
          in if phase = Prepare then start_local_commit_if_prepared c json height s else (s, Ok ())))"

fun receive_message :: "crypto_env \<Rightarrow> (PbftMessage \<Rightarrow> bytes option) \<Rightarrow> PbftMessage \<Rightarrow> live_call" where
  "receive_message c json (PmProposal block) s = receive_proposal c json block s"
| "receive_message c json (PmVote phase height block_hash validator_id signature) s =
     receive_vote c json phase height block_hash validator_id signature s"

definition live_is_finalized :: "LivePbftFinality \<Rightarrow> u64 \<Rightarrow> string \<Rightarrow> bool" where
  "live_is_finalized s height block_hash \<longleftrightarrow>
     pbft_is_finalized (lp_engine s) height \<and> bt_get (block_hashes (lp_engine s)) height = Some block_hash"

section \<open>Runs\<close>

datatype live_op =
    LivePropose Block
  | LiveReceive PbftMessage
  | LiveSync "(string \<times> bytes) list"

primrec live_step :: "crypto_env \<Rightarrow> (PbftMessage \<Rightarrow> bytes option) \<Rightarrow> live_op \<Rightarrow> LivePbftFinality \<Rightarrow> LivePbftFinality" where
  "live_step c json (LivePropose b) s = fst (propose c json b s)"
| "live_step c json (LiveReceive m) s = fst (receive_message c json m s)"
| "live_step c json (LiveSync ks) s = fst (sync_committee c ks s)"

text \<open>
  What every operation does to a node: its identity stays, its engine takes engine steps, recorded block hashes
  stay, and whatever it signs is the recorded block of its height.  The votes its engine counts are traced: each is
  for the recorded block, and either came in one of the received messages \<open>M\<close> or was signed by the node itself.
\<close>

abbreviation hash_at :: "LivePbftFinality \<Rightarrow> u64 \<Rightarrow> string option" where
  "hash_at s h \<equiv> bt_get (block_hashes (lp_engine s)) h"

definition traced :: "PbftMessage set \<Rightarrow> LivePbftFinality \<Rightarrow> (PbftPhase \<times> u64 \<times> string \<times> bytes) set" where
  "traced M s = {(p, h, i, sig). \<exists>x. hash_at s h = Some x \<and>
     (PmVote p h x i sig \<in> M \<or> i = lp_id s \<and> (p, h, x) \<in> set (lp_signed s))}"

lemma traced_mono:
  assumes "lp_id s' = lp_id s" "\<And>h x. hash_at s h = Some x \<Longrightarrow> hash_at s' h = Some x" "set (lp_signed s) \<subseteq> set (lp_signed s')"
  shows "traced M s \<subseteq> traced M s'"
  using assms unfolding traced_def by fastforce

definition advances :: "(pb_op \<Rightarrow> bool) \<Rightarrow> PbftMessage set \<Rightarrow> crypto_env \<Rightarrow> LivePbftFinality \<Rightarrow> LivePbftFinality \<Rightarrow> bool" where
  "advances V M c s s' \<longleftrightarrow>
     lp_id s' = lp_id s \<and> lp_public_key s' = lp_public_key s \<and> lp_secret_key s' = lp_secret_key s \<and>
     (\<exists>ops. list_all (\<lambda>a. V a \<and> presents a \<subseteq> traced M s') ops \<and> lp_engine s' = fold (pb_step c) ops (lp_engine s)) \<and>
     (\<forall>h x. hash_at s h = Some x \<longrightarrow> hash_at s' h = Some x) \<and>
     (\<forall>p h x. (p, h, x) \<in> set (lp_signed s') \<longrightarrow> (p, h, x) \<in> set (lp_signed s) \<or> hash_at s' h = Some x) \<and>
     set (lp_signed s) \<subseteq> set (lp_signed s') \<and>
     (\<forall>p h x i sig. PmVote p h x i sig \<in> set (lp_outbox s') \<longrightarrow>
        PmVote p h x i sig \<in> set (lp_outbox s) \<or> (p, h, x) \<in> set (lp_signed s') \<and> i = lp_id s)"

lemma advancesI:
  assumes "lp_id s' = lp_id s" "lp_public_key s' = lp_public_key s" "lp_secret_key s' = lp_secret_key s"
    "list_all (\<lambda>a. V a \<and> presents a \<subseteq> traced M s') ops" "lp_engine s' = fold (pb_step c) ops (lp_engine s)"
    "\<And>h x. hash_at s h = Some x \<Longrightarrow> hash_at s' h = Some x"
    "\<And>p h x. (p, h, x) \<in> set (lp_signed s') \<Longrightarrow> (p, h, x) \<in> set (lp_signed s) \<or> hash_at s' h = Some x"
    "set (lp_signed s) \<subseteq> set (lp_signed s')"
    "\<And>p h x i sig. PmVote p h x i sig \<in> set (lp_outbox s') \<Longrightarrow>
       PmVote p h x i sig \<in> set (lp_outbox s) \<or> (p, h, x) \<in> set (lp_signed s') \<and> i = lp_id s"
  shows "advances V M c s s'"
  using assms unfolding advances_def by blast

lemma advances_refl [simp]: "advances V M c s s"
  by (rule advancesI [where ops = "[]"]) auto

lemma advancesD:
  assumes "advances V M c s s'"
  shows "lp_id s' = lp_id s" "lp_public_key s' = lp_public_key s" "lp_secret_key s' = lp_secret_key s"
    "\<exists>ops. list_all (\<lambda>a. V a \<and> presents a \<subseteq> traced M s') ops \<and> lp_engine s' = fold (pb_step c) ops (lp_engine s)"
    "hash_at s h = Some x \<Longrightarrow> hash_at s' h = Some x"
    "(p, h, x) \<in> set (lp_signed s') \<Longrightarrow> (p, h, x) \<in> set (lp_signed s) \<or> hash_at s' h = Some x"
    "v \<in> set (lp_signed s) \<Longrightarrow> v \<in> set (lp_signed s')"
    "PmVote p h x i sig \<in> set (lp_outbox s') \<Longrightarrow>
       PmVote p h x i sig \<in> set (lp_outbox s) \<or> (p, h, x) \<in> set (lp_signed s') \<and> i = lp_id s"
  using assms unfolding advances_def by (elim conjE; blast)+

lemma advances_trans:
  assumes "advances V M c s s1" "advances V M c s1 s2" shows "advances V M c s s2"
proof -
  note d = advancesD [OF assms(1)] advancesD [OF assms(2)]
  have sub: "traced M s1 \<subseteq> traced M s2" by (rule traced_mono) (use d(9,13,15) in auto)
  obtain ops ops' where "list_all (\<lambda>a. V a \<and> presents a \<subseteq> traced M s1) ops" "list_all (\<lambda>a. V a \<and> presents a \<subseteq> traced M s2) ops'"
    "lp_engine s1 = fold (pb_step c) ops (lp_engine s)" "lp_engine s2 = fold (pb_step c) ops' (lp_engine s1)"
    using d(4,12) by blast
  moreover from this(1) have "list_all (\<lambda>a. V a \<and> presents a \<subseteq> traced M s2) ops" using sub by (auto simp: list_all_iff)
  ultimately show ?thesis
  proof (intro advancesI [where ops = "ops @ ops'"])
    show "(p, h, x) \<in> set (lp_signed s) \<or> hash_at s2 h = Some x" if "(p, h, x) \<in> set (lp_signed s2)" for p h x
      using d(6) [of p h x] d(13) [of h x] d(14) [OF that] by blast
    show "PmVote p h x i sig \<in> set (lp_outbox s) \<or> (p, h, x) \<in> set (lp_signed s2) \<and> i = lp_id s"
      if "PmVote p h x i sig \<in> set (lp_outbox s2)" for p h x i sig
      using d(8) [of p h x i sig] d(15) [of "(p, h, x)"] d(16) [OF that] d(1) by simp blast
  qed (use d(1,2,3,5,7,9,10,11,13,15) in auto)
qed

lemma advances_and_then:
  assumes "advances V M c s (fst p)" "\<And>s' a. advances V M c s s' \<Longrightarrow> advances V M c s' (fst (f s' a))"
  shows "advances V M c s (fst (and_then p f))"
  using assms(1) by (rule and_then_keeps) (blast intro: advances_trans assms(2))

lemma advances_same:
  assumes "lp_id s' = lp_id s" "lp_public_key s' = lp_public_key s" "lp_secret_key s' = lp_secret_key s"
    "lp_engine s' = lp_engine s" "lp_signed s' = lp_signed s" "lp_outbox s' = lp_outbox s"
  shows "advances V M c s s'"
  by (rule advancesI [where ops = "[]"]) (use assms in auto)

lemma advances_engine:
  assumes "V a" "presents a \<subseteq> traced M s" "fst (f (lp_engine s)) = pb_step c a (lp_engine s)"
    "\<And>h x. hash_at s h = Some x \<Longrightarrow> bt_get (block_hashes (fst (f (lp_engine s)))) h = Some x"
  shows "advances V M c s (fst (on_engine f err s))"
proof -
  have e: "fst (on_engine f err s) = s\<lparr>lp_engine := fst (f (lp_engine s))\<rparr>"
    by (simp add: on_engine_def split: prod.splits)
  have "traced M s \<subseteq> traced M (s\<lparr>lp_engine := fst (f (lp_engine s))\<rparr>)" by (rule traced_mono) (use assms(4) in simp_all)
  then have "presents a \<subseteq> traced M (s\<lparr>lp_engine := fst (f (lp_engine s))\<rparr>)" using assms(2) by (rule subset_trans [rotated])
  then show ?thesis unfolding e
    by (intro advancesI [where ops = "[a]"]) (use assms(1,4) in \<open>simp_all add: assms(3) [symmetric]\<close>)
qed

lemma vote_hashes [simp]:
  "block_hashes (fst (process_prepare c h i sig e)) = block_hashes e"
  "block_hashes (fst (process_commit c h i sig e)) = block_hashes e"
  "block_hashes (fst (set_committee c ks e)) = block_hashes e"
  by (auto simp: process_prepare_def process_commit_def set_committee_def Let_def split: outcome.splits)

text \<open>In the lemmas below \<open>V\<close> allows every vote and proposal, and for \<open>sync_committee\<close> also committee changes.\<close>

lemma advances_vote:
  assumes "\<And>a. voting_op a \<Longrightarrow> V a"
  shows "(Prepare, h, i, sig) \<in> traced M s \<Longrightarrow> advances V M c s (fst (on_engine (process_prepare c h i sig) err s))"
    "(Commit, h, i, sig) \<in> traced M s \<Longrightarrow> advances V M c s (fst (on_engine (process_commit c h i sig) err s))"
  by (rule advances_engine [where a = "PbPrepare h i sig"], simp_all add: assms)
     (rule advances_engine [where a = "PbCommit h i sig"], simp_all add: assms)

lemma advances_start_proposal:
  assumes "\<And>a. voting_op a \<Longrightarrow> V a"
  shows "advances V M c s (fst (start_proposal c b s))"
proof (cases "hash_at s (blk_index b)")
  case None
  have "bt_get (block_hashes (fst (pre_prepare c (blk_index b) b (lp_engine s)))) h = Some x" if "hash_at s h = Some x" for h x
    using None that by (auto simp: pre_prepare_def split: outcome.splits)
  then have "advances V M c s (fst (on_engine (pre_prepare c (blk_index b) b) LeEngine s))"
    by (intro advances_engine [where a = "PbPropose (blk_index b) b"]) (simp_all add: assms)
  then show ?thesis unfolding start_proposal_def None option.case by (rule advances_and_then) simp
qed (simp add: start_proposal_def)

lemma advances_broadcast:
  assumes "\<And>p h x i sig. m = PmVote p h x i sig \<Longrightarrow> (p, h, x) \<in> set (lp_signed s) \<and> i = lp_id s"
  shows "advances V M c s (fst (broadcast json m s))"
  by (rule advancesI [where ops = "[]"]) (use assms in \<open>auto simp: broadcast_def split: option.splits if_splits\<close>)

lemma advances_notify: "advances V M c s (notify w p s)"
  by (rule advances_same) (simp_all add: notify_def)

text \<open>The middle part of \<open>send_local_vote\<close>: sign, process, broadcast.\<close>

lemma advances_sign:
  assumes "hash_at s height = Some x"
  shows "advances V M c s (s\<lparr>lp_signed := lp_signed s @ [(phase, height, x)]\<rparr>)"
  by (rule advancesI [where ops = "[]"]) (use assms in auto)

lemma advances_commit_vote:
  assumes "\<And>a. voting_op a \<Longrightarrow> V a"
  shows "advances V M c s (fst (send_local_vote c json Commit height s))"
proof (cases "hash_at s height")
  case (Some x)
  let ?s = "s\<lparr>lp_signed := lp_signed s @ [(Commit, height, x)]\<rparr>"
  let ?sig = "detached_sign c (pbft_vote_message Commit height x (lp_id s)) (lp_secret_key s)"
  have own: "(Commit, height, lp_id s, ?sig) \<in> traced M ?s" using Some by (simp add: traced_def)
  have "advances V M c ?s (fst (and_then (on_engine (process_commit c height (lp_id s) ?sig) LeEngine ?s) (\<lambda>s' _.
      and_then (broadcast json (PmVote Commit height x (lp_id s') ?sig) s') (\<lambda>s _.
        (notify NotifyOne (pbft_is_finalized (lp_engine s) height) s, Ok ())))))"
    by (intro advances_and_then advances_vote advances_broadcast)
       (auto simp: assms own advances_notify dest: advancesD(7))
  then have "advances V M c s (fst (and_then (on_engine (process_commit c height (lp_id s) ?sig) LeEngine ?s) (\<lambda>s' _.
      and_then (broadcast json (PmVote Commit height x (lp_id s') ?sig) s') (\<lambda>s _.
        (notify NotifyOne (pbft_is_finalized (lp_engine s) height) s, Ok ())))))"
    by (rule advances_trans [OF advances_sign [OF Some]])
  then show ?thesis using Some by (simp add: send_local_vote.simps Let_def)
qed (simp add: send_local_vote.simps Let_def)

lemma advances_start_commit:
  assumes "\<And>a. voting_op a \<Longrightarrow> V a"
  shows "advances V M c s (fst (start_local_commit_if_prepared c json height s))"
proof -
  let ?s = "s\<lparr>lp_commit_sent := bs_insert height (lp_commit_sent s)\<rparr>"
  have "advances V M c s ?s" by (rule advances_same) simp_all
  then have "advances V M c s (fst (send_local_vote c json Commit height ?s))"
    by (rule advances_trans) (rule advances_commit_vote [OF assms])
  then show ?thesis by (simp add: start_local_commit_if_prepared.simps)
qed

lemma advances_prepare_vote:
  assumes "\<And>a. voting_op a \<Longrightarrow> V a"
  shows "advances V M c s (fst (send_local_vote c json Prepare height s))"
proof -
  let ?s = "s\<lparr>lp_prepare_sent := bs_insert height (lp_prepare_sent s)\<rparr>"
  have first: "advances V M c s ?s" by (rule advances_same) simp_all
  show ?thesis
  proof (cases "hash_at s height")
    case None
    with first show ?thesis by (simp add: send_local_vote.simps [where phase = Prepare] Let_def)
  next
    case (Some x)
    let ?t = "?s\<lparr>lp_signed := lp_signed s @ [(Prepare, height, x)]\<rparr>"
    let ?sig = "detached_sign c (pbft_vote_message Prepare height x (lp_id s)) (lp_secret_key s)"
    have own: "(Prepare, height, lp_id s, ?sig) \<in> traced M ?t" using Some by (simp add: traced_def)
    have "advances V M c ?s ?t" using advances_sign [of ?s height x V M c Prepare] Some by simp
    with first have t: "advances V M c s ?t" by (rule advances_trans)
    have "advances V M c ?t (fst (and_then (on_engine (process_prepare c height (lp_id s) ?sig) LeEngine ?t) (\<lambda>s' _.
        and_then (broadcast json (PmVote Prepare height x (lp_id s') ?sig) s') (\<lambda>s _.
          start_local_commit_if_prepared c json height s))))"
      by (intro advances_and_then advances_vote advances_broadcast advances_start_commit)
         (auto simp: assms own dest: advancesD(7))
    with t have "advances V M c s (fst (and_then (on_engine (process_prepare c height (lp_id s) ?sig) LeEngine ?t) (\<lambda>s' _.
        and_then (broadcast json (PmVote Prepare height x (lp_id s') ?sig) s') (\<lambda>s _.
          start_local_commit_if_prepared c json height s))))" by (rule advances_trans)
    with first Some show ?thesis by (simp add: send_local_vote.simps [where phase = Prepare] Let_def)
  qed
qed

lemma advances_step:
  assumes "\<And>a. voting_op a \<Longrightarrow> V a" "\<And>ks. op = LiveSync ks \<Longrightarrow> V (PbCommittee ks)" "\<And>m. op = LiveReceive m \<Longrightarrow> m \<in> M"
  shows "advances V M c s (live_step c json op s)"
proof (cases op)
  case (LivePropose b)
  have "advances V M c s (fst (and_then (start_proposal c b s) (\<lambda>s _. and_then (broadcast json (PmProposal b) s) (\<lambda>s _.
      send_local_vote c json Prepare (blk_index b) s))))"
    by (intro advances_and_then advances_start_proposal advances_broadcast advances_prepare_vote) (simp_all add: assms)
  then show ?thesis by (simp add: LivePropose propose_def)
next
  case (LiveReceive m)
  show ?thesis
  proof (cases m)
    case (PmProposal b)
    have "advances V M c s (fst (receive_proposal c json b s))" unfolding receive_proposal_def
      by (intro advances_and_then advances_start_proposal) (simp_all add: assms advances_prepare_vote)
    then show ?thesis by (simp add: LiveReceive PmProposal)
  next
    case (PmVote phase h x i sig)
    have cont: "advances V M c s' (fst (let s = notify NotifyOne (pbft_is_finalized (lp_engine s') h) s'
        in if phase = Prepare then start_local_commit_if_prepared c json h s else (s, Ok ())))" for s'
      using advances_trans [OF advances_notify advances_start_commit] assms(1) by (simp add: Let_def advances_notify)
    have "advances V M c s (fst (case phase of
             Prepare \<Rightarrow> on_engine (process_prepare c h i sig) LeEngine s
           | Commit \<Rightarrow> on_engine (process_commit c h i sig) LeEngine s
           | PrePrepare \<Rightarrow> (s, Err LeVoteIsProposal)))" if "hash_at s h = Some x"
    proof -
      have "(phase, h, i, sig) \<in> traced M s" using that assms(3) [OF LiveReceive] PmVote by (simp add: traced_def)
      then show ?thesis by (cases phase) (simp_all add: advances_vote assms(1))
    qed
    from advances_and_then [OF this cont] show ?thesis by (simp add: LiveReceive PmVote receive_vote_def)
  qed
next
  case (LiveSync ks)
  have "advances V M c s (fst (on_engine (set_committee c ks) LeSync s))"
    by (rule advances_engine [where a = "PbCommittee ks"]) (simp_all add: assms LiveSync)
  then have "advances V M c s (fst (sync_committee c ks s))" unfolding sync_committee_def Let_def
    by (rule advances_and_then) (simp, rule advances_same, simp_all add: notify_def)
  then show ?thesis by (simp add: LiveSync)
qed

lemma advances_run:
  assumes "\<And>a. voting_op a \<Longrightarrow> V a" "\<And>ks. LiveSync ks \<in> set ops \<Longrightarrow> V (PbCommittee ks)" "\<And>m. LiveReceive m \<in> set ops \<Longrightarrow> m \<in> M"
  shows "advances V M c s (fold (live_step c json) ops s)"
  using assms(2,3)
proof (induction ops arbitrary: s)
  case (Cons op ops)
  have "advances V M c s (live_step c json op s)" by (rule advances_step [OF assms(1)]) (use Cons.prems in auto)
  then have "advances V M c s (fold (live_step c json) ops (live_step c json op s))"
    by (rule advances_trans) (use Cons in auto)
  then show ?case by simp
qed simp

section \<open>One vote per phase and height\<close>

definition one_block :: "LivePbftFinality \<Rightarrow> bool" where
  "one_block s \<longleftrightarrow>
     (\<forall>p h x. (p, h, x) \<in> set (lp_signed s) \<longrightarrow> hash_at s h = Some x) \<and>
     (\<forall>p h x i sig. PmVote p h x i sig \<in> set (lp_outbox s) \<longrightarrow> (p, h, x) \<in> set (lp_signed s) \<and> i = lp_id s)"

lemma one_block_advances:
  assumes "one_block s" "advances V M c s s'" shows "one_block s'"
proof -
  note d = advancesD [OF assms(2)]
  have "hash_at s' h = Some x" if "(p, h, x) \<in> set (lp_signed s')" for p h x
    using assms(1) d(5) [of h x] d(6) [OF that] unfolding one_block_def by blast
  moreover have "(p, h, x) \<in> set (lp_signed s') \<and> i = lp_id s'" if "PmVote p h x i sig \<in> set (lp_outbox s')" for p h x i sig
    using assms(1) d(7) [of "(p, h, x)"] d(8) [OF that] unfolding one_block_def d(1) by blast
  ultimately show ?thesis unfolding one_block_def by blast
qed

interpretation live: machine "live_step c json" one_block "\<lambda>_. True" for c json
  by unfold_locales (rule one_block_advances [OF _ advances_step [where V = "\<lambda>_. True" and M = UNIV]], simp_all)

lemma live_new_start: "live_new c i ks sk pk p2p = Ok s \<Longrightarrow>
    one_block s \<and> lp_id s = i \<and> lp_public_key s = pk \<and> new_with_validator_keys c i ks = Ok (lp_engine s)"
  by (auto simp: live_new_def one_block_def bind_outcome_Ok split: option.splits if_splits)

text \<open>C5: a node never equivocates. Whatever it proposes, receives and however often its committee is replaced,
  all the votes it has signed for a height name the same block, the block it has recorded there; and every vote it
  has sent is one it signed, under its own identity.\<close>

theorem live_never_equivocates:
  assumes "live_new c i ks sk pk p2p = Ok s0" "s = fold (live_step c json) ops s0"
    and "(p, h, x) \<in> set (lp_signed s) \<or> PmVote p h x v sig \<in> set (lp_outbox s)"
    and "(q, h, y) \<in> set (lp_signed s) \<or> PmVote q h y w sig' \<in> set (lp_outbox s)"
  shows "x = y \<and> bt_get (block_hashes (lp_engine s)) h = Some x"
proof -
  have "one_block s" unfolding assms(2) by (rule live.run_inv) (use live_new_start [OF assms(1)] in \<open>auto simp: list_all_iff\<close>)
  then have "hash_at s h = Some x" "hash_at s h = Some y" using assms(3,4) unfolding one_block_def by blast+
  then show ?thesis by simp
qed

section \<open>Agreement\<close>

text \<open>
  Authenticity of the votes in a run, the documented guarantee of the signature scheme for a member whose key is
  not compromised: every received vote in the name of \<open>i\<close> that verifies under its key is one that \<open>i\<close>'s own node has
  signed.  Nothing is assumed about signatures that no run receives.
\<close>

definition authentic_votes :: "crypto_env \<Rightarrow> live_op list \<Rightarrow> string \<Rightarrow> bytes \<Rightarrow> LivePbftFinality \<Rightarrow> bool" where
  "authentic_votes c ops i key s \<longleftrightarrow> (\<forall>phase h x sig. LiveReceive (PmVote phase h x i sig) \<in> set ops \<and>
     verify_detached_signature c sig (pbft_vote_message phase h x i) key \<longrightarrow> (phase, h, x) \<in> set (lp_signed s))"

primrec no_sync :: "live_op \<Rightarrow> bool" where
  "no_sync (LivePropose b) = True"
| "no_sync (LiveReceive m) = True"
| "no_sync (LiveSync ks) = False"

lemma live_engine_run:
  assumes "list_all no_sync ops"
  obtains pops where "lp_engine (fold (live_step c json) ops s) = fold (pb_step c) pops (lp_engine s)"
    "list_all (votes_in (traced {m. LiveReceive m \<in> set ops} (fold (live_step c json) ops s))) pops"
proof -
  have "LiveSync ks \<notin> set ops" for ks using assms by (auto simp: list_all_iff)
  then have "advances voting_op {m. LiveReceive m \<in> set ops} c s (fold (live_step c json) ops s)"
    by (intro advances_run) auto
  then show thesis using that advancesD(4) by blast
qed

text \<open>A member's key is the one its node was started with.\<close>

lemma collect_keys_get:
  "collect_keys c ks m = Ok keys \<Longrightarrow> bt_wf m \<Longrightarrow>
     bt_get keys i = (case bt_get m i of Some key \<Rightarrow> Some key | None \<Rightarrow> map_option snd (find (\<lambda>(j, _). j = i) ks))"
  by (induction c ks m rule: collect_keys.induct) (auto simp: bt_get_insert bt_contains_get split: if_splits option.splits)

lemma live_new_key:
  assumes "live_new c i ks sk pk p2p = Ok s"
  shows "bt_get (validator_pubkeys (lp_engine s)) i = Some pk"
proof -
  have "collect_keys c ks [] = Ok (validator_pubkeys (lp_engine s))" using live_new_start [OF assms] pb_inv_new(1) by blast
  moreover obtain j where "find (\<lambda>(j, _). j = i) ks = Some (j, pk)"
    using assms by (auto simp: live_new_def split: option.splits if_splits)
  ultimately show ?thesis by (simp add: collect_keys_get)
qed

lemma live_node_id:
  assumes "live_new c i ks sk pk p2p = Ok s"
  shows "lp_id (fold (live_step c json) ops s) = i"
  using advancesD(1) [OF advances_run [where V = "\<lambda>_. True" and M = UNIV]] live_new_start [OF assms] by simp

lemma signs_one_block:
  assumes "live_new c i ks sk pk p2p = Ok s" "(p, h, x) \<in> set (lp_signed (fold (live_step c json) ops s))"
    and "(q, h, y) \<in> set (lp_signed (fold (live_step c json) ops s))"
  shows "x = y"
proof -
  have "one_block (fold (live_step c json) ops s)" by (rule live.run_inv) (use live_new_start [OF assms(1)] in \<open>auto simp: list_all_iff\<close>)
  then show ?thesis using assms(2,3) unfolding one_block_def by (metis option.inject)
qed

text \<open>A vote of an honest member counted for the recorded block of its height was signed by that member's node.\<close>

lemma counted_vote_signed:
  assumes "signed (traced {m. LiveReceive m \<in> set ops} s) c keys p h x i" "hash_at s h = Some x"
    and "bt_get keys i = Some key" "authentic_votes c ops i key si" "lp_id s = i \<Longrightarrow> si = s"
  shows "(p, h, x) \<in> set (lp_signed si)"
  using assms unfolding signed_def traced_def authentic_votes_def by fastforce

text \<open>C3: agreement. Every node of \<open>H\<close>, and the nodes \<open>a\<close> and \<open>b\<close>, run the coordinator from the same committee, and
  process any proposals and messages; \<open>a\<close> and \<open>b\<close> do no committee sync. At most a third of the committee is outside
  \<open>H\<close>, and the votes that \<open>a\<close> and \<open>b\<close> receive in the name of members of \<open>H\<close> are authentic. Then the blocks that
  \<open>a\<close> and \<open>b\<close> finalize at a height have the same hash.\<close>

theorem pbft_agreement:
  assumes new: "\<And>i. i \<in> {a, b} \<union> H \<Longrightarrow> live_new c i ks (sk i) (pk i) (p2p i) = Ok (start i)"
    and node: "\<And>i. node i = fold (live_step c json) (ops i) (start i)"
    and n: "total_validators (lp_engine (start a)) < 2 ^ 63"
    and runs: "list_all no_sync (ops a)" "list_all no_sync (ops b)"
    and auth: "\<And>i. i \<in> H \<Longrightarrow> authentic_votes c (ops a) i (pk i) (node i)" "\<And>i. i \<in> H \<Longrightarrow> authentic_votes c (ops b) i (pk i) (node i)"
    and faulty: "3 * card (set (bt_keys (known_validators (lp_engine (start a)))) - H) \<le> total_validators (lp_engine (start a))"
    and final: "live_is_finalized (node a) h x" "live_is_finalized (node b) h y"
  shows "x = y"
proof (rule ccontr)
  assume ne: "x \<noteq> y"
  let ?V = "\<lambda>j. traced {m. LiveReceive m \<in> set (ops j)} (node j)" and ?keys = "validator_pubkeys (lp_engine (start a))"
  obtain pops where p: "lp_engine (node a) = fold (pb_step c) pops (lp_engine (start a))" "list_all (votes_in (?V a)) pops"
    using live_engine_run [OF runs(1)] unfolding node by blast
  obtain pops' where p': "lp_engine (node b) = fold (pb_step c) pops' (lp_engine (start b))" "list_all (votes_in (?V b)) pops'"
    using live_engine_run [OF runs(2)] unfolding node by blast
  have eng: "new_with_validator_keys c i ks = Ok (lp_engine (start i))" if "i \<in> {a, b} \<union> H" for i
    using live_new_start [OF new [OF that]] by blast
  have fin: "pbft_is_finalized (lp_engine (node a)) h" "hash_at (node a) h = Some x"
    "pbft_is_finalized (lp_engine (node b)) h" "hash_at (node b) h = Some y"
    using final by (simp_all add: live_is_finalized_def)
  obtain S where S: "S \<subseteq> set (bt_keys (known_validators (lp_engine (start a))))" "total_validators (lp_engine (start a)) < 3 * card S"
    "\<forall>i \<in> S. signed (?V a) c ?keys Commit h x i \<and> signed (?V b) c ?keys Commit h y i"
    using conflicting_signers [OF eng eng n p(2) p'(2) p(1) p'(1) fin] by blast
  have "i \<notin> S" if i: "i \<in> H" for i
  proof
    assume "i \<in> S"
    have id: "lp_id (node j) = j" if "j \<in> {a, b} \<union> H" for j
      unfolding node using live_node_id [OF new [OF that]] .
    have key: "bt_get ?keys i = Some (pk i)"
      using live_new_key [OF new, of i] pb_inv_new(1) [OF eng, of i] pb_inv_new(1) [OF eng, of a] i by simp
    have "(Commit, h, x) \<in> set (lp_signed (node i))" "(Commit, h, y) \<in> set (lp_signed (node i))"
      using counted_vote_signed [OF _ fin(2) key auth(1) [OF i]] counted_vote_signed [OF _ fin(4) key auth(2) [OF i]]
        S(3) \<open>i \<in> S\<close> id by auto
    then show False using signs_one_block [OF new] i ne unfolding node by blast
  qed
  then have "card S \<le> card (set (bt_keys (known_validators (lp_engine (start a)))) - H)" using S(1) by (intro card_mono) auto
  then show False using S(2) faulty by simp
qed

section \<open>The chain of votes ends\<close>

lemma kept_vote [simp]:
  "lp_signed (fst (on_engine f err s)) = lp_signed s"
  "block_hashes (lp_engine (fst (on_engine (process_prepare c h i sig) err s))) = block_hashes (lp_engine s)"
  "block_hashes (lp_engine (fst (on_engine (process_commit c h i sig) err s))) = block_hashes (lp_engine s)"
  by (simp_all add: on_engine_def case_prod_unfold)

lemma kept_broadcast [simp]:
  "lp_signed (fst (broadcast json m s)) = lp_signed s" "lp_engine (fst (broadcast json m s)) = lp_engine s"
  by (simp_all add: broadcast_def split: option.splits)

lemma kept_notify [simp]: "lp_signed (notify w p s) = lp_signed s" "lp_engine (notify w p s) = lp_engine s"
  by (simp_all add: notify_def)

lemma kept_start_proposal: "lp_signed (fst (start_proposal c b s)) = lp_signed s"
  by (auto simp: start_proposal_def and_then_def on_engine_def split: option.splits prod.splits outcome.splits)

lemma commit_vote_signs:
  "lp_signed (fst (send_local_vote c json Commit h s)) = lp_signed s \<or>
   (\<exists>x. hash_at s h = Some x \<and> lp_signed (fst (send_local_vote c json Commit h s)) = lp_signed s @ [(Commit, h, x)])"
proof (cases "hash_at s h")
  case (Some x)
  let ?s = "s\<lparr>lp_signed := lp_signed s @ [(Commit, h, x)]\<rparr>"
  let ?sig = "detached_sign c (pbft_vote_message Commit h x (lp_id s)) (lp_secret_key s)"
  have "lp_signed (fst (and_then (on_engine (process_commit c h (lp_id s) ?sig) LeEngine ?s) (\<lambda>s' _.
      and_then (broadcast json (PmVote Commit h x (lp_id s') ?sig) s') (\<lambda>s _.
        (notify NotifyOne (pbft_is_finalized (lp_engine s) h) s, Ok ()))))) = lp_signed s @ [(Commit, h, x)]"
    by (intro and_then_keeps [where P = "\<lambda>s'. lp_signed s' = lp_signed s @ [(Commit, h, x)]"])
       simp_all
  then show ?thesis using Some by (simp add: send_local_vote.simps Let_def)
qed (simp add: send_local_vote.simps Let_def)

lemma start_commit_signs:
  "lp_signed (fst (start_local_commit_if_prepared c json h s)) = lp_signed s \<or>
   (\<exists>x. hash_at s h = Some x \<and> lp_signed (fst (start_local_commit_if_prepared c json h s)) = lp_signed s @ [(Commit, h, x)])"
  using commit_vote_signs [of c json h "s\<lparr>lp_commit_sent := bs_insert h (lp_commit_sent s)\<rparr>"]
  by (simp add: start_local_commit_if_prepared.simps)

lemma prepare_vote_signs:
  "\<exists>vs x. lp_signed (fst (send_local_vote c json Prepare h s)) = lp_signed s @ vs \<and>
     vs \<in> {[], [(Prepare, h, x)], [(Prepare, h, x), (Commit, h, x)]}"
proof (cases "hash_at s h")
  case (Some x)
  let ?s = "s\<lparr>lp_prepare_sent := bs_insert h (lp_prepare_sent s), lp_signed := lp_signed s @ [(Prepare, h, x)]\<rparr>"
  let ?sig = "detached_sign c (pbft_vote_message Prepare h x (lp_id s)) (lp_secret_key s)"
  let ?run = "and_then (on_engine (process_prepare c h (lp_id s) ?sig) LeEngine ?s) (\<lambda>s' _.
      and_then (broadcast json (PmVote Prepare h x (lp_id s') ?sig) s') (\<lambda>s _. start_local_commit_if_prepared c json h s))"
  let ?voted = "\<lambda>s'. lp_signed s' = lp_signed s @ [(Prepare, h, x)] \<and> hash_at s' h = Some x"
  let ?ended = "\<lambda>s'. \<exists>vs. lp_signed s' = lp_signed s @ vs \<and> vs \<in> {[(Prepare, h, x)], [(Prepare, h, x), (Commit, h, x)]}"
  have commit: "?ended (fst (start_local_commit_if_prepared c json h s'))" if "?voted s'" for s'
    using start_commit_signs [of c json h s'] that by auto
  have chain: "?ended (fst (and_then p f))" if "?voted (fst p)" "\<And>s' a. ?voted s' \<Longrightarrow> ?ended (fst (f s' a))"
    for p :: "LivePbftFinality \<times> (LiveError, unit) outcome" and f :: "LivePbftFinality \<Rightarrow> unit \<Rightarrow> LivePbftFinality \<times> (LiveError, unit) outcome"
    using that by (cases p; cases "snd p") (auto simp: and_then_def)
  have "?ended (fst ?run)"
  proof (rule chain)
    show "?voted (fst (on_engine (process_prepare c h (lp_id s) ?sig) LeEngine ?s))"
      using Some by simp
    show "?ended (fst (and_then (broadcast json (PmVote Prepare h x (lp_id s') ?sig) s') (\<lambda>s _. start_local_commit_if_prepared c json h s)))"
      if "?voted s'" for s' by (rule chain) (use that commit in simp_all)
  qed
  then show ?thesis using Some by (auto simp: send_local_vote.simps [where phase = Prepare] Let_def)
qed (simp add: send_local_vote.simps [where phase = Prepare] Let_def)

text \<open>Vote sending ends. The methods that cast votes call each other, but every operation comes back after signing
  at most one prepare vote and one commit vote, in this order and for one block; a height whose prepare vote was
  already cast triggers no further vote.\<close>

theorem vote_chain_ends:
  "(\<exists>vs h x. lp_signed (live_step c json op s) = lp_signed s @ vs \<and>
      vs \<in> {[], [(Prepare, h, x)], [(Commit, h, x)], [(Prepare, h, x), (Commit, h, x)]}) \<and>
   send_local_vote c json Prepare k (s\<lparr>lp_prepare_sent := bs_insert k (lp_prepare_sent s)\<rparr>) =
     (s\<lparr>lp_prepare_sent := bs_insert k (lp_prepare_sent s)\<rparr>, Ok ())"
proof
  define ends where "ends s' \<longleftrightarrow> (\<exists>vs h x. lp_signed s' = lp_signed s @ vs \<and>
      vs \<in> {[], [(Prepare, h, x)], [(Commit, h, x)], [(Prepare, h, x), (Commit, h, x)]})" for s' :: LivePbftFinality
  have stop: "ends s'" if "lp_signed s' = lp_signed s" for s' using that by (auto simp: ends_def)
  have prep: "ends (fst (send_local_vote c json Prepare h s'))" if "lp_signed s' = lp_signed s" for s' h
    using prepare_vote_signs [of c json h s'] that by (auto simp: ends_def)
  have comm: "ends (fst (start_local_commit_if_prepared c json h s'))" if "lp_signed s' = lp_signed s" for s' h
    using start_commit_signs [of c json h s'] that by (auto simp: ends_def)
  have chain: "ends (fst (and_then p f))" if "lp_signed (fst p) = lp_signed s" "\<And>s' a. lp_signed s' = lp_signed s \<Longrightarrow> ends (fst (f s' a))"
    for p :: "LivePbftFinality \<times> (LiveError, 'z) outcome" and f :: "LivePbftFinality \<Rightarrow> 'z \<Rightarrow> LivePbftFinality \<times> (LiveError, unit) outcome"
    using that by (cases p; cases "snd p") (auto simp: and_then_def intro: stop)
  have "ends (live_step c json op s)"
  proof (cases op)
    case (LivePropose b)
    have "ends (fst (propose c json b s))" unfolding propose_def
      by (simp only: fst_conv split: if_split, intro conjI impI stop chain prep) (simp_all add: kept_start_proposal)
    then show ?thesis by (simp add: LivePropose)
  next
    case (LiveReceive m)
    have "ends (fst (receive_proposal c json b s))" for b unfolding receive_proposal_def
      by (intro chain) (auto simp: kept_start_proposal intro: prep stop)
    moreover have "ends (fst (receive_vote c json phase h x i sig s))" for phase h x i sig
    proof -
      have "ends (fst (and_then p (\<lambda>s' _. let s = notify NotifyOne (pbft_is_finalized (lp_engine s') h) s'
          in if phase = Prepare then start_local_commit_if_prepared c json h s else (s, Ok ()))))"
        if "lp_signed (fst p) = lp_signed s" for p :: "LivePbftFinality \<times> (LiveError, unit) outcome"
        by (rule chain [OF that]) (auto simp: Let_def intro: comm stop)
      then show ?thesis unfolding receive_vote_def by (cases phase) (auto intro: stop)
    qed
    ultimately show ?thesis by (cases m) (simp_all add: LiveReceive)
  next
    case (LiveSync ks)
    have "ends (fst (sync_committee c ks s))" unfolding sync_committee_def Let_def
      by (intro chain stop) simp_all
    then show ?thesis by (simp add: LiveSync)
  qed
  then show "\<exists>vs h x. lp_signed (live_step c json op s) = lp_signed s @ vs \<and>
      vs \<in> {[], [(Prepare, h, x)], [(Commit, h, x)], [(Prepare, h, x), (Commit, h, x)]}" by (simp only: ends_def)
qed (simp add: send_local_vote.simps)

text \<open>
  A commit vote that arrives before the local prepare quorum is answered with success and forgotten; its sender
  casts each vote once, so it does not come again.
\<close>

lemma early_commit_vote_lost:
  assumes "hash_at s h = Some x" "block_state (lp_engine s) h = Some Proposed"
  shows "receive_vote c json Commit h x i sig s = (s, Ok ())"
  using assms by (simp add: receive_vote_def on_engine_def process_commit_def and_then_def notify_def pbft_is_finalized_def Let_def)

section \<open>Two concrete nodes\<close>

text \<open>
  A committee of two validators.  \<open>v\<close> proposes \<open>demo_signed_block\<close>, and each node then receives the other's two votes.
\<close>

abbreviation demo_hash :: string where
  "demo_hash \<equiv> compute_hash demo_env demo_signed_block"

definition demo_json :: "PbftMessage \<Rightarrow> bytes option" where
  "demo_json m = Some []"

definition demo_live_ops :: "string \<Rightarrow> live_op list" where
  "demo_live_ops i =
     (if i = ''v''
      then [LivePropose demo_signed_block, LiveReceive (PmVote Prepare 1 demo_hash ''w'' demo_sig),
            LiveReceive (PmVote Commit 1 demo_hash ''w'' demo_sig)]
      else [LiveReceive (PmProposal demo_signed_block), LiveReceive (PmVote Prepare 1 demo_hash ''v'' demo_sig),
            LiveReceive (PmVote Commit 1 demo_hash ''v'' demo_sig)])"

abbreviation demo_keys :: "(string \<times> bytes) list" where
  "demo_keys \<equiv> [(''v'', demo_key), (''w'', demo_key)]"

abbreviation demo_start :: "string \<Rightarrow> LivePbftFinality" where
  "demo_start i \<equiv> \<lparr>lp_id = i, lp_secret_key = replicate 128 1, lp_public_key = demo_key, lp_p2p = True,
     lp_engine = from_validator_keys [(''v'', ()), (''w'', ())] demo_keys, lp_prepare_sent = [], lp_commit_sent = [],
     lp_wakeups = [], lp_outbox = [], lp_signed = []\<rparr>"

definition demo_node :: "string \<Rightarrow> LivePbftFinality" where
  "demo_node i = fold (live_step demo_env demo_json) (demo_live_ops i) (demo_start i)"

lemma demo_simps [simp]:
  "pk_from_bytes_ok demo_env k \<longleftrightarrow> length k = 64" "sk_from_bytes_ok demo_env k \<longleftrightarrow> length k = 128"
  "sig_from_bytes_ok demo_env k \<longleftrightarrow> length k = 49856" "detached_sign demo_env m k = demo_sig"
  "verify_detached_signature demo_env s m k \<longleftrightarrow> s = demo_sig \<and> k = demo_key"
  by (simp_all add: demo_env_def)

lemma demo_live_new:
  "i \<in> {''v'', ''w''} \<Longrightarrow> live_new demo_env i demo_keys (replicate 128 1) demo_key True = Ok (demo_start i)"
  by (auto simp: live_new_def new_with_validator_keys_def bt_contains_def)

lemma demo_registered:
  "verify_registered_block_signature demo_env (from_validator_keys [(''v'', ()), (''w'', ())] demo_keys) demo_signed_block = Ok ()"
  using demo_block_verifies(1)
  by (simp add: verify_registered_block_signature_def from_validator_keys_def demo_signed_block_def)

text \<open>A node between two steps, with the state of its block, its votes, what it has cast and what it has sent.\<close>

abbreviation demo_between where
  "demo_between i st pv cv cs ws ob sg \<equiv> \<lparr>lp_id = i, lp_secret_key = replicate 128 1, lp_public_key = demo_key, lp_p2p = True,
     lp_engine = (from_validator_keys [(''v'', ()), (''w'', ())] demo_keys)\<lparr>pb_blocks := [(1, st)],
       block_hashes := [(1, demo_hash)], prepare_votes := pv, commit_votes := cv\<rparr>,
     lp_prepare_sent = [1], lp_commit_sent = cs, lp_wakeups = ws, lp_outbox = ob, lp_signed = sg\<rparr>"

abbreviation demo_vote_message :: "PbftPhase \<Rightarrow> string \<Rightarrow> PbftMessage" where
  "demo_vote_message p i \<equiv> PmVote p 1 demo_hash i demo_sig"

lemma demo_engine:
  defines "e \<equiv> from_validator_keys [(''v'', ()), (''w'', ())] demo_keys"
  shows "block_hashes e = []" "pb_blocks e = []" "prepare_votes e = []" "commit_votes e = []"
    "known_validators e = [(''v'', ()), (''w'', ())]" "validator_pubkeys e = demo_keys" "quorum_size e = 2"
  by (simp_all add: e_def from_validator_keys_def wrap_mul_def)

lemma demo_signature: "blk_validator_signature demo_signed_block = demo_key @ demo_sig"
  by (simp add: demo_signed_block_def)

lemmas demo_live_defs = demo_engine receive_vote_def on_engine_def and_then_def broadcast_def demo_json_def verify_vote_def
  notify_def pbft_is_finalized_def bt_contains_def bt_get_or_def Let_def

lemmas demo_proposal_defs = demo_live_defs propose_def receive_proposal_def start_proposal_def pre_prepare_def demo_registered
  demo_block_verifies(2) demo_signature process_prepare_def

lemma demo_v_run:
  "live_step demo_env demo_json (LivePropose demo_signed_block) (demo_start ''v'') =
     demo_between ''v'' Proposed [(1, [(''v'', ())])] [(1, [])] [] [] [PmProposal demo_signed_block, demo_vote_message Prepare ''v''] [(Prepare, 1, demo_hash)]"
  "live_step demo_env demo_json (LiveReceive (demo_vote_message Prepare ''w''))
     (demo_between ''v'' Proposed [(1, [(''v'', ())])] [(1, [])] [] [] ob [(Prepare, 1, demo_hash)]) =
     demo_between ''v'' Prepared [(1, [(''v'', ()), (''w'', ())])] [(1, [(''v'', ())])] [1] [] (ob @ [demo_vote_message Commit ''v''])
       [(Prepare, 1, demo_hash), (Commit, 1, demo_hash)]"
  "live_step demo_env demo_json (LiveReceive (demo_vote_message Commit ''w''))
     (demo_between ''v'' Prepared pv [(1, [(''v'', ())])] [1] [] ob sg) =
     demo_between ''v'' Committed (bt_remove 1 pv) [] [1] [NotifyOne] ob sg"
  by (simp add: demo_proposal_defs send_local_vote.simps start_local_commit_if_prepared.simps,
      simp add: demo_live_defs process_prepare_def process_commit_def send_local_vote.simps start_local_commit_if_prepared.simps,
      simp add: demo_live_defs process_commit_def, simp add: from_validator_keys_def bt_remove_def)

lemma demo_w_run:
  "live_step demo_env demo_json (LiveReceive (PmProposal demo_signed_block)) (demo_start ''w'') =
     demo_between ''w'' Proposed [(1, [(''w'', ())])] [(1, [])] [] [] [demo_vote_message Prepare ''w''] [(Prepare, 1, demo_hash)]"
  "live_step demo_env demo_json (LiveReceive (demo_vote_message Prepare ''v''))
     (demo_between ''w'' Proposed [(1, [(''w'', ())])] [(1, [])] [] [] ob [(Prepare, 1, demo_hash)]) =
     demo_between ''w'' Prepared [(1, [(''v'', ()), (''w'', ())])] [(1, [(''w'', ())])] [1] [] (ob @ [demo_vote_message Commit ''w''])
       [(Prepare, 1, demo_hash), (Commit, 1, demo_hash)]"
  "live_step demo_env demo_json (LiveReceive (demo_vote_message Commit ''v''))
     (demo_between ''w'' Prepared pv [(1, [(''w'', ())])] [1] [] ob sg) =
     demo_between ''w'' Committed (bt_remove 1 pv) [] [1] [NotifyOne] ob sg"
  by (simp add: demo_proposal_defs send_local_vote.simps start_local_commit_if_prepared.simps,
      simp add: demo_live_defs process_prepare_def process_commit_def send_local_vote.simps start_local_commit_if_prepared.simps,
      simp add: demo_live_defs process_commit_def, simp add: from_validator_keys_def bt_remove_def)

lemma demo_live_run:
  assumes "i \<in> {''v'', ''w''}"
  shows "lp_signed (demo_node i) = [(Prepare, 1, demo_hash), (Commit, 1, demo_hash)]" "live_is_finalized (demo_node i) 1 demo_hash"
  using assms by (auto simp: demo_node_def demo_live_ops_def demo_v_run demo_w_run live_is_finalized_def pbft_is_finalized_def simp del: live_step.simps One_nat_def)

lemma demo_authentic:
  assumes "i \<in> {''v'', ''w''}"
  shows "authentic_votes demo_env (demo_live_ops j) i demo_key (demo_node i)"
  using demo_live_run(1) [OF assms] by (auto simp: authentic_votes_def demo_live_ops_def split: if_splits)

theorem live_never_equivocates_witness:
  "(Prepare, 1, demo_hash) \<in> set (lp_signed (demo_node ''v'')) \<and> (Commit, 1, demo_hash) \<in> set (lp_signed (demo_node ''v'')) \<and>
   bt_get (block_hashes (lp_engine (demo_node ''v''))) 1 = Some demo_hash"
proof -
  have votes: "(Prepare, 1, demo_hash) \<in> set (lp_signed (demo_node ''v''))" "(Commit, 1, demo_hash) \<in> set (lp_signed (demo_node ''v''))"
    by (simp_all add: demo_live_run(1))
  have "demo_hash = demo_hash \<and> bt_get (block_hashes (lp_engine (demo_node ''v''))) 1 = Some demo_hash"
    by (rule live_never_equivocates [OF demo_live_new demo_node_def disjI1 [OF votes(1)] disjI1 [OF votes(2)]]) simp
  with votes show ?thesis by blast
qed

theorem pbft_agreement_witness:
  "key_pair demo_env demo_key (replicate 128 1) \<and> live_is_finalized (demo_node ''v'') 1 demo_hash \<and>
   {y. live_is_finalized (demo_node ''w'') 1 y} = {demo_hash}"
proof -
  have new: "live_new demo_env i demo_keys ((\<lambda>_. replicate 128 1) i) ((\<lambda>_. demo_key) i) ((\<lambda>_. True) i) = Ok (demo_start i)"
    if "i \<in> {''v'', ''w''} \<union> {''v'', ''w''}" for i using demo_live_new that by simp
  have "demo_hash = y" if "live_is_finalized (demo_node ''w'') 1 y" for y
    by (rule pbft_agreement [where H = "{''v'', ''w''}" and a = "''v''" and b = "''w''",
          OF new demo_node_def _ _ _ demo_authentic demo_authentic _ demo_live_run(2) that])
       (simp_all add: demo_live_ops_def from_validator_keys_def)
  then show ?thesis using demo_live_run(2) demo_key_pair by blast
qed

end
