(* ===== verification/CrossShardTx.thy ===== *)
theory CrossShardTx
  imports Crypto
begin

text \<open>
  \<open>crates/bleep-state/src/cross_shard_transaction.rs\<close>: identifiers, execution plans, cross-shard
  transactions with their status, prepare votes, receipts and the lifecycle record of a transaction.
  \<open>serde_json\<close> and the attached-message form of SPHINCS+ (\<open>sign\<close>, \<open>open\<close>) are further fields of the
  parameter record. Shard, epoch and lock identifiers are the integers they wrap, a transaction
  identifier is its 32 bytes.
\<close>

type_synonym ShardId = u64
type_synonym EpochId = u64
type_synonym TransactionId = bytes
type_synonym StateLockId = u64

datatype CrossShardTransactionStatus =
    Pending | Preparing | Prepared | Committing | Committed | AbortedPrepare | AbortedTimeout
  | AbortedEpochBoundary

record ShardExecutionPlan =
  ordered_shards :: "ShardId list"
  shard_writes :: "(ShardId, bytes list) btree_map"
  shard_reads :: "(ShardId, bytes list) btree_map"
  plan_hash :: string

record CrossShardTransaction =
  cst_id :: TransactionId
  cst_payload :: bytes
  involved_shards :: "ShardId list"
  execution_plan :: ShardExecutionPlan
  timeout_epoch :: EpochId
  cst_nonce :: u64
  cst_signature :: bytes
  cst_status :: CrossShardTransactionStatus

record PrepareVote =
  pv_transaction_id :: TransactionId
  pv_shard_id :: ShardId
  can_commit :: bool
  pv_lock_id :: "StateLockId option"
  rejection_reason :: "string option"
  pv_signature :: bytes
  vote_height :: u64

text \<open>
  \<open>json_tx\<close> and \<open>json_vote\<close> serialize the tuples that are signed (their arguments are the domain tag
  and the tuple's other components in order); \<open>sphincs_sign\<close> gives the signed message,
  \<open>signed_from_bytes_ok\<close> parses one, \<open>sphincs_open\<close> checks one against a key.
\<close>

record shard_env = crypto_env +
  json_tx :: "bytes \<Rightarrow> TransactionId \<Rightarrow> bytes \<Rightarrow> ShardId list \<Rightarrow> ShardExecutionPlan \<Rightarrow> EpochId \<Rightarrow> u64 \<Rightarrow> bytes option"
  json_vote :: "bytes \<Rightarrow> TransactionId \<Rightarrow> ShardId \<Rightarrow> bool \<Rightarrow> StateLockId option \<Rightarrow> string option \<Rightarrow> u64 \<Rightarrow> bytes option"
  sphincs_sign :: "bytes \<Rightarrow> bytes \<Rightarrow> bytes"
  signed_from_bytes_ok :: "bytes \<Rightarrow> bool"
  sphincs_open :: "bytes \<Rightarrow> bytes \<Rightarrow> bool"

datatype ShardTxError =
    PlanEmpty | PlanNotIncreasing | PlanWritesOutside ShardId | PlanReadsOutside ShardId | NoShards
  | BadSecretKey | SerializeFailed | BadSignedMessage | ReceiptStatusInvalid

section \<open>Identifiers and plans\<close>

abbreviation TransactionId_compute :: "shard_env \<Rightarrow> bytes \<Rightarrow> u64 \<Rightarrow> TransactionId" where
  "TransactionId_compute c content nonce \<equiv> sha2_256 c (content @ to_le_bytes 8 nonce)"

abbreviation TransactionId_as_hex :: "shard_env \<Rightarrow> TransactionId \<Rightarrow> string" where
  "TransactionId_as_hex c i \<equiv> hex_encode c i"

definition StateLockId_compute :: "shard_env \<Rightarrow> TransactionId \<Rightarrow> ShardId \<Rightarrow> bytes list \<Rightarrow> StateLockId" where
  "StateLockId_compute c i shard keys =
     from_le_bytes (take 8 (sha2_256 c (i @ to_le_bytes 8 shard @ concat keys)))"

definition plan_new :: "shard_env \<Rightarrow> ShardId list \<Rightarrow> ShardExecutionPlan" where
  "plan_new c shards =
     (let ordered = sort shards in
      \<lparr>ordered_shards = ordered, shard_writes = [], shard_reads = [],
       plan_hash = hex_encode c (sha2_256 c (concat (map (to_le_bytes 8) ordered)))\<rparr>)"

definition add_write :: "ShardId \<Rightarrow> bytes \<Rightarrow> ShardExecutionPlan \<Rightarrow> ShardExecutionPlan" where
  "add_write shard key p =
     p\<lparr>shard_writes := bt_insert shard (bt_get_or (shard_writes p) shard [] @ [key]) (shard_writes p)\<rparr>"

definition add_read :: "ShardId \<Rightarrow> bytes \<Rightarrow> ShardExecutionPlan \<Rightarrow> ShardExecutionPlan" where
  "add_read shard key p =
     p\<lparr>shard_reads := bt_insert shard (bt_get_or (shard_reads p) shard [] @ [key]) (shard_reads p)\<rparr>"

definition plan_verify :: "ShardExecutionPlan \<Rightarrow> (ShardTxError, unit) outcome" where
  "plan_verify p =
     (if ordered_shards p = [] then Err PlanEmpty
      else bind_outcome
        (check_all (\<lambda>i. if ordered_shards p ! (i - 1) \<ge> ordered_shards p ! i then Err PlanNotIncreasing else Ok ())
           [1..<length (ordered_shards p)]) (\<lambda>_.
      bind_outcome
        (check_all (\<lambda>s. if s \<notin> set (ordered_shards p) then Err (PlanWritesOutside s) else Ok ())
           (bt_keys (shard_writes p))) (\<lambda>_.
        check_all (\<lambda>s. if s \<notin> set (ordered_shards p) then Err (PlanReadsOutside s) else Ok ())
           (bt_keys (shard_reads p)))))"

section \<open>Transactions\<close>

definition cst_new ::
  "shard_env \<Rightarrow> bytes \<Rightarrow> ShardId list \<Rightarrow> EpochId \<Rightarrow> u64 \<Rightarrow> (ShardTxError, CrossShardTransaction) outcome" where
  "cst_new c payload shards timeout nonce =
     (if shards = [] then Err NoShards
      else let plan = plan_new c shards in
        bind_outcome (plan_verify plan) (\<lambda>_.
          Ok \<lparr>cst_id = TransactionId_compute c payload nonce, cst_payload = payload,
              involved_shards = shards, execution_plan = plan, timeout_epoch = timeout,
              cst_nonce = nonce, cst_signature = [], cst_status = Pending\<rparr>))"

text \<open>\<open>ordered_shards[0]\<close>: nothing when the plan is empty.\<close>

abbreviation get_coordinator_shard :: "CrossShardTransaction \<Rightarrow> ShardId option" where
  "get_coordinator_shard t \<equiv> (case ordered_shards (execution_plan t) of [] \<Rightarrow> None | s # _ \<Rightarrow> Some s)"

abbreviation should_abort_epoch_boundary :: "CrossShardTransaction \<Rightarrow> EpochId \<Rightarrow> bool" where
  "should_abort_epoch_boundary t current_epoch \<equiv> current_epoch > timeout_epoch t"

definition cst_signing_bytes :: "shard_env \<Rightarrow> CrossShardTransaction \<Rightarrow> bytes option" where
  "cst_signing_bytes c t =
     json_tx c (str_bytes ''bleep-cross-shard-transaction-v1'') (cst_id t) (cst_payload t)
       (involved_shards t) (execution_plan t) (timeout_epoch t) (cst_nonce t)"

definition cst_verify_signature :: "shard_env \<Rightarrow> CrossShardTransaction \<Rightarrow> bytes \<Rightarrow> bool" where
  "cst_verify_signature c t public_key =
     (if \<not> pk_from_bytes_ok c public_key then False
      else case cst_signing_bytes c t of
        None \<Rightarrow> False
      | Some message \<Rightarrow>
          (let signed = cst_signature t @ message in
           if \<not> signed_from_bytes_ok c signed then False else sphincs_open c signed public_key))"

definition attach_signature ::
  "shard_env \<Rightarrow> bytes \<Rightarrow> bytes option \<Rightarrow> (ShardTxError, bytes) outcome" where
  "attach_signature c secret_key message =
     (if \<not> sk_from_bytes_ok c secret_key then Err BadSecretKey
      else case message of
        None \<Rightarrow> Err SerializeFailed
      | Some m \<Rightarrow>
          (let signed = sphincs_sign c m secret_key in
           if length signed < length m then Err BadSignedMessage
           else Ok (take (length signed - length m) signed)))"

definition cst_sign ::
  "shard_env \<Rightarrow> bytes \<Rightarrow> CrossShardTransaction \<Rightarrow> CrossShardTransaction \<times> (ShardTxError, unit) outcome" where
  "cst_sign c secret_key t =
     (case attach_signature c secret_key (cst_signing_bytes c t) of
        Ok s \<Rightarrow> (t\<lparr>cst_signature := s\<rparr>, Ok ()) | Err e \<Rightarrow> (t, Err e) | Panic \<Rightarrow> (t, Panic))"

abbreviation is_single_shard :: "CrossShardTransaction \<Rightarrow> bool" where
  "is_single_shard t \<equiv> length (involved_shards t) = 1"

section \<open>Votes, receipts and the lifecycle\<close>

definition pv_signing_bytes :: "shard_env \<Rightarrow> PrepareVote \<Rightarrow> bytes option" where
  "pv_signing_bytes c v =
     json_vote c (str_bytes ''bleep-prepare-vote-v1'') (pv_transaction_id v) (pv_shard_id v)
       (can_commit v) (pv_lock_id v) (rejection_reason v) (vote_height v)"

definition pv_verify_signature :: "shard_env \<Rightarrow> PrepareVote \<Rightarrow> bytes list \<Rightarrow> bool" where
  "pv_verify_signature c v shard_public_keys =
     (case pv_signing_bytes c v of
        None \<Rightarrow> False
      | Some message \<Rightarrow>
          (let signed = pv_signature v @ message in
           if \<not> signed_from_bytes_ok c signed then False
           else list_ex (\<lambda>key. pk_from_bytes_ok c key \<and> sphincs_open c signed key) shard_public_keys))"

definition pv_sign :: "shard_env \<Rightarrow> bytes \<Rightarrow> PrepareVote \<Rightarrow> PrepareVote \<times> (ShardTxError, unit) outcome" where
  "pv_sign c secret_key v =
     (case attach_signature c secret_key (pv_signing_bytes c v) of
        Ok s \<Rightarrow> (v\<lparr>pv_signature := s\<rparr>, Ok ()) | Err e \<Rightarrow> (v, Err e) | Panic \<Rightarrow> (v, Panic))"

record CrossShardReceipt =
  rc_transaction_id :: TransactionId
  rc_shard_id :: ShardId
  rc_block_height :: u64
  rc_status :: CrossShardTransactionStatus
  rc_state_root_after :: string
  rc_merkle_proof :: bytes

abbreviation receipt_verify :: "CrossShardReceipt \<Rightarrow> (ShardTxError, unit) outcome" where
  "receipt_verify r \<equiv> (if rc_status r = Pending \<or> rc_status r = Preparing then Err ReceiptStatusInvalid else Ok ())"

record CrossShardTransactionLifecycle =
  lc_transaction_id :: TransactionId
  lc_status :: CrossShardTransactionStatus
  prepare_votes :: "(ShardId, PrepareVote) btree_map"
  receipts :: "(ShardId, CrossShardReceipt) btree_map"
  prepare_height :: "u64 option"
  commit_height :: "u64 option"
  abort_reason :: "string option"

abbreviation lifecycle_new :: "TransactionId \<Rightarrow> CrossShardTransactionLifecycle" where
  "lifecycle_new i \<equiv> \<lparr>lc_transaction_id = i, lc_status = Pending, prepare_votes = [], receipts = [], prepare_height = None,
      commit_height = None, abort_reason = None\<rparr>"

definition record_prepare_vote ::
  "ShardId \<Rightarrow> PrepareVote \<Rightarrow> CrossShardTransactionLifecycle \<Rightarrow> CrossShardTransactionLifecycle" where
  "record_prepare_vote shard vote l = l\<lparr>prepare_votes := bt_insert shard vote (prepare_votes l)\<rparr>"

definition all_shards_prepared :: "CrossShardTransactionLifecycle \<Rightarrow> ShardId list \<Rightarrow> bool" where
  "all_shards_prepared l expected =
     list_all (\<lambda>shard. case bt_get (prepare_votes l) shard of None \<Rightarrow> False | Some v \<Rightarrow> can_commit v) expected"

definition any_shard_rejected :: "CrossShardTransactionLifecycle \<Rightarrow> bool" where
  "any_shard_rejected l = list_ex (\<lambda>v. \<not> can_commit v) (bt_values (prepare_votes l))"

section \<open>Well-formed transactions\<close>

lemma plan_verify_Ok:
  "plan_verify p = Ok u \<longleftrightarrow>
     ordered_shards p \<noteq> [] \<and>
     (\<forall>i. 1 \<le> i \<and> i < length (ordered_shards p) \<longrightarrow> ordered_shards p ! (i - 1) < ordered_shards p ! i) \<and>
     set (bt_keys (shard_writes p)) \<subseteq> set (ordered_shards p) \<and>
     set (bt_keys (shard_reads p)) \<subseteq> set (ordered_shards p)"
  by (auto simp: plan_verify_def bind_outcome_Ok check_all_Ok not_le split: if_splits)

lemma sort_bs_wf: "bs_wf xs \<Longrightarrow> sort xs = xs"
  by (simp add: bs_wf_def strict_sorted_iff sorted_sort_id)

lemma plan_new_verifies:
  assumes "bs_wf shards" "shards \<noteq> []"
  shows "plan_verify (plan_new c shards) = Ok ()"
  using assms
  by (auto simp: plan_verify_Ok plan_new_def Let_def sort_bs_wf bs_wf_def sorted_wrt_iff_nth_less)

text \<open>The coordinator of a new transaction is its least shard.\<close>

lemma coordinator_is_least:
  assumes "bs_wf shards" "cst_new c payload shards timeout nonce = Ok t"
  shows "\<exists>s. get_coordinator_shard t = Some s \<and> s \<in> set shards \<and> (\<forall>s'\<in>set shards. s \<le> s')"
proof -
  obtain s ss where sh: "shards = s # ss"
    using assms(2) by (cases shards) (auto simp: cst_new_def)
  have "ordered_shards (execution_plan t) = shards"
    using assms by (auto simp: cst_new_def plan_new_def Let_def bind_outcome_Ok sort_bs_wf split: if_splits)
  with sh assms(1) show ?thesis
    by (auto simp: bs_wf_def)
qed

end
