(* ===== verification/TwoPhaseCommit.thy ===== *)
theory TwoPhaseCommit
  imports CrossShardTx
begin

text \<open>
  \<open>crates/bleep-state/src/cross_shard_2pc.rs\<close>: the coordinator of one cross-shard transaction and the
  manager of all transactions in flight. The lemmas show that no sequence of calls makes
  \<open>execute_commit\<close> succeed (every vote is checked against an empty key list), that receipts alone commit
  a transaction, and that the manager never loses one.
\<close>

section \<open>The coordinator\<close>

datatype CommitPhase = PreparingPhase | ReadyToCommit | CommittingPhase | Aborting | Terminal

datatype CommitDecision = AwaitingPrepareVotes | CommitTransaction | AbortTransaction string

datatype TpcError =
    VoteForOtherTransaction | VoteSignatureInvalid | CannotCommitIn CommitPhase | MissingReceipt ShardId
  | BadReceipt ShardTxError | ReceiptNotCommitted ShardId CrossShardTransactionStatus
  | AlreadyRegisteredTx | TransactionNotFound

record TwoPhaseCommitCoordinator =
  transaction :: CrossShardTransaction
  coordinator_shard :: ShardId
  tpc_lifecycle :: CrossShardTransactionLifecycle
  phase :: CommitPhase
  tpc_start_height :: u64
  timeout_height :: u64

definition coordinator_new ::
  "CrossShardTransaction \<Rightarrow> u64 \<Rightarrow> u64 \<Rightarrow> (TpcError, TwoPhaseCommitCoordinator) outcome" where
  "coordinator_new t start timeout =
     (case get_coordinator_shard t of
        None \<Rightarrow> Panic
      | Some shard \<Rightarrow>
          Ok \<lparr>transaction = t, coordinator_shard = shard, tpc_lifecycle = lifecycle_new (cst_id t),
              phase = PreparingPhase, tpc_start_height = start, timeout_height = timeout\<rparr>)"

definition evaluate_prepare_responses ::
  "TwoPhaseCommitCoordinator \<Rightarrow> TwoPhaseCommitCoordinator \<times> (TpcError, CommitDecision) outcome" where
  "evaluate_prepare_responses k =
     (let all_voted = list_all (bt_contains (prepare_votes (tpc_lifecycle k))) (involved_shards (transaction k)) in
      if \<not> all_voted then (k, Ok AwaitingPrepareVotes)
      else if any_shard_rejected (tpc_lifecycle k) then
        (k\<lparr>phase := Aborting\<rparr>, Ok (AbortTransaction ''At least one shard rejected prepare''))
      else (k\<lparr>phase := ReadyToCommit\<rparr>, Ok CommitTransaction))"

definition receive_prepare_vote ::
  "shard_env \<Rightarrow> PrepareVote \<Rightarrow> TwoPhaseCommitCoordinator \<Rightarrow>
   TwoPhaseCommitCoordinator \<times> (TpcError, CommitDecision) outcome" where
  "receive_prepare_vote c vote k =
     (if pv_transaction_id vote \<noteq> cst_id (transaction k) then (k, Err VoteForOtherTransaction)
      else if \<not> pv_verify_signature c vote [] then (k, Err VoteSignatureInvalid)
      else evaluate_prepare_responses
             (k\<lparr>tpc_lifecycle := record_prepare_vote (pv_shard_id vote) vote (tpc_lifecycle k)\<rparr>))"

definition execute_commit ::
  "TwoPhaseCommitCoordinator \<Rightarrow> TwoPhaseCommitCoordinator \<times> (TpcError, unit) outcome" where
  "execute_commit k =
     (if phase k \<noteq> ReadyToCommit then (k, Err (CannotCommitIn (phase k)))
      else (k\<lparr>phase := CommittingPhase\<rparr>, Ok ()))"

definition finalize_commit ::
  "(ShardId, CrossShardReceipt) btree_map \<Rightarrow> TwoPhaseCommitCoordinator \<Rightarrow>
   TwoPhaseCommitCoordinator \<times> (TpcError, unit) outcome" where
  "finalize_commit rs k =
     (case bind_outcome
        (check_all (\<lambda>shard. if \<not> bt_contains rs shard then Err (MissingReceipt shard) else Ok ())
           (involved_shards (transaction k)))
        (\<lambda>_. check_all (\<lambda>(shard, receipt).
           bind_outcome (map_err BadReceipt (receipt_verify receipt)) (\<lambda>_.
             if rc_status receipt \<noteq> Committed then Err (ReceiptNotCommitted shard (rc_status receipt))
             else Ok ())) rs)
      of Err e \<Rightarrow> (k, Err e)
       | Panic \<Rightarrow> (k, Panic)
       | Ok _ \<Rightarrow> (k\<lparr>tpc_lifecycle := (tpc_lifecycle k)\<lparr>receipts := rs, lc_status := Committed\<rparr>, phase := Terminal\<rparr>, Ok ()))"

definition execute_abort ::
  "string \<Rightarrow> TwoPhaseCommitCoordinator \<Rightarrow> TwoPhaseCommitCoordinator \<times> (TpcError, unit) outcome" where
  "execute_abort reason k =
     (k\<lparr>phase := Aborting,
        tpc_lifecycle := (tpc_lifecycle k)\<lparr>lc_status := AbortedPrepare, abort_reason := Some reason\<rparr>\<rparr>, Ok ())"

abbreviation is_terminal :: "TwoPhaseCommitCoordinator \<Rightarrow> bool" where
  "is_terminal k \<equiv> phase k = Terminal \<or> lc_status (tpc_lifecycle k) = AbortedPrepare
     \<or> lc_status (tpc_lifecycle k) = AbortedTimeout"

record CoordinatorStateSnapshot =
  sn_transaction_id :: TransactionId
  sn_phase :: CommitPhase
  sn_status :: CrossShardTransactionStatus
  sn_prepare_votes :: "(ShardId, PrepareVote) btree_map"
  sn_receipts :: "(ShardId, CrossShardReceipt) btree_map"
  sn_abort_reason :: "string option"

abbreviation get_state_snapshot :: "TwoPhaseCommitCoordinator \<Rightarrow> CoordinatorStateSnapshot" where
  "get_state_snapshot k \<equiv> \<lparr>sn_transaction_id = cst_id (transaction k), sn_phase = phase k, sn_status = lc_status (tpc_lifecycle k),
      sn_prepare_votes = prepare_votes (tpc_lifecycle k), sn_receipts = receipts (tpc_lifecycle k),
      sn_abort_reason = abort_reason (tpc_lifecycle k)\<rparr>"

section \<open>The manager\<close>

record CoordinatorManager =
  coordinators :: "(TransactionId, TwoPhaseCommitCoordinator) btree_map"
  terminal_transactions :: "(TransactionId, CoordinatorStateSnapshot) btree_map"
  current_height :: u64

abbreviation manager_new :: CoordinatorManager where
  "manager_new \<equiv> \<lparr>coordinators = [], terminal_transactions = [], current_height = 0\<rparr>"

definition register_transaction ::
  "CrossShardTransaction \<Rightarrow> u64 \<Rightarrow> CoordinatorManager \<Rightarrow> CoordinatorManager \<times> (TpcError, ShardId) outcome" where
  "register_transaction t timeout m =
     (if bt_contains (coordinators m) (cst_id t) then (m, Err AlreadyRegisteredTx)
      else case get_coordinator_shard t of
        None \<Rightarrow> (m, Panic)
      | Some shard \<Rightarrow>
          (case coordinator_new t (current_height m) timeout of
             Ok k \<Rightarrow> (m\<lparr>coordinators := bt_insert (cst_id (transaction k)) k (coordinators m)\<rparr>, Ok shard)
           | Err e \<Rightarrow> (m, Err e)
           | Panic \<Rightarrow> (m, Panic)))"

definition process_prepare_vote ::
  "shard_env \<Rightarrow> TransactionId \<Rightarrow> PrepareVote \<Rightarrow> CoordinatorManager \<Rightarrow>
   CoordinatorManager \<times> (TpcError, CommitDecision) outcome" where
  "process_prepare_vote c i vote m =
     (case bt_get (coordinators m) i of
        None \<Rightarrow> (m, Err TransactionNotFound)
      | Some k \<Rightarrow>
          (let (k', x) = receive_prepare_vote c vote k in
           (m\<lparr>coordinators := bt_insert i k' (coordinators m)\<rparr>, x)))"

text \<open>\<open>get_coordinator_mut\<close> followed by one of the coordinator's methods.\<close>

definition on_coordinator ::
  "TransactionId \<Rightarrow> (TwoPhaseCommitCoordinator \<Rightarrow> TwoPhaseCommitCoordinator \<times> (TpcError, 'a) outcome) \<Rightarrow>
   CoordinatorManager \<Rightarrow> CoordinatorManager" where
  "on_coordinator i f m = m\<lparr>coordinators := bt_modify i (\<lambda>k. fst (f k)) (coordinators m)\<rparr>"

text \<open>One round of each loop of \<open>advance_block\<close>: remove a coordinator and file its snapshot.\<close>

definition time_out :: "TransactionId \<Rightarrow> CoordinatorManager \<Rightarrow> CoordinatorManager" where
  "time_out i m =
     (case bt_get (coordinators m) i of
        None \<Rightarrow> m
      | Some k \<Rightarrow>
          m\<lparr>coordinators := bt_remove i (coordinators m),
            terminal_transactions := bt_insert i (get_state_snapshot (fst (execute_abort ''Timeout'' k)))
              (terminal_transactions m)\<rparr>)"

definition archive :: "TransactionId \<Rightarrow> CoordinatorManager \<Rightarrow> CoordinatorManager" where
  "archive i m =
     (case bt_get (coordinators m) i of
        None \<Rightarrow> m
      | Some k \<Rightarrow>
          m\<lparr>coordinators := bt_remove i (coordinators m),
            terminal_transactions := bt_insert i (get_state_snapshot k) (terminal_transactions m)\<rparr>)"

definition advance_block :: "u64 \<Rightarrow> CoordinatorManager \<Rightarrow> CoordinatorManager" where
  "advance_block new_height m =
     (let m1 = m\<lparr>current_height := new_height\<rparr>;
          to_abort = map fst (filter (\<lambda>(_, k). timeout_height k \<le> new_height \<and> \<not> is_terminal k) (coordinators m1));
          m2 = fold time_out to_abort m1;
          to_archive = map fst (filter (\<lambda>(_, k). is_terminal k) (coordinators m2))
      in fold archive to_archive m2)"

abbreviation tpc_active_count :: "CoordinatorManager \<Rightarrow> usize" where
  "tpc_active_count m \<equiv> length (coordinators m)"

section \<open>Runs of one coordinator\<close>

datatype tpc_op =
    TpcVote PrepareVote
  | TpcCommit
  | TpcFinalize "(ShardId, CrossShardReceipt) btree_map"
  | TpcAbort string

primrec tpc_step :: "shard_env \<Rightarrow> tpc_op \<Rightarrow> TwoPhaseCommitCoordinator \<Rightarrow> TwoPhaseCommitCoordinator" where
  "tpc_step c (TpcVote v) k = fst (receive_prepare_vote c v k)"
| "tpc_step c TpcCommit k = fst (execute_commit k)"
| "tpc_step c (TpcFinalize rs) k = fst (finalize_commit rs k)"
| "tpc_step c (TpcAbort reason) k = fst (execute_abort reason k)"

lemma no_key_no_signature: "\<not> pv_verify_signature c v []"
  by (simp add: pv_verify_signature_def Let_def split: option.splits)

definition never_ready :: "TwoPhaseCommitCoordinator \<Rightarrow> bool" where
  "never_ready k \<longleftrightarrow> phase k \<notin> {ReadyToCommit, CommittingPhase} \<and> prepare_votes (tpc_lifecycle k) = []"

lemma never_ready_step: "never_ready k \<Longrightarrow> never_ready (tpc_step c a k)"
  by (cases a)
     (auto simp: never_ready_def receive_prepare_vote_def no_key_no_signature execute_commit_def
        finalize_commit_def execute_abort_def split: outcome.splits)

interpretation tpc: machine "tpc_step c" never_ready "\<lambda>_. True" for c
  by unfold_locales (rule never_ready_step)

lemma coordinator_new_never_ready: "coordinator_new t start timeout = Ok k \<Longrightarrow> never_ready k"
  by (auto simp: coordinator_new_def never_ready_def split: option.splits)

text \<open>Receipts that satisfy the checks of \<open>finalize_commit\<close>.\<close>

definition receipts_complete :: "(ShardId, CrossShardReceipt) btree_map \<Rightarrow> CrossShardTransaction \<Rightarrow> bool" where
  "receipts_complete rs t \<longleftrightarrow>
     (\<forall>shard \<in> set (involved_shards t). bt_contains rs shard) \<and>
     (\<forall>r \<in> set (bt_values rs). rc_status r = Committed)"

lemma finalize_commit_iff:
  "is_ok (snd (finalize_commit rs k)) \<longleftrightarrow> receipts_complete rs (transaction k)"
proof -
  let ?a = "check_all (\<lambda>shard. if \<not> bt_contains rs shard then Err (MissingReceipt shard) else Ok ())
      (involved_shards (transaction k))"
  let ?b = "check_all (\<lambda>(shard, receipt).
      bind_outcome (map_err BadReceipt (receipt_verify receipt)) (\<lambda>_.
        if rc_status receipt \<noteq> Committed then Err (ReceiptNotCommitted shard (rc_status receipt)) else Ok ())) rs"
  have "is_ok (snd (finalize_commit rs k)) \<longleftrightarrow> bind_outcome ?a (\<lambda>_. ?b) = Ok ()"
    by (auto simp: finalize_commit_def is_ok_iff split: outcome.splits)
  also have "\<dots> \<longleftrightarrow> ?a = Ok () \<and> ?b = Ok ()" by (simp add: bind_outcome_Ok)
  also have "?a = Ok () \<longleftrightarrow> (\<forall>shard \<in> set (involved_shards (transaction k)). bt_contains rs shard)"
    by (auto simp: check_all_Ok split: if_splits)
  also have "?b = Ok () \<longleftrightarrow> (\<forall>r \<in> set (bt_values rs). rc_status r = Committed)"
    by (fastforce simp: check_all_Ok bind_outcome_Ok split: if_splits)
  finally show ?thesis by (simp add: receipts_complete_def)
qed

section \<open>Runs of the manager\<close>

datatype mgr_op =
    MgrRegister CrossShardTransaction u64
  | MgrVote TransactionId PrepareVote
  | MgrStep TransactionId tpc_op
  | MgrAdvance u64

primrec mgr_step :: "shard_env \<Rightarrow> mgr_op \<Rightarrow> CoordinatorManager \<Rightarrow> CoordinatorManager" where
  "mgr_step c (MgrRegister t timeout) m = fst (register_transaction t timeout m)"
| "mgr_step c (MgrVote i v) m = fst (process_prepare_vote c i v m)"
| "mgr_step c (MgrStep i a) m = on_coordinator i (\<lambda>k. (tpc_step c a k, Ok ())) m"
| "mgr_step c (MgrAdvance h) m = advance_block h m"

definition known :: "CoordinatorManager \<Rightarrow> TransactionId \<Rightarrow> bool" where
  "known m i \<longleftrightarrow> bt_contains (coordinators m) i \<or> bt_contains (terminal_transactions m) i"

lemma coordinators_time_out: "coordinators (time_out i m) = bt_remove i (coordinators m)"
  and coordinators_archive: "coordinators (archive i m) = bt_remove i (coordinators m)"
proof -
  have "bt_remove i (coordinators m) = coordinators m" if "bt_get (coordinators m) i = None"
    using that unfolding bt_remove_def by (intro filter_True) (force simp: map_of_eq_None_iff)
  then show "coordinators (time_out i m) = bt_remove i (coordinators m)"
      "coordinators (archive i m) = bt_remove i (coordinators m)"
    by (auto simp: time_out_def archive_def split: option.splits)
qed

lemma coordinators_fold:
  "coordinators (fold time_out is m) = fold bt_remove is (coordinators m)"
  "coordinators (fold archive is m) = fold bt_remove is (coordinators m)"
  by (induction "is" arbitrary: m) (simp_all add: coordinators_time_out coordinators_archive)

lemma known_time_out: "known (time_out i m) j = known m j"
  and known_archive: "known (archive i m) j = known m j"
  by (auto simp: known_def time_out_def archive_def bt_contains_get split: option.splits)

lemma known_fold: "known (fold time_out is m) j = known m j" "known (fold archive is m) j = known m j"
  by (induction "is" arbitrary: m) (simp_all add: known_time_out known_archive)

lemma known_advance: "known (advance_block h m) j = known m j"
  unfolding advance_block_def Let_def known_fold by (simp add: known_def)

lemma known_step: "known m j \<Longrightarrow> known (mgr_step c a m) j"
proof (cases a)
  case (MgrAdvance h)
  then show "known m j \<Longrightarrow> ?thesis" by (simp add: known_advance)
qed (auto simp: known_def register_transaction_def process_prepare_vote_def on_coordinator_def
       split: option.splits outcome.splits prod.splits)

interpretation mgr: machine "mgr_step c" "\<lambda>m. known m i" "\<lambda>_. True" for c i
  by unfold_locales (rule known_step)

lemma heights_fold:
  "current_height (fold time_out is m) = current_height m"
  "current_height (fold archive is m) = current_height m"
  by (induction "is" arbitrary: m) (auto simp: time_out_def archive_def split: option.splits)

text \<open>What is left active after a block: nothing terminal, nothing past its timeout.\<close>

lemma advance_block_active:
  assumes "bt_get (coordinators (advance_block h m)) i = Some k"
  shows "bt_get (coordinators m) i = Some k \<and> \<not> is_terminal k \<and> h < timeout_height k"
proof -
  let ?m1 = "m\<lparr>current_height := h\<rparr>"
  let ?ab = "map fst (filter (\<lambda>(_, k). timeout_height k \<le> h \<and> \<not> is_terminal k) (coordinators ?m1))"
  let ?m2 = "fold time_out ?ab ?m1"
  let ?ar = "map fst (filter (\<lambda>(_, k). is_terminal k) (coordinators ?m2))"
  have g2: "bt_get (coordinators ?m2) j = (if j \<in> set ?ab then None else bt_get (coordinators m) j)" for j
    by (simp add: coordinators_fold bt.lookup_remove_many)
  have "bt_get (coordinators (advance_block h m)) i = (if i \<in> set ?ar then None else bt_get (coordinators ?m2) i)"
    unfolding advance_block_def Let_def by (simp add: coordinators_fold bt.lookup_remove_many)
  with assms have ar: "i \<notin> set ?ar" and k2: "bt_get (coordinators ?m2) i = Some k" by (auto split: if_splits)
  with g2 [of i] have ab: "i \<notin> set ?ab" and k: "bt_get (coordinators m) i = Some k" by (auto split: if_splits)
  have "\<not> is_terminal k"
    using ar map_of_SomeD [OF k2] by force
  moreover have "h < timeout_height k"
    using ab map_of_SomeD [OF k] calculation by force
  ultimately show ?thesis using k by simp
qed

text \<open>A closed instance: a transaction over two shards and one vote of each.\<close>

definition demo_tx :: CrossShardTransaction where
  "demo_tx =
     \<lparr>cst_id = [1], cst_payload = [], involved_shards = [2, 5],
      execution_plan = \<lparr>ordered_shards = [2, 5], shard_writes = [], shard_reads = [], plan_hash = []\<rparr>,
      timeout_epoch = 0, cst_nonce = 0, cst_signature = [], cst_status = Pending\<rparr>"

definition demo_prepare :: "ShardId \<Rightarrow> PrepareVote" where
  "demo_prepare shard =
     \<lparr>pv_transaction_id = [1], pv_shard_id = shard, can_commit = True, pv_lock_id = None,
      rejection_reason = None, pv_signature = [], vote_height = 3\<rparr>"

definition demo_coordinator :: TwoPhaseCommitCoordinator where
  "demo_coordinator =
     \<lparr>transaction = demo_tx, coordinator_shard = 2,
      tpc_lifecycle = (lifecycle_new [1])\<lparr>prepare_votes := [(2, demo_prepare 2), (5, demo_prepare 5)]\<rparr>,
      phase = PreparingPhase, tpc_start_height = 0, timeout_height = 10\<rparr>"

definition demo_receipt :: "ShardId \<Rightarrow> CrossShardReceipt" where
  "demo_receipt shard =
     \<lparr>rc_transaction_id = [1], rc_shard_id = shard, rc_block_height = 4, rc_status = Committed,
      rc_state_root_after = [], rc_merkle_proof = []\<rparr>"

lemma demo_coordinator_new:
  "coordinator_new demo_tx 0 10 =
     Ok (demo_coordinator\<lparr>tpc_lifecycle := lifecycle_new [1]\<rparr>)"
  by (simp add: coordinator_new_def demo_tx_def demo_coordinator_def)

section \<open>Properties\<close>

text \<open>C30: two-phase commit never reaches its commit phase. Votes are verified against an empty list of
  keys, so from a new coordinator no sequence of votes, commits, finalizations and aborts records a
  vote, and \<open>execute_commit\<close> fails in every state that is reached.\<close>

theorem execute_commit_never_succeeds:
  assumes "coordinator_new t start timeout = Ok k0" "k = fold (tpc_step c) ops k0"
  shows "execute_commit k = (k, Err (CannotCommitIn (phase k))) \<and>
    prepare_votes (tpc_lifecycle k) = [] \<and> (\<exists>e. receive_prepare_vote c v k = (k, Err e))"
proof -
  have "never_ready k" unfolding assms(2)
    by (rule tpc.run_inv [OF coordinator_new_never_ready [OF assms(1)]]) (simp add: list_all_iff)
  then show ?thesis
    by (auto simp: never_ready_def execute_commit_def receive_prepare_vote_def no_key_no_signature)
qed

theorem execute_commit_never_succeeds_witness:
  "\<forall>c. \<exists>k. execute_commit (fold (tpc_step c) [TpcVote (demo_prepare 2), TpcVote (demo_prepare 5), TpcCommit]
      (demo_coordinator\<lparr>tpc_lifecycle := lifecycle_new [1]\<rparr>)) = (k, Err (CannotCommitIn (phase k)))"
  by (intro allI exI, rule conjunct1, rule execute_commit_never_succeeds [OF demo_coordinator_new refl])

text \<open>Receipts alone commit. \<open>finalize_commit\<close> succeeds exactly when there is a receipt for every
  involved shard and all receipts say Committed, whatever the phase and the votes: a transaction that
  was aborted ends with status Committed.\<close>

theorem finalize_commit_ignores_phase:
  "(is_ok (snd (finalize_commit rs k)) \<longleftrightarrow>
     (\<forall>shard \<in> set (involved_shards (transaction k)). bt_contains rs shard) \<and>
     (\<forall>r \<in> set (bt_values rs). rc_status r = Committed)) \<and>
   (is_ok (snd (finalize_commit rs k)) \<longrightarrow>
     lc_status (tpc_lifecycle (fst (finalize_commit rs (fst (execute_abort reason k))))) = Committed)"
proof -
  have t: "transaction (fst (execute_abort reason k)) = transaction k" by (simp add: execute_abort_def)
  have "lc_status (tpc_lifecycle (fst (finalize_commit rs k'))) = Committed"
    if "receipts_complete rs (transaction k')" for k'
    using that [folded finalize_commit_iff]
    by (auto simp: finalize_commit_def is_ok_iff split: outcome.splits)
  then show ?thesis using finalize_commit_iff [of rs k] t by (auto simp: receipts_complete_def)
qed

theorem finalize_commit_ignores_phase_witness:
  "lc_status (tpc_lifecycle (fst (finalize_commit [(2, demo_receipt 2), (5, demo_receipt 5)]
     (fst (execute_abort ''timeout'' demo_coordinator))))) = Committed"
  using finalize_commit_ignores_phase [of "[(2, demo_receipt 2), (5, demo_receipt 5)]" demo_coordinator "''timeout''"]
  by (simp add: demo_coordinator_def demo_tx_def demo_receipt_def bt_contains_def)

text \<open>The manager loses no transaction and keeps none past its time. A transaction that was
  registered stays active or archived over any sequence of calls, and after every new block the
  active coordinators are exactly among the old ones that are not terminal and not past their timeout.\<close>

theorem no_transaction_lost:
  assumes "is_ok (snd (register_transaction t timeout m))"
  shows "let m' = fold (mgr_step c) ops (fst (register_transaction t timeout m)) in
    (bt_contains (coordinators m') (cst_id t) \<or> bt_contains (terminal_transactions m') (cst_id t)) \<and>
    (\<forall>h i k. bt_get (coordinators (advance_block h m')) i = Some k \<longrightarrow>
       bt_get (coordinators m') i = Some k \<and> \<not> is_terminal k \<and> h < timeout_height k)"
proof -
  let ?m = "fst (register_transaction t timeout m)"
  have "known ?m (cst_id t)"
    using assms by (auto simp: known_def register_transaction_def coordinator_new_def
        split: if_splits option.splits)
  then have "known (fold (mgr_step c) ops ?m) (cst_id t)" by (rule mgr.run_inv) (simp add: list_all_iff)
  moreover have "\<forall>h i k. bt_get (coordinators (advance_block h m')) i = Some k \<longrightarrow>
       bt_get (coordinators m') i = Some k \<and> \<not> is_terminal k \<and> h < timeout_height k" for m'
    by (intro allI impI advance_block_active)
  ultimately show ?thesis unfolding known_def Let_def by (rule conjI)
qed

theorem no_transaction_lost_witness:
  "\<forall>c. bt_contains (coordinators (fold (mgr_step c) [MgrAdvance 4, MgrAdvance 20]
       (fst (register_transaction demo_tx 10 manager_new)))) [1] \<or>
   bt_contains (terminal_transactions (fold (mgr_step c) [MgrAdvance 4, MgrAdvance 20]
       (fst (register_transaction demo_tx 10 manager_new)))) [1]"
proof
  fix c
  have ok: "is_ok (snd (register_transaction demo_tx 10 manager_new))" and i: "cst_id demo_tx = [1]"
    by (simp_all add: register_transaction_def demo_tx_def
        coordinator_new_def)
  from no_transaction_lost [OF ok, of c "[MgrAdvance 4, MgrAdvance 20]"]
  show "bt_contains (coordinators (fold (mgr_step c) [MgrAdvance 4, MgrAdvance 20]
       (fst (register_transaction demo_tx 10 manager_new)))) [1] \<or>
   bt_contains (terminal_transactions (fold (mgr_step c) [MgrAdvance 4, MgrAdvance 20]
       (fst (register_transaction demo_tx 10 manager_new)))) [1]"
    unfolding i Let_def by (rule conjunct1)
qed

end
