(* ===== verification/CrossShardLocking.thy ===== *)
theory CrossShardLocking
  imports CrossShardTx
begin

text \<open>
  \<open>crates/bleep-state/src/cross_shard_locking.rs\<close>: the lock table of one shard and the coordinator of
  all lock tables. A missing entry behind \<open>self.locks[..]\<close> is a panic. The lemmas show that the
  coordinator's acquisition is all-or-nothing and never panics, that in orderly runs a held key cannot be
  taken again, that every lock is gone at the next epoch, and that releasing an expired lock can free a
  key that another transaction holds.
\<close>

section \<open>Locks\<close>

datatype LockStatus = LockActive | LockPreparing | LockReleasing | LockReleased

record StateLock =
  lk_lock_id :: StateLockId
  lk_transaction_id :: TransactionId
  locked_keys :: "bytes list"
  acquired_epoch :: u64
  max_hold_epochs :: u64
  lk_status :: LockStatus

datatype LockError =
    KeyLocked bytes TransactionId | LockNotFound StateLockId | ShardNotRegistered ShardId
  | KeyLockedOn bytes ShardId | NoTransactionLocks | DanglingKey bytes StateLockId
  | KeyNotInLock bytes StateLockId

definition StateLock_new :: "StateLockId \<Rightarrow> TransactionId \<Rightarrow> bytes list \<Rightarrow> u64 \<Rightarrow> StateLock" where
  "StateLock_new i t keys epoch =
     \<lparr>lk_lock_id = i, lk_transaction_id = t, locked_keys = keys, acquired_epoch = epoch,
      max_hold_epochs = 1, lk_status = LockActive\<rparr>"

abbreviation covers_key :: "StateLock \<Rightarrow> bytes \<Rightarrow> bool" where
  "covers_key l key \<equiv> key \<in> set (locked_keys l)"

definition is_expired :: "StateLock \<Rightarrow> u64 \<Rightarrow> bool" where
  "is_expired l current_epoch \<longleftrightarrow> wrap_sub 64 current_epoch (acquired_epoch l) \<ge> max_hold_epochs l"

definition lock_release :: "StateLock \<Rightarrow> StateLock" where
  "lock_release l = l\<lparr>lk_status := LockReleased\<rparr>"

section \<open>The lock table of a shard\<close>

record ShardLockManager =
  slm_shard_id :: ShardId
  locks :: "(StateLockId, StateLock) btree_map"
  key_to_lock :: "(bytes, StateLockId) btree_map"
  slm_current_epoch :: u64

abbreviation lock_manager_new :: "ShardId \<Rightarrow> ShardLockManager" where
  "lock_manager_new shard \<equiv> \<lparr>slm_shard_id = shard, locks = [], key_to_lock = [], slm_current_epoch = 0\<rparr>"

definition key_conflict :: "ShardLockManager \<Rightarrow> bytes \<Rightarrow> (LockError, unit) outcome" where
  "key_conflict m key =
     (case bt_get (key_to_lock m) key of
        None \<Rightarrow> Ok ()
      | Some existing \<Rightarrow>
          (case bt_get (locks m) existing of
             None \<Rightarrow> Panic
           | Some l \<Rightarrow> if lk_status l = LockActive \<or> lk_status l = LockPreparing
                       then Err (KeyLocked key (lk_transaction_id l)) else Ok ()))"

definition acquire_lock ::
  "StateLockId \<Rightarrow> TransactionId \<Rightarrow> bytes list \<Rightarrow> ShardLockManager \<Rightarrow>
   ShardLockManager \<times> (LockError, unit) outcome" where
  "acquire_lock i t keys m =
     (case check_all (key_conflict m) keys of
        Err e \<Rightarrow> (m, Err e)
      | Panic \<Rightarrow> (m, Panic)
      | Ok _ \<Rightarrow>
          (m\<lparr>locks := bt_insert i (StateLock_new i t keys (slm_current_epoch m)) (locks m),
             key_to_lock := fold (\<lambda>key. bt_insert key i) keys (key_to_lock m)\<rparr>, Ok ()))"

definition release_lock :: "StateLockId \<Rightarrow> ShardLockManager \<Rightarrow> ShardLockManager \<times> (LockError, unit) outcome" where
  "release_lock i m =
     (case bt_get (locks m) i of
        None \<Rightarrow> (m, Err (LockNotFound i))
      | Some l \<Rightarrow>
          (m\<lparr>locks := bt_insert i (lock_release l) (locks m),
             key_to_lock := fold bt_remove (locked_keys l) (key_to_lock m)\<rparr>, Ok ()))"

definition get_lock_for_key :: "ShardLockManager \<Rightarrow> bytes \<Rightarrow> StateLock option" where
  "get_lock_for_key m key =
     (case bt_get (key_to_lock m) key of
        None \<Rightarrow> None
      | Some i \<Rightarrow>
          (case bt_get (locks m) i of
             None \<Rightarrow> None
           | Some l \<Rightarrow> if lk_status l \<noteq> LockReleased then Some l else None))"

definition is_key_writable :: "ShardLockManager \<Rightarrow> bytes \<Rightarrow> bool" where
  "is_key_writable m key \<longleftrightarrow> get_lock_for_key m key = None"

definition cleanup_expired_locks :: "ShardLockManager \<Rightarrow> ShardLockManager" where
  "cleanup_expired_locks m =
     (let to_release = map fst (filter (\<lambda>(_, l). is_expired l (slm_current_epoch m)) (locks m)) in
      fold (\<lambda>i m. fst (release_lock i m)) to_release m)"

definition lm_advance_epoch :: "ShardLockManager \<Rightarrow> ShardLockManager" where
  "lm_advance_epoch m = cleanup_expired_locks (m\<lparr>slm_current_epoch := wrap_add 64 (slm_current_epoch m) 1\<rparr>)"

abbreviation get_transaction_locks :: "ShardLockManager \<Rightarrow> TransactionId \<Rightarrow> StateLock list" where
  "get_transaction_locks m t \<equiv> filter (\<lambda>l. lk_transaction_id l = t \<and> lk_status l \<noteq> LockReleased) (bt_values (locks m))"

definition verify_consistency :: "ShardLockManager \<Rightarrow> (LockError, unit) outcome" where
  "verify_consistency m =
     check_all (\<lambda>(key, i).
       case bt_get (locks m) i of
         None \<Rightarrow> Err (DanglingKey key i)
       | Some l \<Rightarrow> if key \<notin> set (locked_keys l) then Err (KeyNotInLock key i) else Ok ()) (key_to_lock m)"

section \<open>The coordinator\<close>

record CrossShardLockCoordinator =
  shard_locks :: "(ShardId, ShardLockManager) btree_map"
  transaction_locks :: "(TransactionId, StateLockId list) btree_map"

type_synonym lock_request = "(ShardId, StateLockId \<times> bytes list) btree_map"

abbreviation lock_coordinator_new :: CrossShardLockCoordinator where
  "lock_coordinator_new \<equiv> \<lparr>shard_locks = [], transaction_locks = []\<rparr>"

definition register_shard :: "ShardId \<Rightarrow> CrossShardLockCoordinator \<Rightarrow> CrossShardLockCoordinator" where
  "register_shard shard s = s\<lparr>shard_locks := bt_insert shard (lock_manager_new shard) (shard_locks s)\<rparr>"

text \<open>First pass: every requested key of every shard is free.\<close>

definition locks_available ::
  "(ShardId, ShardLockManager) btree_map \<Rightarrow> ShardId \<times> StateLockId \<times> bytes list \<Rightarrow> (LockError, unit) outcome" where
  "locks_available ms req =
     (case req of (shard, _, keys) \<Rightarrow>
        (case bt_get ms shard of
           None \<Rightarrow> Err (ShardNotRegistered shard)
         | Some m \<Rightarrow> check_all (\<lambda>key. if \<not> is_key_writable m key then Err (KeyLockedOn key shard) else Ok ()) keys))"

text \<open>Second pass: take the locks one shard after the other, leaving at the first error.\<close>

fun take_locks ::
  "TransactionId \<Rightarrow> lock_request \<Rightarrow> (ShardId, ShardLockManager) btree_map \<Rightarrow>
   (ShardId, ShardLockManager) btree_map \<times> (LockError, unit) outcome" where
  "take_locks t [] ms = (ms, Ok ())"
| "take_locks t ((shard, i, keys) # req) ms =
     (case bt_get ms shard of
        None \<Rightarrow> (ms, Panic)
      | Some m \<Rightarrow>
          (case acquire_lock i t keys m of
             (m', Ok _) \<Rightarrow> take_locks t req (bt_insert shard m' ms)
           | (m', Err e) \<Rightarrow> (bt_insert shard m' ms, Err e)
           | (m', Panic) \<Rightarrow> (bt_insert shard m' ms, Panic)))"

definition acquire_locks ::
  "TransactionId \<Rightarrow> lock_request \<Rightarrow> CrossShardLockCoordinator \<Rightarrow>
   CrossShardLockCoordinator \<times> (LockError, unit) outcome" where
  "acquire_locks t req s =
     (case check_all (locks_available (shard_locks s)) req of
        Err e \<Rightarrow> (s, Err e)
      | Panic \<Rightarrow> (s, Panic)
      | Ok _ \<Rightarrow>
          (case take_locks t req (shard_locks s) of
             (ms, Err e) \<Rightarrow> (s\<lparr>shard_locks := ms\<rparr>, Err e)
           | (ms, Panic) \<Rightarrow> (s\<lparr>shard_locks := ms\<rparr>, Panic)
           | (ms, Ok _) \<Rightarrow>
               (s\<lparr>shard_locks := ms,
                  transaction_locks := bt_insert t (bs_from (map fst (bt_values req))) (transaction_locks s)\<rparr>,
                Ok ())))"

fun release_each :: "StateLockId list \<Rightarrow> ShardLockManager \<Rightarrow> ShardLockManager \<times> (LockError, unit) outcome" where
  "release_each [] m = (m, Ok ())"
| "release_each (i # is) m =
     (if bt_contains (locks m) i then
        (case release_lock i m of
           (m', Ok _) \<Rightarrow> release_each is m' | (m', Err e) \<Rightarrow> (m', Err e) | (m', Panic) \<Rightarrow> (m', Panic))
      else release_each is m)"

fun release_shards ::
  "StateLockId list \<Rightarrow> (ShardId, ShardLockManager) btree_map \<Rightarrow>
   (ShardId, ShardLockManager) btree_map \<times> (LockError, unit) outcome" where
  "release_shards is [] = ([], Ok ())"
| "release_shards is ((shard, m) # ms) =
     (case release_each is m of
        (m', Ok _) \<Rightarrow> (let (ms', x) = release_shards is ms in ((shard, m') # ms', x))
      | (m', Err e) \<Rightarrow> ((shard, m') # ms, Err e)
      | (m', Panic) \<Rightarrow> ((shard, m') # ms, Panic))"

definition release_transaction_locks ::
  "TransactionId \<Rightarrow> CrossShardLockCoordinator \<Rightarrow> CrossShardLockCoordinator \<times> (LockError, unit) outcome" where
  "release_transaction_locks t s =
     (case bt_get (transaction_locks s) t of
        None \<Rightarrow> (s, Err NoTransactionLocks)
      | Some is \<Rightarrow>
          (let (ms, x) = release_shards is (shard_locks s) in
           (s\<lparr>transaction_locks := bt_remove t (transaction_locks s), shard_locks := ms\<rparr>, x)))"

abbreviation verify_all_locks :: "CrossShardLockCoordinator \<Rightarrow> (LockError, unit) outcome" where
  "verify_all_locks s \<equiv> check_all verify_consistency (bt_values (shard_locks s))"

definition lc_advance_epoch :: "CrossShardLockCoordinator \<Rightarrow> CrossShardLockCoordinator" where
  "lc_advance_epoch s = s\<lparr>shard_locks := map (\<lambda>(shard, m). (shard, lm_advance_epoch m)) (shard_locks s)\<rparr>"

section \<open>Invariant of a lock table\<close>

text \<open>Mapped keys point to existing locks, locks are held for one epoch, and an active lock was
  taken in the current epoch.\<close>

definition lock_ok :: "u64 \<Rightarrow> StateLock \<Rightarrow> bool" where
  "lock_ok epoch l \<longleftrightarrow> acquired_epoch l < 2 ^ 64 \<and> max_hold_epochs l = 1 \<and>
     (lk_status l = LockReleased \<or> lk_status l = LockActive \<and> acquired_epoch l = epoch)"

definition table_ok :: "ShardLockManager \<Rightarrow> bool" where
  "table_ok m \<longleftrightarrow> slm_current_epoch m < 2 ^ 64 \<and> bt_wf (locks m) \<and>
     (\<forall>k i. bt_get (key_to_lock m) k = Some i \<longrightarrow> bt_contains (locks m) i) \<and>
     (\<forall>i l. bt_get (locks m) i = Some l \<longrightarrow> lock_ok (slm_current_epoch m) l)"

lemma table_ok_new: "table_ok (lock_manager_new shard)"
  by (simp add: table_ok_def)

lemma lookup_keys: "bt_get (fold (\<lambda>key. bt_insert key i) keys m) k = (if k \<in> set keys then Some i else bt_get m k)"
  by (rule bt.lookup_insert_many)

lemma lookup_keys_removed:
  "bt_get (fold bt_remove (keys :: 'k::linorder list) m) k = (if k \<in> set keys then None else bt_get m k)"
  by (rule bt.lookup_remove_many)

lemma table_ok_acquire:
  assumes "table_ok m"
  shows "table_ok (fst (acquire_lock i t keys m))"
  using assms
  by (auto simp: acquire_lock_def table_ok_def lookup_keys lock_ok_def StateLock_new_def
        split: outcome.splits if_splits)

lemma table_ok_release:
  assumes "table_ok m"
  shows "table_ok (fst (release_lock i m))"
  using assms
  by (auto simp: release_lock_def table_ok_def lookup_keys_removed lock_ok_def lock_release_def
        split: option.splits if_splits)

lemma release_many:
  "bt_get (locks (fold (\<lambda>i m. fst (release_lock i m)) is m)) j =
     (if j \<in> set is then map_option lock_release (bt_get (locks m) j) else bt_get (locks m) j) \<and>
   slm_current_epoch (fold (\<lambda>i m. fst (release_lock i m)) is m) = slm_current_epoch m \<and>
   (bt_get (key_to_lock (fold (\<lambda>i m. fst (release_lock i m)) is m)) k = Some x \<longrightarrow>
      bt_get (key_to_lock m) k = Some x) \<and>
   (bt_wf (locks m) \<longrightarrow> bt_wf (locks (fold (\<lambda>i m. fst (release_lock i m)) is m)))"
proof (induction "is" arbitrary: m)
  case Nil
  then show ?case by simp
next
  case (Cons i "is")
  have "lock_release (lock_release l) = lock_release l" for l by (simp add: lock_release_def)
  with Cons [of "fst (release_lock i m)"] show ?case
    by (auto simp: release_lock_def lookup_keys_removed option.map_comp comp_def split: option.splits if_splits)
qed

lemma expired_iff:
  assumes "lock_ok e l" "e < 2 ^ 64" "e' < 2 ^ 64"
  shows "is_expired l e' \<longleftrightarrow> acquired_epoch l \<noteq> e'"
proof -
  have "wrap_sub 64 e' (acquired_epoch l) = 0 \<longleftrightarrow> acquired_epoch l = e'"
    using assms by (auto simp: wrap_sub_def lock_ok_def)
  then show ?thesis using assms(1) by (auto simp: is_expired_def lock_ok_def)
qed

text \<open>At the next epoch every lock of the table is released.\<close>

lemma advance_releases_all:
  assumes ok: "table_ok m" and l: "bt_get (locks (lm_advance_epoch m)) i = Some l"
  shows "lk_status l = LockReleased"
proof -
  let ?e = "wrap_add 64 (slm_current_epoch m) 1"
  let ?m = "m\<lparr>slm_current_epoch := ?e\<rparr>"
  let ?is = "map fst (filter (\<lambda>(_, l). is_expired l ?e) (locks m))"
  have e: "?e < 2 ^ 64" "slm_current_epoch m < 2 ^ 64" 
    using ok wrap_bounds(1) [of 64] by (simp_all add: table_ok_def)
  have ne: "slm_current_epoch m \<noteq> ?e" using e(2) by (simp add: wrap_add_def mod_Suc)
  have get: "bt_get (locks (lm_advance_epoch m)) i =
      (if i \<in> set ?is then map_option lock_release (bt_get (locks m) i) else bt_get (locks m) i)"
    unfolding lm_advance_epoch_def cleanup_expired_locks_def Let_def
    using release_many [of ?is ?m i] by simp
  obtain l0 where l0: "bt_get (locks m) i = Some l0" using l get by (auto split: if_splits)
  have l0_ok: "lock_ok (slm_current_epoch m) l0" using ok l0 by (auto simp: table_ok_def)
  show ?thesis
  proof (cases "lk_status l0 = LockReleased")
    case True
    then show ?thesis using l get l0 by (auto simp: lock_release_def split: if_splits)
  next
    case False
    then have "acquired_epoch l0 = slm_current_epoch m" using l0_ok by (auto simp: lock_ok_def)
    then have "is_expired l0 ?e" using expired_iff [OF l0_ok e(2,1)] ne by simp
    then have "i \<in> set ?is" using map_of_SomeD [OF l0] by force
    then show ?thesis using l get l0 by (auto simp: lock_release_def)
  qed
qed

lemma table_ok_advance:
  assumes ok: "table_ok m"
  shows "table_ok (lm_advance_epoch m)"
proof -
  let ?e = "wrap_add 64 (slm_current_epoch m) 1"
  let ?m = "m\<lparr>slm_current_epoch := ?e\<rparr>"
  let ?is = "map fst (filter (\<lambda>(_, l). is_expired l ?e) (locks m))"
  have def: "lm_advance_epoch m = fold (\<lambda>i m. fst (release_lock i m)) ?is ?m"
    by (simp add: lm_advance_epoch_def cleanup_expired_locks_def Let_def)
  have r: "bt_get (locks (lm_advance_epoch m)) j =
      (if j \<in> set ?is then map_option lock_release (bt_get (locks m) j) else bt_get (locks m) j)"
    "slm_current_epoch (lm_advance_epoch m) = ?e"
    "bt_get (key_to_lock (lm_advance_epoch m)) k = Some x \<longrightarrow> bt_get (key_to_lock m) k = Some x"
    "bt_wf (locks (lm_advance_epoch m))" for j k x
    unfolding def using release_many [of ?is ?m] ok by (simp_all add: table_ok_def)
  have "lock_ok ?e l" if l: "bt_get (locks (lm_advance_epoch m)) i = Some l" for i l
    using advance_releases_all [OF ok l] l ok
    by (auto simp: r(1) lock_ok_def table_ok_def lock_release_def split: if_splits)
  moreover have "bt_contains (locks (lm_advance_epoch m)) i" if "bt_contains (locks m) i" for i
    using that by (auto simp: bt_contains_get r(1))
  moreover have "?e < 2 ^ 64" by (rule wrap_bounds(1))
  ultimately show ?thesis
    using ok r(2,3,4) unfolding table_ok_def by metis
qed

lemma advance_frees_keys: "table_ok m \<Longrightarrow> is_key_writable (lm_advance_epoch m) k"
  using advance_releases_all by (auto simp: is_key_writable_def get_lock_for_key_def split: option.splits)

section \<open>Acquisition\<close>

lemma writable_no_conflict:
  assumes "table_ok m"
  shows "key_conflict m k = Ok () \<longleftrightarrow> is_key_writable m k"
proof (cases "bt_get (key_to_lock m) k")
  case None
  then show ?thesis by (simp add: key_conflict_def is_key_writable_def get_lock_for_key_def)
next
  case (Some i)
  then have "bt_contains (locks m) i" using assms unfolding table_ok_def by blast
  then obtain l where l: "bt_get (locks m) i = Some l" by (auto simp: bt_contains_get)
  then have "lock_ok (slm_current_epoch m) l" using assms unfolding table_ok_def by blast
  then have "lk_status l = LockReleased \<or> lk_status l = LockActive" by (auto simp: lock_ok_def)
  with l Some show ?thesis by (auto simp: key_conflict_def is_key_writable_def get_lock_for_key_def)
qed

lemma acquire_free:
  assumes "table_ok m" "\<forall>k \<in> set keys. is_key_writable m k"
  shows "\<exists>m'. acquire_lock i t keys m = (m', Ok ()) \<and>
    (\<forall>k \<in> set keys. get_lock_for_key m' k = Some (StateLock_new i t keys (slm_current_epoch m)))"
proof -
  have "check_all (key_conflict m) keys = Ok ()"
    using assms writable_no_conflict [OF assms(1)] by (simp add: check_all_Ok)
  then show ?thesis
    by (simp add: acquire_lock_def get_lock_for_key_def lookup_keys StateLock_new_def)
qed

definition tables_ok :: "(ShardId, ShardLockManager) btree_map \<Rightarrow> bool" where
  "tables_ok ms \<longleftrightarrow> bt_wf ms \<and> (\<forall>shard m. bt_get ms shard = Some m \<longrightarrow> table_ok m)"

lemma tables_ok_insert: "tables_ok ms \<Longrightarrow> table_ok m \<Longrightarrow> tables_ok (bt_insert shard m ms)"
  by (auto simp: tables_ok_def)

lemma tables_ok_take: "tables_ok ms \<Longrightarrow> tables_ok (fst (take_locks t req ms))"
proof (induction t req ms rule: take_locks.induct)
  case (1 t ms)
  then show ?case by simp
next
  case (2 t shard i keys req ms)
  show ?case
  proof (cases "bt_get ms shard")
    case None
    with 2 show ?thesis by simp
  next
    case (Some m)
    obtain m' x where a: "acquire_lock i t keys m = (m', x)" by force
    have "table_ok m'" using table_ok_acquire [of m i t keys] 2(2) Some a by (auto simp: tables_ok_def)
    then have "tables_ok (bt_insert shard m' ms)" using tables_ok_insert 2(2) by blast
    with 2(1) [OF Some a [symmetric]] Some a show ?thesis by (cases x) auto
  qed
qed

lemma take_locks_Ok:
  assumes "tables_ok ms" "distinct (map fst req)" "\<forall>r \<in> set req. locks_available ms r = Ok ()"
  shows "\<exists>ms'. take_locks t req ms = (ms', Ok ()) \<and>
    (\<forall>(shard, i, keys) \<in> set req. \<exists>m'. bt_get ms' shard = Some m' \<and>
       (\<forall>k \<in> set keys. \<exists>l. get_lock_for_key m' k = Some l \<and> lk_transaction_id l = t \<and> lk_status l = LockActive)) \<and>
    (\<forall>shard. shard \<notin> fst ` set req \<longrightarrow> bt_get ms' shard = bt_get ms shard)"
  using assms
proof (induction t req ms rule: take_locks.induct)
  case (1 t ms)
  then show ?case by simp
next
  case (2 t shard i keys req ms)
  obtain m where m: "bt_get ms shard = Some m" "\<forall>k \<in> set keys. is_key_writable m k" "table_ok m"
    using 2(2,4) by (auto simp: locks_available_def check_all_Ok tables_ok_def split: option.splits if_splits)
  obtain m' where m': "acquire_lock i t keys m = (m', Ok ())"
      "\<forall>k \<in> set keys. get_lock_for_key m' k = Some (StateLock_new i t keys (slm_current_epoch m))"
    using acquire_free [OF m(3,2), of i t] by blast
  have ok': "tables_ok (bt_insert shard m' ms)"
    using tables_ok_insert [OF 2(2)] table_ok_acquire [OF m(3), of i t keys] m'(1) by simp
  have avail: "\<forall>r \<in> set req. locks_available (bt_insert shard m' ms) r = Ok ()"
    using 2(3,4) by (force simp: locks_available_def split: option.splits)
  obtain ms' where IH: "take_locks t req (bt_insert shard m' ms) = (ms', Ok ())"
      "\<forall>(shard, i, keys) \<in> set req. \<exists>m'. bt_get ms' shard = Some m' \<and>
        (\<forall>k \<in> set keys. \<exists>l. get_lock_for_key m' k = Some l \<and> lk_transaction_id l = t \<and> lk_status l = LockActive)"
      "\<forall>s. s \<notin> fst ` set req \<longrightarrow> bt_get ms' s = bt_get (bt_insert shard m' ms) s"
    using 2(1) [OF m(1) m'(1) [symmetric] refl ok' _ avail] 2(3) by auto
  have "bt_get ms' shard = Some m'" using IH(3) 2(3) by auto
  with IH m(1) m' show ?case by (auto simp: StateLock_new_def)
qed

section \<open>Runs of the coordinator\<close>

datatype lock_op =
    RegisterShard ShardId
  | AcquireLocks TransactionId lock_request
  | ReleaseLocks TransactionId
  | AdvanceEpoch

fun lc_step :: "lock_op \<Rightarrow> CrossShardLockCoordinator \<Rightarrow> CrossShardLockCoordinator" where
  "lc_step (RegisterShard shard) s = register_shard shard s"
| "lc_step (AcquireLocks t req) s = fst (acquire_locks t req s)"
| "lc_step (ReleaseLocks t) s = fst (release_transaction_locks t s)"
| "lc_step AdvanceEpoch s = lc_advance_epoch s"

lemma release_each_eq: "release_each is m = (fold (\<lambda>i m. fst (release_lock i m)) is m, Ok ())"
proof (induction "is" arbitrary: m)
  case Nil
  then show ?case by simp
next
  case (Cons i "is")
  have "release_lock i m = (fst (release_lock i m), Ok ())" if "bt_contains (locks m) i"
    using that by (auto simp: release_lock_def bt_contains_get)
  moreover have "fst (release_lock i m) = m" if "\<not> bt_contains (locks m) i"
    using that by (auto simp: release_lock_def bt_contains_get split: option.splits)
  ultimately show ?case using Cons by (auto split: prod.splits)
qed

lemma release_shards_eq:
  "release_shards is ms = (map (\<lambda>(shard, m). (shard, fst (release_each is m))) ms, Ok ())"
  by (induction ms) (auto simp: release_each_eq)

lemma table_ok_release_each: "table_ok m \<Longrightarrow> table_ok (fst (release_each is m))"
  unfolding release_each_eq fst_conv
  by (induction "is" arbitrary: m) (auto intro: table_ok_release)

lemma tables_ok_map:
  assumes "tables_ok ms" "\<And>m. table_ok m \<Longrightarrow> table_ok (f m)"
  shows "tables_ok (map (\<lambda>(shard, m). (shard, f m)) ms)"
proof -
  have "map (fst \<circ> (\<lambda>(shard, m). (shard, f m))) ms = map fst ms" by (induction ms) auto
  then show ?thesis using assms by (auto simp: tables_ok_def bt_wf_def map_of_map simp del: map_eq_conv)
qed

lemma tables_ok_step: "tables_ok (shard_locks s) \<Longrightarrow> tables_ok (shard_locks (lc_step a s))"
proof (induction a s rule: lc_step.induct)
  case (1 shard s)
  then show ?case by (simp add: register_shard_def tables_ok_insert table_ok_new)
next
  case (2 t req s)
  then show ?case using tables_ok_take [of "shard_locks s" t req]
    by (auto simp: acquire_locks_def split: outcome.splits prod.splits)
next
  case (3 t s)
  then show ?case
    by (auto simp: release_transaction_locks_def release_shards_eq Let_def table_ok_release_each
          split: option.splits intro!: tables_ok_map)
next
  case (4 s)
  then show ?case by (auto simp: lc_advance_epoch_def table_ok_advance intro!: tables_ok_map)
qed

interpretation lc: machine lc_step "\<lambda>s. tables_ok (shard_locks s)" "\<lambda>_. True"
  by unfold_locales (rule tables_ok_step)

lemma tables_ok_run: "tables_ok (shard_locks (fold lc_step ops lock_coordinator_new))"
  by (rule lc.run_inv) (simp_all add: tables_ok_def list_all_iff)

section \<open>Exclusive locks\<close>

text \<open>
  Who holds a key by the locks themselves, not by the index \<open>key_to_lock\<close> that the code consults: the locks of the
  table that cover it and are not released.
\<close>

definition holders :: "ShardLockManager \<Rightarrow> bytes \<Rightarrow> StateLock set" where
  "holders m k = set (filter (\<lambda>l. lk_status l \<noteq> LockReleased \<and> covers_key l k) (bt_values (locks m)))"

text \<open>The index is exact: it has the keys of the locks that are not released, and no others.\<close>

definition exclusive :: "ShardLockManager \<Rightarrow> bool" where
  "exclusive m \<longleftrightarrow>
     (\<forall>i l k. bt_get (locks m) i = Some l \<and> lk_status l \<noteq> LockReleased \<and> covers_key l k \<longrightarrow> bt_get (key_to_lock m) k = Some i) \<and>
     (\<forall>k i. bt_get (key_to_lock m) k = Some i \<longrightarrow>
        (\<exists>l. bt_get (locks m) i = Some l \<and> lk_status l \<noteq> LockReleased \<and> covers_key l k))"

lemma exclusiveD:
  assumes "exclusive m"
  shows "bt_get (locks m) i = Some l \<Longrightarrow> lk_status l \<noteq> LockReleased \<Longrightarrow> covers_key l k \<Longrightarrow> bt_get (key_to_lock m) k = Some i"
    "bt_get (key_to_lock m) k = Some i \<Longrightarrow> \<exists>l. bt_get (locks m) i = Some l \<and> lk_status l \<noteq> LockReleased \<and> covers_key l k"
  using assms unfolding exclusive_def by blast+

lemma exclusive_new: "exclusive (lock_manager_new shard)"
  by (simp add: exclusive_def)

lemma holders_get:
  assumes "table_ok m"
  shows "l \<in> holders m k \<longleftrightarrow> (\<exists>i. bt_get (locks m) i = Some l \<and> lk_status l \<noteq> LockReleased \<and> covers_key l k)"
proof -
  have "distinct (map fst (locks m))" using assms by (auto simp: table_ok_def bt_wf_def strict_sorted_iff)
  then have "l \<in> set (bt_values (locks m)) \<longleftrightarrow> (\<exists>i. bt_get (locks m) i = Some l)" by (force simp: map_of_eq_Some_iff)
  then show ?thesis by (auto simp: holders_def)
qed

lemma holders_index:
  assumes "table_ok m" "exclusive m"
  shows "holders m k = (case get_lock_for_key m k of None \<Rightarrow> {} | Some l \<Rightarrow> {l})"
proof (cases "bt_get (key_to_lock m) k")
  case None
  then have "l \<notin> holders m k" for l using exclusiveD(1) [OF assms(2), of _ l k] holders_get [OF assms(1), of l k] by auto
  then show ?thesis using None by (auto simp: get_lock_for_key_def)
next
  case (Some i)
  then obtain l where l: "bt_get (locks m) i = Some l" "lk_status l \<noteq> LockReleased" "covers_key l k" using exclusiveD(2) [OF assms(2)] by blast
  have "l' \<in> holders m k \<longleftrightarrow> l' = l" for l'
    using exclusiveD(1) [OF assms(2), of _ l' k] holders_get [OF assms(1), of l' k] l Some by auto
  then show ?thesis using Some l by (auto simp: get_lock_for_key_def)
qed

lemma writable_unheld:
  assumes "table_ok m" "exclusive m"
  shows "is_key_writable m k \<longleftrightarrow> holders m k = {}"
  using holders_index [OF assms, of k] by (auto simp: is_key_writable_def split: option.splits)

lemma exclusive_acquire:
  assumes ok: "table_ok m" and ex: "exclusive m"
    and fresh: "\<And>l. bt_get (locks m) i = Some l \<Longrightarrow> lk_status l = LockReleased"
  shows "exclusive (fst (acquire_lock i t keys m))"
proof (cases "check_all (key_conflict m) keys = Ok ()")
  case True
  have free: "bt_get (key_to_lock m) k = None" if "k \<in> set keys" for k
  proof -
    have "is_key_writable m k" using True that writable_no_conflict [OF ok] by (simp add: check_all_Ok)
    then show ?thesis using exclusiveD(2) [OF ex, of k] by (fastforce simp: is_key_writable_def get_lock_for_key_def split: option.splits)
  qed
  have "fst (acquire_lock i t keys m) = m\<lparr>locks := bt_insert i (StateLock_new i t keys (slm_current_epoch m)) (locks m),
      key_to_lock := fold (\<lambda>key. bt_insert key i) keys (key_to_lock m)\<rparr>" using True by (simp add: acquire_lock_def)
  then show ?thesis
    using exclusiveD [OF ex] free fresh unfolding exclusive_def
    by (auto simp: lookup_keys bt_get_insert StateLock_new_def split: if_splits) (metis option.inject option.distinct(1))+
next
  case False
  then have "fst (acquire_lock i t keys m) = m" by (auto simp: acquire_lock_def split: outcome.splits)
  then show ?thesis using ex by simp
qed

text \<open>Releasing a lock is safe when the lock is still held, or none of its keys is indexed any more.\<close>

definition releasable :: "ShardLockManager \<Rightarrow> StateLockId \<Rightarrow> bool" where
  "releasable m i \<longleftrightarrow> (\<forall>l. bt_get (locks m) i = Some l \<longrightarrow> lk_status l \<noteq> LockReleased \<or> (\<forall>k. covers_key l k \<longrightarrow> bt_get (key_to_lock m) k = None))"

lemma exclusive_release:
  assumes "exclusive m" "releasable m i"
  shows "exclusive (fst (release_lock i m))"
proof (cases "bt_get (locks m) i")
  case (Some l)
  have own: "bt_get (key_to_lock m) k = Some j \<Longrightarrow> j = i" if "covers_key l k" for k j
    using assms(2) Some that exclusiveD(1) [OF assms(1) Some] unfolding releasable_def by fastforce
  have e: "fst (release_lock i m) = m\<lparr>locks := bt_insert i (lock_release l) (locks m), key_to_lock := fold bt_remove (locked_keys l) (key_to_lock m)\<rparr>"
    using Some by (simp add: release_lock_def)
  have "bt_get (key_to_lock (fst (release_lock i m))) k = Some j"
    if "bt_get (locks (fst (release_lock i m))) j = Some l'" "lk_status l' \<noteq> LockReleased" "covers_key l' k" for j l' k
    using that exclusiveD(1) [OF assms(1), of j l' k] own [of k j] unfolding e
    by (auto simp: bt_get_insert lookup_keys_removed lock_release_def split: if_splits)
  moreover have "\<exists>l'. bt_get (locks (fst (release_lock i m))) j = Some l' \<and> lk_status l' \<noteq> LockReleased \<and> covers_key l' k"
    if "bt_get (key_to_lock (fst (release_lock i m))) k = Some j" for j k
    using that exclusiveD(2) [OF assms(1), of k j] Some unfolding e
    by (auto simp: bt_get_insert lookup_keys_removed split: if_splits)
  ultimately show ?thesis unfolding exclusive_def by blast
qed (use assms in \<open>simp add: release_lock_def\<close>)

lemma exclusive_release_many:
  assumes "exclusive m" "\<forall>i \<in> set is. releasable m i"
  shows "exclusive (fold (\<lambda>i m. fst (release_lock i m)) is m)"
  using assms
proof (induction "is" arbitrary: m)
  case (Cons i "is")
  have "releasable (fst (release_lock i m)) j" if "releasable m j" for j
    using that by (auto simp: releasable_def release_lock_def bt_get_insert lookup_keys_removed lock_release_def split: option.splits if_splits)
  then show ?case using Cons exclusive_release [of m i] by simp
qed simp

lemma release_keeps_unmapped:
  assumes "bt_get (key_to_lock m) k = None"
  shows "bt_get (key_to_lock (fold (\<lambda>i m. fst (release_lock i m)) is m)) k = None"
proof (cases "bt_get (key_to_lock (fold (\<lambda>i m. fst (release_lock i m)) is m)) k")
  case (Some x)
  then show ?thesis using release_many [of "is" m 0 k x] assms by simp
qed

lemma release_unmaps:
  assumes "x \<in> set is" "bt_get (locks m) x = Some l" "covers_key l k"
  shows "bt_get (key_to_lock (fold (\<lambda>i m. fst (release_lock i m)) is m)) k = None"
  using assms
proof (induction "is" arbitrary: m l)
  case (Cons i "is")
  show ?case
  proof (cases "i = x")
    case True
    then have "bt_get (key_to_lock (fst (release_lock i m))) k = None" using Cons.prems by (simp add: release_lock_def lookup_keys_removed)
    then show ?thesis using release_keeps_unmapped by simp
  next
    case False
    then have "bt_get (locks (fst (release_lock i m))) x = Some l" using Cons.prems(2)
      by (auto simp: release_lock_def bt_get_insert split: option.splits)
    then show ?thesis using Cons False by simp
  qed
qed simp

lemma exclusive_advance:
  assumes ok: "table_ok m" and ex: "exclusive m"
  shows "exclusive (lm_advance_epoch m)"
proof -
  let ?e = "wrap_add 64 (slm_current_epoch m) 1"
  let ?is = "map fst (filter (\<lambda>(_, l). is_expired l ?e) (locks m))"
  have def: "lm_advance_epoch m = fold (\<lambda>i m. fst (release_lock i m)) ?is (m\<lparr>slm_current_epoch := ?e\<rparr>)"
    by (simp add: lm_advance_epoch_def cleanup_expired_locks_def Let_def)
  have e: "?e < 2 ^ 64" "slm_current_epoch m < 2 ^ 64" "slm_current_epoch m \<noteq> ?e"
    using ok wrap_bounds(1) [of 64] by (simp_all add: table_ok_def wrap_add_def mod_Suc)
  have "bt_get (key_to_lock (lm_advance_epoch m)) k = None" for k
  proof (cases "bt_get (key_to_lock m) k")
    case None
    then show ?thesis unfolding def by (intro release_keeps_unmapped) simp
  next
    case (Some i)
    then obtain l where l: "bt_get (locks m) i = Some l" "lk_status l \<noteq> LockReleased" "covers_key l k" using exclusiveD(2) [OF ex] by blast
    have "lock_ok (slm_current_epoch m) l" using ok l(1) by (auto simp: table_ok_def)
    then have "is_expired l ?e" using expired_iff [OF _ e(2,1)] e(3) l(2) by (auto simp: lock_ok_def)
    then have "i \<in> set ?is" using map_of_SomeD [OF l(1)] by force
    then show ?thesis unfolding def by (rule release_unmaps) (use l in simp_all)
  qed
  then show ?thesis using advance_releases_all [OF ok] unfolding exclusive_def by fastforce
qed

text \<open>
  Runs that use the locks as intended: no shard is registered twice, no lock is taken under the id of a lock that is
  still held, and a transaction releases its locks before they are released for it at an epoch change.
\<close>

fun orderly :: "lock_op \<Rightarrow> CrossShardLockCoordinator \<Rightarrow> bool" where
  "orderly (RegisterShard shard) s = (bt_get (shard_locks s) shard = None)"
| "orderly (AcquireLocks t req) s =
     (bt_wf req \<and> list_all (\<lambda>(shard, i, _). case bt_get (shard_locks s) shard of None \<Rightarrow> True
        | Some m \<Rightarrow> (case bt_get (locks m) i of None \<Rightarrow> True | Some l \<Rightarrow> lk_status l = LockReleased)) req)"
| "orderly (ReleaseLocks t) s =
     (case bt_get (transaction_locks s) t of None \<Rightarrow> True
      | Some is \<Rightarrow> list_all (\<lambda>(_, m). list_all (\<lambda>i. case bt_get (locks m) i of None \<Rightarrow> True | Some l \<Rightarrow> lk_status l \<noteq> LockReleased) is)
          (shard_locks s))"
| "orderly AdvanceEpoch s = True"

primrec orderly_run :: "lock_op list \<Rightarrow> CrossShardLockCoordinator \<Rightarrow> bool" where
  "orderly_run [] s = True"
| "orderly_run (op # ops) s = (orderly op s \<and> orderly_run ops (lc_step op s))"

abbreviation all_exclusive :: "(ShardId, ShardLockManager) btree_map \<Rightarrow> bool" where
  "all_exclusive ms \<equiv> \<forall>shard m. bt_get ms shard = Some m \<longrightarrow> exclusive m"

lemma exclusive_take:
  assumes "tables_ok ms" "all_exclusive ms" "distinct (map fst req)"
    and "\<forall>(shard, i, keys) \<in> set req. \<forall>m l. bt_get ms shard = Some m \<and> bt_get (locks m) i = Some l \<longrightarrow> lk_status l = LockReleased"
  shows "all_exclusive (fst (take_locks t req ms))"
  using assms
proof (induction t req ms rule: take_locks.induct)
  case (2 t shard i keys req ms)
  show ?case
  proof (cases "bt_get ms shard")
    case (Some m)
    obtain m' x where a: "acquire_lock i t keys m = (m', x)" by force
    have ok: "table_ok m" "exclusive m" using 2(2,3) Some by (auto simp: tables_ok_def)
    have "exclusive m'" using exclusive_acquire [OF ok, of i t keys] 2(5) Some a by fastforce
    then have ex': "all_exclusive (bt_insert shard m' ms)" using 2(3) by (simp add: bt_get_insert)
    have ok': "tables_ok (bt_insert shard m' ms)"
      using tables_ok_insert [OF 2(2)] table_ok_acquire [OF ok(1), of i t keys] a by simp
    have rest: "\<forall>(sh, i, keys) \<in> set req. \<forall>m l. bt_get (bt_insert shard m' ms) sh = Some m \<and> bt_get (locks m) i = Some l \<longrightarrow> lk_status l = LockReleased"
      using 2(4,5) by (force simp: bt_get_insert)
    show ?thesis
    proof (cases x)
      case (Ok u)
      then show ?thesis using 2(1) [OF Some a [symmetric] Ok ok' ex' _ rest] 2(4) Some a by simp
    qed (use Some a ex' in simp_all)
  qed (use 2(3) in simp)
qed simp

lemma exclusive_map:
  assumes "all_exclusive ms" "\<And>shard m. bt_get ms shard = Some m \<Longrightarrow> exclusive m \<Longrightarrow> exclusive (f m)"
  shows "all_exclusive (map (\<lambda>(shard, m). (shard, f m)) ms)"
  using assms by (auto simp: map_of_map)

lemma exclusive_step:
  assumes "tables_ok (shard_locks s)" "all_exclusive (shard_locks s)" "orderly op s"
  shows "all_exclusive (shard_locks (lc_step op s))"
proof (cases op)
  case (RegisterShard shard)
  then show ?thesis using assms(2) by (simp add: register_shard_def bt_get_insert exclusive_new)
next
  case (AcquireLocks t req)
  have d: "distinct (map fst req)" using assms(3) AcquireLocks by (auto simp: bt_wf_def strict_sorted_iff)
  have "\<forall>(shard, i, keys) \<in> set req. \<forall>m l. bt_get (shard_locks s) shard = Some m \<and> bt_get (locks m) i = Some l \<longrightarrow> lk_status l = LockReleased"
    using assms(3) AcquireLocks by (auto simp: list_all_iff split: option.splits)
  then have "all_exclusive (fst (take_locks t req (shard_locks s)))" by (rule exclusive_take [OF assms(1,2) d])
  then show ?thesis using assms(2) AcquireLocks by (auto simp: acquire_locks_def split: outcome.splits prod.splits)
next
  case (ReleaseLocks t)
  show ?thesis
  proof (cases "bt_get (transaction_locks s) t")
    case (Some "is")
    have "exclusive (fold (\<lambda>i m. fst (release_lock i m)) is m)" if "bt_get (shard_locks s) shard = Some m" "exclusive m" for shard m
    proof (rule exclusive_release_many [OF that(2)])
      have "list_all (\<lambda>i. case bt_get (locks m) i of None \<Rightarrow> True | Some l \<Rightarrow> lk_status l \<noteq> LockReleased) is"
        using assms(3) ReleaseLocks Some map_of_SomeD [OF that(1)] by (auto simp: list_all_iff)
      then show "\<forall>i \<in> set is. releasable m i" by (auto simp: list_all_iff releasable_def split: option.splits)
    qed
    then have "all_exclusive (map (\<lambda>(shard, m). (shard, fst (release_each is m))) (shard_locks s))"
      by (intro exclusive_map [OF assms(2)]) (simp add: release_each_eq)
    then show ?thesis using ReleaseLocks Some by (simp add: release_transaction_locks_def release_shards_eq)
  qed (use assms(2) ReleaseLocks in \<open>simp add: release_transaction_locks_def\<close>)
next
  case AdvanceEpoch
  have "all_exclusive (map (\<lambda>(shard, m). (shard, lm_advance_epoch m)) (shard_locks s))"
    by (rule exclusive_map [OF assms(2)]) (use assms(1) exclusive_advance in \<open>auto simp: tables_ok_def\<close>)
  then show ?thesis by (simp add: AdvanceEpoch lc_advance_epoch_def)
qed

lemma exclusive_run:
  assumes "tables_ok (shard_locks s)" "all_exclusive (shard_locks s)" "orderly_run ops s"
  shows "all_exclusive (shard_locks (fold lc_step ops s))"
  using assms
proof (induction ops arbitrary: s)
  case (Cons op ops)
  then have step: "orderly op s" "orderly_run ops (lc_step op s)" by simp_all
  show ?case unfolding fold_simps
    by (rule Cons.IH [OF tables_ok_step [OF Cons.prems(1)] exclusive_step [OF Cons.prems(1,2) step(1)] step(2)])
qed simp

lemma orderly_prefix: "orderly_run (ops @ ops') s \<Longrightarrow> orderly_run ops s"
  by (induction ops arbitrary: s) simp_all

section \<open>Requests\<close>

text \<open>The keys a request asks for are all writable, on registered shards: what the first pass checks.\<close>

definition requestable :: "CrossShardLockCoordinator \<Rightarrow> lock_request \<Rightarrow> bool" where
  "requestable s req \<longleftrightarrow> (\<forall>(shard, i, keys) \<in> set req. \<exists>m. bt_get (shard_locks s) shard = Some m \<and>
     (\<forall>k \<in> set keys. is_key_writable m k))"

lemma available_iff:
  "check_all (locks_available (shard_locks s)) req = Ok () \<longleftrightarrow> requestable s req"
  "check_all (locks_available (shard_locks s)) req \<noteq> Panic"
proof -
  have one: "locks_available (shard_locks s) (shard, i, keys) = Ok () \<longleftrightarrow>
      (\<exists>m. bt_get (shard_locks s) shard = Some m \<and> (\<forall>k \<in> set keys. is_key_writable m k))" for shard i keys
    by (auto simp: locks_available_def check_all_Ok split: option.splits if_splits)
  show "check_all (locks_available (shard_locks s)) req = Ok () \<longleftrightarrow> requestable s req"
    using one by (auto simp: check_all_Ok requestable_def)
  show "check_all (locks_available (shard_locks s)) req \<noteq> Panic"
  proof (rule check_all_not_Panic)
    fix r :: "ShardId \<times> StateLockId \<times> bytes list"
    obtain shard i keys where r: "r = (shard, i, keys)" by (cases r) auto
    show "locks_available (shard_locks s) r \<noteq> Panic"
    proof (cases "bt_get (shard_locks s) shard")
      case None
      then show ?thesis by (simp add: r locks_available_def)
    next
      case (Some m)
      then show ?thesis by (simp add: r locks_available_def check_all_not_Panic)
    qed
  qed
qed

lemma acquire_granted:
  assumes ok: "tables_ok (shard_locks s)" and wf: "bt_wf req" and free: "requestable s req"
  shows "\<exists>s'. acquire_locks t req s = (s', Ok ()) \<and>
    (\<forall>(shard, i, keys) \<in> set req. \<exists>m'. bt_get (shard_locks s') shard = Some m' \<and>
       (\<forall>k \<in> set keys. \<exists>l. get_lock_for_key m' k = Some l \<and> lk_transaction_id l = t \<and> lk_status l = LockActive))"
proof -
  have a: "check_all (locks_available (shard_locks s)) req = Ok ()" using free available_iff(1) by blast
  have d: "distinct (map fst req)" using wf by (auto simp: bt_wf_def strict_sorted_iff)
  obtain ms where ms: "take_locks t req (shard_locks s) = (ms, Ok ())"
    "\<forall>(shard, i, keys) \<in> set req. \<exists>m'. bt_get ms shard = Some m' \<and>
       (\<forall>k \<in> set keys. \<exists>l. get_lock_for_key m' k = Some l \<and> lk_transaction_id l = t \<and> lk_status l = LockActive)"
    using take_locks_Ok [OF ok d a [unfolded check_all_Ok], of t] by blast
  have "\<exists>s'. acquire_locks t req s = (s', Ok ()) \<and> shard_locks s' = ms"
    by (simp add: acquire_locks_def a ms(1))
  with ms(2) show ?thesis by blast
qed

lemma acquire_refused: "\<not> requestable s req \<Longrightarrow> \<exists>e. acquire_locks t req s = (s, Err e)"
  using available_iff [of s req] by (cases "check_all (locks_available (shard_locks s)) req")
    (auto simp: acquire_locks_def)

text \<open>The keys a request asks for are held by nobody, on registered shards.\<close>

definition unheld_request :: "CrossShardLockCoordinator \<Rightarrow> lock_request \<Rightarrow> bool" where
  "unheld_request s req \<longleftrightarrow> (\<forall>(shard, i, keys) \<in> set req. \<exists>m. bt_get (shard_locks s) shard = Some m \<and>
     (\<forall>k \<in> set keys. holders m k = {}))"

lemma orderly_exclusive: "orderly_run ops lock_coordinator_new \<Longrightarrow> all_exclusive (shard_locks (fold lc_step ops lock_coordinator_new))"
  by (rule exclusive_run) (simp_all add: tables_ok_def)

lemma requestable_unheld:
  assumes "tables_ok (shard_locks s)" "all_exclusive (shard_locks s)"
  shows "requestable s req \<longleftrightarrow> unheld_request s req"
proof -
  have "is_key_writable m k \<longleftrightarrow> holders m k = {}" if "bt_get (shard_locks s) shard = Some m" for shard m k
    by (rule writable_unheld) (use assms that in \<open>auto simp: tables_ok_def\<close>)
  then show ?thesis unfolding requestable_def unheld_request_def by (auto; fastforce)
qed

section \<open>Properties\<close>

text \<open>C20: locking is all or nothing across shards.  In every state the coordinator can reach, a request either is
  granted, and then every key of it is held by an active lock of the requesting transaction, or returns an error and
  no shard has changed; the table lookups of the second pass never panic.  In an orderly run (no shard registered twice,
  no lock taken under the id of a lock still held, no lock released after an epoch change has released it) the
  request is granted exactly when no lock that is not released covers any of its keys on a registered shard, and then
  each key is covered by exactly one such lock, the new one.\<close>

theorem acquire_all_or_nothing:
  assumes "s = fold lc_step ops lock_coordinator_new" "bt_wf req"
  shows "((\<exists>s'. acquire_locks t req s = (s', Ok ()) \<and>
        (\<forall>(shard, i, keys) \<in> set req. \<exists>m'. bt_get (shard_locks s') shard = Some m' \<and>
           (\<forall>k \<in> set keys. \<exists>l. get_lock_for_key m' k = Some l \<and> lk_transaction_id l = t \<and> lk_status l = LockActive))) \<or>
      (\<exists>e. acquire_locks t req s = (s, Err e))) \<and>
    (orderly_run (ops @ [AcquireLocks t req]) lock_coordinator_new \<longrightarrow>
      (if unheld_request s req
       then \<exists>s'. acquire_locks t req s = (s', Ok ()) \<and>
         (\<forall>(shard, i, keys) \<in> set req. \<exists>m'. bt_get (shard_locks s') shard = Some m' \<and>
            (\<forall>k \<in> set keys. \<exists>l. holders m' k = {l} \<and> lk_transaction_id l = t \<and> lk_status l = LockActive))
       else \<exists>e. acquire_locks t req s = (s, Err e)))"
proof -
  have ok: "tables_ok (shard_locks s)" unfolding assms(1) by (rule tables_ok_run)
  note granted = acquire_granted [OF ok assms(2)] and refused = acquire_refused [of s req t]
  have "if unheld_request s req
       then \<exists>s'. acquire_locks t req s = (s', Ok ()) \<and>
         (\<forall>(shard, i, keys) \<in> set req. \<exists>m'. bt_get (shard_locks s') shard = Some m' \<and>
            (\<forall>k \<in> set keys. \<exists>l. holders m' k = {l} \<and> lk_transaction_id l = t \<and> lk_status l = LockActive))
       else \<exists>e. acquire_locks t req s = (s, Err e)"
    if run: "orderly_run (ops @ [AcquireLocks t req]) lock_coordinator_new"
  proof (cases "requestable s req")
    case True
    have ex: "all_exclusive (shard_locks s)" "all_exclusive (shard_locks (lc_step (AcquireLocks t req) s))"
      using orderly_exclusive [OF orderly_prefix [OF run]] orderly_exclusive [OF run] by (simp_all add: assms(1))
    obtain s' where s': "acquire_locks t req s = (s', Ok ())"
      "\<forall>(shard, i, keys) \<in> set req. \<exists>m'. bt_get (shard_locks s') shard = Some m' \<and>
         (\<forall>k \<in> set keys. \<exists>l. get_lock_for_key m' k = Some l \<and> lk_transaction_id l = t \<and> lk_status l = LockActive)"
      using granted [OF True, of t] by blast
    have ok': "tables_ok (shard_locks s')" using tables_ok_step [OF ok, of "AcquireLocks t req"] s'(1) by simp
    have one: "holders m k = {l}" if "bt_get (shard_locks s') shard = Some m" "get_lock_for_key m k = Some l" for shard m k l
      using holders_index [of m k] that ok' ex(2) s'(1) by (auto simp: tables_ok_def)
    have "\<forall>(shard, i, keys) \<in> set req. \<exists>m'. bt_get (shard_locks s') shard = Some m' \<and>
         (\<forall>k \<in> set keys. \<exists>l. holders m' k = {l} \<and> lk_transaction_id l = t \<and> lk_status l = LockActive)"
      using s'(2) one by fast
    then show ?thesis using s'(1) True requestable_unheld [OF ok ex(1)] by auto
  next
    case False
    then show ?thesis using refused requestable_unheld [OF ok] orderly_exclusive [OF orderly_prefix [OF run]] by (simp add: assms(1))
  qed
  then show ?thesis using granted [of t] refused by blast
qed

theorem acquire_all_or_nothing_witness:
  "\<exists>s'. acquire_locks [2] [(4, 9, [[7]])] (fold lc_step [RegisterShard 4] lock_coordinator_new) = (s', Ok ()) \<and>
     (\<exists>m' l. bt_get (shard_locks s') 4 = Some m' \<and> holders m' [7] = {l} \<and> lk_transaction_id l = [2])"
proof -
  let ?s = "fold lc_step [RegisterShard 4] lock_coordinator_new"
  have wf: "bt_wf [(4 :: ShardId, 9 :: StateLockId, [[7 :: nat]])]" by (simp add: bt_wf_def)
  have free: "unheld_request ?s [(4, 9, [[7]])]" by (simp add: unheld_request_def register_shard_def holders_def)
  have run: "orderly_run ([RegisterShard 4] @ [AcquireLocks [2] [(4, 9, [[7]])]]) lock_coordinator_new"
    by (simp add: register_shard_def wf)
  from mp [OF conjunct2 [OF acquire_all_or_nothing [OF refl wf, where ops = "[RegisterShard 4]" and t = "[2]"]] run]
  show ?thesis unfolding if_P [OF free] by auto
qed

text \<open>C31: no lock outlives its epoch.  In every state the coordinator can reach, after
  `advance_epoch` every key is writable on every shard, also when the 64-bit epoch counter wraps:
  a transaction that never releases cannot block a key for good.\<close>

theorem epoch_frees_every_key:
  assumes "bt_get (shard_locks (lc_advance_epoch (fold lc_step ops lock_coordinator_new))) shard = Some m"
  shows "is_key_writable m k"
proof -
  obtain m0 where "bt_get (shard_locks (fold lc_step ops lock_coordinator_new)) shard = Some m0"
      "m = lm_advance_epoch m0"
    using assms by (auto simp: lc_advance_epoch_def map_of_map)
  then show ?thesis using tables_ok_run [of ops] advance_frees_keys by (auto simp: tables_ok_def)
qed

theorem epoch_frees_every_key_witness:
  "\<forall>k. is_key_writable (the (bt_get (shard_locks (lc_advance_epoch
     (fold lc_step [RegisterShard 4, AcquireLocks [2] [(4, 9, [[7]])]] lock_coordinator_new))) 4)) k"
proof -
  have "bt_get (shard_locks (lc_advance_epoch
     (fold lc_step [RegisterShard 4, AcquireLocks [2] [(4, 9, [[7]])]] lock_coordinator_new))) 4 \<noteq> None"
    by (simp add: lc_advance_epoch_def register_shard_def
        is_key_writable_def get_lock_for_key_def acquire_locks_def locks_available_def acquire_lock_def
        key_conflict_def)
  then obtain m where m: "bt_get (shard_locks (lc_advance_epoch
     (fold lc_step [RegisterShard 4, AcquireLocks [2] [(4, 9, [[7]])]] lock_coordinator_new))) 4 = Some m"
    by blast
  show ?thesis unfolding m option.sel using epoch_frees_every_key [OF m] by (rule allI)
qed

text \<open>A late release takes away somebody else's lock.  Transaction A locks a key, its lock
  expires at the epoch change, B locks the key, and then A releases: `release_lock` removes the key
  mapping without looking whose it is.  C is then granted the key as well, so B and C both hold an
  active lock on it in the same epoch.\<close>

theorem late_release_breaks_exclusion:
  "let s = fold lc_step
      [RegisterShard 4, AcquireLocks [10] [(4, 20, [[7]])], AdvanceEpoch,
       AcquireLocks [11] [(4, 21, [[7]])], ReleaseLocks [10]] lock_coordinator_new;
     (s', x) = acquire_locks [12] [(4, 22, [[7]])] s;
     m = the (bt_get (shard_locks s') 4);
     b = the (bt_get (locks m) 21); c = the (bt_get (locks m) 22)
   in x = Ok () \<and> lk_status b = LockActive \<and> lk_status c = LockActive \<and> acquired_epoch b = acquired_epoch c \<and>
      covers_key b [7] \<and> covers_key c [7] \<and> lk_transaction_id b \<noteq> lk_transaction_id c"
  by (simp add: lc_advance_epoch_def register_shard_def
        is_key_writable_def get_lock_for_key_def acquire_locks_def locks_available_def acquire_lock_def
        key_conflict_def StateLock_new_def release_transaction_locks_def release_lock_def lock_release_def
        is_expired_def lm_advance_epoch_def cleanup_expired_locks_def bs_from_def Let_def
        wrap_add_def wrap_sub_def bt_remove_def bt_contains_get)

end
