(* ===== verification/StateMerkle.thy ===== *)
theory StateMerkle
  imports Crypto
begin

text \<open>
  The sparse Merkle trie over the account state (\<open>crates/bleep-state/src/state_merkle.rs\<close>): leaves keyed
  by the 256-bit digest of an address, a root computed level by level in hash maps keyed by masked
  paths, a cache of every interior node, and inclusion and exclusion proofs read from that cache.

  The reference is the recursive trie \<open>node\<close> over bit strings.  The lemmas show that the byte masks
  of the source select the bit prefixes they mean to, that the level maps and the cache hold exactly
  the nodes of the reference trie, that every proof the trie generates verifies, and that a proof
  that verifies carries the leaf stored for its account, or the sentinel if there is none, unless two named inputs collide or one of them
  hashes to the all-zero sentinel.
\<close>

unbundle bit_operations_syntax

section \<open>Leaves, paths and nodes\<close>

definition EMPTY :: bytes where "EMPTY = replicate 32 0"
definition TRIE_DEPTH :: usize where "TRIE_DEPTH = 256"

definition leaf_hash :: "crypto_env \<Rightarrow> string \<Rightarrow> u128 \<Rightarrow> u64 \<Rightarrow> bytes" where
  "leaf_hash c address balance nonce =
     blake3_256 c (str_bytes address @ to_le_bytes 16 balance @ to_le_bytes 8 nonce)"

definition key_to_path :: "crypto_env \<Rightarrow> string \<Rightarrow> bytes" where
  "key_to_path c address = blake3_256 c (str_bytes address)"

definition bit_at :: "bytes \<Rightarrow> usize \<Rightarrow> u8" where
  "bit_at path depth = drop_bit (7 - depth mod 8) (path ! (depth div 8)) AND 1"

definition interior_hash :: "crypto_env \<Rightarrow> bytes \<Rightarrow> bytes \<Rightarrow> bytes" where
  "interior_hash c left right = blake3_256 c (left @ right)"

section \<open>The trie\<close>

record SparseMerkleTrie =
  leaves :: "(bytes, bytes) btree_map"
  cached_root :: "bytes option"
  interior_cache :: "(usize \<times> bytes, bytes) btree_map"

definition smt_new :: SparseMerkleTrie where
  "smt_new = \<lparr>leaves = [], cached_root = None, interior_cache = []\<rparr>"

definition invalidate_caches :: "SparseMerkleTrie \<Rightarrow> SparseMerkleTrie" where
  "invalidate_caches t = t\<lparr>cached_root := None, interior_cache := []\<rparr>"

definition smt_insert :: "crypto_env \<Rightarrow> string \<Rightarrow> u128 \<Rightarrow> u64 \<Rightarrow> SparseMerkleTrie \<Rightarrow> SparseMerkleTrie" where
  "smt_insert c address balance nonce t =
     (let path = key_to_path c address; lh = leaf_hash c address balance nonce in
      invalidate_caches (t\<lparr>leaves := bt_insert path lh (leaves t)\<rparr>))"

definition smt_remove :: "crypto_env \<Rightarrow> string \<Rightarrow> SparseMerkleTrie \<Rightarrow> SparseMerkleTrie" where
  "smt_remove c address t =
     (let path = key_to_path c address in invalidate_caches (t\<lparr>leaves := bt_remove path (leaves t)\<rparr>))"

text \<open>The first \<open>depth\<close> bits of a path, zeros after them.\<close>

definition masked :: "bytes \<Rightarrow> usize \<Rightarrow> bytes" where
  "masked path depth =
     (let byte = depth div 8; bt = depth mod 8 in
      if byte < 32 then
        (let result = (if bt \<noteq> 0 then path[byte := (path ! byte) AND cast 8 (push_bit (8 - bt) 255)] else path);
             k = byte + (if bt \<noteq> 0 then 1 else 0)
         in take k result @ replicate (length result - k) 0)
      else path)"

text \<open>One entry of a level is written to its parent's slot; then every parent is hashed and recorded.\<close>

definition add_child ::
  "usize \<Rightarrow> bytes \<times> bytes \<Rightarrow> (bytes, bytes \<times> bytes) btree_map \<Rightarrow> (bytes, bytes \<times> bytes) btree_map" where
  "add_child depth entry parents =
     (case entry of (path, hash) \<Rightarrow>
        (let parent = masked path depth; (l, r) = bt_get_or parents parent (EMPTY, EMPTY) in
         bt_insert parent (if bit_at path depth = 0 then (hash, r) else (l, hash)) parents))"

definition record_level ::
  "usize \<Rightarrow> (bytes, bytes) btree_map \<Rightarrow> (usize \<times> bytes, bytes) btree_map \<Rightarrow> (usize \<times> bytes, bytes) btree_map" where
  "record_level depth level cache = fold (\<lambda>(path, hash). bt_insert (depth, path) hash) level cache"

definition level_up ::
  "crypto_env \<Rightarrow> usize \<Rightarrow> (bytes, bytes) btree_map \<times> (usize \<times> bytes, bytes) btree_map \<Rightarrow>
   (bytes, bytes) btree_map \<times> (usize \<times> bytes, bytes) btree_map" where
  "level_up c depth s =
     (case s of (level, cache) \<Rightarrow>
        (let parents = fold (add_child depth) level [];
             level' = map (\<lambda>(path, l, r). (path, interior_hash c l r)) parents
         in (level', record_level depth level' cache)))"

definition compute_root_with_cache :: "crypto_env \<Rightarrow> SparseMerkleTrie \<Rightarrow> SparseMerkleTrie \<times> bytes" where
  "compute_root_with_cache c t =
     (if leaves t = [] then (t, EMPTY)
      else
        (let (level, cache) = fold (level_up c) (rev [0..<TRIE_DEPTH])
               (leaves t, record_level TRIE_DEPTH (leaves t) (interior_cache t))
         in (t\<lparr>interior_cache := cache\<rparr>, bt_get_or level (replicate 32 0) EMPTY)))"

definition smt_root :: "crypto_env \<Rightarrow> SparseMerkleTrie \<Rightarrow> SparseMerkleTrie \<times> bytes" where
  "smt_root c t =
     (case cached_root t of
        Some r \<Rightarrow> (t, r)
      | None \<Rightarrow>
          (let (t', r) = compute_root_with_cache c (t\<lparr>interior_cache := []\<rparr>) in
           (t'\<lparr>cached_root := Some r\<rparr>, r)))"

section \<open>Proofs\<close>

record ProofNode =
  sibling :: bytes
  is_right :: bool

record MerkleProof =
  mp_address :: string
  mp_exists :: bool
  mp_leaf :: bytes
  mp_path :: "ProofNode list"
  mp_root :: bytes

text \<open>The representative path of the sibling subtree below \<open>depth\<close>.\<close>

definition sib_rep :: "bytes \<Rightarrow> usize \<Rightarrow> bytes" where
  "sib_rep key_path depth =
     (let my_bit = bit_at key_path depth;
          byte_idx = depth div 8;
          bit_in_byte = 7 - depth mod 8;
          zeroed = take (byte_idx + 1) key_path @ replicate (length key_path - (byte_idx + 1)) 0;
          keep_mask = (if bit_in_byte = 7 then 0 else cast 8 (push_bit (bit_in_byte + 1) 255));
          sib_bit = (if my_bit = 0 then push_bit bit_in_byte 1 else 0)
      in zeroed[byte_idx := ((zeroed ! byte_idx) AND keep_mask) OR sib_bit])"

definition by_depth :: "(usize \<times> bytes, bytes) btree_map \<Rightarrow> usize \<Rightarrow> (bytes \<times> bytes) list" where
  "by_depth cache depth = map (\<lambda>((d, p), h). (p, h)) (filter (\<lambda>((d, p), h). d = depth) cache)"

definition proof_node :: "(usize \<times> bytes, bytes) btree_map \<Rightarrow> bytes \<Rightarrow> usize \<Rightarrow> ProofNode" where
  "proof_node cache key_path depth =
     \<lparr>sibling =
        (case find (\<lambda>(p, _). p = sib_rep key_path depth) (by_depth cache (depth + 1)) of
           None \<Rightarrow> EMPTY | Some (_, h) \<Rightarrow> h),
      is_right = (bit_at key_path depth = 1)\<rparr>"

definition prove :: "crypto_env \<Rightarrow> string \<Rightarrow> SparseMerkleTrie \<Rightarrow> SparseMerkleTrie \<times> MerkleProof" where
  "prove c address t =
     (let (t', r) = smt_root c t;
          key_path = key_to_path c address
      in (t', \<lparr>mp_address = address, mp_exists = bt_contains (leaves t') key_path,
               mp_leaf = (case bt_get (leaves t') key_path of None \<Rightarrow> EMPTY | Some h \<Rightarrow> h),
               mp_path = map (proof_node (interior_cache t') key_path) (rev [0..<TRIE_DEPTH]),
               mp_root = r\<rparr>))"

text \<open>One level of the recomputation of the root from a proof.\<close>

definition verify_step :: "crypto_env \<Rightarrow> bytes \<Rightarrow> usize \<times> ProofNode \<Rightarrow> bytes \<Rightarrow> bytes" where
  "verify_step c key_path entry current =
     (case entry of (depth_rev, n) \<Rightarrow>
        (let depth = TRIE_DEPTH - 1 - depth_rev in
         if current = EMPTY \<and> sibling n = EMPTY then EMPTY
         else if bit_at key_path depth = 0 then interior_hash c current (sibling n)
         else interior_hash c (sibling n) current))"

definition MerkleProof_verify :: "crypto_env \<Rightarrow> MerkleProof \<Rightarrow> bytes \<Rightarrow> bool" where
  "MerkleProof_verify c p expected_root \<longleftrightarrow>
     (if length (mp_path p) \<noteq> TRIE_DEPTH then False
      else
        (let key_path = key_to_path c (mp_address p);
             current = (if mp_exists p then mp_leaf p else EMPTY)
         in fold (verify_step c key_path) (enumerate 0 (mp_path p)) current = expected_root))"

definition smt_verify_proof :: "crypto_env \<Rightarrow> MerkleProof \<Rightarrow> SparseMerkleTrie \<Rightarrow> SparseMerkleTrie \<times> bool" where
  "smt_verify_proof c p t = (let (t', r) = smt_root c t in (t', MerkleProof_verify c p r))"

definition load_from :: "crypto_env \<Rightarrow> (string \<times> u128 \<times> u64) list \<Rightarrow> SparseMerkleTrie \<Rightarrow> SparseMerkleTrie" where
  "load_from c accounts t = fold (\<lambda>(addr, bal, nonce). smt_insert c addr bal nonce) accounts t"

abbreviation smt_len :: "SparseMerkleTrie \<Rightarrow> usize" where
  "smt_len t \<equiv> length (leaves t)"

abbreviation smt_is_empty :: "SparseMerkleTrie \<Rightarrow> bool" where
  "smt_is_empty t \<equiv> leaves t = []"

section \<open>The legacy list root\<close>

fun next_hashes :: "crypto_env \<Rightarrow> bytes list \<Rightarrow> bytes list" where
  "next_hashes c [] = []"
| "next_hashes c [h] = [interior_hash c h h]"
| "next_hashes c (h # h' # hs) = interior_hash c h h' # next_hashes c hs"

lemma length_next_hashes: "length (next_hashes c hs) = (length hs + 1) div 2"
  by (induction c hs rule: next_hashes.induct) auto

function hashes_up :: "crypto_env \<Rightarrow> bytes list \<Rightarrow> bytes list" where
  "hashes_up c hs = (if length hs > 1 then hashes_up c (next_hashes c hs) else hs)"
  by pat_completeness auto
termination
  by (relation "measure (\<lambda>(c, hs). length hs)") (auto simp: length_next_hashes)

declare hashes_up.simps [simp del]

definition calculate_merkle_root :: "crypto_env \<Rightarrow> bytes list \<Rightarrow> string" where
  "calculate_merkle_root c items =
     (if items = [] then hex_encode c EMPTY
      else hex_encode c (hd (hashes_up c (map (blake3_256 c) items))))"

section \<open>Byte masks select bit prefixes\<close>

definition is_path :: "bytes \<Rightarrow> bool" where
  "is_path p \<longleftrightarrow> length p = 32 \<and> is_bytes p"

definition path_bit :: "bytes \<Rightarrow> nat \<Rightarrow> bool" where
  "path_bit p i = bit (p ! (i div 8)) (7 - i mod 8)"

definition bits :: "bytes \<Rightarrow> bool list" where
  "bits p = map (path_bit p) [0..<256]"

lemma bit_at_eq: "bit_at p i = of_bool (path_bit p i)"
  by (simp add: bit_at_def path_bit_def and_one_eq bit_iff_odd_drop_bit mod_2_eq_odd)

lemma length_bits [simp]: "length (bits p) = 256"
  by (simp add: bits_def)

lemma nth_bits [simp]: "i < 256 \<Longrightarrow> bits p ! i = path_bit p i"
  by (simp add: bits_def)

lemma byte_bit: "x < 256 \<Longrightarrow> bit (x :: nat) n \<longleftrightarrow> n < 8 \<and> bit x n"
  using bit_take_bit_iff [of 8 x n] by (simp add: take_bit_nat_eq_self)

lemma is_path_nth: "is_path p \<Longrightarrow> j < 32 \<Longrightarrow> p ! j < 256"
  by (auto simp: is_path_def is_bytes_def list_all_length)

lemma path_bit_nth: "j < 32 \<Longrightarrow> n < 8 \<Longrightarrow> path_bit p (8 * j + (7 - n)) = bit (p ! j) n"
proof -
  assume n: "n < 8"
  have "(8 * j + m) div 8 = j" "(8 * j + m) mod 8 = m" if "m < 8" for m using that by auto
  from this [of "7 - n"] n show ?thesis by (simp add: path_bit_def)
qed

lemma bits_inj:
  assumes "is_path p" "is_path q"
  shows "bits p = bits q \<longleftrightarrow> p = q"
proof
  assume eq: "bits p = bits q"
  show "p = q"
  proof (rule nth_equalityI)
    show "length p = length q" using assms by (simp add: is_path_def)
    fix j assume "j < length p"
    then have j: "j < 32" using assms by (simp add: is_path_def)
    have "bit (p ! j) n \<longleftrightarrow> bit (q ! j) n" if n: "n < 8" for n
    proof -
      have "8 * j + (7 - n) < 256" using j by simp
      then have "path_bit p (8 * j + (7 - n)) = path_bit q (8 * j + (7 - n))"
        using eq nth_bits by metis
      then show ?thesis using path_bit_nth [OF j n] by simp
    qed
    then have "bit (p ! j) n \<longleftrightarrow> bit (q ! j) n" for n
      using byte_bit [of "p ! j" n] byte_bit [of "q ! j" n] is_path_nth [OF assms(1) j] is_path_nth [OF assms(2) j] by blast
    then show "p ! j = q ! j" by (simp add: bit_eq_iff)
  qed
qed simp

lemma bits_eqI:
  assumes "\<And>i. i < 256 \<Longrightarrow> path_bit p i = xs ! i" "length xs = 256"
  shows "bits p = xs"
  by (rule nth_equalityI) (use assms in simp_all)

lemma mask_bit: "n < 8 \<Longrightarrow> k \<le> 8 \<Longrightarrow> bit (cast 8 (push_bit k 255)) n \<longleftrightarrow> k \<le> n"
proof -
  assume n: "n < 8"
  have "(255 :: nat) = mask 8" by (simp add: mask_eq_exp_minus_1)
  then have "cast 8 (push_bit k 255) = take_bit 8 (push_bit k (mask 8))" by (simp add: cast_def take_bit_eq_mod)
  then show ?thesis using n by (auto simp: bit_take_bit_iff bit_push_bit_iff bit_mask_iff)
qed

lemma and_byte: "x < 256 \<Longrightarrow> (x :: nat) AND y < 256"
proof -
  assume x: "x < 256"
  have "take_bit 8 (x AND y) = x AND y"
    by (rule bit_eqI) (use byte_bit [OF x] in \<open>auto simp: bit_take_bit_iff bit_and_iff\<close>)
  then show ?thesis using take_bit_nat_less_exp [of 8 "x AND y"] by simp
qed

lemma or_byte:
  assumes x: "x < 256" and y: "y < 256"
  shows "(x :: nat) OR y < 256"
proof -
  have "take_bit 8 (x OR y) = x OR y"
    by (rule bit_eqI) (use byte_bit [OF x] byte_bit [OF y] in \<open>auto simp: bit_take_bit_iff bit_or_iff\<close>)
  then show ?thesis using take_bit_nat_less_exp [of 8 "x OR y"] by simp
qed

lemma masked_path:
  assumes "is_path p"
  shows "is_path (masked p d)"
proof (cases "d div 8 < 32")
  case True
  then have "p ! (d div 8) < 256" using is_path_nth assms by blast
  then show ?thesis
    using assms True
    by (auto simp: masked_def Let_def is_path_def is_bytes_def list_all_iff and_byte
        dest!: in_set_takeD set_update_subset_insert [THEN subsetD])
next
  case False
  then show ?thesis using assms by (simp add: masked_def)
qed

lemma masked_bit:
  assumes "is_path p" "i < 256"
  shows "path_bit (masked p d) i \<longleftrightarrow> i < d \<and> path_bit p i"
proof (cases "d div 8 < 32")
  case False
  then have "256 \<le> d" by simp
  then show ?thesis using assms False by (simp add: masked_def)
next
  case True
  have len: "length p = 32" using assms by (simp add: is_path_def)
  consider "i div 8 < d div 8" | "i div 8 = d div 8" "d mod 8 = 0" | "i div 8 = d div 8" "d mod 8 \<noteq> 0" | "d div 8 < i div 8"
    by linarith
  then show ?thesis
  proof cases
    case 1
    then have "i < d" by (meson div_le_mono leD linorder_le_less_linear)
    then show ?thesis using 1 True len by (auto simp: masked_def Let_def path_bit_def nth_append)
  next
    case 2
    then have "\<not> i < d" by (metis div_mult_mod_eq add.right_neutral div_times_less_eq_dividend leD)
    then show ?thesis using 2 True len by (auto simp: masked_def Let_def path_bit_def nth_append)
  next
    case 3
    have "i < d \<longleftrightarrow> i mod 8 < d mod 8"
      using 3(1) by (metis add_less_cancel_left div_mult_mod_eq)
    moreover have "bit (cast 8 (push_bit (8 - d mod 8) 255)) (7 - i mod 8) \<longleftrightarrow> 8 - d mod 8 \<le> 7 - i mod 8"
      by (rule mask_bit) auto
    moreover have "8 - d mod 8 \<le> 7 - i mod 8 \<longleftrightarrow> i mod 8 < d mod 8"
      using 3(2) mod_less_divisor [of 8 i] mod_less_divisor [of 8 d] by linarith
    ultimately show ?thesis using 3 True len by (auto simp: masked_def Let_def path_bit_def nth_append bit_and_iff)
  next
    case 4
    then have "\<not> i < d" by (meson div_le_mono leD nat_less_le)
    then show ?thesis using 4 True len assms(2) by (auto simp: masked_def Let_def path_bit_def nth_append less_mult_imp_div_less)
  qed
qed

lemma bits_masked:
  assumes "is_path p" "d \<le> 256"
  shows "bits (masked p d) = take d (bits p) @ replicate (256 - d) False"
  by (rule bits_eqI) (use assms masked_bit in \<open>auto simp: nth_append\<close>)

text \<open>The byte of the sibling path that holds its last significant bit.\<close>

lemma sib_byte_bit:
  assumes "i mod 8 = m" "n = d mod 8" "x = (if bit_at p d = 0 then push_bit (7 - n) 1 else 0)"
  shows "bit ((b AND (if 7 - n = 7 then 0 else cast 8 (push_bit (7 - n + 1) 255))) OR x) (7 - m) \<longleftrightarrow>
    (m < n \<and> bit b (7 - m) \<or> m = n \<and> \<not> path_bit p d)"
proof -
  have mn: "m < 8" "n < 8" using assms by auto
  have keep: "(if 7 - n = 7 then 0 else cast 8 (push_bit (7 - n + 1) 255)) = cast 8 (push_bit (7 - n + 1) 255)"
    by (simp add: cast_def push_bit_eq_mult)
  have "bit (cast 8 (push_bit (7 - n + 1) 255)) (7 - m) \<longleftrightarrow> 7 - n + 1 \<le> 7 - m"
    by (rule mask_bit) auto
  moreover have "7 - n + 1 \<le> 7 - m \<longleftrightarrow> m < n" using mn by linarith
  moreover have "bit x (7 - m) \<longleftrightarrow> m = n \<and> \<not> path_bit p d"
    using mn assms(3) by (auto simp: bit_at_eq bit_exp_iff)
  ultimately show ?thesis unfolding keep by (auto simp: bit_and_iff bit_or_iff)
qed

lemma sib_path:
  assumes "is_path p" "d < 256"
  shows "is_path (sib_rep p d)"
proof -
  have len: "length p = 32" and d: "d div 8 < 32" using assms by (auto simp: is_path_def)
  have b: "p ! (d div 8) < 256" using is_path_nth assms(1) d by blast
  have x: "(if bit_at p d = 0 then push_bit (7 - d mod 8) 1 else 0) < (256 :: nat)"
  proof -
    have "7 - d mod 8 < (8 :: nat)" by linarith
    then have "(2 :: nat) ^ (7 - d mod 8) < 2 ^ 8" by (rule power_strict_increasing) simp
    then show ?thesis by (simp add: push_bit_eq_mult)
  qed
  show ?thesis
    using assms(1) and_byte [OF b] or_byte [OF _ x] d len
    by (auto simp: sib_rep_def Let_def is_path_def is_bytes_def list_all_iff nth_append
        dest!: in_set_takeD set_update_subset_insert [THEN subsetD])
qed

lemma sib_bit:
  assumes "is_path p" "d < 256" "i < 256"
  shows "path_bit (sib_rep p d) i \<longleftrightarrow> i < d \<and> path_bit p i \<or> i = d \<and> \<not> path_bit p d"
proof -
  have len: "length p = 32" and d: "d div 8 < 32" "i div 8 < 32" using assms by (auto simp: is_path_def)
  consider "i div 8 < d div 8" | "i div 8 = d div 8" | "d div 8 < i div 8"
    by linarith
  then show ?thesis
  proof cases
    case 1
    then have "i < d" by (meson div_le_mono leD linorder_le_less_linear)
    then show ?thesis using 1 d len by (auto simp: sib_rep_def Let_def path_bit_def nth_append)
  next
    case 2
    then have "i < d \<longleftrightarrow> i mod 8 < d mod 8" "i = d \<longleftrightarrow> i mod 8 = d mod 8"
      by (metis add_less_cancel_left div_mult_mod_eq, metis div_mult_mod_eq)
    then show ?thesis
      using sib_byte_bit [OF refl refl refl, of "p ! (d div 8)" d p i] 2 d len
      by (simp add: sib_rep_def Let_def path_bit_def [of _ i] nth_append)
  next
    case 3
    then have "d < i" by (meson div_le_mono leD linorder_le_less_linear)
    then show ?thesis using 3 d len by (auto simp: sib_rep_def Let_def path_bit_def nth_append)
  qed
qed

lemma bits_sib:
  assumes "is_path p" "d < 256"
  shows "bits (sib_rep p d) = take d (bits p) @ (\<not> path_bit p d) # replicate (255 - d) False"
  by (rule bits_eqI) (use assms sib_bit in \<open>auto simp: nth_append nth_Cons'\<close>)

section \<open>The reference trie\<close>

text \<open>
  A trie of the given height over the leaves \<open>f\<close>, which maps bit strings of that length to leaf
  hashes.  A subtree without leaves has no hash; where one is needed it is the sentinel.
\<close>

definition hash_or_empty :: "bytes option \<Rightarrow> bytes" where
  "hash_or_empty x = (case x of None \<Rightarrow> EMPTY | Some h \<Rightarrow> h)"

definition join :: "crypto_env \<Rightarrow> bytes option \<Rightarrow> bytes option \<Rightarrow> bytes option" where
  "join c l r = (if l = None \<and> r = None then None
     else Some (interior_hash c (hash_or_empty l) (hash_or_empty r)))"

fun node :: "crypto_env \<Rightarrow> nat \<Rightarrow> (bool list \<Rightarrow> bytes option) \<Rightarrow> bytes option" where
  "node c 0 f = f []"
| "node c (Suc h) f = join c (node c h (\<lambda>b. f (False # b))) (node c h (\<lambda>b. f (True # b)))"

text \<open>The leaves of a trie by bit string, and the subtree below the first \<open>d\<close> bits of a path.\<close>

definition leaf_at :: "(bytes, bytes) btree_map \<Rightarrow> bool list \<Rightarrow> bytes option" where
  "leaf_at m b = map_of (map (\<lambda>(p, h). (bits p, h)) m) b"

definition subtree :: "crypto_env \<Rightarrow> (bytes, bytes) btree_map \<Rightarrow> nat \<Rightarrow> bytes \<Rightarrow> bytes option" where
  "subtree c m d p = node c (256 - d) (\<lambda>b. leaf_at m (take d (bits p) @ b))"

definition trie_root :: "crypto_env \<Rightarrow> (bytes, bytes) btree_map \<Rightarrow> bytes" where
  "trie_root c m = hash_or_empty (node c 256 (leaf_at m))"

lemma map_of_key:
  assumes "inj_on g (insert k (fst ` set m))"
  shows "map_of (map (\<lambda>(k, v). (g k, v)) m) (g k) = map_of m k"
  using assms
proof (induction m)
  case Nil
  then show ?case by simp
next
  case (Cons x m)
  obtain k' v where x: "x = (k', v)" by force
  have "inj_on g (insert k (fst ` set m))" using Cons.prems by (rule inj_on_subset) auto
  moreover have "g k = g k' \<longleftrightarrow> k = k'" using Cons.prems x by (auto dest: inj_onD)
  ultimately show ?case using Cons.IH x by auto
qed

lemma leaf_at_bits:
  assumes "list_all is_path (bt_keys m)" "is_path p"
  shows "leaf_at m (bits p) = bt_get m p"
proof -
  have "inj_on bits (insert p (fst ` set m))"
    using assms by (auto simp: inj_on_def list_all_iff bits_inj)
  then show ?thesis unfolding leaf_at_def by (rule map_of_key)
qed

lemma subtree_leaf:
  assumes "list_all is_path (bt_keys m)" "is_path p"
  shows "subtree c m 256 p = bt_get m p"
  using leaf_at_bits [OF assms] by (simp add: subtree_def)

lemma subtree_root: "hash_or_empty (subtree c m 0 p) = trie_root c m"
  by (simp add: subtree_def trie_root_def)

text \<open>A subtree joins the two subtrees below it, one on the path and one on the sibling path.\<close>

lemma subtree_step:
  assumes p: "is_path p" and d: "d < 256"
  shows "subtree c m d p =
    (if path_bit p d then join c (subtree c m (Suc d) (sib_rep p d)) (subtree c m (Suc d) p)
     else join c (subtree c m (Suc d) p) (subtree c m (Suc d) (sib_rep p d)))"
proof -
  have h: "256 - d = Suc (256 - Suc d)" using d by simp
  have t: "take (Suc d) (bits p) = take d (bits p) @ [path_bit p d]"
    using d by (simp add: take_Suc_conv_app_nth)
  have s: "take (Suc d) (bits (sib_rep p d)) = take d (bits p) @ [\<not> path_bit p d]"
    unfolding bits_sib [OF p d] using d by simp
  show ?thesis unfolding subtree_def h node.simps t s by simp
qed

lemma subtree_masked:
  assumes "is_path p" "d \<le> 256"
  shows "subtree c m d (masked p d) = subtree c m d p"
  using assms by (simp add: subtree_def bits_masked)

section \<open>The level maps hold the nodes of the reference trie\<close>

text \<open>
  What the loop over a level writes into the slot of a parent: the entries with that parent, the
  left one in the first and the right one in the second component.  The entries come in any order;
  no two of them have the same parent and the same bit.
\<close>

definition child_key :: "usize \<Rightarrow> bytes \<Rightarrow> bytes \<times> bool" where
  "child_key d p = (masked p d, path_bit p d)"

definition children :: "usize \<Rightarrow> (bytes \<times> bytes) list \<Rightarrow> bytes \<times> bool \<Rightarrow> bytes option" where
  "children d level = map_of (map (\<lambda>(p, h). (child_key d p, h)) level)"

lemma fold_add_child:
  assumes "distinct (map (child_key d \<circ> fst) level)"
  shows "bt_get (fold (add_child d) level acc) q =
    (if children d level (q, False) = None \<and> children d level (q, True) = None then bt_get acc q
     else Some (case_option (fst (bt_get_or acc q (EMPTY, EMPTY))) id (children d level (q, False)),
                case_option (snd (bt_get_or acc q (EMPTY, EMPTY))) id (children d level (q, True))))"
  using assms
proof (induction level arbitrary: acc)
  case Nil
  then show ?case by (simp add: children_def)
next
  case (Cons x level)
  obtain p h where x: "x = (p, h)" by force
  have "child_key d p \<notin> set (map (child_key d \<circ> fst) level)" using Cons.prems x by simp
  then have fresh: "children d level (child_key d p) = None"
    by (force simp: children_def map_of_eq_None_iff)
  have ch: "children d (x # level) = (children d level)(child_key d p \<mapsto> h)"
    by (simp add: children_def x)
  have IH: "bt_get (fold (add_child d) level (add_child d x acc)) q =
      (if children d level (q, False) = None \<and> children d level (q, True) = None then bt_get (add_child d x acc) q
       else Some (case_option (fst (bt_get_or (add_child d x acc) q (EMPTY, EMPTY))) id (children d level (q, False)),
                  case_option (snd (bt_get_or (add_child d x acc) q (EMPTY, EMPTY))) id (children d level (q, True))))"
    using Cons by simp
  obtain l r where lr: "bt_get_or acc (masked p d) (EMPTY, EMPTY) = (l, r)" by force
  have ad: "add_child d x acc = bt_insert (masked p d) (if path_bit p d then (l, h) else (h, r)) acc"
    by (auto simp: add_child_def x lr Let_def bit_at_eq)
  show ?case
  proof (cases "q = masked p d")
    case True
    then show ?thesis
      using IH fresh lr unfolding fold.simps comp_def ch ad
      by (cases "path_bit p d") (auto simp: child_key_def bt_get_or_def split: option.splits)
  next
    case False
    then have o: "bt_get_or (add_child d x acc) q e = bt_get_or acc q e" "bt_get (add_child d x acc) q = bt_get acc q" for e
      by (simp_all add: ad bt_get_or_def)
    have ch': "children d (x # level) (q, b) = children d level (q, b)" for b
      using False by (simp add: ch child_key_def)
    show ?thesis using IH unfolding o ch' by simp
  qed
qed

lemma keys_add_child: "fst ` set (fold (add_child d) level acc) = (\<lambda>x. masked (fst x) d) ` set level \<union> fst ` set acc"
proof -
  have one: "fst ` set (add_child d x acc) = insert (masked (fst x) d) (fst ` set acc)" for x acc
    by (simp add: add_child_def Let_def case_prod_beta)
  show ?thesis by (induction level arbitrary: acc) (simp_all add: one)
qed

lemma wf_add_child: "bt_wf acc \<Longrightarrow> bt_wf (fold (add_child d) level acc)"
  by (induction level arbitrary: acc) (auto simp: add_child_def Let_def split: prod.splits)

definition level_ok :: "crypto_env \<Rightarrow> (bytes, bytes) btree_map \<Rightarrow> usize \<Rightarrow> (bytes, bytes) btree_map \<Rightarrow> bool" where
  "level_ok c m d level \<longleftrightarrow> bt_wf level \<and> (\<forall>k \<in> fst ` set level. is_path k \<and> masked k d = k) \<and>
     (\<forall>k. is_path k \<and> masked k d = k \<longrightarrow> bt_get level k = subtree c m d k)"

lemma masked_eq_iff:
  assumes "is_path p" "is_path q" "d \<le> 256"
  shows "masked p d = masked q d \<longleftrightarrow> take d (bits p) = take d (bits q)"
  using assms bits_inj [OF masked_path masked_path, of p q d d] by (simp add: bits_masked)

lemma masked_fixed:
  assumes "is_path p" "d \<le> 256"
  shows "masked p d = p \<longleftrightarrow> bits p = take d (bits p) @ replicate (256 - d) False"
  using assms bits_inj [OF masked_path, of p p d] by (auto simp: bits_masked)

lemma level_ok_leaves:
  assumes "bt_wf m" "list_all is_path (bt_keys m)"
  shows "level_ok c m 256 m"
  using assms subtree_leaf [OF assms(2)] by (auto simp: level_ok_def list_all_iff masked_def)

text \<open>The two children of a masked path at the level below are the path itself and its sibling.\<close>

lemma level_children:
  assumes ok: "level_ok c m (Suc d) level" and d: "d < 256"
  shows "distinct (map (child_key d \<circ> fst) level)"
    and "is_path q \<Longrightarrow> masked q d = q \<Longrightarrow> children d level (q, False) = subtree c m (Suc d) q"
    and "is_path q \<Longrightarrow> masked q d = q \<Longrightarrow> children d level (q, True) = subtree c m (Suc d) (sib_rep q d)"
proof -
  let ?P = "{k. is_path k \<and> masked k (Suc d) = k}"
  have key: "child_key d p = child_key d p' \<longleftrightarrow> p = p'" if "p \<in> ?P" "p' \<in> ?P" for p p'
  proof -
    have "take (Suc d) (bits x) = take d (bits x) @ [path_bit x d]" for x
      using d by (simp add: take_Suc_conv_app_nth)
    then have "child_key d p = child_key d p' \<longleftrightarrow> take (Suc d) (bits p) = take (Suc d) (bits p')"
      using that masked_eq_iff [of p p' d] d by (auto simp: child_key_def)
    then show ?thesis using that masked_eq_iff [of p p' "Suc d"] d by auto
  qed
  have sub: "fst ` set level \<subseteq> ?P" and dist: "distinct (map fst level)"
    using ok by (auto simp: level_ok_def bt_wf_distinct)
  have inj: "inj_on (child_key d) ?P" using key by (auto simp: inj_on_def)
  show "distinct (map (child_key d \<circ> fst) level)"
    using dist inj_on_subset [OF inj sub] by (simp add: distinct_map comp_inj_on image_comp inj_on_image_iff flip: map_map)
  have ch: "children d level (child_key d k) = subtree c m (Suc d) k" if "k \<in> ?P" for k
    using that ok inj_on_subset [OF inj, of "insert k (fst ` set level)"] sub map_of_key [of "child_key d" k level]
    by (auto simp: children_def level_ok_def)
  assume q: "is_path q" "masked q d = q"
  then have bq: "bits q = take d (bits q) @ replicate (256 - d) False" using masked_fixed d by simp
  have bit: "\<not> path_bit q d"
  proof -
    have "bits q ! d = False" using d by (subst bq) (simp add: nth_append)
    then show ?thesis using d by simp
  qed
  have "bits q = take (Suc d) (bits q) @ replicate (256 - Suc d) False"
  proof -
    have "256 - d = Suc (256 - Suc d)" using d by simp
    then have z: "replicate (256 - d) False = False # replicate (256 - Suc d) False" by simp
    have "take (Suc d) (bits q) = take d (bits q) @ [False]"
      using d bit by (simp add: take_Suc_conv_app_nth)
    then show ?thesis using bq unfolding z by simp
  qed
  then have "q \<in> ?P" using q d masked_fixed [of q "Suc d"] by simp
  then show "children d level (q, False) = subtree c m (Suc d) q"
    using ch [of q] q bit by (simp add: child_key_def)
  have bs: "bits (sib_rep q d) = take d (bits q) @ True # replicate (255 - d) False"
    using bits_sib q d bit by simp
  then have "sib_rep q d \<in> ?P" using sib_path q d masked_fixed [of "sib_rep q d" "Suc d"] by simp
  moreover have "child_key d (sib_rep q d) = (q, True)"
    using masked_eq_iff [of "sib_rep q d" q d] sib_path q d bs sib_bit [of q d d] bit by (simp add: child_key_def)
  ultimately show "children d level (q, True) = subtree c m (Suc d) (sib_rep q d)"
    using ch by force
qed

lemma level_ok_up:
  assumes ok: "level_ok c m (Suc d) level" and d: "d < 256"
  shows "level_ok c m d (fst (level_up c d (level, cache)))"
proof -
  let ?ps = "fold (add_child d) level []"
  let ?up = "map (\<lambda>(path, l, r). (path, interior_hash c l r)) ?ps"
  have keys: "map fst ?up = map fst ?ps" by (induction ?ps) auto
  have wf: "bt_wf ?up" using wf_add_child [OF bt_wf_Nil, of d level] unfolding bt_wf_def keys .
  have paths: "\<forall>k \<in> fst ` set ?up. is_path k \<and> masked k d = k"
  proof
    fix k assume "k \<in> fst ` set ?up"
    then have "k \<in> set (map fst ?ps)" using keys by (metis list.set_map)
    then obtain p where p: "p \<in> fst ` set level" "k = masked p d" using keys_add_child [of d level "[]"] by auto
    then have "is_path p" using ok by (auto simp: level_ok_def)
    moreover have "masked (masked p d) d = masked p d"
      using masked_fixed [of "masked p d" d] masked_path [OF calculation, of d] bits_masked [OF calculation, of d] d by simp
    ultimately show "is_path k \<and> masked k d = k" using p masked_path by simp
  qed
  have "bt_get ?up q = subtree c m d q" if q: "is_path q" "masked q d = q" for q
  proof -
    have bit: "\<not> path_bit q d" using masked_bit [of q d d] q d by simp
    have "bt_get (map (\<lambda>(path, l, r). (path, interior_hash c l r)) xs) q =
        map_option (\<lambda>(l, r). interior_hash c l r) (bt_get xs q)" for xs
      by (induction xs) auto
    then have "bt_get ?up q = map_option (\<lambda>(l, r). interior_hash c l r) (bt_get ?ps q)" .
    also have "\<dots> = join c (subtree c m (Suc d) q) (subtree c m (Suc d) (sib_rep q d))"
      unfolding fold_add_child [OF level_children(1) [OF ok d]] level_children(2,3) [OF ok d q]
      by (auto simp: join_def hash_or_empty_def id_def split: option.splits)
    also have "\<dots> = subtree c m d q" using subtree_step [OF q(1) d] bit by simp
    finally show ?thesis .
  qed
  then show ?thesis using wf paths unfolding level_ok_def level_up_def by (simp add: Let_def)
qed

text \<open>The cache after the levels from \<open>d\<close> downwards have been recorded.\<close>

definition cache_ok :: "crypto_env \<Rightarrow> (bytes, bytes) btree_map \<Rightarrow> usize \<Rightarrow> (usize \<times> bytes, bytes) btree_map \<Rightarrow> bool" where
  "cache_ok c m d cache \<longleftrightarrow> bt_wf cache \<and>
     (\<forall>d' k. d' < d \<longrightarrow> bt_get cache (d', k) = None) \<and>
     (\<forall>d' k. d \<le> d' \<and> d' \<le> 256 \<and> is_path k \<and> masked k d' = k \<longrightarrow> bt_get cache (d', k) = subtree c m d' k)"

lemma record_level_get:
  assumes "distinct (map fst level)"
  shows "bt_get (record_level d level cache) (d', k) =
    (if d' = d \<and> bt_get level k \<noteq> None then bt_get level k else bt_get cache (d', k))"
  using assms unfolding record_level_def
proof (induction level arbitrary: cache)
  case Nil
  then show ?case by simp
next
  case (Cons x level)
  obtain p h where x: "x = (p, h)" by force
  have "bt_get level p = None" using Cons.prems x by (auto simp: map_of_eq_None_iff)
  then show ?case using Cons x by auto
qed

lemma wf_record_level: "bt_wf cache \<Longrightarrow> bt_wf (record_level d level cache)"
  unfolding record_level_def by (induction level arbitrary: cache) auto

lemma cache_ok_record:
  assumes "level_ok c m d level" "d \<le> 256"
    and "bt_wf cache" "\<forall>d' k. d' \<le> d \<longrightarrow> bt_get cache (d', k) = None"
    and "\<forall>d' k. d < d' \<and> d' \<le> 256 \<and> is_path k \<and> masked k d' = k \<longrightarrow> bt_get cache (d', k) = subtree c m d' k"
  shows "cache_ok c m d (record_level d level cache)"
proof -
  have dist: "distinct (map fst level)" using assms(1) by (auto simp: level_ok_def bt_wf_distinct)
  have "bt_get (record_level d level cache) (d', k) = subtree c m d' k"
    if "d \<le> d'" "d' \<le> 256" "is_path k" "masked k d' = k" for d' k
    using that assms(1,4,5) unfolding record_level_get [OF dist]
    by (cases "d' = d") (auto simp: level_ok_def)
  moreover have "bt_get (record_level d level cache) (d', k) = None" if "d' < d" for d' k
    using that assms(4) by (simp add: record_level_get [OF dist])
  ultimately show ?thesis using assms(3) wf_record_level by (simp add: cache_ok_def)
qed

lemma levels_ok:
  assumes ok: "bt_wf m" "list_all is_path (bt_keys m)" and d: "d \<le> 256"
  shows "case fold (level_up c) (rev [d..<256]) (m, record_level 256 m []) of
    (level, cache) \<Rightarrow> level_ok c m d level \<and> cache_ok c m d cache"
  using d
proof (induction "256 - d" arbitrary: d)
  case 0
  have "cache_ok c m 256 (record_level 256 m [])"
    by (rule cache_ok_record [OF level_ok_leaves [OF ok]]) auto
  then show ?case using 0 level_ok_leaves [OF ok] by simp
next
  case (Suc n)
  then have d: "d < 256" by simp
  obtain level cache where lc: "fold (level_up c) (rev [Suc d..<256]) (m, record_level 256 m []) = (level, cache)"
    by force
  have IH: "level_ok c m (Suc d) level" "cache_ok c m (Suc d) cache"
    using Suc.hyps(1) [of "Suc d"] Suc.hyps(2) d lc by auto
  obtain level' where up: "level_up c d (level, cache) = (level', record_level d level' cache)"
    by (simp add: level_up_def Let_def)
  have "level_ok c m d level'" using level_ok_up [OF IH(1) d, of cache] up by simp
  moreover have "cache_ok c m d (record_level d level' cache)"
    by (rule cache_ok_record [OF calculation]) (use IH(2) d in \<open>auto simp: cache_ok_def\<close>)
  ultimately show ?case using lc up d by (simp add: upt_rec)
qed

lemma zero_path: "is_path (replicate 32 0)" "masked (replicate 32 0) 0 = replicate 32 0"
  by (simp_all add: is_path_def is_bytes_def list_all_iff masked_def)

lemma compute_root:
  assumes "bt_wf (leaves t)" "list_all is_path (bt_keys (leaves t))" "interior_cache t = []"
  shows "\<exists>cache. compute_root_with_cache c t = (t\<lparr>interior_cache := cache\<rparr>, trie_root c (leaves t)) \<and>
    cache_ok c (leaves t) 0 cache"
proof (cases "leaves t = []")
  case True
  have n: "node c h (\<lambda>b. leaf_at [] (g b)) = None" for h g
    by (induction h arbitrary: g) (simp_all add: leaf_at_def join_def)
  have "trie_root c [] = EMPTY" using n [of 256 id] by (simp add: trie_root_def hash_or_empty_def)
  moreover have "cache_ok c [] 0 []" using n by (simp add: cache_ok_def subtree_def)
  ultimately show ?thesis using True assms(3)
    by (intro exI [of _ "[]"]) (cases t, simp add: compute_root_with_cache_def)
next
  case False
  obtain level cache where lc: "fold (level_up c) (rev [0..<256]) (leaves t, record_level 256 (leaves t) []) = (level, cache)"
    by force
  have ok: "level_ok c (leaves t) 0 level" "cache_ok c (leaves t) 0 cache"
    using levels_ok [OF assms(1,2), of 0 c] lc by auto
  have "bt_get_or level (replicate 32 0) EMPTY = trie_root c (leaves t)"
    using ok(1) zero_path subtree_root [of c "leaves t" "replicate 32 0"]
    by (auto simp: level_ok_def bt_get_or_def hash_or_empty_def)
  then show ?thesis using False ok(2) lc assms(3) by (auto simp: compute_root_with_cache_def TRIE_DEPTH_def)
qed

section \<open>Invariant of the trie\<close>

text \<open>Leaves sit on 32-byte paths, and a cached root comes with the complete cache of its trie.\<close>

definition trie_ok :: "crypto_env \<Rightarrow> SparseMerkleTrie \<Rightarrow> bool" where
  "trie_ok c t \<longleftrightarrow> bt_wf (leaves t) \<and> list_all is_path (bt_keys (leaves t)) \<and>
     (\<forall>k h. bt_get (leaves t) k = Some h \<longrightarrow> length h = 32) \<and>
     (\<forall>r. cached_root t = Some r \<longrightarrow> r = trie_root c (leaves t) \<and> cache_ok c (leaves t) 0 (interior_cache t))"

lemma smt_root_correct:
  assumes "trie_ok c t"
  shows "snd (smt_root c t) = trie_root c (leaves t)" "leaves (fst (smt_root c t)) = leaves t"
    "cache_ok c (leaves t) 0 (interior_cache (fst (smt_root c t)))" "trie_ok c (fst (smt_root c t))"
proof -
  have "\<exists>t'. smt_root c t = (t', trie_root c (leaves t)) \<and> leaves t' = leaves t \<and>
      cache_ok c (leaves t) 0 (interior_cache t') \<and> cached_root t' = Some (trie_root c (leaves t))"
  proof (cases "cached_root t")
    case None
    then show ?thesis
      using compute_root [of "t\<lparr>interior_cache := []\<rparr>" c] assms by (auto simp: smt_root_def trie_ok_def)
  next
    case (Some r)
    then show ?thesis using assms by (auto simp: smt_root_def trie_ok_def)
  qed
  then show "snd (smt_root c t) = trie_root c (leaves t)" "leaves (fst (smt_root c t)) = leaves t"
    "cache_ok c (leaves t) 0 (interior_cache (fst (smt_root c t)))" "trie_ok c (fst (smt_root c t))"
    using assms by (auto simp: trie_ok_def)
qed

datatype trie_op =
    TrieInsert string u128 u64
  | TrieRemove string
  | TrieRoot
  | TrieProve string
  | TrieVerify MerkleProof
  | TrieLoad "(string \<times> u128 \<times> u64) list"

primrec trie_step :: "crypto_env \<Rightarrow> trie_op \<Rightarrow> SparseMerkleTrie \<Rightarrow> SparseMerkleTrie" where
  "trie_step c (TrieInsert a b n) t = smt_insert c a b n t"
| "trie_step c (TrieRemove a) t = smt_remove c a t"
| "trie_step c TrieRoot t = fst (smt_root c t)"
| "trie_step c (TrieProve a) t = fst (prove c a t)"
| "trie_step c (TrieVerify p) t = fst (smt_verify_proof c p t)"
| "trie_step c (TrieLoad xs) t = load_from c xs t"

lemma key_path: "digests_32 c \<Longrightarrow> is_path (key_to_path c a)"
  by (simp add: is_path_def key_to_path_def digests_32D)

lemma trie_ok_insert: "digests_32 c \<Longrightarrow> trie_ok c t \<Longrightarrow> trie_ok c (smt_insert c a b n t)"
  by (simp add: trie_ok_def smt_insert_def Let_def invalidate_caches_def list_all_iff key_path leaf_hash_def digests_32D)

lemma trie_ok_remove: "trie_ok c t \<Longrightarrow> trie_ok c (smt_remove c a t)"
proof -
  assume "trie_ok c t"
  moreover have "set (bt_remove k m) \<subseteq> set m" for k and m :: "(bytes, bytes) btree_map"
    by (auto simp: bt_remove_def)
  ultimately show ?thesis
    by (auto simp: trie_ok_def smt_remove_def Let_def invalidate_caches_def list_all_iff subset_iff
        split: if_splits)
qed

lemma trie_ok_step:
  assumes "digests_32 c" "trie_ok c t"
  shows "trie_ok c (trie_step c a t)"
proof (cases a)
  case (TrieLoad xs)
  have "trie_ok c (fold (\<lambda>(a, b, n). smt_insert c a b n) xs t)"
    using assms(2) by (induction xs arbitrary: t) (auto intro: trie_ok_insert [OF assms(1)])
  then show ?thesis using TrieLoad by (simp add: load_from_def)
qed (use assms trie_ok_insert trie_ok_remove smt_root_correct(4) in
      \<open>auto simp: prove_def smt_verify_proof_def case_prod_beta Let_def\<close>)

interpretation trie: machine "trie_step c" "\<lambda>t. digests_32 c \<and> trie_ok c t" "\<lambda>_. True" for c
  by unfold_locales (simp add: trie_ok_step)

lemma trie_ok_run: "digests_32 c \<Longrightarrow> trie_ok c (fold (trie_step c) ops smt_new)"
  using trie.run_inv [of c smt_new ops] by (simp add: trie_ok_def smt_new_def list_all_iff)

section \<open>Generated proofs verify\<close>

lemma find_by_depth:
  "find (\<lambda>(p, _). p = q) (by_depth cache d) = map_option (Pair q) (bt_get cache (d, q))"
  by (induction cache) (auto simp: by_depth_def)

lemma sibling_proof_node:
  assumes "cache_ok c m 0 cache" "is_path k" "d < 256"
  shows "sibling (proof_node cache k d) = hash_or_empty (subtree c m (Suc d) (sib_rep k d))"
proof -
  have "bits (sib_rep k d) = take (Suc d) (bits (sib_rep k d)) @ replicate (256 - Suc d) False"
    unfolding bits_sib [OF assms(2,3)] using assms(3) by simp
  then have "masked (sib_rep k d) (Suc d) = sib_rep k d"
    using masked_fixed sib_path [OF assms(2,3)] assms(3) by simp
  then have "bt_get cache (Suc d, sib_rep k d) = subtree c m (Suc d) (sib_rep k d)"
    using assms sib_path [OF assms(2,3)] by (simp add: cache_ok_def)
  then show ?thesis
    by (auto simp: proof_node_def find_by_depth hash_or_empty_def split: option.splits)
qed

text \<open>No node hash of the trie is the sentinel that stands for an empty subtree.\<close>

definition no_empty_hash :: "(usize \<times> bytes, bytes) btree_map \<Rightarrow> bool" where
  "no_empty_hash cache \<longleftrightarrow> list_all (\<lambda>(_, h). h \<noteq> EMPTY) cache"

lemma subtree_not_empty:
  assumes "cache_ok c m 0 cache" "no_empty_hash cache" "is_path k" "d \<le> 256"
  shows "subtree c m d k \<noteq> Some EMPTY"
proof
  assume "subtree c m d k = Some EMPTY"
  moreover have "masked (masked k d) d = masked k d"
    using masked_fixed [of "masked k d" d] masked_path [OF assms(3), of d] bits_masked [OF assms(3,4)] assms(4) by simp
  ultimately have "bt_get cache (d, masked k d) = Some EMPTY"
    using assms masked_path subtree_masked by (auto simp: cache_ok_def)
  then show False using assms(2) by (auto simp: no_empty_hash_def list_all_iff dest: map_of_SomeD)
qed

lemma climb_correct:
  assumes c: "cache_ok c m 0 cache" and ne: "no_empty_hash cache" and k: "is_path k" and d: "d \<le> 256"
  shows "fold (verify_step c k) (enumerate 0 (map (proof_node cache k) (rev [d..<256])))
      (hash_or_empty (subtree c m 256 k)) = hash_or_empty (subtree c m d k)"
  using d
proof (induction "256 - d" arbitrary: d)
  case 0
  then show ?case by simp
next
  case (Suc n)
  then have d: "d < 256" by simp
  let ?a = "subtree c m (Suc d) k" and ?b = "subtree c m (Suc d) (sib_rep k d)"
  have ne': "?a \<noteq> Some EMPTY" "?b \<noteq> Some EMPTY"
    using subtree_not_empty [OF c ne k] subtree_not_empty [OF c ne sib_path [OF k d]] d by auto
  have "verify_step c k (255 - d, proof_node cache k d) (hash_or_empty ?a) = hash_or_empty (subtree c m d k)"
    unfolding verify_step_def subtree_step [OF k d] using ne' d sibling_proof_node [OF c k d]
    by (auto simp: Let_def TRIE_DEPTH_def bit_at_eq join_def hash_or_empty_def split: option.splits)
  then show ?case
    using Suc.hyps(1) [of "Suc d"] Suc.hyps(2) d
    by (simp add: upt_rec [of d] enumerate_append_eq)
qed

lemma prove_verifies:
  assumes "digests_32 c" "trie_ok c t" "prove c a t = (t', p)" "no_empty_hash (interior_cache t')"
  shows "MerkleProof_verify c p (trie_root c (leaves t))" "mp_root p = trie_root c (leaves t)"
    "mp_address p = a" "mp_exists p \<longleftrightarrow> bt_contains (leaves t) (key_to_path c a)"
    "mp_leaf p = hash_or_empty (bt_get (leaves t) (key_to_path c a))"
proof -
  let ?k = "key_to_path c a"
  have k: "is_path ?k" using key_path [OF assms(1)] .
  note root = smt_root_correct [OF assms(2)]
  have t': "t' = fst (smt_root c t)" and
    p: "p = \<lparr>mp_address = a, mp_exists = bt_contains (leaves t') ?k, mp_leaf = hash_or_empty (bt_get (leaves t') ?k),
      mp_path = map (proof_node (interior_cache t') ?k) (rev [0..<256]), mp_root = snd (smt_root c t)\<rparr>"
    using assms(3) by (auto simp: prove_def Let_def case_prod_beta TRIE_DEPTH_def hash_or_empty_def)
  have start: "(if mp_exists p then mp_leaf p else EMPTY) = hash_or_empty (subtree c (leaves t) 256 ?k)"
    using subtree_leaf [OF _ k, of "leaves t" c] assms(2) root(2)
    by (auto simp: p t' trie_ok_def bt_contains_get hash_or_empty_def split: option.splits)
  show "MerkleProof_verify c p (trie_root c (leaves t))"
    using climb_correct [of c "leaves t" "interior_cache t'" ?k 0] root(3) assms(4) k start subtree_root [of c "leaves t" ?k]
    unfolding MerkleProof_verify_def Let_def start by (simp add: p t' TRIE_DEPTH_def)
  show "mp_root p = trie_root c (leaves t)" "mp_address p = a" "mp_exists p \<longleftrightarrow> bt_contains (leaves t) ?k"
    "mp_leaf p = hash_or_empty (bt_get (leaves t) ?k)"
    using root by (simp_all add: p t')
qed

section \<open>Verified proofs are true\<close>

text \<open>The inputs hashed while a proof is checked, and the inputs of the nodes on the account's path.\<close>

fun climb_inputs :: "crypto_env \<Rightarrow> bytes \<Rightarrow> (usize \<times> ProofNode) list \<Rightarrow> bytes \<Rightarrow> bytes list" where
  "climb_inputs c k [] current = []"
| "climb_inputs c k ((i, n) # es) current =
     (if current = EMPTY \<and> sibling n = EMPTY then []
      else [if path_bit k (255 - i) then sibling n @ current else current @ sibling n]) @
     climb_inputs c k es (verify_step c k (i, n) current)"

definition spine_input :: "crypto_env \<Rightarrow> (bytes, bytes) btree_map \<Rightarrow> bytes \<Rightarrow> usize \<Rightarrow> bytes" where
  "spine_input c m k d =
     (let a = hash_or_empty (subtree c m (Suc d) k); b = hash_or_empty (subtree c m (Suc d) (sib_rep k d)) in
      if path_bit k d then b @ a else a @ b)"

definition spine_inputs :: "crypto_env \<Rightarrow> (bytes, bytes) btree_map \<Rightarrow> bytes \<Rightarrow> bytes list" where
  "spine_inputs c m k = map (spine_input c m k) [0..<256]"

definition broken_hash :: "crypto_env \<Rightarrow> bytes list \<Rightarrow> bytes list \<Rightarrow> bool" where
  "broken_hash c xs ys \<longleftrightarrow>
     (\<exists>x \<in> set xs. \<exists>y \<in> set ys. x \<noteq> y \<and> blake3_256 c x = blake3_256 c y) \<or>
     (\<exists>x \<in> set xs \<union> set ys. blake3_256 c x = EMPTY)"

lemma broken_hash_mono: "broken_hash c xs ys \<Longrightarrow> set xs \<subseteq> set zs \<Longrightarrow> broken_hash c zs ys"
  unfolding broken_hash_def by blast

lemma length_node:
  assumes "digests_32 c" "\<And>b h. f b = Some h \<Longrightarrow> length h = 32"
  shows "length (hash_or_empty (node c n f)) = 32"
  using assms(2)
proof (induction n arbitrary: f)
  case 0
  then show ?case by (auto simp: hash_or_empty_def EMPTY_def split: option.splits)
next
  case (Suc n)
  then show ?case using digests_32D(3) [OF assms(1)]
    by (auto simp: join_def hash_or_empty_def interior_hash_def EMPTY_def split: option.splits)
qed

lemma length_subtree:
  assumes "digests_32 c" "list_all (\<lambda>h. length h = 32) (bt_values m)"
  shows "length (hash_or_empty (subtree c m d k)) = 32"
  unfolding subtree_def
  by (rule length_node [OF assms(1)]) (use assms(2) in \<open>force simp: leaf_at_def list_all_iff dest: map_of_SomeD\<close>)

lemma sound_step:
  assumes dig: "digests_32 c" and len: "list_all (\<lambda>h. length h = 32) (bt_values m)" and k: "is_path k"
    and d: "d < 256" "length current = 32" "length (sibling n) = 32"
    and eq: "verify_step c k (255 - d, n) current = hash_or_empty (subtree c m d k)"
  shows "current = hash_or_empty (subtree c m (Suc d) k) \<or>
    broken_hash c (climb_inputs c k [(255 - d, n)] current) (spine_inputs c m k)"
proof -
  let ?a = "subtree c m (Suc d) k" and ?b = "subtree c m (Suc d) (sib_rep k d)"
  let ?x = "if path_bit k d then sibling n @ current else current @ sibling n"
  have la: "length (hash_or_empty ?a) = 32" and lb: "length (hash_or_empty ?b) = 32"
    using length_subtree [OF dig len] by auto
  have spine: "spine_input c m k d \<in> set (spine_inputs c m k)" using d(1) by (simp add: spine_inputs_def)
  have sub: "hash_or_empty (subtree c m d k) =
      (if ?a = None \<and> ?b = None then EMPTY else blake3_256 c (spine_input c m k d))"
    unfolding subtree_step [OF k d(1)]
    by (cases "path_bit k d") (simp_all add: join_def spine_input_def interior_hash_def Let_def hash_or_empty_def [of None]
        hash_or_empty_def [of "Some _"])
  have ver: "verify_step c k (255 - d, n) current =
      (if current = EMPTY \<and> sibling n = EMPTY then EMPTY else blake3_256 c ?x)"
    using d(1) by (simp add: verify_step_def Let_def TRIE_DEPTH_def bit_at_eq interior_hash_def)
  have inp: "climb_inputs c k [(255 - d, n)] current = (if current = EMPTY \<and> sibling n = EMPTY then [] else [?x])"
    using d(1) by simp
  have same: "current = hash_or_empty ?a" if "?x = spine_input c m k d"
    using that d(2,3) la lb by (cases "path_bit k d") (simp_all add: spine_input_def Let_def)
  have none: "hash_or_empty ?a = EMPTY" if "?a = None" using that by (simp add: hash_or_empty_def)
  show ?thesis
  proof (cases "current = EMPTY \<and> sibling n = EMPTY")
    case True
    have "(?a = None \<and> ?b = None) \<or> blake3_256 c (spine_input c m k d) = EMPTY"
      using eq unfolding sub ver if_P [OF True] by metis
    then show ?thesis
    proof
      assume "?a = None \<and> ?b = None"
      then show ?thesis using True none by simp
    next
      assume "blake3_256 c (spine_input c m k d) = EMPTY"
      then show ?thesis using spine unfolding broken_hash_def by blast
    qed
  next
    case False
    have "blake3_256 c ?x = EMPTY \<or> blake3_256 c ?x = blake3_256 c (spine_input c m k d)"
      using eq unfolding sub ver if_not_P [OF False] by metis
    moreover have x: "?x \<in> set (climb_inputs c k [(255 - d, n)] current)" unfolding inp if_not_P [OF False] by simp
    ultimately consider "?x = spine_input c m k d"
      | "?x \<noteq> spine_input c m k d" "blake3_256 c ?x = blake3_256 c (spine_input c m k d)"
      | "blake3_256 c ?x = EMPTY" by argo
    then show ?thesis
    proof cases
      case 1
      then show ?thesis using same by (intro disjI1)
    next
      case 2
      then show ?thesis unfolding broken_hash_def by (intro disjI2 disjI1 bexI [OF _ x] bexI [OF _ spine] conjI)
    next
      case 3
      then show ?thesis unfolding broken_hash_def by (intro disjI2 bexI [OF _ UnI1 [OF x]])
    qed
  qed
qed

lemma climb_sound:
  assumes dig: "digests_32 c" and len: "list_all (\<lambda>h. length h = 32) (bt_values m)" and k: "is_path k"
  shows "length ns = d \<Longrightarrow> d \<le> 256 \<Longrightarrow> list_all (\<lambda>n. length (sibling n) = 32) ns \<Longrightarrow> length current = 32 \<Longrightarrow>
    fold (verify_step c k) (enumerate (256 - d) ns) current = hash_or_empty (subtree c m 0 k) \<Longrightarrow>
    current = hash_or_empty (subtree c m d k) \<or>
    broken_hash c (climb_inputs c k (enumerate (256 - d) ns) current) (spine_inputs c m k)"
proof (induction ns arbitrary: d current)
  case Nil
  then show ?case by simp
next
  case (Cons n ns)
  then obtain e where d: "d = Suc e" "length ns = e" by auto
  let ?v = "verify_step c k (255 - e, n) current"
  have i: "256 - d = 255 - e" "Suc (256 - d) = 256 - e" using Cons.prems(2) d by auto
  have v: "length ?v = 32"
    using digests_32D(3) [OF dig] by (auto simp: verify_step_def Let_def interior_hash_def EMPTY_def)
  have IH: "?v = hash_or_empty (subtree c m e k) \<or>
      broken_hash c (climb_inputs c k (enumerate (256 - e) ns) ?v) (spine_inputs c m k)"
    using Cons.IH [OF d(2) _ _ v] Cons.prems d i by simp
  let ?all = "climb_inputs c k (enumerate (256 - d) (n # ns)) current"
  have all: "?all = climb_inputs c k [(255 - e, n)] current @ climb_inputs c k (enumerate (256 - e) ns) ?v"
    using i by simp
  have sub: "set (climb_inputs c k [(255 - e, n)] current) \<subseteq> set ?all"
    "set (climb_inputs c k (enumerate (256 - e) ns) ?v) \<subseteq> set ?all"
    unfolding all set_append by (rule Un_upper1, rule Un_upper2)
  show ?case
  proof (cases "?v = hash_or_empty (subtree c m e k)")
    case True
    then have "current = hash_or_empty (subtree c m d k) \<or>
        broken_hash c (climb_inputs c k [(255 - e, n)] current) (spine_inputs c m k)"
      using sound_step [OF dig len k, of e current n] Cons.prems d by simp
    then show ?thesis using broken_hash_mono [OF _ sub(1)] by blast
  next
    case False
    then show ?thesis using IH broken_hash_mono [OF _ sub(2)] by blast
  qed
qed

lemma verified_proof_true:
  assumes dig: "digests_32 c" and ok: "trie_ok c t" and v: "MerkleProof_verify c p (trie_root c (leaves t))"
    and len: "length (mp_leaf p) = 32" "list_all (\<lambda>n. length (sibling n) = 32) (mp_path p)"
  shows "(if mp_exists p then mp_leaf p else EMPTY) = hash_or_empty (bt_get (leaves t) (key_to_path c (mp_address p))) \<or>
    broken_hash c
      (climb_inputs c (key_to_path c (mp_address p)) (enumerate 0 (mp_path p)) (if mp_exists p then mp_leaf p else EMPTY))
      (spine_inputs c (leaves t) (key_to_path c (mp_address p)))"
proof -
  let ?k = "key_to_path c (mp_address p)"
  have k: "is_path ?k" using key_path [OF dig] .
  have vals: "list_all (\<lambda>h. length h = 32) (bt_values (leaves t))"
    using ok bt_get_in [of "leaves t"] by (auto simp: trie_ok_def list_all_iff)
  have p: "length (mp_path p) = 256"
    and f: "fold (verify_step c ?k) (enumerate 0 (mp_path p)) (if mp_exists p then mp_leaf p else EMPTY) = trie_root c (leaves t)"
    using v by (auto simp: MerkleProof_verify_def TRIE_DEPTH_def Let_def split: if_splits)
  have leaf: "subtree c (leaves t) 256 ?k = bt_get (leaves t) ?k"
    by (rule subtree_leaf) (use ok k in \<open>auto simp: trie_ok_def\<close>)
  have "length (if mp_exists p then mp_leaf p else EMPTY) = 32" using len by (simp add: EMPTY_def)
  from climb_sound [OF dig vals k p order.refl len(2) this] f show ?thesis
    unfolding subtree_root leaf by simp
qed

text \<open>The verifier does not tie the claim of existence to a leaf: with the sentinel as leaf, a proof
  verifies with either value of the flag, so an exclusion proof also passes as a proof of existence.\<close>

lemma exists_flag_unbound:
  "mp_leaf p = EMPTY \<Longrightarrow> MerkleProof_verify c (p\<lparr>mp_exists := b\<rparr>) r = MerkleProof_verify c p r"
  by (simp add: MerkleProof_verify_def Let_def)

section \<open>Closed instance\<close>

text \<open>A digest whose first byte is never zero, and a trie with two accounts.\<close>

definition demo_trie_env :: crypto_env where
  "demo_trie_env = demo_env\<lparr>blake3_256 := (\<lambda>m. 9 # take 31 (demo_digest m))\<rparr>"

lemma demo_trie_digests: "digests_32 demo_trie_env"
  using demo_digests_32
  by (auto simp: digests_32_def digest_32_def demo_trie_env_def is_bytes_def list_all_iff demo_env_def dest: in_set_takeD)

lemma demo_trie_not_empty: "blake3_256 demo_trie_env m \<noteq> EMPTY"
  by (simp add: demo_trie_env_def EMPTY_def replicate_Suc [of 31, simplified])

definition demo_ops :: "trie_op list" where
  "demo_ops = [TrieInsert ''alice'' 70 2, TrieInsert ''bob'' 30 0, TrieRoot]"

lemma no_empty_record: "no_empty_hash cache \<Longrightarrow> \<forall>x \<in> set level. snd x \<noteq> EMPTY \<Longrightarrow> no_empty_hash (record_level d level cache)"
proof (induction level arbitrary: cache)
  case Nil
  then show ?case by (simp add: record_level_def)
next
  case (Cons x level)
  have "no_empty_hash (bt_insert (d, fst x) (snd x) cache)"
    using Cons.prems set_bt_insert [of "(d, fst x)" "snd x" cache] by (auto simp: no_empty_hash_def list_all_iff)
  then show ?case using Cons by (simp add: record_level_def case_prod_beta)
qed

lemma no_empty_levels:
  assumes "\<And>m. blake3_256 c m \<noteq> EMPTY"
  shows "no_empty_hash (snd s) \<Longrightarrow> no_empty_hash (snd (fold (level_up c) ds s))"
proof (induction ds arbitrary: s)
  case Nil
  then show ?case by simp
next
  case (Cons d ds)
  have "no_empty_hash (snd (level_up c d s))"
    using Cons.prems assms [symmetric]
    by (auto simp: level_up_def Let_def case_prod_beta interior_hash_def intro!: no_empty_record dest: sym)
  then show ?case using Cons.IH by simp
qed

lemma no_empty_root:
  assumes "\<And>m. blake3_256 c m \<noteq> EMPTY" "cached_root t = None" "\<forall>x \<in> set (leaves t). snd x \<noteq> EMPTY"
  shows "no_empty_hash (interior_cache (fst (smt_root c t)))"
proof -
  have "no_empty_hash (record_level TRIE_DEPTH (leaves t) [])"
    by (rule no_empty_record) (use assms(3) in \<open>auto simp: no_empty_hash_def\<close>)
  then have "no_empty_hash (snd (fold (level_up c) (rev [0..<TRIE_DEPTH]) (leaves t, record_level TRIE_DEPTH (leaves t) [])))"
    using no_empty_levels [OF assms(1)] by simp
  then show ?thesis using assms(2)
    by (auto simp: smt_root_def compute_root_with_cache_def Let_def case_prod_beta no_empty_hash_def)
qed

section \<open>Properties\<close>

text \<open>C12: the state root is the root of the reference trie.  After any sequence of inserts, removals,
  bulk loads, root computations, proofs and checks, `root()` returns the root of the recursive trie
  over exactly the stored leaves, whether cached or recomputed by the level maps, and leaves the
  leaves as they are; so two histories that end with the same leaves have the same root.\<close>

theorem state_root_is_trie_root:
  assumes "digests_32 c" "t = fold (trie_step c) ops smt_new"
  shows "\<exists>t'. smt_root c t = (t', trie_root c (leaves t)) \<and> leaves t' = leaves t \<and>
    (\<forall>ops' t''. t'' = fold (trie_step c) ops' smt_new \<and> (\<forall>k. bt_get (leaves t'') k = bt_get (leaves t) k) \<longrightarrow>
       snd (smt_root c t'') = trie_root c (leaves t))"
proof -
  have ok: "trie_ok c (fold (trie_step c) ops smt_new)" for ops by (rule trie_ok_run [OF assms(1)])
  have "snd (smt_root c t'') = trie_root c (leaves t)"
    if "t'' = fold (trie_step c) ops' smt_new" "\<forall>k. bt_get (leaves t'') k = bt_get (leaves t) k" for ops' t''
  proof -
    have "leaves t'' = leaves t"
      by (rule bt_wf_ext) (use that ok assms(2) in \<open>auto simp: trie_ok_def\<close>)
    then show ?thesis using smt_root_correct(1) [OF ok, of ops'] that(1) by simp
  qed
  then show ?thesis using smt_root_correct(1,2) [OF ok, of ops] assms(2) by (metis prod.collapse)
qed

theorem state_root_is_trie_root_witness:
  "snd (smt_root demo_trie_env (fold (trie_step demo_trie_env) demo_ops smt_new)) =
     trie_root demo_trie_env (leaves (fold (trie_step demo_trie_env) demo_ops smt_new))"
  using state_root_is_trie_root [OF demo_trie_digests refl, of demo_ops] by auto

text \<open>Generated proofs verify.  In every reachable trie none of whose node hashes is the all-zero
  sentinel, the proof generated for any address carries the current root, tells whether the address
  has a leaf and which, and verifies against that root: for present accounts as an inclusion proof,
  for absent ones as an exclusion proof.\<close>

theorem state_proofs_verify:
  assumes "digests_32 c" "t = fold (trie_step c) ops smt_new"
    and "prove c address t = (t', p)" "no_empty_hash (interior_cache t')"
  shows "MerkleProof_verify c p (snd (smt_root c t)) \<and> mp_root p = snd (smt_root c t) \<and> mp_address p = address \<and>
    mp_exists p = bt_contains (leaves t) (key_to_path c address) \<and>
    (mp_exists p \<longrightarrow> bt_get (leaves t) (key_to_path c address) = Some (mp_leaf p))"
proof -
  have ok: "trie_ok c t" using trie_ok_run [OF assms(1)] assms(2) by simp
  show ?thesis
    using prove_verifies [OF assms(1) ok assms(3,4)] smt_root_correct(1) [OF ok]
    by (auto simp: bt_contains_get hash_or_empty_def)
qed

theorem state_proofs_verify_witness:
  "\<exists>t p. prove demo_trie_env ''carol'' (fold (trie_step demo_trie_env) [TrieInsert ''alice'' 70 2] smt_new) = (t, p) \<and>
     MerkleProof_verify demo_trie_env p
       (snd (smt_root demo_trie_env (fold (trie_step demo_trie_env) [TrieInsert ''alice'' 70 2] smt_new)))"
proof -
  let ?t = "fold (trie_step demo_trie_env) [TrieInsert ''alice'' 70 2] smt_new"
  obtain t p where tp: "prove demo_trie_env ''carol'' ?t = (t, p)" by force
  have "no_empty_hash (interior_cache (fst (smt_root demo_trie_env ?t)))"
    by (rule no_empty_root [OF demo_trie_not_empty])
      (simp_all add: smt_insert_def smt_new_def invalidate_caches_def Let_def leaf_hash_def demo_trie_not_empty)
  moreover have "t = fst (smt_root demo_trie_env ?t)"
    using tp unfolding prove_def by (simp add: Let_def case_prod_beta del: fold.simps)
  ultimately show ?thesis
    using tp state_proofs_verify [OF demo_trie_digests refl tp] by (simp del: fold.simps)
qed

text \<open>C36: what a verifying proof shows.  If a proof with 32-byte hashes verifies against the root of a reachable
  trie, then a proof that says the account exists and carries a leaf other than the sentinel carries the leaf stored for
  its address; any other proof, whatever its \<open>exists\<close> flag says, is for an address without a leaf (or with the
  sentinel as its leaf).  Otherwise two different inputs, one hashed while checking the proof and one of a node on the
  account's path, have the same digest, or one of them hashes to the all-zero sentinel.\<close>

theorem state_proofs_sound:
  assumes "digests_32 c" "t = fold (trie_step c) ops smt_new"
    and "MerkleProof_verify c p (snd (smt_root c t))"
    and "length (mp_leaf p) = 32" "list_all (\<lambda>n. length (sibling n) = 32) (mp_path p)"
  shows "(if mp_exists p \<and> mp_leaf p \<noteq> EMPTY then bt_get (leaves t) (key_to_path c (mp_address p)) = Some (mp_leaf p)
      else bt_get (leaves t) (key_to_path c (mp_address p)) \<in> {None, Some EMPTY}) \<or>
    broken_hash c
      (climb_inputs c (key_to_path c (mp_address p)) (enumerate 0 (mp_path p)) (if mp_exists p then mp_leaf p else EMPTY))
      (spine_inputs c (leaves t) (key_to_path c (mp_address p)))"
proof -
  have ok: "trie_ok c t" using trie_ok_run [OF assms(1)] assms(2) by simp
  have "(if mp_exists p then mp_leaf p else EMPTY) = hash_or_empty (bt_get (leaves t) (key_to_path c (mp_address p))) \<or>
    broken_hash c
      (climb_inputs c (key_to_path c (mp_address p)) (enumerate 0 (mp_path p)) (if mp_exists p then mp_leaf p else EMPTY))
      (spine_inputs c (leaves t) (key_to_path c (mp_address p)))"
    using verified_proof_true [OF assms(1) ok _ assms(4,5)] assms(3) smt_root_correct(1) [OF ok] by simp
  then show ?thesis
    by (cases "bt_get (leaves t) (key_to_path c (mp_address p))") (auto simp: hash_or_empty_def split: if_splits)
qed

definition demo_exclusion :: MerkleProof where
  "demo_exclusion = \<lparr>mp_address = ''carol'', mp_exists = False, mp_leaf = EMPTY,
     mp_path = replicate 256 \<lparr>sibling = EMPTY, is_right = False\<rparr>, mp_root = EMPTY\<rparr>"

theorem state_proofs_sound_witness:
  "MerkleProof_verify demo_env demo_exclusion (snd (smt_root demo_env smt_new)) \<and>
   (bt_get (leaves smt_new) (key_to_path demo_env ''carol'') \<in> {None, Some EMPTY} \<or>
    broken_hash demo_env
      (climb_inputs demo_env (key_to_path demo_env ''carol'') (enumerate 0 (mp_path demo_exclusion)) EMPTY)
      (spine_inputs demo_env (leaves smt_new) (key_to_path demo_env ''carol'')))"
proof -
  have stay: "fold (verify_step demo_env k) (enumerate i (replicate n \<lparr>sibling = EMPTY, is_right = False\<rparr>)) EMPTY = EMPTY" for k i n
    by (induction n arbitrary: i) (simp_all add: verify_step_def)
  have v: "MerkleProof_verify demo_env demo_exclusion (snd (smt_root demo_env smt_new))"
    by (simp add: MerkleProof_verify_def demo_exclusion_def stay TRIE_DEPTH_def Let_def smt_root_def smt_new_def
        compute_root_with_cache_def)
  then show ?thesis
    using state_proofs_sound [OF demo_digests_32, of smt_new "[]" demo_exclusion]
    by (simp add: demo_exclusion_def EMPTY_def list_all_iff)
qed

end
