(* ===== verification/StateManager.thy ===== *)
theory StateManager
  imports StateMerkle "HOL-Library.Sublist"
begin

text \<open>
  The account state of a node (\<open>crates/bleep-state/src/state_manager.rs\<close>): a write-back cache over a
  key-value store, the sparse Merkle trie of the accounts, transfers and minting, canonical blocks
  appended atomically, and reopening from the store.

  RocksDB, the JSON serializer and the body type of blocks are parameters (\<open>state_env\<close>).  What the
  source relies on is stated by \<open>store_ok\<close> (reads return what was written, a batch is written
  completely or not at all, iteration is in key order from the prefix on) and \<open>json_ok\<close> (decoding
  what was encoded).  Snapshot directories are not modelled: they are file operations around the
  definitions below.
\<close>

section \<open>Strings\<close>

text \<open>A Rust string is its UTF-8 encoding; \<open>from_utf8\<close> accepts exactly the well-formed ones.\<close>

definition utf8_cont :: "u8 \<Rightarrow> bool" where
  "utf8_cont b \<longleftrightarrow> 128 \<le> b \<and> b < 192"

fun utf8_valid :: "bytes \<Rightarrow> bool" where
  "utf8_valid [] = True"
| "utf8_valid (a # bs) =
     (if a < 128 then utf8_valid bs
      else case bs of
        [] \<Rightarrow> False
      | b # bs2 \<Rightarrow>
          if 194 \<le> a \<and> a < 224 then utf8_cont b \<and> utf8_valid bs2
          else case bs2 of
            [] \<Rightarrow> False
          | c # bs3 \<Rightarrow>
              if 224 \<le> a \<and> a < 240 then
                utf8_cont b \<and> utf8_cont c \<and> (a = 224 \<longrightarrow> 160 \<le> b) \<and> (a = 237 \<longrightarrow> b < 160) \<and> utf8_valid bs3
              else case bs3 of
                [] \<Rightarrow> False
              | d # bs4 \<Rightarrow>
                  240 \<le> a \<and> a < 245 \<and> utf8_cont b \<and> utf8_cont c \<and> utf8_cont d \<and>
                  (a = 240 \<longrightarrow> 144 \<le> b) \<and> (a = 244 \<longrightarrow> b < 144) \<and> utf8_valid bs4)"

definition from_utf8 :: "bytes \<Rightarrow> string option" where
  "from_utf8 bs = (if is_bytes bs \<and> utf8_valid bs then Some (map char_of bs) else None)"

text \<open>\<open>format!("{:020}", n)\<close>: at least twenty decimal digits, padded with zeros.\<close>

fun dec_digits :: "nat \<Rightarrow> nat \<Rightarrow> bytes" where
  "dec_digits 0 n = []"
| "dec_digits (Suc w) n = dec_digits w (n div 10) @ [48 + n mod 10]"

section \<open>Records and parameters\<close>

record AccountState =
  balance :: u128
  nonce :: u64
  code_hash :: "bytes option"

abbreviation AccountState_default :: AccountState where
  "AccountState_default \<equiv> \<lparr>balance = 0, nonce = 0, code_hash = None\<rparr>"

abbreviation pretestnet_default :: AccountState where
  "pretestnet_default \<equiv> \<lparr>balance = 1000000000, nonce = 0, code_hash = None\<rparr>"

record CanonicalBlockRecord =
  cbr_index :: u64
  cbr_block_hash :: string
  cbr_previous_hash :: string
  cbr_chain_id :: string
  cbr_body :: bytes

record CanonicalTransfer =
  ct_sender :: string
  ct_receiver :: string
  ct_amount :: u64
  ct_nonce :: u64

record CacheEntry =
  ce_state :: AccountState
  dirty :: bool

text \<open>
  \<open>'db\<close> is the state of the store and \<open>'blk\<close> the type of block bodies.  A read or an iterator item is
  \<open>None\<close> when the store reports an error, and a write says whether it succeeded.  \<open>db_contents\<close> is
  what the store holds; no definition of the program reads it.
\<close>

record ('db, 'blk) state_env = crypto_env +
  db_get :: "'db \<Rightarrow> bytes \<Rightarrow> bytes option option"
  db_write :: "'db \<Rightarrow> (bytes \<times> bytes) list \<Rightarrow> 'db \<times> bool"
  db_prefix_iterator :: "'db \<Rightarrow> bytes \<Rightarrow> (bytes \<times> bytes) option list"
  db_contents :: "'db \<Rightarrow> (bytes, bytes) btree_map"
  acct_to_vec :: "AccountState \<Rightarrow> bytes option"
  acct_from_slice :: "bytes \<Rightarrow> AccountState option"
  record_to_vec :: "CanonicalBlockRecord \<Rightarrow> bytes option"
  record_from_slice :: "bytes \<Rightarrow> CanonicalBlockRecord option"
  block_to_vec :: "'blk \<Rightarrow> bytes option"
  block_from_slice :: "bytes \<Rightarrow> 'blk option"

abbreviation to_crypto :: "('db, 'blk) state_env \<Rightarrow> crypto_env" where
  "to_crypto c \<equiv> crypto_env.truncate c"

datatype StateError =
    StorageError
  | CorruptHeight
  | SerialisationError
  | HeightOverflow
  | HeightMismatch u64 u64
  | DifferentChain
  | NotExtendingTip u64
  | TransitionRejected u64 string
  | RootMismatch u64 string string
  | SequenceInvalid u64
  | HashMismatch u64
  | ZeroHeightInconsistent
  | ChainIdMismatch
  | HistoryMismatch u64

datatype MintError = SupplyOverflow u128 u128 | CapExceeded u128 u128 | BalanceOverflow string u128 u128

abbreviation PREFIX_ACCOUNT :: bytes where "PREFIX_ACCOUNT \<equiv> str_bytes ''acct:''"
definition PREFIX_BLOCK :: bytes where "PREFIX_BLOCK = str_bytes ''chain:block:''"
abbreviation KEY_HEIGHT :: bytes where "KEY_HEIGHT \<equiv> str_bytes ''sys:block_height''"
abbreviation KEY_CHAIN_ID :: bytes where "KEY_CHAIN_ID \<equiv> str_bytes ''chain:id''"
abbreviation KEY_TIP_HASH :: bytes where "KEY_TIP_HASH \<equiv> str_bytes ''chain:tip_hash''"
abbreviation TRANSACTION_REPLAY_WINDOW_SECS :: u64 where "TRANSACTION_REPLAY_WINDOW_SECS \<equiv> 30"

record 'db StateManager =
  db :: 'db
  cache :: "(string, CacheEntry) btree_map"
  block_height :: u64
  trie :: SparseMerkleTrie

record StateCheckpoint =
  cp_cache :: "(string, CacheEntry) btree_map"
  cp_block_height :: u64
  cp_trie :: SparseMerkleTrie

section \<open>Accounts\<close>

definition account_key :: "string \<Rightarrow> bytes" where
  "account_key address = PREFIX_ACCOUNT @ str_bytes address"

definition get_account :: "('db, 'blk) state_env \<Rightarrow> 'db StateManager \<Rightarrow> string \<Rightarrow> AccountState" where
  "get_account c s address =
     (case bt_get (cache s) address of
        Some e \<Rightarrow> ce_state e
      | None \<Rightarrow>
          (case db_get c (db s) (account_key address) of
             Some (Some v) \<Rightarrow> (case acct_from_slice c v of None \<Rightarrow> AccountState_default | Some a \<Rightarrow> a)
           | _ \<Rightarrow> AccountState_default))"

definition cache_entry :: "('db, 'blk) state_env \<Rightarrow> string \<Rightarrow> 'db StateManager \<Rightarrow> 'db StateManager" where
  "cache_entry c address s =
     (if \<not> bt_contains (cache s) address then
        s\<lparr>cache := bt_insert address \<lparr>ce_state = get_account c s address, dirty = False\<rparr> (cache s)\<rparr>
      else s)"

text \<open>A write through the \<open>&mut CacheEntry\<close> that \<open>cache_entry\<close> returns.\<close>

definition write_entry ::
  "('db, 'blk) state_env \<Rightarrow> string \<Rightarrow> (AccountState \<Rightarrow> AccountState) \<Rightarrow> 'db StateManager \<Rightarrow> 'db StateManager" where
  "write_entry c address f s =
     (let s1 = cache_entry c address s in
      s1\<lparr>cache := bt_modify address (\<lambda>e. \<lparr>ce_state = f (ce_state e), dirty = True\<rparr>) (cache s1)\<rparr>)"

definition get_balance :: "('db, 'blk) state_env \<Rightarrow> 'db StateManager \<Rightarrow> string \<Rightarrow> u128" where
  "get_balance c s address = balance (get_account c s address)"

definition set_balance :: "('db, 'blk) state_env \<Rightarrow> string \<Rightarrow> u128 \<Rightarrow> 'db StateManager \<Rightarrow> 'db StateManager" where
  "set_balance c address b s = write_entry c address (\<lambda>a. a\<lparr>balance := b\<rparr>) s"

definition increment_nonce :: "('db, 'blk) state_env \<Rightarrow> string \<Rightarrow> 'db StateManager \<Rightarrow> 'db StateManager \<times> u64" where
  "increment_nonce c address s =
     (let s' = write_entry c address (\<lambda>a. a\<lparr>nonce := wrap_add 64 (nonce a) 1\<rparr>) s in
      (s', nonce (get_account c s' address)))"

definition get_nonce :: "('db, 'blk) state_env \<Rightarrow> 'db StateManager \<Rightarrow> string \<Rightarrow> u64" where
  "get_nonce c s address = nonce (get_account c s address)"

definition set_code_hash :: "('db, 'blk) state_env \<Rightarrow> string \<Rightarrow> bytes \<Rightarrow> 'db StateManager \<Rightarrow> 'db StateManager" where
  "set_code_hash c address h s = write_entry c address (\<lambda>a. a\<lparr>code_hash := Some h\<rparr>) s"

section \<open>Checkpoints, trie and flushing\<close>

abbreviation checkpoint :: "'db StateManager \<Rightarrow> StateCheckpoint" where
  "checkpoint s \<equiv> \<lparr>cp_cache = cache s, cp_block_height = block_height s, cp_trie = trie s\<rparr>"

definition restore_checkpoint :: "StateCheckpoint \<Rightarrow> 'db StateManager \<Rightarrow> 'db StateManager" where
  "restore_checkpoint p s = s\<lparr>cache := cp_cache p, block_height := cp_block_height p, trie := cp_trie p\<rparr>"

definition sync_entry :: "crypto_env \<Rightarrow> string \<times> CacheEntry \<Rightarrow> SparseMerkleTrie \<Rightarrow> SparseMerkleTrie" where
  "sync_entry c entry t =
     (case entry of (addr, e) \<Rightarrow>
        if dirty e then
          if balance (ce_state e) = 0 \<and> nonce (ce_state e) = 0 then smt_remove c addr t
          else smt_insert c addr (balance (ce_state e)) (nonce (ce_state e)) t
        else t)"

definition sync_trie :: "('db, 'blk) state_env \<Rightarrow> 'db StateManager \<Rightarrow> 'db StateManager" where
  "sync_trie c s = s\<lparr>trie := fold (sync_entry (to_crypto c)) (cache s) (trie s)\<rparr>"

definition state_root :: "('db, 'blk) state_env \<Rightarrow> 'db StateManager \<Rightarrow> 'db StateManager \<times> bytes" where
  "state_root c s =
     (let s1 = sync_trie c s; (t, r) = smt_root (to_crypto c) (trie s1) in (s1\<lparr>trie := t\<rparr>, r))"

definition prove_account :: "('db, 'blk) state_env \<Rightarrow> string \<Rightarrow> 'db StateManager \<Rightarrow> 'db StateManager \<times> MerkleProof" where
  "prove_account c address s =
     (let s1 = sync_trie c s; (t, p) = prove (to_crypto c) address (trie s1) in (s1\<lparr>trie := t\<rparr>, p))"

text \<open>The puts of the dirty accounts, in cache order, up to the first that cannot be serialized.\<close>

fun dirty_puts :: "('db, 'blk) state_env \<Rightarrow> (string, CacheEntry) btree_map \<Rightarrow> (StateError, (bytes \<times> bytes) list) outcome" where
  "dirty_puts c [] = Ok []"
| "dirty_puts c ((addr, e) # rest) =
     (if dirty e then
        (case acct_to_vec c (ce_state e) of
           None \<Rightarrow> Err SerialisationError
         | Some v \<Rightarrow> bind_outcome (dirty_puts c rest) (\<lambda>b. Ok ((account_key addr, v) # b)))
      else dirty_puts c rest)"

definition write_batch ::
  "('db, 'blk) state_env \<Rightarrow> (bytes \<times> bytes) list \<Rightarrow> 'db StateManager \<Rightarrow> 'db StateManager \<times> (StateError, unit) outcome" where
  "write_batch c batch s =
     (case db_write c (db s) batch of (d, ok) \<Rightarrow> (s\<lparr>db := d\<rparr>, if ok then Ok () else Err StorageError))"

definition flush_internal ::
  "('db, 'blk) state_env \<Rightarrow> 'db StateManager \<Rightarrow> 'db StateManager \<times> (StateError, unit) outcome" where
  "flush_internal c s =
     (case dirty_puts c (cache s) of
        Ok b \<Rightarrow> write_batch c (b @ [(KEY_HEIGHT, to_le_bytes 8 (block_height s))]) s
      | Err e \<Rightarrow> (s, Err e)
      | Panic \<Rightarrow> (s, Panic))"

definition commit_block ::
  "('db, 'blk) state_env \<Rightarrow> 'db StateManager \<Rightarrow> 'db StateManager \<times> (StateError, unit) outcome" where
  "commit_block c s = flush_internal c (sync_trie c s)"

definition sm_advance_block :: "('db, 'blk) state_env \<Rightarrow> 'db StateManager \<Rightarrow> 'db StateManager" where
  "sm_advance_block c s = fst (commit_block c s)"

section \<open>Canonical blocks\<close>

definition block_key :: "u64 \<Rightarrow> bytes" where
  "block_key index = PREFIX_BLOCK @ dec_digits 20 index"

definition check_next_canonical_block ::
  "('db, 'blk) state_env \<Rightarrow> 'db StateManager \<Rightarrow> u64 \<Rightarrow> string \<Rightarrow> string \<Rightarrow> string \<Rightarrow> (StateError, unit) outcome" where
  "check_next_canonical_block c s index previous_hash chain_id genesis_hash =
     (case checked_add 64 (block_height s) 1 of
        None \<Rightarrow> Err HeightOverflow
      | Some expected_height \<Rightarrow>
          if index \<noteq> expected_height then Err (HeightMismatch expected_height index)
          else
            (case db_get c (db s) KEY_CHAIN_ID of
               None \<Rightarrow> Err StorageError
             | Some stored_chain_id \<Rightarrow>
                 if (case stored_chain_id of None \<Rightarrow> False | Some i \<Rightarrow> i \<noteq> str_bytes chain_id) then Err DifferentChain
                 else
                   (case db_get c (db s) KEY_TIP_HASH of
                      None \<Rightarrow> Err StorageError
                    | Some stored_tip \<Rightarrow>
                        (let expected_parent =
                           (case Option.bind stored_tip from_utf8 of None \<Rightarrow> genesis_hash | Some t \<Rightarrow> t) in
                         if previous_hash \<noteq> expected_parent then Err (NotExtendingTip index) else Ok ()))))"

definition flush_with_canonical_block ::
  "('db, 'blk) state_env \<Rightarrow> 'blk \<Rightarrow> u64 \<Rightarrow> string \<Rightarrow> string \<Rightarrow> string \<Rightarrow> 'db StateManager \<Rightarrow>
   'db StateManager \<times> (StateError, unit) outcome" where
  "flush_with_canonical_block c block index block_hash previous_hash chain_id s =
     (case block_to_vec c block of
        None \<Rightarrow> (s, Err SerialisationError)
      | Some body \<Rightarrow>
          (case record_to_vec c
             \<lparr>cbr_index = index, cbr_block_hash = block_hash, cbr_previous_hash = previous_hash,
              cbr_chain_id = chain_id, cbr_body = body\<rparr> of
             None \<Rightarrow> (s, Err SerialisationError)
           | Some block_value \<Rightarrow>
               (case dirty_puts c (cache s) of
                  Ok b \<Rightarrow>
                    write_batch c
                      (b @ [(KEY_HEIGHT, to_le_bytes 8 index), (KEY_CHAIN_ID, str_bytes chain_id),
                            (KEY_TIP_HASH, str_bytes block_hash), (block_key index, block_value)]) s
                | Err e \<Rightarrow> (s, Err e)
                | Panic \<Rightarrow> (s, Panic))))"

definition persist_canonical_block ::
  "('db, 'blk) state_env \<Rightarrow> 'blk \<Rightarrow> u64 \<Rightarrow> string \<Rightarrow> string \<Rightarrow> string \<Rightarrow> string \<Rightarrow> 'db StateManager \<Rightarrow>
   'db StateManager \<times> (StateError, unit) outcome" where
  "persist_canonical_block c block index block_hash previous_hash chain_id genesis_hash s =
     (case check_next_canonical_block c s index previous_hash chain_id genesis_hash of
        Err e \<Rightarrow> (s, Err e)
      | Panic \<Rightarrow> (s, Panic)
      | Ok _ \<Rightarrow>
          (let s1 = sync_trie c (s\<lparr>block_height := index\<rparr>) in
           case flush_with_canonical_block c block index block_hash previous_hash chain_id s1 of
             (s2, Ok _) \<Rightarrow> (s2, Ok ())
           | (s2, Err e) \<Rightarrow> (s2\<lparr>block_height := sat_sub index 1\<rparr>, Err e)
           | (s2, Panic) \<Rightarrow> (s2, Panic)))"

section \<open>Transfers and minting\<close>

definition apply_transfer_with_nonce ::
  "('db, 'blk) state_env \<Rightarrow> string \<Rightarrow> string \<Rightarrow> u128 \<Rightarrow> u64 \<Rightarrow> 'db StateManager \<Rightarrow> 'db StateManager \<times> bool" where
  "apply_transfer_with_nonce c sender receiver amount n s =
     (let current_nonce = get_nonce c s sender in
      if n \<noteq> current_nonce then (s, False)
      else
        (case checked_add 64 current_nonce 1 of
           None \<Rightarrow> (s, False)
         | Some next_nonce \<Rightarrow>
             if amount = 0 then (s, False)
             else if get_balance c s sender < amount then (s, False)
             else
               (let new_sender_bal = get_balance c s sender - amount in
                case checked_add 128 (get_balance c s receiver) amount of
                  None \<Rightarrow> (s, False)
                | Some new_recv_bal \<Rightarrow>
                    (let s1 = set_balance c sender new_sender_bal s;
                         s2 = set_balance c receiver new_recv_bal s1;
                         s3 = write_entry c sender (\<lambda>a. a\<lparr>nonce := next_nonce\<rparr>) s2
                     in (s3, True)))))"

definition apply_transfer ::
  "('db, 'blk) state_env \<Rightarrow> u64 \<Rightarrow> string \<Rightarrow> string \<Rightarrow> u128 \<Rightarrow> u64 \<Rightarrow> u64 \<Rightarrow> 'db StateManager \<Rightarrow> 'db StateManager \<times> bool" where
  "apply_transfer c now sender receiver amount n timestamp s =
     (if max now timestamp - min now timestamp > TRANSACTION_REPLAY_WINDOW_SECS then (s, False)
      else apply_transfer_with_nonce c sender receiver amount n s)"

text \<open>The loop over the transfers of a block: it stops at the first one that is rejected.\<close>

fun apply_transfers ::
  "('db, 'blk) state_env \<Rightarrow> CanonicalTransfer list \<Rightarrow> 'db StateManager \<Rightarrow> 'db StateManager \<times> string option" where
  "apply_transfers c [] s = (s, None)"
| "apply_transfers c (x # xs) s =
     (if get_nonce c s (ct_sender x) \<noteq> ct_nonce x then (s, Some (ct_sender x))
      else
        (case apply_transfer_with_nonce c (ct_sender x) (ct_receiver x) (ct_amount x) (ct_nonce x) s of
           (s', True) \<Rightarrow> apply_transfers c xs s'
         | (s', False) \<Rightarrow> (s', Some (ct_sender x))))"

definition apply_canonical_block ::
  "('db, 'blk) state_env \<Rightarrow> 'blk \<Rightarrow> u64 \<Rightarrow> string \<Rightarrow> string \<Rightarrow> string \<Rightarrow> string \<Rightarrow> string \<Rightarrow> CanonicalTransfer list \<Rightarrow>
   'db StateManager \<Rightarrow> 'db StateManager \<times> (StateError, unit) outcome" where
  "apply_canonical_block c block index block_hash previous_hash chain_id genesis_hash expected_root transfers s =
     (case check_next_canonical_block c s index previous_hash chain_id genesis_hash of
        Err e \<Rightarrow> (s, Err e)
      | Panic \<Rightarrow> (s, Panic)
      | Ok _ \<Rightarrow>
          (case apply_transfers c transfers s of
             (s1, Some sender) \<Rightarrow> (s1\<lparr>cache := cache s\<rparr>, Err (TransitionRejected index sender))
           | (s1, None) \<Rightarrow>
               (let (s2, r) = state_root c s1; actual = hex_encode c r in
                if actual \<noteq> expected_root then
                  (s2\<lparr>cache := cache s, trie := trie s\<rparr>, Err (RootMismatch index expected_root actual))
                else
                  (let s3 = sync_trie c (s2\<lparr>block_height := index\<rparr>) in
                   case flush_with_canonical_block c block index block_hash previous_hash chain_id s3 of
                     (s4, Ok _) \<Rightarrow> (s4, Ok ())
                   | (s4, Err e) \<Rightarrow>
                       (s4\<lparr>block_height := sat_sub index 1, cache := cache s, trie := trie s\<rparr>, Err e)
                   | (s4, Panic) \<Rightarrow> (s4, Panic)))))"

text \<open>Both loops over the stored accounts skip what cannot be read and stop after the last account key.\<close>

fun scan_balances ::
  "('db, 'blk) state_env \<Rightarrow> (u128 \<Rightarrow> bool) \<Rightarrow> (bytes \<times> bytes) option list \<Rightarrow> (string, u128) btree_map \<Rightarrow> (string, u128) btree_map" where
  "scan_balances c keep [] acc = acc"
| "scan_balances c keep (None # items) acc = scan_balances c keep items acc"
| "scan_balances c keep (Some (key, v) # items) acc =
     (if \<not> prefix PREFIX_ACCOUNT key then acc
      else
        (case from_utf8 (drop (length PREFIX_ACCOUNT) key) of
           None \<Rightarrow> scan_balances c keep items acc
         | Some addr \<Rightarrow>
             (case acct_from_slice c v of
                None \<Rightarrow> scan_balances c keep items acc
              | Some a \<Rightarrow>
                  scan_balances c keep items
                    (if keep (balance a) then bt_insert addr (balance a) acc else acc))))"

definition all_balances :: "('db, 'blk) state_env \<Rightarrow> 'db StateManager \<Rightarrow> (string, u128) btree_map" where
  "all_balances c s =
     fold (\<lambda>(addr, e). bt_insert addr (balance (ce_state e))) (cache s)
       (scan_balances c (\<lambda>_. True) (db_prefix_iterator c (db s) PREFIX_ACCOUNT) [])"

definition total_supply :: "('db, 'blk) state_env \<Rightarrow> 'db StateManager \<Rightarrow> u128" where
  "total_supply c s = wrap_sum 128 (bt_values (all_balances c s))"

abbreviation MINT_MAX_SUPPLY :: u128 where
  "MINT_MAX_SUPPLY \<equiv> 200000000 * 100000000"

definition mint ::
  "('db, 'blk) state_env \<Rightarrow> string \<Rightarrow> u128 \<Rightarrow> 'db StateManager \<Rightarrow> 'db StateManager \<times> (MintError, u128) outcome" where
  "mint c address amount s =
     (let current_total = total_supply c s in
      case checked_add 128 current_total amount of
        None \<Rightarrow> (s, Err (SupplyOverflow current_total amount))
      | Some new_total \<Rightarrow>
          if new_total > MINT_MAX_SUPPLY then (s, Err (CapExceeded current_total amount))
          else
            (let bal = get_balance c s address in
             case checked_add 128 bal amount of
               None \<Rightarrow> (s, Err (BalanceOverflow address bal amount))
             | Some new_bal \<Rightarrow> (set_balance c address new_bal s, Ok new_bal)))"

definition export_balances :: "('db, 'blk) state_env \<Rightarrow> 'db StateManager \<Rightarrow> (string, u128) btree_map" where
  "export_balances c s =
     fold (\<lambda>(addr, e) m. if balance (ce_state e) > 0 then bt_insert addr (balance (ce_state e)) m else m) (cache s)
       (scan_balances c (\<lambda>b. b > 0) (db_prefix_iterator c (db s) PREFIX_ACCOUNT) [])"

section \<open>Opening\<close>

fun rebuild_loop ::
  "('db, 'blk) state_env \<Rightarrow> (bytes \<times> bytes) option list \<Rightarrow> SparseMerkleTrie \<Rightarrow> SparseMerkleTrie \<times> (StateError, unit) outcome" where
  "rebuild_loop c [] t = (t, Ok ())"
| "rebuild_loop c (None # items) t = (t, Err StorageError)"
| "rebuild_loop c (Some (k, v) # items) t =
     (if \<not> prefix PREFIX_ACCOUNT k then (t, Ok ())
      else
        (case from_utf8 (drop (length PREFIX_ACCOUNT) k) of
           None \<Rightarrow> (t, Err SerialisationError)
         | Some addr \<Rightarrow>
             (let a = (case acct_from_slice c v of None \<Rightarrow> AccountState_default | Some a \<Rightarrow> a) in
              rebuild_loop c items
                (if balance a > 0 \<or> nonce a > 0 then smt_insert (to_crypto c) addr (balance a) (nonce a) t else t))))"

definition rebuild_trie_from_db ::
  "('db, 'blk) state_env \<Rightarrow> 'db StateManager \<Rightarrow> 'db StateManager \<times> (StateError, unit) outcome" where
  "rebuild_trie_from_db c s =
     (case rebuild_loop c (db_prefix_iterator c (db s) PREFIX_ACCOUNT) (trie s) of (t, x) \<Rightarrow> (s\<lparr>trie := t\<rparr>, x))"

text \<open>\<open>open\<close> on a store that RocksDB has opened, or failed to.\<close>

definition sm_open :: "('db, 'blk) state_env \<Rightarrow> 'db option \<Rightarrow> (StateError, 'db StateManager) outcome" where
  "sm_open c opened =
     (case opened of
        None \<Rightarrow> Err StorageError
      | Some d \<Rightarrow>
          bind_outcome
            (case db_get c d KEY_HEIGHT of
               Some (Some v) \<Rightarrow> if length v = 8 then Ok (from_le_bytes v) else Err CorruptHeight
             | Some None \<Rightarrow> Ok 0
             | None \<Rightarrow> Err StorageError)
            (\<lambda>h. case rebuild_trie_from_db c \<lparr>db = d, cache = [], block_height = h, trie = smt_new\<rparr> of
                   (s, Ok _) \<Rightarrow> Ok s | (s, Err e) \<Rightarrow> Err e | (s, Panic) \<Rightarrow> Panic))"

section \<open>Reloading the chain\<close>

abbreviation tip_of :: "string \<Rightarrow> CanonicalBlockRecord list \<Rightarrow> string" where
  "tip_of genesis_hash records \<equiv> (if records = [] then genesis_hash else cbr_block_hash (last records))"

fun load_loop ::
  "('db, 'blk) state_env \<Rightarrow> string \<Rightarrow> string \<Rightarrow> ('blk \<Rightarrow> string) \<Rightarrow> (bytes \<times> bytes) option list \<Rightarrow>
   CanonicalBlockRecord list \<Rightarrow> 'blk list \<Rightarrow> (StateError, CanonicalBlockRecord list \<times> 'blk list) outcome" where
  "load_loop c chain_id genesis_hash block_hash [] records blocks = Ok (records, blocks)"
| "load_loop c chain_id genesis_hash block_hash (None # items) records blocks = Err StorageError"
| "load_loop c chain_id genesis_hash block_hash (Some (key, v) # items) records blocks =
     (if \<not> prefix PREFIX_BLOCK key then Ok (records, blocks)
      else
        (case record_from_slice c v of
           None \<Rightarrow> Err SerialisationError
         | Some r \<Rightarrow>
             (let expected_index = wrap_add 64 (cast 64 (length records)) 1 in
              if key \<noteq> block_key expected_index \<or> cbr_index r \<noteq> expected_index \<or>
                 cbr_previous_hash r \<noteq> tip_of genesis_hash records \<or> cbr_chain_id r \<noteq> chain_id
              then Err (SequenceInvalid (cbr_index r))
              else
                (case block_from_slice c (cbr_body r) of
                   None \<Rightarrow> Err SerialisationError
                 | Some b \<Rightarrow>
                     if cbr_block_hash r \<noteq> block_hash b then Err (HashMismatch (cbr_index r))
                     else load_loop c chain_id genesis_hash block_hash items (records @ [r]) (blocks @ [b])))))"

definition load_canonical_blocks ::
  "('db, 'blk) state_env \<Rightarrow> string \<Rightarrow> string \<Rightarrow> ('blk \<Rightarrow> string) \<Rightarrow> 'db StateManager \<Rightarrow> (StateError, 'blk list) outcome" where
  "load_canonical_blocks c chain_id genesis_hash block_hash s =
     (case db_get c (db s) KEY_CHAIN_ID of
        None \<Rightarrow> Err StorageError
      | Some stored_chain_id \<Rightarrow>
          (case db_get c (db s) KEY_TIP_HASH of
             None \<Rightarrow> Err StorageError
           | Some stored_tip \<Rightarrow>
               bind_outcome
                 (load_loop c chain_id genesis_hash block_hash (db_prefix_iterator c (db s) PREFIX_BLOCK) [] [])
                 (\<lambda>(records, blocks).
                    if block_height s = 0 then
                      if blocks \<noteq> [] \<or> stored_chain_id \<noteq> None \<or> stored_tip \<noteq> None
                      then Err ZeroHeightInconsistent else Ok blocks
                    else if stored_chain_id \<noteq> Some (str_bytes chain_id) then Err ChainIdMismatch
                    else if cast 64 (length records) \<noteq> block_height s \<or>
                            (if records = [] then None else Some (cbr_block_hash (last records))) \<noteq>
                              Option.bind stored_tip from_utf8
                    then Err (HistoryMismatch (block_height s))
                    else Ok blocks)))"

section \<open>What the parameters promise\<close>

definition store_ok :: "('db, 'blk) state_env \<Rightarrow> bool" where
  "store_ok c \<longleftrightarrow>
     (\<forall>d. bt_wf (db_contents c d)) \<and>
     (\<forall>d k. db_get c d k = Some (bt_get (db_contents c d) k)) \<and>
     (\<forall>d batch. db_contents c (fst (db_write c d batch)) =
        (if snd (db_write c d batch) then fold (\<lambda>(k, v). bt_insert k v) batch (db_contents c d) else db_contents c d)) \<and>
     (\<forall>d p. db_prefix_iterator c d p = map Some (filter (\<lambda>(k, v). p \<le> k) (db_contents c d)))"

definition valid_account :: "AccountState \<Rightarrow> bool" where
  "valid_account a \<longleftrightarrow> balance a < 2 ^ 128 \<and> nonce a < 2 ^ 64 \<and>
     (case code_hash a of None \<Rightarrow> True | Some h \<Rightarrow> length h = 32 \<and> is_bytes h)"

definition json_ok :: "('db, 'blk) state_env \<Rightarrow> bool" where
  "json_ok c \<longleftrightarrow>
     (\<forall>a. valid_account a \<longrightarrow> (\<exists>v. acct_to_vec c a = Some v \<and> acct_from_slice c v = Some a)) \<and>
     (\<forall>r v. record_to_vec c r = Some v \<longrightarrow> record_from_slice c v = Some r) \<and>
     (\<forall>b v. block_to_vec c b = Some v \<longrightarrow> block_from_slice c v = Some b)"

lemma store_okD:
  assumes "store_ok c"
  shows "bt_wf (db_contents c d)" "db_get c d k = Some (bt_get (db_contents c d) k)"
    "db_prefix_iterator c d p = map Some (filter (\<lambda>(k, v). p \<le> k) (db_contents c d))"
    "db_contents c (fst (db_write c d batch)) =
      (if snd (db_write c d batch) then fold (\<lambda>(k, v). bt_insert k v) batch (db_contents c d) else db_contents c d)"
  using assms unfolding store_ok_def by blast+

section \<open>Accounts as a ledger\<close>

text \<open>Writing an entry changes one account and nothing else that can be observed.\<close>

lemma cache_entry_same [simp]:
  "get_account c (cache_entry c a s) b = get_account c s b" "db (cache_entry c a s) = db s"
  "block_height (cache_entry c a s) = block_height s" "trie (cache_entry c a s) = trie s"
  by (auto simp: cache_entry_def get_account_def bt_contains_get split: option.splits)

lemma cache_entry_get:
  "bt_get (cache (cache_entry c a s)) a = Some \<lparr>ce_state = get_account c s a, dirty = (case bt_get (cache s) a of None \<Rightarrow> False | Some e \<Rightarrow> dirty e)\<rparr>"
  by (auto simp: cache_entry_def get_account_def bt_contains_get split: option.splits)

lemma write_entry_cache:
  "bt_get (cache (write_entry c a f s)) b =
    (if b = a then Some \<lparr>ce_state = f (get_account c s a), dirty = True\<rparr> else bt_get (cache s) b)"
  by (auto simp: write_entry_def Let_def cache_entry_get) (auto simp: cache_entry_def)

lemma write_entry_same [simp]:
  "db (write_entry c a f s) = db s" "block_height (write_entry c a f s) = block_height s"
  "trie (write_entry c a f s) = trie s"
  by (simp_all add: write_entry_def Let_def)

lemma write_entry_account [simp]:
  "get_account c (write_entry c a f s) b = (if b = a then f (get_account c s a) else get_account c s b)"
  unfolding get_account_def [of c "write_entry c a f s"] write_entry_cache write_entry_same by (simp add: get_account_def [of c s b])

lemma write_entry_wf: "bt_wf (cache s) \<Longrightarrow> bt_wf (cache (write_entry c a f s))"
  by (simp add: write_entry_def Let_def cache_entry_def)

text \<open>The abstract ledger: a balance and a nonce for every address.\<close>

type_synonym ledger = "string \<Rightarrow> u128 \<times> u64"

definition ledger_of :: "('db, 'blk) state_env \<Rightarrow> 'db StateManager \<Rightarrow> ledger" where
  "ledger_of c s a = (get_balance c s a, get_nonce c s a)"

definition ledger_transfer :: "string \<Rightarrow> string \<Rightarrow> u128 \<Rightarrow> u64 \<Rightarrow> ledger \<Rightarrow> ledger option" where
  "ledger_transfer sender receiver amount n L =
     (let (b, k) = L sender; (b', k') = L receiver in
      if n = k \<and> k + 1 < 2 ^ 64 \<and> 0 < amount \<and> amount \<le> b \<and> b' + amount < 2 ^ 128
      then Some (L(sender := (b - amount, k + 1), receiver := (b' + amount, k')))
      else None)"

fun ledger_transfers :: "CanonicalTransfer list \<Rightarrow> ledger \<Rightarrow> ledger option" where
  "ledger_transfers [] L = Some L"
| "ledger_transfers (x # xs) L =
     Option.bind (ledger_transfer (ct_sender x) (ct_receiver x) (ct_amount x) (ct_nonce x) L) (ledger_transfers xs)"

lemma checked_add_if: "checked_add w a b = (if a + b < 2 ^ w then Some (a + b) else None)"
  by (simp add: checked_add_def)

lemma transfer_refines:
  assumes "sender \<noteq> receiver"
  shows "case ledger_transfer sender receiver amount n (ledger_of c s) of
      None \<Rightarrow> apply_transfer_with_nonce c sender receiver amount n s = (s, False)
    | Some L \<Rightarrow> \<exists>s'. apply_transfer_with_nonce c sender receiver amount n s = (s', True) \<and> ledger_of c s' = L"
proof (cases "ledger_transfer sender receiver amount n (ledger_of c s)")
  case None
  then show ?thesis
    by (auto simp: ledger_transfer_def ledger_of_def apply_transfer_with_nonce_def Let_def checked_add_if split: if_splits)
next
  case (Some L)
  then have ok: "n = get_nonce c s sender" "get_nonce c s sender + 1 < 2 ^ 64" "amount \<noteq> 0"
      "\<not> get_balance c s sender < amount" "get_balance c s receiver + amount < 2 ^ 128"
    and L: "L = (ledger_of c s)(sender := (get_balance c s sender - amount, get_nonce c s sender + 1),
        receiver := (get_balance c s receiver + amount, get_nonce c s receiver))"
    by (auto simp: ledger_transfer_def ledger_of_def split: if_splits)
  show ?thesis using Some L ok assms
    by (auto simp: apply_transfer_with_nonce_def Let_def checked_add_if fun_eq_iff ledger_of_def get_balance_def
        get_nonce_def set_balance_def)
qed

lemma transfers_refine:
  assumes "list_all (\<lambda>x. ct_sender x \<noteq> ct_receiver x) xs"
  shows "case ledger_transfers xs (ledger_of c s) of
      None \<Rightarrow> \<exists>s' who. apply_transfers c xs s = (s', Some who)
    | Some L \<Rightarrow> \<exists>s'. apply_transfers c xs s = (s', None) \<and> ledger_of c s' = L"
  using assms
proof (induction xs arbitrary: s)
  case Nil
  then show ?case by simp
next
  case (Cons x xs)
  have t: "case ledger_transfer (ct_sender x) (ct_receiver x) (ct_amount x) (ct_nonce x) (ledger_of c s) of
      None \<Rightarrow> apply_transfer_with_nonce c (ct_sender x) (ct_receiver x) (ct_amount x) (ct_nonce x) s = (s, False)
    | Some L \<Rightarrow> \<exists>s'. apply_transfer_with_nonce c (ct_sender x) (ct_receiver x) (ct_amount x) (ct_nonce x) s = (s', True) \<and>
        ledger_of c s' = L"
    by (rule transfer_refines) (use Cons.prems in simp)
  show ?case
  proof (cases "ledger_transfer (ct_sender x) (ct_receiver x) (ct_amount x) (ct_nonce x) (ledger_of c s)")
    case None
    then show ?thesis using t by simp
  next
    case (Some L)
    then obtain s' where s': "apply_transfer_with_nonce c (ct_sender x) (ct_receiver x) (ct_amount x) (ct_nonce x) s = (s', True)"
        "ledger_of c s' = L" using t by auto
    have "get_nonce c s (ct_sender x) = ct_nonce x"
      using Some by (auto simp: ledger_transfer_def ledger_of_def split: if_splits)
    then have e1: "apply_transfers c (x # xs) s = apply_transfers c xs s'" using s' by simp
    have e2: "ledger_transfers (x # xs) (ledger_of c s) = ledger_transfers xs (ledger_of c s')" using Some s' by simp
    show ?thesis unfolding e1 e2 by (rule Cons.IH) (use Cons.prems in simp)
  qed
qed

section \<open>Iterating over a prefix\<close>

lemma prefix_le: "prefix p k \<Longrightarrow> p \<le> (k :: 'a::linorder list)"
  by (induction p arbitrary: k) (auto simp: prefix_def)

lemma not_prefix_above:
  "(p :: 'a::linorder list) \<le> k \<Longrightarrow> \<not> prefix p k \<Longrightarrow> k \<le> k' \<Longrightarrow> \<not> prefix p k'"
proof (induction p arbitrary: k k')
  case Nil
  then show ?case by simp
next
  case (Cons a p)
  then obtain b k2 where k: "k = b # k2" by (cases k) auto
  then obtain b' k2' where k': "k' = b' # k2'" using Cons.prems(3) by (cases k') auto
  show ?case using Cons k k' by auto
qed

lemma prefix_segment:
  fixes p :: "'a::linorder list"
  assumes "bt_wf m"
  shows "takeWhile (\<lambda>(k, v). prefix p k) (filter (\<lambda>(k, v). p \<le> k) m) = filter (\<lambda>(k, v). prefix p k) m"
  using assms
proof (induction m)
  case Nil
  then show ?case by simp
next
  case (Cons x m)
  obtain k v where x: "x = (k, v)" by force
  have wf: "bt_wf m" and above: "\<forall>y \<in> set m. k < fst y" using Cons.prems x by (auto simp: bt_wf_def)
  show ?case
  proof (cases "p \<le> k \<and> \<not> prefix p k")
    case True
    then have "filter (\<lambda>(k, v). prefix p k) m = []"
      using above not_prefix_above [of p k] by (fastforce simp: filter_empty_conv)
    then show ?thesis using True x by simp
  next
    case False
    then show ?thesis using Cons.IH [OF wf] x prefix_le [of p k] by auto
  qed
qed

lemma is_bytes_str: "is_bytes (str_bytes a)"
  by (simp add: is_bytes_def str_bytes_def list_all_iff)

lemma from_utf8_Some: "from_utf8 bs = Some a \<longleftrightarrow> utf8_valid bs \<and> bs = str_bytes a"
proof -
  have "str_bytes (map char_of bs) = bs" if "is_bytes bs"
    using that by (auto simp: str_bytes_def is_bytes_def list_all_iff intro!: map_idI)
  moreover have "map char_of (str_bytes a) = a" by (auto simp: str_bytes_def intro!: map_idI)
  ultimately show ?thesis using is_bytes_str [of a] unfolding from_utf8_def by auto
qed

lemma from_utf8_str [simp]: "from_utf8 (str_bytes a) = (if utf8_valid (str_bytes a) then Some a else None)"
  by (simp add: from_utf8_Some) (simp add: from_utf8_def)

lemma account_key_inj [simp]: "account_key a = account_key b \<longleftrightarrow> a = b"
  by (simp add: account_key_def)

lemma prefix_account: "prefix PREFIX_ACCOUNT k \<longleftrightarrow> (\<exists>r. k = PREFIX_ACCOUNT @ r)"
  by (auto simp: prefix_def)

text \<open>The other keys of the store are no account keys and no block keys.\<close>

lemma system_keys:
  "\<not> prefix PREFIX_ACCOUNT KEY_HEIGHT" "\<not> prefix PREFIX_ACCOUNT KEY_CHAIN_ID" "\<not> prefix PREFIX_ACCOUNT KEY_TIP_HASH"
  "\<not> prefix PREFIX_ACCOUNT (block_key i)" "\<not> prefix PREFIX_BLOCK KEY_HEIGHT" "\<not> prefix PREFIX_BLOCK KEY_CHAIN_ID"
  "\<not> prefix PREFIX_BLOCK KEY_TIP_HASH" "\<not> prefix PREFIX_BLOCK (account_key a)"
  by (simp_all add: PREFIX_BLOCK_def
      block_key_def account_key_def str_bytes_def)

definition scan_one ::
  "('db, 'blk) state_env \<Rightarrow> (u128 \<Rightarrow> bool) \<Rightarrow> bytes \<times> bytes \<Rightarrow> (string, u128) btree_map \<Rightarrow> (string, u128) btree_map" where
  "scan_one c keep kv acc =
     (case from_utf8 (drop (length PREFIX_ACCOUNT) (fst kv)) of
        None \<Rightarrow> acc
      | Some addr \<Rightarrow>
          (case acct_from_slice c (snd kv) of
             None \<Rightarrow> acc | Some a \<Rightarrow> if keep (balance a) then bt_insert addr (balance a) acc else acc))"

lemma scan_balances_fold:
  "scan_balances c keep (map Some xs) acc = fold (scan_one c keep) (takeWhile (\<lambda>(k, v). prefix PREFIX_ACCOUNT k) xs) acc"
proof (induction xs arbitrary: acc)
  case Nil
  then show ?case by simp
next
  case (Cons x xs)
  obtain k v where "x = (k, v)" by force
  with Cons show ?case by (auto simp: scan_one_def split: option.splits)
qed

lemma scan_get:
  assumes "distinct (map fst es)" "\<forall>x \<in> set es. prefix PREFIX_ACCOUNT (fst x)"
  shows "bt_get (fold (scan_one c (\<lambda>_. True)) es acc) a =
    (case map_of es (account_key a) of
       None \<Rightarrow> bt_get acc a
     | Some v \<Rightarrow>
         (case acct_from_slice c v of
            None \<Rightarrow> bt_get acc a
          | Some x \<Rightarrow> if utf8_valid (str_bytes a) then Some (balance x) else bt_get acc a))"
  using assms
proof (induction es arbitrary: acc)
  case Nil
  then show ?case by simp
next
  case (Cons x es)
  obtain k v where x: "x = (k, v)" by force
  obtain q where k: "k = PREFIX_ACCOUNT @ q" using Cons.prems x by (auto simp: prefix_account)
  have eq: "k = account_key a \<longleftrightarrow> q = str_bytes a" by (simp add: k account_key_def)
  have one: "bt_get (scan_one c (\<lambda>_. True) x acc) a =
      (if k = account_key a \<and> utf8_valid q then (case acct_from_slice c v of None \<Rightarrow> bt_get acc a | Some y \<Rightarrow> Some (balance y))
       else bt_get acc a)"
    by (auto simp: scan_one_def x k account_key_def from_utf8_Some split: option.splits)
  have none: "map_of es (account_key a) = None" if "k = account_key a"
    using that Cons.prems x by (auto simp: map_of_eq_None_iff)
  show ?case
    using Cons.IH [of "scan_one c (\<lambda>_. True) x acc"] Cons.prems one none eq x
    by (auto split: option.splits)
qed

section \<open>Supply\<close>

lemma map_of_filter_key: "map_of (filter (\<lambda>(k, v). P k) m) k = (if P k then map_of m k else None)"
  by (induction m) auto

lemma fold_insert_get:
  "bt_get (fold (\<lambda>(k, v). bt_insert k v) batch m) k = (case map_of (rev batch) k of Some v \<Rightarrow> Some v | None \<Rightarrow> bt_get m k)"
  by (induction batch arbitrary: m) (auto simp: map_add_def split: option.splits)

lemma fold_insert_wf: "bt_wf m \<Longrightarrow> bt_wf (fold (\<lambda>(k, v). bt_insert k v) batch m)"
  by (induction batch arbitrary: m) auto

lemma overlay_get:
  assumes "distinct (map fst es)"
  shows "bt_get (fold (\<lambda>(a, e). bt_insert a (g e)) es m) a = (case map_of es a of Some e \<Rightarrow> Some (g e) | None \<Rightarrow> bt_get m a)"
  using assms
proof (induction es arbitrary: m)
  case Nil
  then show ?case by simp
next
  case (Cons x es)
  obtain b e where "x = (b, e)" by force
  moreover have "map_of es (fst x) = None" using Cons.prems by (simp add: map_of_eq_None_iff)
  ultimately show ?case using Cons by (auto split: option.splits)
qed

lemma overlay_wf: "bt_wf m \<Longrightarrow> bt_wf (fold (\<lambda>(a, e). bt_insert a (g e)) es m)"
  by (induction es arbitrary: m) auto

definition stored_account :: "('db, 'blk) state_env \<Rightarrow> 'db \<Rightarrow> string \<Rightarrow> AccountState option" where
  "stored_account c d a = Option.bind (bt_get (db_contents c d) (account_key a)) (acct_from_slice c)"

lemma get_account_stored:
  assumes "store_ok c"
  shows "get_account c s a =
    (case bt_get (cache s) a of Some e \<Rightarrow> ce_state e
     | None \<Rightarrow> (case stored_account c (db s) a of None \<Rightarrow> AccountState_default | Some x \<Rightarrow> x))"
  by (auto simp: get_account_def stored_account_def store_okD [OF assms] split: option.splits)

lemma all_balances_get:
  assumes "store_ok c" "bt_wf (cache s)"
  shows "bt_get (all_balances c s) a =
    (case bt_get (cache s) a of
       Some e \<Rightarrow> Some (balance (ce_state e))
     | None \<Rightarrow> if utf8_valid (str_bytes a) then map_option balance (stored_account c (db s) a) else None)"
proof -
  let ?m = "db_contents c (db s)"
  let ?es = "filter (\<lambda>(k, v). prefix PREFIX_ACCOUNT k) ?m"
  have scan: "scan_balances c (\<lambda>_. True) (db_prefix_iterator c (db s) PREFIX_ACCOUNT) [] = fold (scan_one c (\<lambda>_. True)) ?es []"
    unfolding store_okD(3) [OF assms(1)] scan_balances_fold prefix_segment [OF store_okD(1) [OF assms(1)]] ..
  have "distinct (map fst ?es)"
    using bt_wf_distinct [OF store_okD(1) [OF assms(1)], of "db s"] by (simp add: distinct_map_filter)
  then have scan_a: "bt_get (fold (scan_one c (\<lambda>_. True)) ?es []) a =
      (if utf8_valid (str_bytes a) then map_option balance (stored_account c (db s) a) else None)"
    by (subst scan_get) (auto simp: map_of_filter_key stored_account_def account_key_def split: option.splits)
  show ?thesis
    unfolding all_balances_def scan overlay_get [OF bt_wf_distinct [OF assms(2)]] scan_a ..
qed

lemma all_balances_wf: "bt_wf (all_balances c s)"
proof -
  have one: "bt_wf acc \<Longrightarrow> bt_wf (scan_balances c k xs acc)" for k xs acc
    by (induction c k xs acc rule: scan_balances.induct) (auto split: option.splits)
  show ?thesis unfolding all_balances_def by (intro overlay_wf one) simp
qed

definition supply_of :: "('db, 'blk) state_env \<Rightarrow> 'db StateManager \<Rightarrow> nat" where
  "supply_of c s = bt_sum (\<lambda>b. b) (all_balances c s)"

lemma total_supply_eq: "total_supply c s = supply_of c s mod 2 ^ 128"
  by (simp add: total_supply_def supply_of_def wrap_sum_eq bt_sum_def)

lemma get_balance_known:
  assumes "store_ok c" "bt_wf (cache s)" "utf8_valid (str_bytes a)"
  shows "get_balance c s a = (case bt_get (all_balances c s) a of None \<Rightarrow> 0 | Some b \<Rightarrow> b)"
  using assms by (auto simp: get_balance_def get_account_stored all_balances_get split: option.splits)

lemma all_balances_write:
  assumes "store_ok c" "bt_wf (cache s)"
  shows "all_balances c (write_entry c a f s) = bt_insert a (balance (f (get_account c s a))) (all_balances c s)"
proof (rule bt_wf_ext)
  fix b
  show "bt_get (all_balances c (write_entry c a f s)) b = bt_get (bt_insert a (balance (f (get_account c s a))) (all_balances c s)) b"
    unfolding all_balances_get [OF assms(1) write_entry_wf [OF assms(2)]] write_entry_cache write_entry_same
    by (simp add: all_balances_get [OF assms])
qed (simp_all add: all_balances_wf)

lemma supply_write:
  assumes "store_ok c" "bt_wf (cache s)" "utf8_valid (str_bytes a)"
  shows "supply_of c (write_entry c a f s) + get_balance c s a = supply_of c s + balance (f (get_account c s a))"
  using bt_sum_insert [OF all_balances_wf, of "\<lambda>b. b" a "balance (f (get_account c s a))" c s]
  unfolding supply_of_def all_balances_write [OF assms(1,2)] get_balance_known [OF assms] by simp

lemma balance_le_supply:
  assumes "store_ok c" "bt_wf (cache s)" "utf8_valid (str_bytes a)"
  shows "get_balance c s a \<le> supply_of c s"
  using get_balance_known [OF assms] bt_sum_ge [of "all_balances c s" a _ "\<lambda>b. b"]
  by (auto simp: supply_of_def split: option.splits)

text \<open>What a transfer does to the supply: nothing between two accounts, and an increase by the amount
  when sender and receiver are the same.\<close>

lemma transfer_supply:
  assumes "store_ok c" "bt_wf (cache s)" "utf8_valid (str_bytes sender)" "utf8_valid (str_bytes receiver)"
    and "apply_transfer_with_nonce c sender receiver amount n s = (s', True)"
  shows "supply_of c s' = (if sender = receiver then supply_of c s + amount else supply_of c s)" "bt_wf (cache s')"
    "db s' = db s" "trie s' = trie s" "block_height s' = block_height s"
proof -
  let ?b = "get_balance c s sender" and ?r = "get_balance c s receiver"
  let ?s1 = "write_entry c sender (\<lambda>a. a\<lparr>balance := ?b - amount\<rparr>) s"
  let ?s2 = "write_entry c receiver (\<lambda>a. a\<lparr>balance := ?r + amount\<rparr>) ?s1"
  let ?s3 = "write_entry c sender (\<lambda>a. a\<lparr>nonce := n + 1\<rparr>) ?s2"
  have s': "s' = ?s3" and le: "amount \<le> ?b"
    using assms(5) by (auto simp: apply_transfer_with_nonce_def Let_def checked_add_if set_balance_def split: if_splits)
  have wf: "bt_wf (cache ?s1)" "bt_wf (cache ?s2)" by (intro write_entry_wf assms(2))+
  have 1: "supply_of c ?s1 + ?b = supply_of c s + (?b - amount)"
    using supply_write [OF assms(1,2,3)] by simp
  have 2: "supply_of c ?s2 + get_balance c ?s1 receiver = supply_of c ?s1 + (?r + amount)"
    using supply_write [OF assms(1) wf(1) assms(4)] by simp
  have 3: "supply_of c ?s3 = supply_of c ?s2"
    using supply_write [OF assms(1) wf(2) assms(3), of "\<lambda>a. a\<lparr>nonce := n + 1\<rparr>"] by (simp add: get_balance_def)
  have r: "get_balance c ?s1 receiver = (if sender = receiver then ?b - amount else ?r)"
    by (auto simp: get_balance_def)
  show "supply_of c s' = (if sender = receiver then supply_of c s + amount else supply_of c s)"
  proof (cases "sender = receiver")
    case True
    then have rb: "?r = ?b" by simp
    have "get_balance c ?s1 receiver = ?b - amount" using r True by simp
    then have "supply_of c ?s3 = supply_of c s + amount" using 1 2 3 le unfolding rb by linarith
    then show ?thesis using True s' by simp
  next
    case False
    then have "get_balance c ?s1 receiver = ?r" using r by simp
    then have "supply_of c ?s3 = supply_of c s" using 1 2 3 le by linarith
    then show ?thesis using False s' by simp
  qed
  show "bt_wf (cache s')" "db s' = db s" "trie s' = trie s" "block_height s' = block_height s"
    unfolding s' by (simp_all add: write_entry_wf assms(2))
qed

text \<open>The puts of a flush are keys of cached accounts.\<close>

lemma dirty_puts_keys: "dirty_puts c m = Ok b \<Longrightarrow> set (map fst b) \<subseteq> account_key ` set (map fst m)"
proof (induction c m arbitrary: b rule: dirty_puts.induct)
  case (2 c addr e rest)
  show ?case
  proof (cases "dirty e")
    case True
    then obtain v b' where "dirty_puts c rest = Ok b'" "b = (account_key addr, v) # b'"
      using 2(3) by (cases "acct_to_vec c (ce_state e)"; cases "dirty_puts c rest") auto
    then show ?thesis using 2(1) [OF True] True 2(3) by (cases "acct_to_vec c (ce_state e)") auto
  next
    case False
    then show ?thesis using 2(2,3) by auto
  qed
qed simp

lemma dirty_puts_no_panic: "dirty_puts c m \<noteq> Panic"
proof (induction c m rule: dirty_puts.induct)
  case (2 c addr e rest)
  then show ?case by (cases "acct_to_vec c (ce_state e)"; cases "dirty_puts c rest"; auto)
qed simp

text \<open>A batch that writes cached accounts and system keys leaves every account as it is.\<close>

lemma write_batch_same [simp]:
  "cache (fst (write_batch c b s)) = cache s" "trie (fst (write_batch c b s)) = trie s"
  "block_height (fst (write_batch c b s)) = block_height s"
  by (simp_all add: write_batch_def case_prod_beta)

lemma write_batch_outcome: "snd (write_batch c b s) = (if snd (db_write c (db s) b) then Ok () else Err StorageError)"
  by (simp add: write_batch_def case_prod_beta)

lemma write_batch_contents:
  assumes "store_ok c"
  shows "db_contents c (db (fst (write_batch c b s))) =
    (if snd (write_batch c b s) = Ok () then fold (\<lambda>(k, v). bt_insert k v) b (db_contents c (db s)) else db_contents c (db s))"
  by (simp add: write_batch_outcome store_okD(4) [OF assms]) (simp add: write_batch_def case_prod_beta store_okD(4) [OF assms])

lemma write_batch_stored:
  assumes "store_ok c" "\<forall>k \<in> set (map fst b). k \<noteq> account_key a"
  shows "stored_account c (db (fst (write_batch c b s))) a = stored_account c (db s) a"
proof -
  have "map_of (rev b) (account_key a) = None" using assms(2) by (auto simp: map_of_eq_None_iff)
  then show ?thesis
    by (simp add: stored_account_def write_batch_contents [OF assms(1)] fold_insert_get)
qed

lemma write_batch_balances:
  assumes "store_ok c" "bt_wf (cache s)"
    and "\<forall>k \<in> set (map fst b). k \<in> account_key ` set (map fst (cache s)) \<or> \<not> prefix PREFIX_ACCOUNT k"
  shows "all_balances c (fst (write_batch c b s)) = all_balances c s"
    "get_account c (fst (write_batch c b s)) a = get_account c s a"
proof -
  have st: "stored_account c (db (fst (write_batch c b s))) a = stored_account c (db s) a"
    if "bt_get (cache s) a = None" for a
  proof (rule write_batch_stored [OF assms(1)])
    have "a \<notin> set (map fst (cache s))" using that by (simp add: map_of_eq_None_iff)
    then show "\<forall>k \<in> set (map fst b). k \<noteq> account_key a"
      using assms(3) by (fastforce simp: account_key_def)
  qed
  show "all_balances c (fst (write_batch c b s)) = all_balances c s"
  proof (rule bt_wf_ext)
    fix a
    show "bt_get (all_balances c (fst (write_batch c b s))) a = bt_get (all_balances c s) a"
      using st [of a] assms(2) by (simp add: all_balances_get [OF assms(1)] split: option.splits)
  qed (simp_all add: all_balances_wf)
  show "get_account c (fst (write_batch c b s)) a = get_account c s a"
    using st [of a] by (simp add: get_account_stored [OF assms(1)] split: option.splits)
qed

section \<open>The trie follows the accounts\<close>

definition expected_leaf :: "crypto_env \<Rightarrow> string \<Rightarrow> AccountState \<Rightarrow> bytes option" where
  "expected_leaf c a x = (if balance x = 0 \<and> nonce x = 0 then None else Some (leaf_hash c a (balance x) (nonce x)))"

lemma leaves_sync_entry:
  "bt_get (leaves (sync_entry c (a, e) t)) p =
    (if dirty e \<and> p = key_to_path c a then expected_leaf c a (ce_state e) else bt_get (leaves t) p)"
  by (auto simp: sync_entry_def smt_insert_def smt_remove_def invalidate_caches_def Let_def expected_leaf_def)

lemma trie_ok_sync_entry: "digests_32 c \<Longrightarrow> trie_ok c t \<Longrightarrow> trie_ok c (sync_entry c x t)"
  by (cases x) (auto simp: sync_entry_def trie_ok_insert trie_ok_remove)

lemma trie_ok_sync: "digests_32 c \<Longrightarrow> trie_ok c t \<Longrightarrow> trie_ok c (fold (sync_entry c) es t)"
  by (induction es arbitrary: t) (auto intro: trie_ok_sync_entry)

text \<open>Distinct dirty addresses with distinct paths end up with their own leaves, whatever the order.\<close>

lemma leaves_sync_keep:
  assumes "\<forall>x \<in> set es. dirty (snd x) \<longrightarrow> key_to_path c (fst x) \<noteq> p"
  shows "bt_get (leaves (fold (sync_entry c) es t)) p = bt_get (leaves t) p"
  using assms
proof (induction es arbitrary: t)
  case (Cons x es)
  have "bt_get (leaves (sync_entry c x t)) p = bt_get (leaves t) p"
    using Cons.prems by (cases x) (auto simp: leaves_sync_entry)
  then show ?case using Cons.IH [of "sync_entry c x t"] Cons.prems by simp
qed simp

lemma leaves_sync_dirty:
  assumes "distinct (map fst es)" "inj_on (key_to_path c) (fst ` set es)" "(a, e) \<in> set es" "dirty e"
  shows "bt_get (leaves (fold (sync_entry c) es t)) (key_to_path c a) = expected_leaf c a (ce_state e)"
  using assms(1,2,3)
proof (induction es arbitrary: t)
  case (Cons x es)
  show ?case
  proof (cases "x = (a, e)")
    case True
    have "key_to_path c (fst y) \<noteq> key_to_path c a" if y: "y \<in> set es" for y
    proof -
      have "fst y \<noteq> a" using Cons.prems(1) True y by force
      then show ?thesis using inj_onD [OF Cons.prems(2), of "fst y" a] True y by auto
    qed
    then have "bt_get (leaves (fold (sync_entry c) es (sync_entry c x t))) (key_to_path c a) =
        bt_get (leaves (sync_entry c x t)) (key_to_path c a)"
      by (intro leaves_sync_keep) simp
    then show ?thesis using True assms(4) by (simp add: leaves_sync_entry)
  next
    case False
    have "inj_on (key_to_path c) (fst ` set es)" using Cons.prems(2) by (rule inj_on_subset) auto
    then show ?thesis using Cons.IH [of "sync_entry c x t"] Cons.prems False by simp
  qed
qed simp

text \<open>The addresses the state manager knows: cached ones and stored ones.\<close>

definition stored_addresses :: "('db, 'blk) state_env \<Rightarrow> 'db \<Rightarrow> string set" where
  "stored_addresses c d = {a. bt_get (db_contents c d) (account_key a) \<noteq> None}"

definition known_addresses :: "('db, 'blk) state_env \<Rightarrow> 'db StateManager \<Rightarrow> string set" where
  "known_addresses c s = fst ` set (cache s) \<union> stored_addresses c (db s)"

definition account_or_default :: "AccountState option \<Rightarrow> AccountState" where
  "account_or_default x = (case x of None \<Rightarrow> AccountState_default | Some a \<Rightarrow> a)"

abbreviation is_dirty :: "'db StateManager \<Rightarrow> string \<Rightarrow> bool" where
  "is_dirty s a \<equiv> (\<exists>e. bt_get (cache s) a = Some e \<and> dirty e)"

definition trie_follows :: "('db, 'blk) state_env \<Rightarrow> 'db StateManager \<Rightarrow> bool" where
  "trie_follows c s \<longleftrightarrow>
     (\<forall>a \<in> known_addresses c s. \<not> is_dirty s a \<longrightarrow>
        bt_get (leaves (trie s)) (key_to_path (to_crypto c) a) =
          expected_leaf (to_crypto c) a (account_or_default (stored_account c (db s) a))) \<and>
     fst ` set (leaves (trie s)) \<subseteq> key_to_path (to_crypto c) ` known_addresses c s"

definition state_inv :: "('db, 'blk) state_env \<Rightarrow> 'db StateManager \<Rightarrow> bool" where
  "state_inv c s \<longleftrightarrow>
     bt_wf (cache s) \<and> trie_ok (to_crypto c) (trie s) \<and> block_height s < 2 ^ 64 \<and>
     (\<forall>a \<in> fst ` set (cache s). utf8_valid (str_bytes a)) \<and>
     (\<forall>k \<in> fst ` set (db_contents c (db s)). prefix PREFIX_ACCOUNT k \<longrightarrow> (\<exists>a. k = account_key a \<and> utf8_valid (str_bytes a))) \<and>
     (\<forall>a e. bt_get (cache s) a = Some e \<longrightarrow> valid_account (ce_state e)) \<and>
     (\<forall>a e. bt_get (cache s) a = Some e \<and> \<not> dirty e \<longrightarrow> ce_state e = account_or_default (stored_account c (db s) a)) \<and>
     (inj_on (key_to_path (to_crypto c)) (known_addresses c s) \<longrightarrow> trie_follows c s)"

lemma state_invD:
  assumes "state_inv c s"
  shows "bt_wf (cache s)" "trie_ok (to_crypto c) (trie s)" "block_height s < 2 ^ 64"
    "a \<in> fst ` set (cache s) \<Longrightarrow> utf8_valid (str_bytes a)"
    "k \<in> fst ` set (db_contents c (db s)) \<Longrightarrow> prefix PREFIX_ACCOUNT k \<Longrightarrow> \<exists>a. k = account_key a \<and> utf8_valid (str_bytes a)"
    "bt_get (cache s) a = Some e \<Longrightarrow> valid_account (ce_state e)"
    "bt_get (cache s) a = Some e \<Longrightarrow> \<not> dirty e \<Longrightarrow> ce_state e = account_or_default (stored_account c (db s) a)"
    "inj_on (key_to_path (to_crypto c)) (known_addresses c s) \<Longrightarrow> trie_follows c s"
  using assms unfolding state_inv_def by blast+

text \<open>Once synchronised, the trie holds exactly the leaves of the accounts as they are now.\<close>

lemma synced_leaves:
  assumes "store_ok c" "state_inv c s" "inj_on (key_to_path (to_crypto c)) (known_addresses c s)"
  shows "a \<in> known_addresses c s \<Longrightarrow>
      bt_get (leaves (trie (sync_trie c s))) (key_to_path (to_crypto c) a) = expected_leaf (to_crypto c) a (get_account c s a)"
    and "p \<notin> key_to_path (to_crypto c) ` known_addresses c s \<Longrightarrow> bt_get (leaves (trie (sync_trie c s))) p = None"
proof -
  let ?c = "to_crypto c" and ?K = "known_addresses c s"
  have wf: "bt_wf (cache s)" and tf: "trie_follows c s" using assms(2,3) by (auto simp: state_inv_def)
  have dist: "distinct (map fst (cache s))" using bt_wf_distinct [OF wf] .
  have inj: "inj_on (key_to_path ?c) (fst ` set (cache s))"
    using assms(3) by (rule inj_on_subset) (auto simp: known_addresses_def)
  {
    assume a: "a \<in> ?K"
    show "bt_get (leaves (trie (sync_trie c s))) (key_to_path ?c a) = expected_leaf ?c a (get_account c s a)"
    proof (cases "is_dirty s a")
      case True
      then obtain e where e: "bt_get (cache s) a = Some e" "dirty e" by blast
      then have "get_account c s a = ce_state e" by (simp add: get_account_def)
      then show ?thesis using leaves_sync_dirty [OF dist inj map_of_SomeD [OF e(1)] e(2)] by (simp add: sync_trie_def)
    next
      case False
      have "key_to_path ?c (fst x) \<noteq> key_to_path ?c a" if x: "x \<in> set (cache s)" "dirty (snd x)" for x
      proof -
        have "bt_get (cache s) (fst x) = Some (snd x)" using bt_get_in [OF wf, of "fst x" "snd x"] x by simp
        then have "fst x \<noteq> a" using False x by auto
        moreover have "fst x \<in> ?K" using x by (simp add: known_addresses_def)
        ultimately show ?thesis using inj_onD [OF assms(3)] a by blast
      qed
      then have "bt_get (leaves (trie (sync_trie c s))) (key_to_path ?c a) = bt_get (leaves (trie s)) (key_to_path ?c a)"
        unfolding sync_trie_def by (simp add: leaves_sync_keep)
      also have "\<dots> = expected_leaf ?c a (account_or_default (stored_account c (db s) a))"
        using tf a False by (auto simp: trie_follows_def)
      also have "account_or_default (stored_account c (db s) a) = get_account c s a"
        using assms(2) False by (auto simp: get_account_stored [OF assms(1)] state_inv_def account_or_default_def split: option.splits)
      finally show ?thesis .
    qed
  }
  assume p: "p \<notin> key_to_path ?c ` ?K"
  then have "bt_get (leaves (trie (sync_trie c s))) p = bt_get (leaves (trie s)) p"
  proof -
    have "\<forall>x \<in> set (cache s). dirty (snd x) \<longrightarrow> key_to_path ?c (fst x) \<noteq> p"
      using p by (auto simp: known_addresses_def)
    then show ?thesis unfolding sync_trie_def by (simp add: leaves_sync_keep)
  qed
  also have "\<dots> = None" using tf p by (auto simp: trie_follows_def map_of_eq_None_iff)
  finally show "bt_get (leaves (trie (sync_trie c s))) p = None" .
qed

section \<open>Operations keep the invariant\<close>

lemma stored_addresses_stored: "stored_account c d a \<noteq> None \<Longrightarrow> a \<in> stored_addresses c d"
  by (cases "bt_get (db_contents c d) (account_key a)") (auto simp: stored_account_def stored_addresses_def)

lemma keys_write: "fst ` set (cache (write_entry c a f s)) = insert a (fst ` set (cache s))"
proof -
  have "dom (map_of (cache (write_entry c a f s))) = insert a (dom (map_of (cache s)))"
    by (auto simp: write_entry_cache split: if_splits)
  then show ?thesis by (simp only: dom_map_of_conv_image_fst)
qed

lemma known_write: "known_addresses c (write_entry c a f s) = insert a (known_addresses c s)"
  unfolding known_addresses_def keys_write by simp

lemma valid_get_account:
  assumes "state_inv c s" "store_ok c" "\<And>v x. acct_from_slice c v = Some x \<Longrightarrow> valid_account x"
  shows "valid_account (get_account c s a)"
proof -
  have "valid_account AccountState_default" by (simp add: valid_account_def)
  moreover have "valid_account x" if "stored_account c (db s) a = Some x" for x
    using that assms(3) by (auto simp: stored_account_def bind_eq_Some_conv)
  ultimately show ?thesis using assms(1) by (auto simp: get_account_stored [OF assms(2)] state_inv_def split: option.splits)
qed

lemma inv_write:
  assumes "store_ok c" "state_inv c s" "utf8_valid (str_bytes a)" "valid_account (f (get_account c s a))"
  shows "state_inv c (write_entry c a f s)"
proof -
  let ?s = "write_entry c a f s"
  have "trie_follows c ?s" if "inj_on (key_to_path (to_crypto c)) (known_addresses c ?s)"
  proof -
    have "inj_on (key_to_path (to_crypto c)) (known_addresses c s)"
      using that by (rule inj_on_subset) (auto simp: known_write)
    then have tf: "trie_follows c s" using assms(2) by (simp add: state_inv_def)
    have "is_dirty ?s b \<longleftrightarrow> b = a \<or> is_dirty s b" for b by (auto simp: write_entry_cache)
    with tf show ?thesis unfolding trie_follows_def known_write by auto
  qed
  moreover have "\<forall>b \<in> fst ` set (cache ?s). utf8_valid (str_bytes b)"
    using assms(2,3) unfolding keys_write by (auto simp: state_inv_def)
  moreover have "\<forall>b e. bt_get (cache ?s) b = Some e \<longrightarrow> valid_account (ce_state e)"
    "\<forall>b e. bt_get (cache ?s) b = Some e \<and> \<not> dirty e \<longrightarrow> ce_state e = account_or_default (stored_account c (db ?s) b)"
    using assms(2,4) by (auto simp: write_entry_cache state_inv_def split: if_splits)
  moreover have "bt_wf (cache ?s)" using assms(2) by (simp add: state_inv_def write_entry_wf)
  ultimately show ?thesis
    using assms(2) unfolding state_inv_def write_entry_same by (intro conjI impI) simp_all
qed

lemma known_frame: "cache s' = cache s \<Longrightarrow> db s' = db s \<Longrightarrow> known_addresses c s' = known_addresses c s"
  by (simp add: known_addresses_def)

lemma inv_frame:
  assumes inv: "state_inv c s" and same: "cache s' = cache s" "db s' = db s"
    and new: "block_height s' < 2 ^ 64" "trie_ok (to_crypto c) (trie s')"
      "inj_on (key_to_path (to_crypto c)) (known_addresses c s) \<Longrightarrow> trie_follows c s'"
  shows "state_inv c s'"
  using inv new unfolding state_inv_def known_frame [OF same] same by (intro conjI impI) simp_all

lemma clean_account:
  assumes "store_ok c" "state_inv c s" "\<not> is_dirty s a"
  shows "get_account c s a = account_or_default (stored_account c (db s) a)"
proof (cases "bt_get (cache s) a")
  case None
  then show ?thesis by (simp add: get_account_stored [OF assms(1)] account_or_default_def)
next
  case (Some e)
  then show ?thesis using assms(2,3) by (simp add: get_account_def state_inv_def)
qed

lemma sync_same [simp]:
  "cache (sync_trie c s) = cache s" "db (sync_trie c s) = db s" "block_height (sync_trie c s) = block_height s"
  by (simp_all add: sync_trie_def)

lemma inv_sync:
  assumes "store_ok c" "digests_32 (to_crypto c)" "state_inv c s"
  shows "state_inv c (sync_trie c s)"
proof (rule inv_frame [OF assms(3)])
  show "trie_ok (to_crypto c) (trie (sync_trie c s))"
    using trie_ok_sync [OF assms(2) state_invD(2) [OF assms(3)]] by (simp add: sync_trie_def)
  show "trie_follows c (sync_trie c s)" if inj: "inj_on (key_to_path (to_crypto c)) (known_addresses c s)"
    unfolding trie_follows_def known_frame [OF sync_same(1,2)] sync_same
  proof (intro conjI ballI impI subsetI)
    fix a assume a: "a \<in> known_addresses c s" "\<not> is_dirty s a"
    show "bt_get (leaves (trie (sync_trie c s))) (key_to_path (to_crypto c) a) =
        expected_leaf (to_crypto c) a (account_or_default (stored_account c (db s) a))"
      unfolding synced_leaves(1) [OF assms(1,3) inj a(1)] clean_account [OF assms(1,3) a(2)] ..
  next
    fix p assume "p \<in> fst ` set (leaves (trie (sync_trie c s)))"
    then have "bt_get (leaves (trie (sync_trie c s))) p \<noteq> None" by (simp add: map_of_eq_None_iff)
    then show "p \<in> key_to_path (to_crypto c) ` known_addresses c s" using synced_leaves(2) [OF assms(1,3) inj, of p] by (rule contrapos_np)
  qed
qed (simp_all only: sync_same state_invD(3) [OF assms(3)])

lemma inv_trie:
  assumes "state_inv c s" "trie_ok (to_crypto c) t" "leaves t = leaves (trie s)"
  shows "state_inv c (s\<lparr>trie := t\<rparr>)"
proof (rule inv_frame [OF assms(1)])
  show "trie_follows c (s\<lparr>trie := t\<rparr>)" if "inj_on (key_to_path (to_crypto c)) (known_addresses c s)"
    using state_invD(8) [OF assms(1) that] assms(3) by (simp add: trie_follows_def known_addresses_def)
qed (use assms(2) state_invD(3) [OF assms(1)] in simp_all)

text \<open>What a flush writes for each account.\<close>

lemma dirty_puts_get:
  assumes "distinct (map fst m)" "dirty_puts c m = Ok b"
  shows "distinct (map fst b) \<and>
    map_of b (account_key a) = (case map_of m a of None \<Rightarrow> None | Some e \<Rightarrow> if dirty e then acct_to_vec c (ce_state e) else None)"
  using assms
proof (induction c m arbitrary: b rule: dirty_puts.induct)
  case (2 c addr e rest)
  have fresh: "map_of rest addr = None" using 2(3) by (simp add: map_of_eq_None_iff)
  show ?case
  proof (cases "dirty e")
    case True
    then obtain v b' where v: "acct_to_vec c (ce_state e) = Some v" and b': "dirty_puts c rest = Ok b'" "b = (account_key addr, v) # b'"
      using 2(4) by (cases "acct_to_vec c (ce_state e)"; cases "dirty_puts c rest") auto
    have "account_key addr \<notin> account_key ` set (map fst rest)" using 2(3) by (force simp: image_iff)
    then have "account_key addr \<notin> set (map fst b')" using dirty_puts_keys [OF b'(1)] by blast
    moreover have "distinct (map fst b') \<and>
        map_of b' (account_key a) = (case map_of rest a of None \<Rightarrow> None | Some e \<Rightarrow> if dirty e then acct_to_vec c (ce_state e) else None)"
      using 2(1) [OF True v] 2(3) b' by simp
    ultimately show ?thesis using True v b' fresh by auto
  next
    case False
    then show ?thesis using 2(2) [OF False] 2(3,4) fresh by auto
  qed
qed simp

lemma map_of_rev_distinct: "distinct (map fst xs) \<Longrightarrow> map_of (rev xs) = map_of xs"
proof (induction xs)
  case (Cons x xs)
  then have "map_of xs (fst x) = None" by (simp add: map_of_eq_None_iff)
  with Cons show ?case by (auto simp: map_add_def fun_eq_iff split: option.splits)
qed simp

lemma flush_stored:
  assumes st: "store_ok c" and wf: "bt_wf (cache s)" and b: "dirty_puts c (cache s) = Ok b"
    and sys: "\<forall>k \<in> fst ` set sys. \<not> prefix PREFIX_ACCOUNT k" and ok: "snd (write_batch c (b @ sys) s) = Ok ()"
  shows "bt_get (db_contents c (db (fst (write_batch c (b @ sys) s)))) (account_key a) =
    (case bt_get (cache s) a of
       Some e \<Rightarrow> if dirty e then acct_to_vec c (ce_state e) else bt_get (db_contents c (db s)) (account_key a)
     | None \<Rightarrow> bt_get (db_contents c (db s)) (account_key a))"
proof -
  note g = dirty_puts_get [OF bt_wf_distinct [OF wf] b, of a]
  have "map_of (rev sys) (account_key a) = None"
    using sys by (force simp: map_of_eq_None_iff account_key_def)
  then have m: "map_of (rev (b @ sys)) (account_key a) = map_of b (account_key a)"
    using g map_of_rev_distinct [of b] by (simp add: map_add_def)
  have c: "db_contents c (db (fst (write_batch c (b @ sys) s))) =
      fold (\<lambda>(k, v). bt_insert k v) (b @ sys) (db_contents c (db s))"
    using write_batch_contents [OF st, of "b @ sys" s] ok by simp
  have some: "acct_to_vec c (ce_state e) \<noteq> None" if "bt_get (cache s) a = Some e" "dirty e" for e
  proof -
    have "dirty_puts c m = Ok b \<Longrightarrow> (a, e) \<in> set m \<Longrightarrow> acct_to_vec c (ce_state e) \<noteq> None" for m b
    proof (induction c m arbitrary: b rule: dirty_puts.induct)
      case (2 c addr e' rest)
      then show ?case using that(2)
        by (cases "acct_to_vec c (ce_state e')"; cases "dirty_puts c rest"; cases "dirty e'") auto
    qed simp
    then show ?thesis using b map_of_SomeD [OF that(1)] by blast
  qed
  show ?thesis unfolding c fold_insert_get m using g some by (auto split: option.splits if_splits)
qed

lemma inv_flush:
  assumes st: "store_ok c" and js: "json_ok c" and inv: "state_inv c s" and b: "dirty_puts c (cache s) = Ok b"
    and sys: "\<forall>k \<in> fst ` set sys. \<not> prefix PREFIX_ACCOUNT k"
  shows "state_inv c (fst (write_batch c (b @ sys) s))"
    and "snd (write_batch c (b @ sys) s) = Ok () \<Longrightarrow>
      account_or_default (stored_account c (db (fst (write_batch c (b @ sys) s))) a) = get_account c s a"
proof -
  let ?s = "fst (write_batch c (b @ sys) s)"
  note wf = state_invD(1) [OF inv]
  have same: "cache ?s = cache s" "trie ?s = trie s" "block_height ?s = block_height s" by simp_all
  have clean: "stored_account c (db ?s) a = stored_account c (db s) a" if "\<not> is_dirty s a" for a
  proof (cases "snd (write_batch c (b @ sys) s) = Ok ()")
    case True
    then show ?thesis using flush_stored [OF st wf b sys True, of a] that by (auto simp: stored_account_def split: option.splits)
  next
    case False
    then show ?thesis by (simp add: stored_account_def write_batch_contents [OF st])
  qed
  have dirty: "stored_account c (db ?s) a = Some (ce_state e)"
    if "snd (write_batch c (b @ sys) s) = Ok ()" "bt_get (cache s) a = Some e" "dirty e" for a e
  proof -
    have "\<exists>v. acct_to_vec c (ce_state e) = Some v \<and> acct_from_slice c v = Some (ce_state e)"
      using js state_invD(6) [OF inv that(2)] by (simp add: json_ok_def)
    then show ?thesis using flush_stored [OF st wf b sys that(1), of a] that by (auto simp: stored_account_def)
  qed
  have keys: "k \<in> fst ` set (db_contents c (db s)) \<or> k \<in> account_key ` fst ` set (cache s)"
    if "k \<in> fst ` set (db_contents c (db ?s))" "prefix PREFIX_ACCOUNT k" for k
  proof (cases "snd (write_batch c (b @ sys) s) = Ok ()")
    case True
    have "bt_get (db_contents c (db ?s)) k \<noteq> None" using that(1) by (simp add: map_of_eq_None_iff)
    then have "k \<in> fst ` set (b @ sys) \<or> bt_get (db_contents c (db s)) k \<noteq> None"
      using True by (auto simp: write_batch_contents [OF st] fold_insert_get split: option.splits dest!: map_of_SomeD) force+
    then show ?thesis using dirty_puts_keys [OF b] sys that(2) by (auto simp: map_of_eq_None_iff)
  next
    case False
    then show ?thesis using that(1) by (simp add: write_batch_contents [OF st])
  qed
  show "account_or_default (stored_account c (db ?s) a) = get_account c s a"
    if ok: "snd (write_batch c (b @ sys) s) = Ok ()"
  proof (cases "is_dirty s a")
    case True
    then obtain e where e: "bt_get (cache s) a = Some e" "dirty e" by blast
    then show ?thesis using dirty [OF ok e] by (simp add: account_or_default_def get_account_def)
  next
    case False
    then show ?thesis using clean [OF False] clean_account [OF st inv False] by simp
  qed
  have known: "known_addresses c ?s = known_addresses c s"
  proof -
    have "a \<in> known_addresses c s" if "a \<in> stored_addresses c (db ?s)" for a
    proof -
      have "account_key a \<in> fst ` set (db_contents c (db ?s))"
        using that unfolding stored_addresses_def mem_Collect_eq map_of_eq_None_iff by blast
      then have "account_key a \<in> fst ` set (db_contents c (db s)) \<or> account_key a \<in> account_key ` fst ` set (cache s)"
        by (rule keys) (simp add: account_key_def)
      then show ?thesis unfolding known_addresses_def stored_addresses_def mem_Collect_eq Un_iff map_of_eq_None_iff by force
    qed
    moreover have "stored_addresses c (db s) \<subseteq> stored_addresses c (db ?s)"
      by (auto simp: stored_addresses_def write_batch_contents [OF st] fold_insert_get split: option.splits)
    ultimately show ?thesis unfolding known_addresses_def [of c ?s] same by (auto simp: known_addresses_def)
  qed
  have "\<exists>a. k = account_key a \<and> utf8_valid (str_bytes a)"
    if "k \<in> fst ` set (db_contents c (db ?s))" "prefix PREFIX_ACCOUNT k" for k
    using keys [OF that] state_invD(4) [OF inv] state_invD(5) [OF inv _ that(2)] by blast
  moreover have "ce_state e = account_or_default (stored_account c (db ?s) a)" if "bt_get (cache s) a = Some e" "\<not> dirty e" for a e
    using state_invD(7) [OF inv that] clean [of a] that by simp
  moreover have "trie_follows c ?s" if inj: "inj_on (key_to_path (to_crypto c)) (known_addresses c s)"
    using state_invD(8) [OF inv inj] clean unfolding trie_follows_def known same by (metis (no_types, lifting))
  ultimately show "state_inv c ?s"
    using state_invD [OF inv] unfolding state_inv_def known same by blast
qed

section \<open>Runs\<close>

text \<open>
  The public calls that change the state.  \<open>SmAttempt\<close> is how a block proposal uses checkpoints: one is taken, the
  calls of the proposal run, possibly the block is persisted, and unless that succeeded the checkpoint is restored.
\<close>

datatype 'blk sm_op =
    SmTransfer u64 string string u128 u64 u64
  | SmMint string u128
  | SmSetBalance string u128
  | SmIncrementNonce string
  | SmSetCodeHash string bytes
  | SmRoot
  | SmProve string
  | SmCommit
  | SmPersist 'blk u64 string string string string
  | SmApply 'blk u64 string string string string string "CanonicalTransfer list"
  | SmAttempt "'blk sm_op list" "('blk \<times> u64 \<times> string \<times> string \<times> string \<times> string) option"

primrec sm_step :: "('db, 'blk) state_env \<Rightarrow> 'blk sm_op \<Rightarrow> 'db StateManager \<Rightarrow> 'db StateManager" where
  "sm_step c (SmTransfer now x y amount n ts) s = fst (apply_transfer c now x y amount n ts s)"
| "sm_step c (SmMint a amount) s = fst (mint c a amount s)"
| "sm_step c (SmSetBalance a b) s = set_balance c a b s"
| "sm_step c (SmIncrementNonce a) s = fst (increment_nonce c a s)"
| "sm_step c (SmSetCodeHash a h) s = set_code_hash c a h s"
| "sm_step c SmRoot s = fst (state_root c s)"
| "sm_step c (SmProve a) s = fst (prove_account c a s)"
| "sm_step c SmCommit s = fst (commit_block c s)"
| "sm_step c (SmPersist b i h p ch g) s = fst (persist_canonical_block c b i h p ch g s)"
| "sm_step c (SmApply b i h p ch g r xs) s = fst (apply_canonical_block c b i h p ch g r xs s)"
| "sm_step c (SmAttempt calls block) s =
     (let s1 = fold (\<lambda>f. f) (map (sm_step c) calls) s in
      case block of
        None \<Rightarrow> restore_checkpoint (checkpoint s) s1
      | Some (b, i, h, p, ch, g) \<Rightarrow>
          (case persist_canonical_block c b i h p ch g s1 of
             (s2, Ok _) \<Rightarrow> s2
           | (s2, _) \<Rightarrow> restore_checkpoint (checkpoint s) s2))"

text \<open>The calls that write nothing to the store.\<close>

primrec volatile :: "'blk sm_op \<Rightarrow> bool" where
  "volatile (SmTransfer now x y amount n ts) = True"
| "volatile (SmMint a amount) = True"
| "volatile (SmSetBalance a b) = True"
| "volatile (SmIncrementNonce a) = True"
| "volatile (SmSetCodeHash a h) = True"
| "volatile SmRoot = True"
| "volatile (SmProve a) = True"
| "volatile SmCommit = False"
| "volatile (SmPersist b i h p ch g) = False"
| "volatile (SmApply b i h p ch g r xs) = False"
| "volatile (SmAttempt calls block) = False"

text \<open>
  Arguments have the types of the source: strings are UTF-8, balances below \<open>2 ^ 128\<close> and code hashes 32 bytes.  A
  proposal writes nothing durable before its block, as the documentation of \<open>restore_checkpoint\<close> asks.
\<close>

primrec typed_op :: "'blk sm_op \<Rightarrow> bool" where
  "typed_op (SmTransfer now x y amount n ts) = (utf8_valid (str_bytes x) \<and> utf8_valid (str_bytes y))"
| "typed_op (SmMint a amount) = utf8_valid (str_bytes a)"
| "typed_op (SmSetBalance a b) = (utf8_valid (str_bytes a) \<and> b < 2 ^ 128)"
| "typed_op (SmIncrementNonce a) = utf8_valid (str_bytes a)"
| "typed_op (SmSetCodeHash a h) = (utf8_valid (str_bytes a) \<and> length h = 32 \<and> is_bytes h)"
| "typed_op SmRoot = True"
| "typed_op (SmProve a) = True"
| "typed_op SmCommit = True"
| "typed_op (SmPersist b i h p ch g) = True"
| "typed_op (SmApply b i h p ch g r xs) =
     list_all (\<lambda>x. utf8_valid (str_bytes (ct_sender x)) \<and> utf8_valid (str_bytes (ct_receiver x))) xs"
| "typed_op (SmAttempt calls block) = (list_all volatile calls \<and> list_all (\<lambda>p. p) (map typed_op calls))"

text \<open>The decoder returns accounts of the declared integer types.\<close>

definition typed_accounts :: "('db, 'blk) state_env \<Rightarrow> bool" where
  "typed_accounts c \<longleftrightarrow> (\<forall>v a. acct_from_slice c v = Some a \<longrightarrow> valid_account a)"

definition env_ok :: "('db, 'blk) state_env \<Rightarrow> bool" where
  "env_ok c \<longleftrightarrow> store_ok c \<and> json_ok c \<and> typed_accounts c \<and> digests_32 (to_crypto c)"

lemma env_okD:
  assumes "env_ok c"
  shows "store_ok c" "json_ok c" "typed_accounts c" "digests_32 (to_crypto c)"
  using assms by (simp_all add: env_ok_def)

lemma valid_get:
  assumes "env_ok c" "state_inv c s"
  shows "valid_account (get_account c s a)"
  using valid_get_account [OF assms(2) env_okD(1) [OF assms(1)]] env_okD(3) [OF assms(1)] by (simp add: typed_accounts_def)

lemma inv_transfer:
  assumes "env_ok c" "state_inv c s" "utf8_valid (str_bytes x)" "utf8_valid (str_bytes y)"
  shows "state_inv c (fst (apply_transfer_with_nonce c x y amount n s))"
proof (cases "apply_transfer_with_nonce c x y amount n s")
  case (Pair s' ok)
  show ?thesis
  proof (cases ok)
    case False
    then show ?thesis using Pair assms(2)
      by (auto simp: apply_transfer_with_nonce_def Let_def split: if_splits option.splits)
  next
    case True
    let ?s1 = "write_entry c x (\<lambda>a. a\<lparr>balance := get_balance c s x - amount\<rparr>) s"
    let ?s2 = "write_entry c y (\<lambda>a. a\<lparr>balance := get_balance c s y + amount\<rparr>) ?s1"
    have s': "s' = write_entry c x (\<lambda>a. a\<lparr>nonce := n + 1\<rparr>) ?s2" and ok: "n + 1 < 2 ^ 64" "get_balance c s y + amount < 2 ^ 128"
      using Pair True by (auto simp: apply_transfer_with_nonce_def Let_def checked_add_if set_balance_def split: if_splits)
    have 1: "state_inv c ?s1"
      by (rule inv_write [OF env_okD(1) [OF assms(1)] assms(2,3)])
        (use valid_get [OF assms(1,2), of x] in \<open>simp add: valid_account_def get_balance_def less_imp_diff_less\<close>)
    have 2: "state_inv c ?s2"
      by (rule inv_write [OF env_okD(1) [OF assms(1)] 1 assms(4)])
        (use valid_get [OF assms(1) 1, of y] ok in \<open>simp add: valid_account_def get_balance_def\<close>)
    have "state_inv c s'" unfolding s'
      by (rule inv_write [OF env_okD(1) [OF assms(1)] 2 assms(3)])
        (use valid_get [OF assms(1) 2, of x] ok in \<open>simp add: valid_account_def\<close>)
    then show ?thesis using Pair by simp
  qed
qed

lemma inv_transfers:
  assumes "env_ok c" "list_all (\<lambda>x. utf8_valid (str_bytes (ct_sender x)) \<and> utf8_valid (str_bytes (ct_receiver x))) xs" "state_inv c s"
  shows "state_inv c (fst (apply_transfers c xs s))"
  using assms(2,3)
proof (induction xs arbitrary: s)
  case (Cons x xs)
  obtain s' ok where t: "apply_transfer_with_nonce c (ct_sender x) (ct_receiver x) (ct_amount x) (ct_nonce x) s = (s', ok)" by force
  have "state_inv c s'"
    using inv_transfer [OF assms(1) Cons.prems(2), of "ct_sender x" "ct_receiver x" "ct_amount x" "ct_nonce x"] Cons.prems(1) t by simp
  then show ?case using Cons.IH [of s'] Cons.prems t by (cases ok) auto
qed simp

text \<open>Flushing changes nothing but the store, and that only when it succeeds.\<close>

lemma flush_block_frame:
  "cache (fst (flush_with_canonical_block c b i h p ch s)) = cache s"
  "trie (fst (flush_with_canonical_block c b i h p ch s)) = trie s"
  "block_height (fst (flush_with_canonical_block c b i h p ch s)) = block_height s"
  "snd (flush_with_canonical_block c b i h p ch s) \<noteq> Panic"
  using dirty_puts_no_panic [of c "cache s"]
  by (auto simp: flush_with_canonical_block_def write_batch_outcome split: option.splits outcome.splits)

lemma flush_block_cases:
  assumes "store_ok c"
  shows "(\<exists>e. snd (flush_with_canonical_block c b i h p ch s) = Err e \<and>
      db_contents c (db (fst (flush_with_canonical_block c b i h p ch s))) = db_contents c (db s)) \<or>
    (\<exists>body v puts. block_to_vec c b = Some body \<and>
      record_to_vec c \<lparr>cbr_index = i, cbr_block_hash = h, cbr_previous_hash = p, cbr_chain_id = ch, cbr_body = body\<rparr> = Some v \<and>
      dirty_puts c (cache s) = Ok puts \<and> snd (flush_with_canonical_block c b i h p ch s) = Ok () \<and>
      flush_with_canonical_block c b i h p ch s =
        write_batch c (puts @ [(KEY_HEIGHT, to_le_bytes 8 i), (KEY_CHAIN_ID, str_bytes ch), (KEY_TIP_HASH, str_bytes h), (block_key i, v)]) s)"
  using dirty_puts_no_panic [of c "cache s"]
  by (auto simp: flush_with_canonical_block_def write_batch_outcome write_batch_contents [OF assms]
      split: option.splits outcome.splits if_splits)

lemma block_sys_keys:
  "\<forall>k \<in> fst ` set [(KEY_HEIGHT, a), (KEY_CHAIN_ID, b), (KEY_TIP_HASH, d), (block_key i, e)]. \<not> prefix PREFIX_ACCOUNT k"
  by (simp add: system_keys)

text \<open>Synchronising twice is synchronising once: each step writes a fixed leaf or keeps the old one.\<close>

lemma sync_writes:
  "(\<forall>t. bt_get (leaves (fold (sync_entry c) es t)) p = bt_get (leaves t) p) \<or>
   (\<exists>v. \<forall>t. bt_get (leaves (fold (sync_entry c) es t)) p = v)"
proof (induction es)
  case (Cons x es)
  then show ?case by (cases x) (auto simp: leaves_sync_entry)
qed simp

lemma sync_idem:
  assumes "digests_32 c" "trie_ok c t"
  shows "leaves (fold (sync_entry c) es (fold (sync_entry c) es t)) = leaves (fold (sync_entry c) es t)"
proof (rule bt_wf_ext)
  fix p
  show "bt_get (leaves (fold (sync_entry c) es (fold (sync_entry c) es t))) p = bt_get (leaves (fold (sync_entry c) es t)) p"
    using sync_writes [of c es p] by metis
qed (use trie_ok_sync [OF assms(1)] assms in \<open>auto simp: trie_ok_def\<close>)

lemma state_root_eq:
  assumes "digests_32 (to_crypto c)" "trie_ok (to_crypto c) (trie s)"
  shows "snd (state_root c s) = trie_root (to_crypto c) (leaves (trie (sync_trie c s)))"
    "leaves (trie (fst (state_root c s))) = leaves (trie (sync_trie c s))"
    "cache (fst (state_root c s)) = cache s" "db (fst (state_root c s)) = db s"
    "block_height (fst (state_root c s)) = block_height s" "trie_ok (to_crypto c) (trie (fst (state_root c s)))"
proof -
  have ok: "trie_ok (to_crypto c) (trie (sync_trie c s))" using trie_ok_sync [OF assms] by (simp add: sync_trie_def)
  show "snd (state_root c s) = trie_root (to_crypto c) (leaves (trie (sync_trie c s)))"
    "leaves (trie (fst (state_root c s))) = leaves (trie (sync_trie c s))"
    "cache (fst (state_root c s)) = cache s" "db (fst (state_root c s)) = db s"
    "block_height (fst (state_root c s)) = block_height s" "trie_ok (to_crypto c) (trie (fst (state_root c s)))"
    using smt_root_correct [OF ok] by (simp_all add: state_root_def Let_def case_prod_beta)
qed

lemma transfers_frame:
  "db (fst (apply_transfers c xs s)) = db s \<and> trie (fst (apply_transfers c xs s)) = trie s \<and>
   block_height (fst (apply_transfers c xs s)) = block_height s"
proof (induction xs arbitrary: s)
  case (Cons x xs)
  obtain s' ok where t: "apply_transfer_with_nonce c (ct_sender x) (ct_receiver x) (ct_amount x) (ct_nonce x) s = (s', ok)" by force
  have "db s' = db s \<and> trie s' = trie s \<and> block_height s' = block_height s"
    using t by (auto simp: apply_transfer_with_nonce_def Let_def set_balance_def split: if_splits option.splits)
  then show ?case using Cons.IH [of s'] t by (cases ok) auto
qed simp

lemma check_next_Ok:
  assumes "check_next_canonical_block c s i p ch g = Ok ()"
  shows "i = block_height s + 1" "i < 2 ^ 64"
  using assms by (auto simp: check_next_canonical_block_def checked_add_if split: if_splits)

lemma check_next_no_panic: "check_next_canonical_block c s i p ch g \<noteq> Panic"
  by (auto simp: check_next_canonical_block_def Let_def split: option.splits if_splits)

lemma apply_block_cases:
  assumes "store_ok c" and call: "apply_canonical_block c b i h p ch g r xs s = (s', x)"
    and trie: "digests_32 (to_crypto c)" "trie_ok (to_crypto c) (trie s)"
  shows "(\<exists>e. x = Err e \<and> db_contents c (db s') = db_contents c (db s) \<and> s' = s\<lparr>db := db s'\<rparr>) \<or>
    (x = Ok () \<and> check_next_canonical_block c s i p ch g = Ok () \<and>
     (\<exists>s1. apply_transfers c xs s = (s1, None) \<and> hex_encode c (snd (state_root c s1)) = r \<and>
       flush_with_canonical_block c b i h p ch (sync_trie c ((fst (state_root c s1))\<lparr>block_height := i\<rparr>)) = (s', Ok ())))"
proof (cases "check_next_canonical_block c s i p ch g")
  case (Ok u)
  then have i: "i = block_height s + 1" using check_next_Ok(1) by simp
  obtain s1 who where t: "apply_transfers c xs s = (s1, who)" by force
  then have f1: "db s1 = db s" "trie s1 = trie s" "block_height s1 = block_height s"
    using transfers_frame [of c xs s] by simp_all
  obtain s2 rt where root: "state_root c s1 = (s2, rt)" by force
  have f2: "db s2 = db s" "block_height s2 = block_height s"
    using state_root_eq(4,5) [OF trie(1), of s1] trie(2) f1 root by simp_all
  let ?s3 = "sync_trie c (s2\<lparr>block_height := i\<rparr>)"
  obtain s4 y where fl: "flush_with_canonical_block c b i h p ch ?s3 = (s4, y)" by force
  note fr = flush_block_frame [of c b i h p ch ?s3, unfolded fl fst_conv snd_conv]
  have f4: "db_contents c (db s4) = db_contents c (db s)" if "y \<noteq> Ok ()"
    using flush_block_cases [OF assms(1), of b i h p ch ?s3] that fl f2 by auto
  consider (rejected) w where "who = Some w" | (mismatch) "who = None" "hex_encode c rt \<noteq> r"
    | (failed) e where "who = None" "hex_encode c rt = r" "y = Err e" | (finished) "who = None" "hex_encode c rt = r" "y = Ok ()"
    using fr(4) by (cases who; cases y) auto
  then show ?thesis
  proof cases
    case rejected
    then show ?thesis using call Ok t f1 by (cases s1, cases s) (auto simp: apply_canonical_block_def)
  next
    case mismatch
    then show ?thesis using call Ok t root f2
      by (cases s2, cases s) (auto simp: apply_canonical_block_def Let_def)
  next
    case failed
    then show ?thesis using call Ok t root fl fr i f4
      by (cases s4, cases s) (auto simp: apply_canonical_block_def Let_def sat_sub_def)
  next
    case finished
    then show ?thesis using call Ok t root fl by (auto simp: apply_canonical_block_def Let_def)
  qed
next
  case (Err e)
  then have "s' = s" "x = Err e" using call by (simp_all add: apply_canonical_block_def)
  then show ?thesis by simp
next
  case Panic
  then show ?thesis by (simp add: check_next_no_panic)
qed

lemma inv_contents:
  assumes inv: "state_inv c s" and d: "db_contents c d = db_contents c (db s)"
  shows "state_inv c (s\<lparr>db := d\<rparr>)"
proof -
  have st: "stored_account c d = stored_account c (db s)" by (simp add: stored_account_def d fun_eq_iff)
  have known: "known_addresses c (s\<lparr>db := d\<rparr>) = known_addresses c s" by (simp add: known_addresses_def stored_addresses_def d)
  have "trie_follows c (s\<lparr>db := d\<rparr>)" if "inj_on (key_to_path (to_crypto c)) (known_addresses c s)"
    using state_invD(8) [OF inv that] unfolding trie_follows_def known by (simp add: st)
  then show ?thesis using inv unfolding state_inv_def known by (simp add: st d)
qed

lemma inv_root:
  assumes "env_ok c" "state_inv c s"
  shows "state_inv c (fst (state_root c s))"
proof -
  note e = env_okD [OF assms(1)]
  have ok: "state_inv c (sync_trie c s)" by (rule inv_sync [OF e(1,4) assms(2)])
  have "fst (state_root c s) = (sync_trie c s)\<lparr>trie := fst (smt_root (to_crypto c) (trie (sync_trie c s)))\<rparr>"
    by (simp add: state_root_def Let_def case_prod_beta)
  then show ?thesis using inv_trie [OF ok] smt_root_correct(2,4) [OF state_invD(2) [OF ok]] by simp
qed

lemma inv_height:
  assumes "state_inv c s" "i < 2 ^ 64"
  shows "state_inv c (s\<lparr>block_height := i\<rparr>)"
  by (rule inv_frame [OF assms(1)])
    (use assms(2) state_invD [OF assms(1)] in \<open>simp_all add: trie_follows_def known_addresses_def\<close>)

lemma inv_flush_block:
  assumes "env_ok c" "state_inv c s"
  shows "state_inv c (fst (flush_with_canonical_block c b i h p ch s))"
  using flush_block_cases [OF env_okD(1) [OF assms(1)], of b i h p ch s]
proof (elim disjE exE conjE)
  fix e
  assume "db_contents c (db (fst (flush_with_canonical_block c b i h p ch s))) = db_contents c (db s)"
  then have "state_inv c (s\<lparr>db := db (fst (flush_with_canonical_block c b i h p ch s))\<rparr>)" by (rule inv_contents [OF assms(2)])
  moreover have "fst (flush_with_canonical_block c b i h p ch s) = s\<lparr>db := db (fst (flush_with_canonical_block c b i h p ch s))\<rparr>"
    using flush_block_frame [of c b i h p ch s] by (cases s; cases "fst (flush_with_canonical_block c b i h p ch s)") simp
  ultimately show ?thesis by simp
next
  fix body v puts
  assume puts: "dirty_puts c (cache s) = Ok puts"
    and w: "flush_with_canonical_block c b i h p ch s =
        write_batch c (puts @ [(KEY_HEIGHT, to_le_bytes 8 i), (KEY_CHAIN_ID, str_bytes ch), (KEY_TIP_HASH, str_bytes h), (block_key i, v)]) s"
  show ?thesis unfolding w by (rule inv_flush(1) [OF env_okD(1,2) [OF assms(1)] assms(2) puts block_sys_keys])
qed

lemma inv_apply:
  assumes "env_ok c" "state_inv c s"
    and "list_all (\<lambda>x. utf8_valid (str_bytes (ct_sender x)) \<and> utf8_valid (str_bytes (ct_receiver x))) xs"
  shows "state_inv c (fst (apply_canonical_block c b i h p ch g r xs s))"
proof -
  note e = env_okD [OF assms(1)]
  obtain s' x where call: "apply_canonical_block c b i h p ch g r xs s = (s', x)" by force
  show ?thesis
    using apply_block_cases [OF e(1) call e(4) state_invD(2) [OF assms(2)]]
  proof (elim disjE exE conjE)
    assume "db_contents c (db s') = db_contents c (db s)" "s' = s\<lparr>db := db s'\<rparr>"
    then show ?thesis using inv_contents [OF assms(2), of "db s'"] call by simp
  next
    fix s1
    assume chk: "check_next_canonical_block c s i p ch g = Ok ()" and t: "apply_transfers c xs s = (s1, None)"
      and fl: "flush_with_canonical_block c b i h p ch (sync_trie c ((fst (state_root c s1))\<lparr>block_height := i\<rparr>)) = (s', Ok ())"
    have "state_inv c s1" using inv_transfers [OF assms(1,3,2)] t by simp
    then have "state_inv c (sync_trie c ((fst (state_root c s1))\<lparr>block_height := i\<rparr>))"
      by (intro inv_sync [OF e(1,4)] inv_height inv_root [OF assms(1)] check_next_Ok(2) [OF chk])
    then show ?thesis
      using inv_flush_block [OF assms(1), of "sync_trie c ((fst (state_root c s1))\<lparr>block_height := i\<rparr>)" b i h p ch] fl call by simp
  qed
qed

lemma inv_persist:
  assumes "env_ok c" "state_inv c s"
  shows "state_inv c (fst (persist_canonical_block c b i h p ch g s))"
proof (cases "check_next_canonical_block c s i p ch g")
  case (Ok u)
  note e = env_okD [OF assms(1)]
  let ?s1 = "sync_trie c (s\<lparr>block_height := i\<rparr>)"
  have i: "i < 2 ^ 64" using check_next_Ok(2) Ok by simp
  have "state_inv c ?s1" by (intro inv_sync [OF e(1,4)] inv_height assms(2) i)
  then have "state_inv c (fst (flush_with_canonical_block c b i h p ch ?s1))" by (rule inv_flush_block [OF assms(1)])
  moreover have "sat_sub i 1 < 2 ^ 64" using i by (simp add: sat_sub_def)
  ultimately show ?thesis using Ok inv_height
    by (cases "flush_with_canonical_block c b i h p ch ?s1"; cases "snd (flush_with_canonical_block c b i h p ch ?s1)")
      (simp_all add: persist_canonical_block_def Let_def)
qed (use assms(2) in \<open>simp_all add: persist_canonical_block_def\<close>)

lemma inv_commit:
  assumes "env_ok c" "state_inv c s"
  shows "state_inv c (fst (commit_block c s))"
proof -
  note e = env_okD [OF assms(1)]
  have ok: "state_inv c (sync_trie c s)" by (rule inv_sync [OF e(1,4) assms(2)])
  show ?thesis
  proof (cases "dirty_puts c (cache s)")
    case (Ok b)
    have "state_inv c (fst (write_batch c (b @ [(KEY_HEIGHT, to_le_bytes 8 (block_height s))]) (sync_trie c s)))"
      by (rule inv_flush(1) [OF e(1,2) ok]) (use Ok in \<open>simp_all add: system_keys\<close>)
    then show ?thesis using Ok by (simp add: commit_block_def flush_internal_def)
  qed (use ok in \<open>simp_all add: commit_block_def flush_internal_def\<close>)
qed

lemma inv_set_balance:
  assumes "env_ok c" "state_inv c s" "utf8_valid (str_bytes x)" "b < 2 ^ 128"
  shows "state_inv c (set_balance c x b s)"
  unfolding set_balance_def
  by (rule inv_write [OF env_okD(1) [OF assms(1)] assms(2)])
    (use assms(3,4) valid_get [OF assms(1,2), of x] in \<open>simp_all add: valid_account_def\<close>)

lemma inv_volatile:
  assumes "env_ok c" "state_inv c s" "typed_op a" "volatile a"
  shows "state_inv c (sm_step c a s)"
proof (cases a)
  case (SmTransfer now x y amount n ts)
  then show ?thesis using assms inv_transfer [OF assms(1,2), of x y amount n] by (simp add: apply_transfer_def)
next
  case (SmMint x amount)
  then show ?thesis using inv_set_balance [OF assms(1,2), of x] assms(2,3)
    by (auto simp: mint_def Let_def checked_add_if split: if_splits)
next
  case (SmSetBalance x b)
  then show ?thesis using inv_set_balance [OF assms(1,2), of x b] assms(3) by simp
next
  case (SmIncrementNonce x)
  have "state_inv c (write_entry c x (\<lambda>a. a\<lparr>nonce := wrap_add 64 (nonce a) 1\<rparr>) s)"
    by (rule inv_write [OF env_okD(1) [OF assms(1)] assms(2)])
      (use assms(3) SmIncrementNonce valid_get [OF assms(1,2), of x] wrap_bounds(1) [of 64] in \<open>simp_all add: valid_account_def\<close>)
  then show ?thesis using SmIncrementNonce by (simp add: increment_nonce_def Let_def)
next
  case (SmSetCodeHash x h)
  then show ?thesis
    using assms(3) valid_get [OF assms(1,2), of x] unfolding sm_step.simps SmSetCodeHash set_code_hash_def
    by (intro inv_write [OF env_okD(1) [OF assms(1)] assms(2)]) (simp_all add: valid_account_def)
next
  case SmRoot
  then show ?thesis using inv_root [OF assms(1,2)] by simp
next
  case (SmProve x)
  have ok: "state_inv c (sync_trie c s)" by (rule inv_sync [OF env_okD(1,4) [OF assms(1)] assms(2)])
  have "fst (prove_account c x s) = (sync_trie c s)\<lparr>trie := fst (smt_root (to_crypto c) (trie (sync_trie c s)))\<rparr>"
    by (simp add: prove_account_def prove_def Let_def case_prod_beta)
  then show ?thesis using SmProve inv_trie [OF ok] smt_root_correct(2,4) [OF state_invD(2) [OF ok]] by simp
qed (use assms(4) in simp_all)

lemma volatile_db:
  assumes "volatile a"
  shows "db (sm_step c a s) = db s"
proof (cases a)
  case (SmTransfer now x y m n ts)
  have "db (fst (apply_transfer_with_nonce c x y m n s)) = db s"
    by (auto simp: apply_transfer_with_nonce_def Let_def set_balance_def split: option.splits)
  then show ?thesis by (simp add: SmTransfer apply_transfer_def)
next
  case (SmMint x m)
  then show ?thesis by (auto simp: mint_def Let_def set_balance_def split: option.splits)
qed (use assms in \<open>simp_all add: set_balance_def increment_nonce_def set_code_hash_def state_root_def prove_account_def
    Let_def case_prod_beta\<close>)

lemma volatile_run:
  assumes "env_ok c" "state_inv c s" "list_all volatile calls" "list_all typed_op calls"
  shows "state_inv c (fold (sm_step c) calls s) \<and> db (fold (sm_step c) calls s) = db s"
  using assms(2-)
proof (induction calls arbitrary: s)
  case (Cons a calls)
  then show ?case using Cons.IH [of "sm_step c a s"] inv_volatile [OF assms(1), of s a] volatile_db [of a c s] by simp
qed simp

lemma persist_failed:
  assumes "store_ok c" "persist_canonical_block c b i h p ch g s = (s', x)" "x \<noteq> Ok ()"
  shows "db_contents c (db s') = db_contents c (db s)"
proof (cases "check_next_canonical_block c s i p ch g")
  case (Ok u)
  let ?s1 = "sync_trie c (s\<lparr>block_height := i\<rparr>)"
  obtain s2 y where fl: "flush_with_canonical_block c b i h p ch ?s1 = (s2, y)" by force
  have "db s' = db s2" "y \<noteq> Ok ()" using assms(2,3) Ok fl by (cases y; auto simp: persist_canonical_block_def Let_def)+
  then show ?thesis using flush_block_cases [OF assms(1), of b i h p ch ?s1] fl by auto
qed (use assms(2) in \<open>simp_all add: persist_canonical_block_def\<close>)

text \<open>A proposal either commits its block or leaves cache, height, trie and stored contents as they were.\<close>

lemma attempt_cases:
  assumes "env_ok c" "state_inv c s" "typed_op (SmAttempt calls block)"
  shows "(\<exists>d. db_contents c d = db_contents c (db s) \<and> sm_step c (SmAttempt calls block) s = s\<lparr>db := d\<rparr>) \<or>
    (\<exists>b i h p ch g. block = Some (b, i, h, p, ch, g) \<and>
       persist_canonical_block c b i h p ch g (fold (sm_step c) calls s) = (sm_step c (SmAttempt calls block) s, Ok ()))"
proof -
  let ?s1 = "fold (sm_step c) calls s"
  have run: "fold (\<lambda>f. f) (map (sm_step c) calls) s = ?s1" by (simp add: fold_map comp_def)
  have db1: "db ?s1 = db s" using volatile_run [OF assms(1,2)] assms(3) by (simp add: list.pred_map comp_def)
  have undone: "restore_checkpoint (checkpoint s) t = s\<lparr>db := db t\<rparr>" for t by (simp add: restore_checkpoint_def)
  show ?thesis
  proof (cases block)
    case None
    then have "sm_step c (SmAttempt calls block) s = s\<lparr>db := db ?s1\<rparr>" by (simp add: run undone)
    then show ?thesis using db1 by auto
  next
    case (Some t)
    obtain b i h p ch g where t: "t = (b, i, h, p, ch, g)" by (cases t) auto
    obtain s2 x where call: "persist_canonical_block c b i h p ch g ?s1 = (s2, x)" by force
    show ?thesis
    proof (cases "x = Ok ()")
      case True
      then show ?thesis using Some t call by (auto simp: run)
    next
      case False
      then have "sm_step c (SmAttempt calls block) s = s\<lparr>db := db s2\<rparr>"
        using Some t call by (cases x) (simp_all add: run undone)
      then show ?thesis using persist_failed [OF env_okD(1) [OF assms(1)] call False] db1 by auto
    qed
  qed
qed

lemma inv_step:
  assumes "env_ok c" "state_inv c s" "typed_op a"
  shows "state_inv c (sm_step c a s)"
proof (cases a)
  case SmCommit
  then show ?thesis using inv_commit [OF assms(1,2)] by simp
next
  case (SmPersist b i h p ch g)
  then show ?thesis using inv_persist [OF assms(1,2)] by simp
next
  case (SmApply b i h p ch g r xs)
  then show ?thesis using inv_apply [OF assms(1,2), of xs] assms(3) by simp
next
  case (SmAttempt calls block)
  have inv1: "state_inv c (fold (sm_step c) calls s)"
    using volatile_run [OF assms(1,2), of calls] assms(3) SmAttempt by (simp add: list.pred_map comp_def)
  show ?thesis
    using attempt_cases [OF assms(1,2) assms(3) [unfolded SmAttempt]] unfolding SmAttempt
  proof (elim disjE exE conjE)
    fix b i h p ch g
    assume "persist_canonical_block c b i h p ch g (fold (sm_step c) calls s) = (sm_step c (SmAttempt calls block) s, Ok ())"
    then show "state_inv c (sm_step c (SmAttempt calls block) s)" using inv_persist [OF assms(1) inv1, of b i h p ch g] by simp
  qed (use inv_contents [OF assms(2)] in simp)
qed (use inv_volatile [OF assms] in simp_all)

section \<open>Opening a store\<close>

definition rebuild_one :: "('db, 'blk) state_env \<Rightarrow> bytes \<times> bytes \<Rightarrow> SparseMerkleTrie \<Rightarrow> SparseMerkleTrie" where
  "rebuild_one c kv t =
     (let addr = map char_of (drop (length PREFIX_ACCOUNT) (fst kv)); a = account_or_default (acct_from_slice c (snd kv)) in
      if balance a > 0 \<or> nonce a > 0 then smt_insert (to_crypto c) addr (balance a) (nonce a) t else t)"

definition account_entry :: "bytes \<times> bytes \<Rightarrow> bool" where
  "account_entry kv \<longleftrightarrow> (\<exists>a. fst kv = account_key a \<and> utf8_valid (str_bytes a))"

lemma from_utf8_key: "from_utf8 (drop (length PREFIX_ACCOUNT) (PREFIX_ACCOUNT @ q)) = Some a \<longleftrightarrow> utf8_valid q \<and> q = str_bytes a"
  by (simp add: from_utf8_Some)

lemma rebuild_loop_Ok:
  "snd (rebuild_loop c (map Some xs) t) = Ok () \<longleftrightarrow> list_all account_entry (takeWhile (\<lambda>(k, v). prefix PREFIX_ACCOUNT k) xs)"
  "snd (rebuild_loop c (map Some xs) t) = Ok () \<Longrightarrow>
   fst (rebuild_loop c (map Some xs) t) = fold (rebuild_one c) (takeWhile (\<lambda>(k, v). prefix PREFIX_ACCOUNT k) xs) t"
proof (induction xs arbitrary: t)
  case (Cons x xs)
  obtain k v where x: "x = (k, v)" by force
  {
    case 1
    show ?case
    proof (cases "prefix PREFIX_ACCOUNT k")
      case True
      then obtain q where k: "k = PREFIX_ACCOUNT @ q" by (auto simp: prefix_account)
      have "account_entry x \<longleftrightarrow> (\<exists>a. from_utf8 q = Some a)"
        by (auto simp: account_entry_def x k account_key_def from_utf8_Some)
      then show ?thesis using Cons.IH(1) True k by (auto simp: x Let_def split: option.splits)
    qed (simp add: x)
  next
    case 2
    show ?case
    proof (cases "prefix PREFIX_ACCOUNT k")
      case True
      then obtain q where k: "k = PREFIX_ACCOUNT @ q" by (auto simp: prefix_account)
      obtain a where a: "from_utf8 q = Some a" using 2 True k by (cases "from_utf8 q") (auto simp: x)
      then have "map char_of q = a" by (auto simp: from_utf8_def split: if_splits)
      then show ?thesis using Cons.IH(2) 2 True k a
        by (simp add: x Let_def rebuild_one_def account_or_default_def)
    qed (simp add: x)
  }
qed simp_all

lemma leaves_rebuild_one:
  assumes "fst kv = account_key a"
  shows "bt_get (leaves (rebuild_one c kv t)) p =
    (if p = key_to_path (to_crypto c) a \<and> expected_leaf (to_crypto c) a (account_or_default (acct_from_slice c (snd kv))) \<noteq> None
     then expected_leaf (to_crypto c) a (account_or_default (acct_from_slice c (snd kv))) else bt_get (leaves t) p)"
proof -
  have "map char_of (drop (length PREFIX_ACCOUNT) (fst kv)) = a"
    using assms by (auto simp: account_key_def str_bytes_def intro!: map_idI)
  then show ?thesis
    by (simp add: rebuild_one_def Let_def smt_insert_def invalidate_caches_def expected_leaf_def)
qed

lemma trie_ok_rebuild:
  "digests_32 (to_crypto c) \<Longrightarrow> trie_ok (to_crypto c) t \<Longrightarrow> trie_ok (to_crypto c) (fold (rebuild_one c) es t)"
  by (induction es arbitrary: t) (auto simp: rebuild_one_def Let_def intro: trie_ok_insert)

lemma leaves_rebuild_keep:
  assumes "\<forall>x \<in> set es. \<exists>a. fst x = account_key a \<and> key_to_path (to_crypto c) a \<noteq> p"
  shows "bt_get (leaves (fold (rebuild_one c) es t)) p = bt_get (leaves t) p"
  using assms
proof (induction es arbitrary: t)
  case (Cons x es)
  obtain a where "fst x = account_key a" "key_to_path (to_crypto c) a \<noteq> p" using Cons.prems by auto
  then have "bt_get (leaves (rebuild_one c x t)) p = bt_get (leaves t) p" by (simp add: leaves_rebuild_one)
  then show ?case using Cons.IH [of "rebuild_one c x t"] Cons.prems by simp
qed simp

lemma leaves_rebuild:
  assumes "distinct (map fst es)" "\<forall>x \<in> set es. \<exists>a \<in> A. fst x = account_key a" "inj_on (key_to_path (to_crypto c)) A"
    and "(account_key a, v) \<in> set es" "a \<in> A" "bt_get (leaves t) (key_to_path (to_crypto c) a) = None"
  shows "bt_get (leaves (fold (rebuild_one c) es t)) (key_to_path (to_crypto c) a) =
    expected_leaf (to_crypto c) a (account_or_default (acct_from_slice c v))"
  using assms(1,2,4,6)
proof (induction es arbitrary: t)
  case (Cons x es)
  show ?case
  proof (cases "x = (account_key a, v)")
    case True
    have "\<exists>b. fst y = account_key b \<and> key_to_path (to_crypto c) b \<noteq> key_to_path (to_crypto c) a" if y: "y \<in> set es" for y
    proof -
      obtain b where b: "b \<in> A" "fst y = account_key b" using Cons.prems(2) y by auto
      have "b \<noteq> a" using Cons.prems(1) True y b by force
      then show ?thesis using b inj_onD [OF assms(3) _ b(1) assms(5)] by blast
    qed
    then have "bt_get (leaves (fold (rebuild_one c) es (rebuild_one c x t))) (key_to_path (to_crypto c) a) =
        bt_get (leaves (rebuild_one c x t)) (key_to_path (to_crypto c) a)"
      by (intro leaves_rebuild_keep) simp
    then show ?thesis using True Cons.prems(4) by (simp add: leaves_rebuild_one)
  next
    case False
    obtain b where b: "b \<in> A" "fst x = account_key b" using Cons.prems(2) by auto
    have in_es: "(account_key a, v) \<in> set es" using Cons.prems(3) False by simp
    then have "b \<noteq> a" using Cons.prems(1) b by force
    then have "key_to_path (to_crypto c) b \<noteq> key_to_path (to_crypto c) a" using inj_onD [OF assms(3) _ b(1) assms(5)] by blast
    then have "bt_get (leaves (rebuild_one c x t)) (key_to_path (to_crypto c) a) = None"
      using Cons.prems(4) leaves_rebuild_one [OF b(2), of c t] by simp
    then show ?thesis using Cons.IH [of "rebuild_one c x t"] Cons.prems in_es by simp
  qed
qed simp

definition account_entries :: "('db, 'blk) state_env \<Rightarrow> 'db \<Rightarrow> (bytes \<times> bytes) list" where
  "account_entries c d = filter (\<lambda>(k, v). prefix PREFIX_ACCOUNT k) (db_contents c d)"

definition stored_height :: "('db, 'blk) state_env \<Rightarrow> 'db \<Rightarrow> u64 option" where
  "stored_height c d =
     (case bt_get (db_contents c d) KEY_HEIGHT of
        None \<Rightarrow> Some 0 | Some v \<Rightarrow> if length v = 8 then Some (from_le_bytes v) else None)"

lemma open_eq:
  assumes "store_ok c"
  shows "sm_open c (Some d) = Ok s \<longleftrightarrow>
    (\<exists>h. stored_height c d = Some h \<and> list_all account_entry (account_entries c d) \<and>
      s = \<lparr>db = d, cache = [], block_height = h, trie = fold (rebuild_one c) (account_entries c d) smt_new\<rparr>)"
proof -
  let ?xs = "filter (\<lambda>(k, v). PREFIX_ACCOUNT \<le> k) (db_contents c d)"
  have es: "takeWhile (\<lambda>(k, v). prefix PREFIX_ACCOUNT k) ?xs = account_entries c d"
    using prefix_segment [OF store_okD(1) [OF assms]] by (simp add: account_entries_def)
  obtain t x where l: "rebuild_loop c (map Some ?xs) smt_new = (t, x)" by force
  have x: "x = Ok () \<longleftrightarrow> list_all account_entry (account_entries c d)"
    and t: "x = Ok () \<Longrightarrow> t = fold (rebuild_one c) (account_entries c d) smt_new"
    using rebuild_loop_Ok [of c ?xs smt_new] l es by simp_all
  have np: "x \<noteq> Panic"
  proof -
    have "snd (rebuild_loop c ys t) \<noteq> Panic" for ys t
      by (induction c ys t rule: rebuild_loop.induct) (auto simp: Let_def split: option.splits)
    then show ?thesis using l by (metis snd_conv)
  qed
  have "sm_open c (Some d) = Ok s \<longleftrightarrow> (\<exists>h. stored_height c d = Some h \<and> x = Ok () \<and>
      s = \<lparr>db = d, cache = [], block_height = h, trie = t\<rparr>)"
    using l np by (cases x) (auto simp: sm_open_def store_okD [OF assms] rebuild_trie_from_db_def stored_height_def
        split: option.splits if_splits)
  then show ?thesis using x t by auto
qed

lemma open_leaves:
  assumes st: "store_ok c" and ok: "list_all account_entry (account_entries c d)"
    and inj: "inj_on (key_to_path (to_crypto c)) (stored_addresses c d)"
  shows "a \<in> stored_addresses c d \<Longrightarrow>
      bt_get (leaves (fold (rebuild_one c) (account_entries c d) smt_new)) (key_to_path (to_crypto c) a) =
      expected_leaf (to_crypto c) a (account_or_default (stored_account c d a))"
    and "p \<notin> key_to_path (to_crypto c) ` stored_addresses c d \<Longrightarrow>
      bt_get (leaves (fold (rebuild_one c) (account_entries c d) smt_new)) p = None"
proof -
  have wf: "bt_wf (db_contents c d)" using store_okD(1) [OF st] .
  have dist: "distinct (map fst (account_entries c d))"
    using bt_wf_distinct [OF wf] by (simp add: account_entries_def distinct_map_filter)
  have addr: "\<exists>a \<in> stored_addresses c d. fst x = account_key a" if x: "x \<in> set (account_entries c d)" for x
  proof -
    obtain a where a: "fst x = account_key a" using ok x by (auto simp: list_all_iff account_entry_def)
    moreover have "x \<in> set (db_contents c d)" using x by (simp add: account_entries_def)
    ultimately have "(account_key a, snd x) \<in> set (db_contents c d)" by (metis prod.collapse)
    then have "bt_get (db_contents c d) (account_key a) = Some (snd x)" using bt_get_in [OF wf] by blast
    then have "a \<in> stored_addresses c d" by (simp add: stored_addresses_def)
    then show ?thesis using a by blast
  qed
  {
    assume a: "a \<in> stored_addresses c d"
    then obtain v where v: "bt_get (db_contents c d) (account_key a) = Some v" by (auto simp: stored_addresses_def)
    then have "(account_key a, v) \<in> set (account_entries c d)"
      using map_of_SomeD [OF v] by (simp add: account_entries_def account_key_def)
    then show "bt_get (leaves (fold (rebuild_one c) (account_entries c d) smt_new)) (key_to_path (to_crypto c) a) =
      expected_leaf (to_crypto c) a (account_or_default (stored_account c d a))"
      using leaves_rebuild [OF dist _ inj, of a v smt_new] addr a v by (simp add: stored_account_def smt_new_def)
  }
  assume p: "p \<notin> key_to_path (to_crypto c) ` stored_addresses c d"
  have "\<exists>a. fst x = account_key a \<and> key_to_path (to_crypto c) a \<noteq> p" if "x \<in> set (account_entries c d)" for x
    using addr [OF that] p by blast
  then have "bt_get (leaves (fold (rebuild_one c) (account_entries c d) smt_new)) p = bt_get (leaves smt_new) p"
    by (intro leaves_rebuild_keep) blast
  then show "bt_get (leaves (fold (rebuild_one c) (account_entries c d) smt_new)) p = None" by (simp add: smt_new_def)
qed

lemma open_inv:
  assumes "env_ok c" "sm_open c (Some d) = Ok s" "block_height s < 2 ^ 64"
  shows "state_inv c s" "cache s = []" "db s = d"
proof -
  note e = env_okD [OF assms(1)]
  obtain h where ok: "list_all account_entry (account_entries c d)"
    and s: "s = \<lparr>db = d, cache = [], block_height = h, trie = fold (rebuild_one c) (account_entries c d) smt_new\<rparr>"
    using assms(2) open_eq [OF e(1)] by blast
  show fields: "cache s = []" "db s = d" by (simp_all add: s)
  have known: "known_addresses c s = stored_addresses c d" by (simp add: known_addresses_def s)
  have "trie_follows c s" if inj: "inj_on (key_to_path (to_crypto c)) (stored_addresses c d)"
    unfolding trie_follows_def known
  proof (intro conjI ballI impI subsetI)
    fix a assume "a \<in> stored_addresses c d"
    then show "bt_get (leaves (trie s)) (key_to_path (to_crypto c) a) =
        expected_leaf (to_crypto c) a (account_or_default (stored_account c (db s) a))"
      using open_leaves(1) [OF e(1) ok inj] by (simp add: s)
  next
    fix p assume "p \<in> fst ` set (leaves (trie s))"
    then have "bt_get (leaves (fold (rebuild_one c) (account_entries c d) smt_new)) p \<noteq> None"
      by (simp add: map_of_eq_None_iff s)
    then show "p \<in> key_to_path (to_crypto c) ` stored_addresses c d"
      using open_leaves(2) [OF e(1) ok inj, of p] by (rule contrapos_np)
  qed
  moreover have "trie_ok (to_crypto c) smt_new" by (simp add: trie_ok_def smt_new_def)
  then have "trie_ok (to_crypto c) (trie s)" using trie_ok_rebuild [OF e(4)] by (simp add: s)
  moreover have "\<exists>a. k = account_key a \<and> utf8_valid (str_bytes a)"
    if "k \<in> fst ` set (db_contents c d)" "prefix PREFIX_ACCOUNT k" for k
    using that ok by (force simp: account_entries_def list_all_iff account_entry_def)
  ultimately show "state_inv c s" unfolding state_inv_def known using assms(3) by (simp add: fields)
qed

text \<open>A committed state and the state opened from its store.\<close>

lemma commit_stored:
  assumes "env_ok c" "state_inv c s" "commit_block c s = (s', Ok ())"
  shows "account_or_default (stored_account c (db s') a) = get_account c s' a" "get_account c s' a = get_account c s a"
    "stored_height c (db s') = Some (block_height s')" "block_height s' = block_height s" "cache s' = cache s"
proof -
  note e = env_okD [OF assms(1)]
  let ?s1 = "sync_trie c s"
  let ?h = "[(KEY_HEIGHT, to_le_bytes 8 (block_height s))]"
  have inv: "state_inv c ?s1" by (rule inv_sync [OF e(1,4) assms(2)])
  obtain b where b: "dirty_puts c (cache s) = Ok b" and w: "write_batch c (b @ ?h) ?s1 = (s', Ok ())"
    using assms(3) by (auto simp: commit_block_def flush_internal_def split: outcome.splits)
  have b1: "dirty_puts c (cache ?s1) = Ok b" using b by simp
  have sys: "\<forall>k \<in> fst ` set ?h. \<not> prefix PREFIX_ACCOUNT k" by (simp add: system_keys)
  have ga: "get_account c ?s1 a = get_account c s a" for a
    by (cases "bt_get (cache s) a") (simp_all add: get_account_def)
  have keys: "\<forall>k \<in> set (map fst (b @ ?h)). k \<in> account_key ` set (map fst (cache ?s1)) \<or> \<not> prefix PREFIX_ACCOUNT k"
    using dirty_puts_keys [OF b1] sys by auto
  show acc: "get_account c s' a = get_account c s a" for a
    using write_batch_balances(2) [OF e(1) state_invD(1) [OF inv] keys, of a] w ga by simp
  show "account_or_default (stored_account c (db s') a) = get_account c s' a"
    using inv_flush(2) [OF e(1,2) inv b1 sys, of a] w ga acc by simp
  show h: "block_height s' = block_height s" "cache s' = cache s"
    using write_batch_same(1,3) [of c "b @ ?h" ?s1] w by simp_all
  have "bt_get (db_contents c (db s')) KEY_HEIGHT = Some (to_le_bytes 8 (block_height s))"
    using write_batch_contents [OF e(1), of "b @ ?h" ?s1] w by (simp add: fold_insert_get)
  then show "stored_height c (db s') = Some (block_height s')"
    using from_to_le_bytes [of "block_height s" 8] state_invD(3) [OF assms(2)] h by (simp add: stored_height_def)
qed

lemma open_committed:
  assumes "env_ok c" "state_inv c s" "stored_height c (db s) = Some h"
  shows "\<exists>s2. sm_open c (Some (db s)) = Ok s2 \<and> block_height s2 = h"
proof -
  have "list_all account_entry (account_entries c (db s))"
    using state_invD(5) [OF assms(2)]
    by (fastforce simp: list_all_iff account_entries_def account_entry_def account_key_def)
  then show ?thesis using open_eq [OF env_okD(1) [OF assms(1)], of "db s"] assms(3) by auto
qed

lemma reopen_root:
  assumes "env_ok c" "state_inv c s" "sm_open c (Some (db s)) = Ok s2" "block_height s2 < 2 ^ 64"
    and stored: "\<And>a. account_or_default (stored_account c (db s) a) = get_account c s a"
    and inj: "inj_on (key_to_path (to_crypto c)) (known_addresses c s)"
  shows "snd (state_root c s2) = snd (state_root c s)"
proof -
  note e = env_okD [OF assms(1)] and o = open_inv [OF assms(1,3,4)]
  let ?k = "key_to_path (to_crypto c)"
  have known2: "known_addresses c s2 = stored_addresses c (db s)" using o by (simp add: known_addresses_def)
  have sub: "stored_addresses c (db s) \<subseteq> known_addresses c s" by (simp add: known_addresses_def)
  have inj2: "inj_on ?k (known_addresses c s2)" unfolding known2 using inj sub by (rule inj_on_subset)
  have ga: "get_account c s2 a = get_account c s a" for a
    using stored [of a] o(2,3) by (simp add: get_account_stored [OF e(1), of s2] account_or_default_def)
  have "leaves (trie (sync_trie c s2)) = leaves (trie (sync_trie c s))"
  proof (rule bt_wf_ext)
    fix p
    consider a where "p = ?k a" "a \<in> stored_addresses c (db s)" | a where "p = ?k a" "a \<in> known_addresses c s" "a \<notin> stored_addresses c (db s)"
      | "p \<notin> ?k ` known_addresses c s" by blast
    then show "bt_get (leaves (trie (sync_trie c s2))) p = bt_get (leaves (trie (sync_trie c s))) p"
    proof cases
      case 1
      then show ?thesis
        using synced_leaves(1) [OF e(1) o(1) inj2, of a] synced_leaves(1) [OF e(1) assms(2) inj, of a] sub known2 ga by auto
    next
      case 2
      then have "p \<notin> ?k ` known_addresses c s2" unfolding known2 using inj sub by (auto simp: inj_on_def)
      then have "bt_get (leaves (trie (sync_trie c s2))) p = None" by (rule synced_leaves(2) [OF e(1) o(1) inj2])
      moreover have "stored_account c (db s) a = None" using contrapos_nn [OF 2(3) stored_addresses_stored] by auto
      then have "get_account c s a = AccountState_default" using stored [of a] by (simp add: account_or_default_def)
      then have "bt_get (leaves (trie (sync_trie c s))) p = None"
        using synced_leaves(1) [OF e(1) assms(2) inj 2(2)] 2(1) by (simp add: expected_leaf_def)
      ultimately show ?thesis by simp
    next
      case 3
      then have "p \<notin> ?k ` known_addresses c s2" unfolding known2 using sub by blast
      then show ?thesis using synced_leaves(2) [OF e(1) o(1) inj2] synced_leaves(2) [OF e(1) assms(2) inj 3] by simp
    qed
  qed (use state_invD(2) [OF inv_sync [OF e(1,4) o(1)]] state_invD(2) [OF inv_sync [OF e(1,4) assms(2)]] in \<open>auto simp: trie_ok_def\<close>)
  then show ?thesis
    using state_root_eq(1) [OF e(4) state_invD(2) [OF o(1)]] state_root_eq(1) [OF e(4) state_invD(2) [OF assms(2)]] by simp
qed

section \<open>The supply over a run\<close>

lemma balances_frame:
  assumes "store_ok c" "cache s' = cache s" "db_contents c (db s') = db_contents c (db s)"
  shows "all_balances c s' = all_balances c s"
  by (simp add: all_balances_def store_okD(3) [OF assms(1)] assms(2,3))

lemma balances_flush:
  assumes "store_ok c" "bt_wf (cache s)"
  shows "all_balances c (fst (flush_with_canonical_block c b i h p ch s)) = all_balances c s"
  using flush_block_cases [OF assms(1), of b i h p ch s]
proof (elim disjE exE conjE)
  assume "db_contents c (db (fst (flush_with_canonical_block c b i h p ch s))) = db_contents c (db s)"
  then show ?thesis by (rule balances_frame [OF assms(1) flush_block_frame(1)])
next
  fix body v puts
  assume puts: "dirty_puts c (cache s) = Ok puts"
    and w: "flush_with_canonical_block c b i h p ch s =
        write_batch c (puts @ [(KEY_HEIGHT, to_le_bytes 8 i), (KEY_CHAIN_ID, str_bytes ch), (KEY_TIP_HASH, str_bytes h), (block_key i, v)]) s"
  show ?thesis unfolding w
    by (rule write_batch_balances(1) [OF assms]) (use dirty_puts_keys [OF puts] in \<open>auto simp: system_keys\<close>)
qed

lemma balances_commit:
  assumes "store_ok c" "bt_wf (cache s)"
  shows "all_balances c (fst (commit_block c s)) = all_balances c s"
proof -
  have sync: "all_balances c (sync_trie c s) = all_balances c s" by (rule balances_frame [OF assms(1)]) simp_all
  show ?thesis
  proof (cases "dirty_puts c (cache s)")
    case (Ok b)
    have "all_balances c (fst (write_batch c (b @ [(KEY_HEIGHT, to_le_bytes 8 (block_height s))]) (sync_trie c s))) =
        all_balances c (sync_trie c s)"
      by (rule write_batch_balances(1) [OF assms(1)]) (use assms(2) dirty_puts_keys [OF Ok] in \<open>auto simp: system_keys\<close>)
    then show ?thesis using Ok sync by (simp add: commit_block_def flush_internal_def)
  qed (use sync in \<open>simp_all add: commit_block_def flush_internal_def\<close>)
qed

text \<open>The calls of an operation, those of a proposal included, and what a run must not contain to keep the supply.\<close>

primrec calls_of :: "'blk sm_op \<Rightarrow> 'blk sm_op list" where
  "calls_of (SmTransfer now x y amount n ts) = [SmTransfer now x y amount n ts]"
| "calls_of (SmMint a amount) = [SmMint a amount]"
| "calls_of (SmSetBalance a b) = [SmSetBalance a b]"
| "calls_of (SmIncrementNonce a) = [SmIncrementNonce a]"
| "calls_of (SmSetCodeHash a h) = [SmSetCodeHash a h]"
| "calls_of SmRoot = [SmRoot]"
| "calls_of (SmProve a) = [SmProve a]"
| "calls_of SmCommit = [SmCommit]"
| "calls_of (SmPersist b i h p ch g) = [SmPersist b i h p ch g]"
| "calls_of (SmApply b i h p ch g r xs) = [SmApply b i h p ch g r xs]"
| "calls_of (SmAttempt calls block) = concat (map calls_of calls)"

definition self_transfer :: "'blk sm_op \<Rightarrow> bool" where
  "self_transfer a = (case a of SmTransfer now x y amount n ts \<Rightarrow> x = y
     | SmApply b i h p ch g r xs \<Rightarrow> list_ex (\<lambda>x. ct_sender x = ct_receiver x) xs | _ \<Rightarrow> False)"

definition is_mint :: "'blk sm_op \<Rightarrow> bool" where
  "is_mint a = (case a of SmMint x amount \<Rightarrow> True | _ \<Rightarrow> False)"

definition sets_balance :: "'blk sm_op \<Rightarrow> bool" where
  "sets_balance a = (case a of SmSetBalance x b \<Rightarrow> True | _ \<Rightarrow> False)"

abbreviation no_self_transfer :: "'blk sm_op \<Rightarrow> bool" where
  "no_self_transfer a \<equiv> list_all (\<lambda>x. \<not> self_transfer x) (calls_of a)"

abbreviation no_set_balance :: "'blk sm_op \<Rightarrow> bool" where
  "no_set_balance a \<equiv> list_all (\<lambda>x. \<not> sets_balance x) (calls_of a)"

abbreviation no_mint :: "'blk sm_op \<Rightarrow> bool" where
  "no_mint a \<equiv> list_all (\<lambda>x. \<not> is_mint x) (calls_of a)"

lemma volatile_calls: "volatile a \<Longrightarrow> calls_of a = [a]"
  by (cases a) simp_all

lemma transfer_rejected: "apply_transfer_with_nonce c x y amount n s = (s', False) \<Longrightarrow> s' = s"
  by (auto simp: apply_transfer_with_nonce_def Let_def split: if_splits option.splits)

lemma supply_transfers:
  assumes "store_ok c" "bt_wf (cache s)" "list_all (\<lambda>x. ct_sender x \<noteq> ct_receiver x) xs"
    and "list_all (\<lambda>x. utf8_valid (str_bytes (ct_sender x)) \<and> utf8_valid (str_bytes (ct_receiver x))) xs"
  shows "supply_of c (fst (apply_transfers c xs s)) = supply_of c s \<and> bt_wf (cache (fst (apply_transfers c xs s)))"
  using assms(2-)
proof (induction xs arbitrary: s)
  case (Cons x xs)
  obtain s' ok where t: "apply_transfer_with_nonce c (ct_sender x) (ct_receiver x) (ct_amount x) (ct_nonce x) s = (s', ok)" by force
  have "supply_of c s' = supply_of c s \<and> bt_wf (cache s')"
  proof (cases ok)
    case True
    then show ?thesis using transfer_supply [OF assms(1) Cons.prems(1), of "ct_sender x" "ct_receiver x"] Cons.prems(2,3) t by simp
  next
    case False
    then have "s' = s" using t transfer_rejected by simp
    then show ?thesis using Cons.prems(1) by simp
  qed
  then show ?case using Cons.IH [of s'] Cons.prems t by (cases ok) auto
qed simp

lemma supply_apply:
  assumes "env_ok c" "state_inv c s" "list_all (\<lambda>x. ct_sender x \<noteq> ct_receiver x) xs"
    and "list_all (\<lambda>x. utf8_valid (str_bytes (ct_sender x)) \<and> utf8_valid (str_bytes (ct_receiver x))) xs"
  shows "supply_of c (fst (apply_canonical_block c b i h p ch g r xs s)) = supply_of c s"
proof -
  note e = env_okD [OF assms(1)] and i = state_invD [OF assms(2)]
  obtain s' x where call: "apply_canonical_block c b i h p ch g r xs s = (s', x)" by force
  show ?thesis
    using apply_block_cases [OF e(1) call e(4) i(2)]
  proof (elim disjE exE conjE)
    assume d: "db_contents c (db s') = db_contents c (db s)" "s' = s\<lparr>db := db s'\<rparr>"
    have "cache s' = cache s" by (subst d(2)) simp
    then have "all_balances c s' = all_balances c s" using d(1) by (rule balances_frame [OF e(1)])
    then show ?thesis using call by (simp add: supply_of_def)
  next
    fix s1
    let ?s3 = "sync_trie c ((fst (state_root c s1))\<lparr>block_height := i\<rparr>)"
    assume t: "apply_transfers c xs s = (s1, None)" and fl: "flush_with_canonical_block c b i h p ch ?s3 = (s', Ok ())"
    have s1: "supply_of c s1 = supply_of c s" "bt_wf (cache s1)" using supply_transfers [OF e(1) i(1) assms(3,4)] t by simp_all
    have "state_inv c s1" using inv_transfers [OF assms(1,4,2)] t by simp
    note rt = state_root_eq [OF e(4) state_invD(2) [OF this]]
    have "all_balances c ?s3 = all_balances c s1" by (rule balances_frame [OF e(1)]) (simp_all add: rt)
    then have "all_balances c s' = all_balances c s1"
      using balances_flush [OF e(1), of ?s3 b i h p ch] fl s1(2) by (simp add: rt)
    then show ?thesis using call s1(1) by (simp add: supply_of_def)
  qed
qed

lemma supply_persist:
  assumes "store_ok c" "bt_wf (cache s)"
  shows "supply_of c (fst (persist_canonical_block c b i h p ch g s)) = supply_of c s"
proof (cases "check_next_canonical_block c s i p ch g")
  case (Ok u)
  let ?s1 = "sync_trie c (s\<lparr>block_height := i\<rparr>)"
  obtain s2 x where fl: "flush_with_canonical_block c b i h p ch ?s1 = (s2, x)" by force
  have "all_balances c s2 = all_balances c ?s1" using balances_flush [OF assms(1), of ?s1 b i h p ch] fl assms(2) by simp
  moreover have "all_balances c ?s1 = all_balances c s" by (rule balances_frame [OF assms(1)]) simp_all
  moreover have "all_balances c (s2\<lparr>block_height := n\<rparr>) = all_balances c s2" for n by (rule balances_frame [OF assms(1)]) simp_all
  ultimately show ?thesis using Ok fl by (cases x) (simp_all add: persist_canonical_block_def Let_def supply_of_def)
qed (simp_all add: persist_canonical_block_def)

lemma cap_small: "MINT_MAX_SUPPLY < 2 ^ 128"
  by simp

lemma total_supply_small: "supply_of c s \<le> MINT_MAX_SUPPLY \<Longrightarrow> total_supply c s = supply_of c s"
  using cap_small by (simp add: total_supply_eq)

lemma supply_mint:
  assumes "store_ok c" "bt_wf (cache s)" "utf8_valid (str_bytes a)" "supply_of c s \<le> MINT_MAX_SUPPLY"
  shows "supply_of c (fst (mint c a amount s)) =
    (if supply_of c s + amount \<le> MINT_MAX_SUPPLY then supply_of c s + amount else supply_of c s)"
proof (cases "supply_of c s + amount \<le> MINT_MAX_SUPPLY")
  case True
  have le: "get_balance c s a + amount \<le> MINT_MAX_SUPPLY" using balance_le_supply [OF assms(1-3)] True by linarith
  have "mint c a amount s = (set_balance c a (get_balance c s a + amount) s, Ok (get_balance c s a + amount))"
    using True le cap_small total_supply_small [OF assms(4)] by (simp add: mint_def Let_def checked_add_if)
  moreover have "supply_of c (set_balance c a (get_balance c s a + amount) s) = supply_of c s + amount"
    using supply_write [OF assms(1-3), of "\<lambda>x. x\<lparr>balance := get_balance c s a + amount\<rparr>"] by (simp add: set_balance_def)
  ultimately show ?thesis using True by simp
next
  case False
  then show ?thesis using total_supply_small [OF assms(4)] by (simp add: mint_def Let_def checked_add_if)
qed

text \<open>\<open>set_balance\<close> moves the supply by the change of the balance, without regard to the cap.\<close>

lemma set_balance_supply:
  assumes "store_ok c" "bt_wf (cache s)" "utf8_valid (str_bytes a)"
  shows "supply_of c (set_balance c a b s) + get_balance c s a = supply_of c s + b"
  using supply_write [OF assms, of "\<lambda>x. x\<lparr>balance := b\<rparr>"] balance_le_supply [OF assms] by (simp add: set_balance_def)

lemma supply_call:
  assumes "env_ok c" "state_inv c s" "typed_op a" "\<not> self_transfer a" "\<not> is_mint a" "\<not> sets_balance a"
    and "\<And>calls block. a \<noteq> SmAttempt calls block"
  shows "supply_of c (sm_step c a s) = supply_of c s"
proof -
  note e = env_okD [OF assms(1)] and i = state_invD [OF assms(2)]
  have frame: "supply_of c s' = supply_of c s" if "cache s' = cache s" "db s' = db s" for s'
    using balances_frame [OF e(1), of s' s] that by (simp add: supply_of_def)
  have keep: "supply_of c (write_entry c x f s) = supply_of c s" if "utf8_valid (str_bytes x)" "\<And>y. balance (f y) = balance y" for x f
    using supply_write [OF e(1) i(1) that(1), of f] that(2) by (simp add: get_balance_def)
  show ?thesis
  proof (cases a)
    case (SmTransfer now x y amount n ts)
    obtain s' ok where t: "apply_transfer_with_nonce c x y amount n s = (s', ok)" by force
    have "supply_of c s' = supply_of c s"
      using transfer_supply(1) [OF e(1) i(1), of x y amount n s'] transfer_rejected [of c x y amount n s s'] t assms(3,4) SmTransfer
      by (cases ok) (simp_all add: self_transfer_def)
    then show ?thesis using SmTransfer t by (simp add: apply_transfer_def)
  next
    case (SmProve x)
    then show ?thesis by (simp add: prove_account_def Let_def case_prod_beta) (rule frame; simp)
  next
    case SmRoot
    then show ?thesis using frame [OF state_root_eq(3,4) [OF e(4) i(2)]] by simp
  next
    case (SmIncrementNonce x)
    then show ?thesis using assms(3) keep [of x] by (simp add: increment_nonce_def Let_def)
  next
    case (SmSetCodeHash x h)
    then show ?thesis using assms(3) keep [of x] by (simp add: set_code_hash_def)
  next
    case SmCommit
    then show ?thesis using balances_commit [OF e(1) i(1)] by (simp add: supply_of_def)
  next
    case (SmPersist b i h p ch g)
    then show ?thesis using supply_persist [OF e(1) i(1)] by simp
  next
    case (SmApply b i h p ch g r xs)
    then show ?thesis using supply_apply [OF assms(1,2), of xs] assms(3,4) by (simp add: self_transfer_def list_all_iff list_ex_iff)
  qed (use assms(5-7) in \<open>simp_all add: is_mint_def sets_balance_def\<close>)
qed

abbreviation capped_inv :: "('db, 'blk) state_env \<Rightarrow> 'db StateManager \<Rightarrow> bool" where
  "capped_inv c s \<equiv> env_ok c \<and> state_inv c s \<and> supply_of c s \<le> MINT_MAX_SUPPLY"

text \<open>What a single call does to the supply holds of a proposal: it commits its calls, or the balances are as before.\<close>

definition keeps_supply :: "('db, 'blk) state_env \<Rightarrow> 'blk sm_op \<Rightarrow> 'db StateManager \<Rightarrow> bool" where
  "keeps_supply c a s \<longleftrightarrow>
     (supply_of c s \<le> MINT_MAX_SUPPLY \<longrightarrow> supply_of c (sm_step c a s) \<le> MINT_MAX_SUPPLY) \<and>
     (no_mint a \<longrightarrow> supply_of c (sm_step c a s) = supply_of c s)"

lemma keeps_call:
  assumes "env_ok c" "state_inv c s" "typed_op a" "no_self_transfer a" "no_set_balance a"
    and one: "\<And>calls block. a \<noteq> SmAttempt calls block"
  shows "keeps_supply c a s"
proof (cases "is_mint a")
  case True
  then obtain x amount where a: "a = SmMint x amount" by (auto simp: is_mint_def split: sm_op.splits)
  show ?thesis using supply_mint [OF env_okD(1) [OF assms(1)] state_invD(1) [OF assms(2)], of x amount] assms(3) a
    by (simp add: keeps_supply_def is_mint_def)
next
  case False
  moreover have "calls_of a = [a]" using one by (cases a) auto
  ultimately show ?thesis using supply_call [OF assms(1-3) _ _ _ one] assms(4,5) by (simp add: keeps_supply_def)
qed

lemma keeps_run:
  assumes "env_ok c" "state_inv c s" "list_all typed_op ops" "list_all no_self_transfer ops" "list_all no_set_balance ops"
    and "\<And>a s. a \<in> set ops \<Longrightarrow> state_inv c s \<Longrightarrow> typed_op a \<Longrightarrow> no_self_transfer a \<Longrightarrow> no_set_balance a \<Longrightarrow> keeps_supply c a s"
  shows "(supply_of c s \<le> MINT_MAX_SUPPLY \<longrightarrow> supply_of c (fold (sm_step c) ops s) \<le> MINT_MAX_SUPPLY) \<and>
    (list_all no_mint ops \<longrightarrow> supply_of c (fold (sm_step c) ops s) = supply_of c s)"
  using assms(2-)
proof (induction ops arbitrary: s)
  case (Cons a ops)
  have "keeps_supply c a s" by (rule Cons.prems(5)) (use Cons.prems in simp_all)
  moreover have "state_inv c (sm_step c a s)" using inv_step [OF assms(1) Cons.prems(1), of a] Cons.prems(2) by simp
  ultimately show ?case using Cons.IH [of "sm_step c a s"] Cons.prems unfolding keeps_supply_def by simp
qed simp

lemma keeps_attempt:
  assumes "env_ok c" "state_inv c s" "typed_op (SmAttempt calls block)" "no_self_transfer (SmAttempt calls block)"
    and "no_set_balance (SmAttempt calls block)"
  shows "keeps_supply c (SmAttempt calls block) s"
proof -
  let ?s1 = "fold (sm_step c) calls s"
  have vol: "list_all volatile calls" and typed: "list_all typed_op calls" using assms(3) by (simp_all add: list.pred_map comp_def)
  have flat: "concat (map calls_of calls) = calls" using vol by (induction calls) (simp_all add: volatile_calls)
  have each: "list_all no_self_transfer calls" "list_all no_set_balance calls" "no_mint (SmAttempt calls block) = list_all no_mint calls"
    using assms(4,5) vol by (auto simp: flat list_all_iff volatile_calls)
  have run: "(supply_of c s \<le> MINT_MAX_SUPPLY \<longrightarrow> supply_of c ?s1 \<le> MINT_MAX_SUPPLY) \<and>
      (list_all no_mint calls \<longrightarrow> supply_of c ?s1 = supply_of c s)"
    by (rule keeps_run [OF assms(1,2) typed each(1,2)]) (rule keeps_call [OF assms(1)], use vol in \<open>auto simp: list_all_iff\<close>)
  have inv1: "state_inv c ?s1" using volatile_run [OF assms(1,2) vol typed] by simp
  show ?thesis using attempt_cases [OF assms(1-3)]
  proof (elim disjE exE conjE)
    fix d assume "db_contents c d = db_contents c (db s)" "sm_step c (SmAttempt calls block) s = s\<lparr>db := d\<rparr>"
    then show ?thesis
      using balances_frame [OF env_okD(1) [OF assms(1)], of "s\<lparr>db := d\<rparr>" s] by (simp add: keeps_supply_def supply_of_def)
  next
    fix b i h p ch g
    assume "persist_canonical_block c b i h p ch g ?s1 = (sm_step c (SmAttempt calls block) s, Ok ())"
    then have "supply_of c (sm_step c (SmAttempt calls block) s) = supply_of c ?s1"
      using supply_persist [OF env_okD(1) [OF assms(1)] state_invD(1) [OF inv1], of b i h p ch g] by simp
    then show ?thesis using run each(3) unfolding keeps_supply_def by presburger
  qed
qed

lemma keeps_step:
  assumes "env_ok c" "state_inv c s" "typed_op a" "no_self_transfer a" "no_set_balance a"
  shows "keeps_supply c a s"
proof (cases a)
  case (SmAttempt calls block)
  then show ?thesis using keeps_attempt [OF assms(1,2)] assms(3-5) by blast
qed (use keeps_call [OF assms] in simp_all)

interpretation capped: machine "sm_step c" "capped_inv c" "\<lambda>a. typed_op a \<and> no_self_transfer a \<and> no_set_balance a" for c
proof
  fix s and a :: "'b sm_op"
  assume "capped_inv c s" "typed_op a \<and> no_self_transfer a \<and> no_set_balance a"
  then show "capped_inv c (sm_step c a s)" using keeps_step [of c s a] inv_step [of c s a] unfolding keeps_supply_def by blast
qed

lemma conserved_run:
  assumes "env_ok c" "state_inv c s" "list_all (\<lambda>a. typed_op a \<and> no_self_transfer a \<and> no_set_balance a) ops" "list_all no_mint ops"
  shows "supply_of c (fold (sm_step c) ops s) = supply_of c s"
  using keeps_run [OF assms(1,2), of ops] keeps_step [OF assms(1)] assms(3,4) by (simp add: list_all_iff)

section \<open>States a node can reach\<close>

inductive sm_reach :: "('db, 'blk) state_env \<Rightarrow> 'db StateManager \<Rightarrow> bool" for c where
  opened: "sm_open c (Some d) = Ok s \<Longrightarrow> block_height s < 2 ^ 64 \<Longrightarrow> sm_reach c s"
| stepped: "sm_reach c s \<Longrightarrow> typed_op a \<Longrightarrow> sm_reach c (sm_step c a s)"

lemma reach_inv:
  assumes "env_ok c" "sm_reach c s"
  shows "state_inv c s"
  using assms(2)
proof (induction rule: sm_reach.induct)
  case (opened d s)
  then show ?case using open_inv(1) [OF assms(1)] by blast
next
  case (stepped s a)
  then show ?case using inv_step [OF assms(1)] by blast
qed

lemma reach_run:
  assumes "sm_reach c s" "list_all typed_op ops"
  shows "sm_reach c (fold (sm_step c) ops s)"
  using assms by (induction ops arbitrary: s) (auto intro: stepped)

lemma sync_leaves_cong:
  assumes "digests_32 (to_crypto c)" "trie_ok (to_crypto c) (trie s)" "trie_ok (to_crypto c) (trie s')"
    and "cache s' = cache s" "leaves (trie s') = leaves (trie (sync_trie c s))"
  shows "leaves (trie (sync_trie c s')) = leaves (trie (sync_trie c s))"
proof (rule bt_wf_ext)
  fix p
  show "bt_get (leaves (trie (sync_trie c s'))) p = bt_get (leaves (trie (sync_trie c s))) p"
    using sync_writes [of "to_crypto c" "cache s" p]
  proof (elim disjE exE)
    assume keep: "\<forall>t. bt_get (leaves (fold (sync_entry (to_crypto c)) (cache s) t)) p = bt_get (leaves t) p"
    have "bt_get (leaves (trie (sync_trie c s'))) p = bt_get (leaves (trie s')) p"
      using keep assms(4) by (simp add: sync_trie_def)
    then show ?thesis using assms(5) by simp
  next
    fix v assume "\<forall>t. bt_get (leaves (fold (sync_entry (to_crypto c)) (cache s) t)) p = v"
    then show ?thesis using assms(4) by (simp add: sync_trie_def)
  qed
qed (use trie_ok_sync [OF assms(1,2)] trie_ok_sync [OF assms(1,3)] in \<open>simp_all add: trie_ok_def sync_trie_def\<close>)

lemma flush_keys:
  assumes "dirty_puts c m = Ok b" "\<forall>k \<in> fst ` set sys. \<not> prefix PREFIX_ACCOUNT k"
  shows "\<forall>k \<in> set (map fst (b @ sys)). k \<in> account_key ` set (map fst m) \<or> \<not> prefix PREFIX_ACCOUNT k"
  using dirty_puts_keys [OF assms(1)] assms(2) by auto

text \<open>An accepted block: the accounts are those after its transfers, its root is the state root, and the
  store holds its record, its hash as the tip and its height.\<close>

lemma accepted_block:
  assumes env: "env_ok c" and inv: "state_inv c s1" and i: "i < 2 ^ 64"
    and fl: "flush_with_canonical_block c b i h p ch (sync_trie c ((fst (state_root c s1))\<lparr>block_height := i\<rparr>)) = (s', Ok ())"
  shows "block_height s' = i" "get_account c s' a = get_account c s1 a" "snd (state_root c s') = snd (state_root c s1)"
    "\<exists>body v. block_to_vec c b = Some body \<and> bt_get (db_contents c (db s')) (block_key i) = Some v \<and>
       record_from_slice c v = Some \<lparr>cbr_index = i, cbr_block_hash = h, cbr_previous_hash = p, cbr_chain_id = ch, cbr_body = body\<rparr>"
    "bt_get (db_contents c (db s')) KEY_TIP_HASH = Some (str_bytes h)"
proof -
  note e = env_okD [OF env]
  note rt = state_root_eq [OF e(4) state_invD(2) [OF inv]]
  let ?s3 = "sync_trie c ((fst (state_root c s1))\<lparr>block_height := i\<rparr>)"
  have inv3: "state_inv c ?s3" by (intro inv_sync [OF e(1,4)] inv_height inv_root [OF env inv] i)
  note fr = flush_block_frame [of c b i h p ch ?s3, unfolded fl fst_conv snd_conv]
  obtain body v puts where bv: "block_to_vec c b = Some body"
      "record_to_vec c \<lparr>cbr_index = i, cbr_block_hash = h, cbr_previous_hash = p, cbr_chain_id = ch, cbr_body = body\<rparr> = Some v"
    and puts: "dirty_puts c (cache ?s3) = Ok puts"
    and w: "write_batch c (puts @ [(KEY_HEIGHT, to_le_bytes 8 i), (KEY_CHAIN_ID, str_bytes ch), (KEY_TIP_HASH, str_bytes h), (block_key i, v)]) ?s3 = (s', Ok ())"
    using flush_block_cases [OF e(1), of b i h p ch ?s3] fl by auto
  show "block_height s' = i" using fr(3) by simp
  have "get_account c s' a = get_account c ?s3 a"
    using write_batch_balances(2) [OF e(1) state_invD(1) [OF inv3] flush_keys [OF puts block_sys_keys]] w by (metis fst_conv)
  also have "\<dots> = get_account c s1 a" by (cases "bt_get (cache s1) a") (simp_all add: get_account_def rt)
  finally show "get_account c s' a = get_account c s1 a" .
  have l3: "leaves (trie ?s3) = leaves (trie (sync_trie c s1))"
    using sync_leaves_cong [OF e(4) state_invD(2) [OF inv] rt(6) rt(3) rt(2)] by (simp add: sync_trie_def)
  have ok': "trie_ok (to_crypto c) (trie s')" using state_invD(2) [OF inv3] fr(2) by simp
  have "leaves (trie (sync_trie c s')) = leaves (trie (sync_trie c s1))"
    by (rule sync_leaves_cong [OF e(4) state_invD(2) [OF inv] ok']) (use fr rt(3) l3 in simp_all)
  then show "snd (state_root c s') = snd (state_root c s1)" using rt(1) state_root_eq(1) [OF e(4) ok'] by simp
  have cont: "db_contents c (db s') = fold (\<lambda>(k, v). bt_insert k v)
      (puts @ [(KEY_HEIGHT, to_le_bytes 8 i), (KEY_CHAIN_ID, str_bytes ch), (KEY_TIP_HASH, str_bytes h), (block_key i, v)])
      (db_contents c (db ?s3))"
    using write_batch_contents [OF e(1), of "puts @ [(KEY_HEIGHT, to_le_bytes 8 i), (KEY_CHAIN_ID, str_bytes ch),
      (KEY_TIP_HASH, str_bytes h), (block_key i, v)]" ?s3] unfolding w by simp
  show "\<exists>body v. block_to_vec c b = Some body \<and> bt_get (db_contents c (db s')) (block_key i) = Some v \<and>
       record_from_slice c v = Some \<lparr>cbr_index = i, cbr_block_hash = h, cbr_previous_hash = p, cbr_chain_id = ch, cbr_body = body\<rparr>"
    using bv cont e(2) unfolding json_ok_def by auto
  show "bt_get (db_contents c (db s')) KEY_TIP_HASH = Some (str_bytes h)"
    unfolding cont by (simp add: block_key_def PREFIX_BLOCK_def str_bytes_def)
qed

section \<open>A concrete store\<close>

text \<open>The store as the log of its writes, and codecs with length prefixes.\<close>

type_synonym log_db = "(bytes \<times> bytes) list"

definition log_contents :: "log_db \<Rightarrow> (bytes, bytes) btree_map" where
  "log_contents d = fold (\<lambda>(k, v). bt_insert k v) d []"

definition demo_acct_to_vec :: "AccountState \<Rightarrow> bytes" where
  "demo_acct_to_vec a = [balance a, nonce a] @ (case code_hash a of None \<Rightarrow> [] | Some h \<Rightarrow> h)"

definition demo_acct_from_slice :: "bytes \<Rightarrow> AccountState option" where
  "demo_acct_from_slice v =
     (case v of b # n # h \<Rightarrow>
        (let a = \<lparr>balance = b, nonce = n, code_hash = (if h = [] then None else Some h)\<rparr> in if valid_account a then Some a else None)
      | _ \<Rightarrow> None)"

definition demo_record_to_vec :: "CanonicalBlockRecord \<Rightarrow> bytes" where
  "demo_record_to_vec r =
     [cbr_index r, length (cbr_block_hash r), length (cbr_previous_hash r), length (cbr_chain_id r)] @
     str_bytes (cbr_block_hash r) @ str_bytes (cbr_previous_hash r) @ str_bytes (cbr_chain_id r) @ cbr_body r"

definition demo_record_from_slice :: "bytes \<Rightarrow> CanonicalBlockRecord option" where
  "demo_record_from_slice v =
     (case v of i # h # p # ch # bs \<Rightarrow>
        Some \<lparr>cbr_index = i, cbr_block_hash = map char_of (take h bs), cbr_previous_hash = map char_of (take p (drop h bs)),
          cbr_chain_id = map char_of (take ch (drop (h + p) bs)), cbr_body = drop (h + p + ch) bs\<rparr>
      | _ \<Rightarrow> None)"

definition demo_state_env :: "(log_db, bytes) state_env" where
  "demo_state_env = crypto_env.extend demo_trie_env
     (state_env.fields (\<lambda>d k. Some (bt_get (log_contents d) k)) (\<lambda>d b. (d @ b, True))
        (\<lambda>d p. map Some (filter (\<lambda>(k, v). p \<le> k) (log_contents d))) log_contents
        (\<lambda>a. Some (demo_acct_to_vec a)) demo_acct_from_slice (\<lambda>r. Some (demo_record_to_vec r)) demo_record_from_slice
        Some Some)"

lemma demo_state_sel [simp]:
  "to_crypto demo_state_env = demo_trie_env" "hex_encode demo_state_env = hex_encode demo_trie_env"
  "db_get demo_state_env = (\<lambda>d k. Some (bt_get (log_contents d) k))"
  "db_write demo_state_env = (\<lambda>d b. (d @ b, True))"
  "db_prefix_iterator demo_state_env = (\<lambda>d p. map Some (filter (\<lambda>(k, v). p \<le> k) (log_contents d)))"
  "db_contents demo_state_env = log_contents"
  "acct_to_vec demo_state_env = (\<lambda>a. Some (demo_acct_to_vec a))" "acct_from_slice demo_state_env = demo_acct_from_slice"
  "record_to_vec demo_state_env = (\<lambda>r. Some (demo_record_to_vec r))" "record_from_slice demo_state_env = demo_record_from_slice"
  "block_to_vec demo_state_env = Some" "block_from_slice demo_state_env = Some"
  by (simp_all add: demo_state_env_def crypto_env.defs state_env.defs)

lemma map_char_of_bytes: "map char_of (str_bytes s) = s"
  by (simp add: str_bytes_def comp_def)

lemma demo_json: "json_ok demo_state_env"
proof -
  have "demo_acct_from_slice (demo_acct_to_vec a) = Some a" if "valid_account a" for a
    using that by (cases a) (auto simp: demo_acct_to_vec_def demo_acct_from_slice_def valid_account_def Let_def split: option.splits)
  moreover have "demo_record_from_slice (demo_record_to_vec r) = Some r" for r
    by (cases r) (simp add: demo_record_to_vec_def demo_record_from_slice_def map_char_of_bytes length_str_bytes)
  ultimately show ?thesis by (simp add: json_ok_def)
qed

lemma demo_state_ok: "env_ok demo_state_env"
proof -
  have "store_ok demo_state_env" by (simp add: store_ok_def log_contents_def fold_insert_wf)
  moreover have "typed_accounts demo_state_env"
    by (auto simp: typed_accounts_def demo_acct_from_slice_def Let_def split: list.splits if_splits)
  ultimately show ?thesis using demo_json demo_trie_digests by (simp add: env_ok_def)
qed

lemma demo_open: "sm_open demo_state_env (Some []) = Ok \<lparr>db = [], cache = [], block_height = 0, trie = smt_new\<rparr>"
  by (simp add: sm_open_def log_contents_def rebuild_trie_from_db_def)

lemma demo_reach: "sm_reach demo_state_env \<lparr>db = [], cache = [], block_height = 0, trie = smt_new\<rparr>"
  by (rule opened [OF demo_open]) simp

text \<open>A node that mints, transfers and commits.\<close>

definition demo_state :: "log_db StateManager" where
  "demo_state = fold (sm_step demo_state_env) [SmMint ''alice'' 100, SmTransfer 5 ''alice'' ''bob'' 30 0 5]
     \<lparr>db = [], cache = [], block_height = 0, trie = smt_new\<rparr>"

lemma demo_state_reach: "sm_reach demo_state_env demo_state"
  unfolding demo_state_def
  by (rule reach_run [OF demo_reach]) (simp add: utf8_valid.simps str_bytes_def)

section \<open>Properties\<close>

text \<open>C15: the transfers of a block in which no transfer pays its own sender implement the abstract ledger: they are all
  applied exactly when the ledger allows each of them in turn, and then every balance and nonce is the ledger's;
  otherwise some transfer is rejected.\<close>

theorem transfers_refine_ledger:
  assumes "list_all (\<lambda>x. ct_sender x \<noteq> ct_receiver x) xs"
  shows "case ledger_transfers xs (ledger_of c s) of
      None \<Rightarrow> \<exists>s' who. apply_transfers c xs s = (s', Some who)
    | Some L \<Rightarrow> \<exists>s'. apply_transfers c xs s = (s', None) \<and> ledger_of c s' = L"
  by (rule transfers_refine [OF assms])

definition demo_rich :: "log_db StateManager" where
  "demo_rich = \<lparr>db = [], cache = [(''alice'', \<lparr>ce_state = \<lparr>balance = 100, nonce = 4, code_hash = None\<rparr>, dirty = True\<rparr>)],
     block_height = 0, trie = smt_new\<rparr>"

definition demo_transfer :: CanonicalTransfer where
  "demo_transfer = \<lparr>ct_sender = ''alice'', ct_receiver = ''bob'', ct_amount = 30, ct_nonce = 4\<rparr>"

lemma demo_ledger:
  "ledger_of demo_state_env demo_rich = (\<lambda>a. if a = ''alice'' then (100, 4) else (0, 0))"
  by (auto simp: fun_eq_iff ledger_of_def get_balance_def get_nonce_def get_account_def demo_rich_def log_contents_def
     )

theorem transfers_refine_ledger_witness:
  "\<exists>s'. apply_transfers demo_state_env [demo_transfer] demo_rich = (s', None) \<and>
     ledger_of demo_state_env s' ''alice'' = (70, 5) \<and> ledger_of demo_state_env s' ''bob'' = (30, 0)"
proof -
  have "ledger_transfers [demo_transfer] (ledger_of demo_state_env demo_rich) =
      Some ((\<lambda>a. if a = ''alice'' then (100, 4) else (0, 0))(''alice'' := (70, 5), ''bob'' := (30, 0)))"
    by (simp add: demo_ledger demo_transfer_def ledger_transfer_def)
  then show ?thesis
    using transfers_refine_ledger [of "[demo_transfer]" demo_state_env demo_rich]
    by (auto simp: demo_transfer_def simp del: apply_transfers.simps)
qed

text \<open>C11: from a reachable state whose supply respects the cap, a run of any typed calls of the state manager that
  contains no self-transfer and no \<open>set_balance\<close> never exceeds \<open>MINT_MAX_SUPPLY\<close>, \<open>total_supply\<close> never wraps, and
  a run without minting leaves the supply unchanged. The run may transfer, mint, commit, append blocks, and make block
  proposals that are undone by restoring their checkpoint before anything durable was written.\<close>

theorem account_supply_capped:
  assumes "env_ok c" "sm_reach c s0" "supply_of c s0 \<le> MINT_MAX_SUPPLY"
    and "list_all (\<lambda>a. typed_op a \<and> no_self_transfer a \<and> no_set_balance a) ops" "s = fold (sm_step c) ops s0"
  shows "total_supply c s \<le> MINT_MAX_SUPPLY \<and> total_supply c s = supply_of c s \<and>
    (list_all no_mint ops \<longrightarrow> total_supply c s = total_supply c s0)"
proof -
  note inv = reach_inv [OF assms(1,2)]
  have "capped_inv c s" unfolding assms(5) by (rule capped.run_inv [OF _ assms(4)]) (use assms(1,3) inv in simp)
  then have le: "supply_of c s \<le> MINT_MAX_SUPPLY" by simp
  have "supply_of c s = supply_of c s0" if "list_all no_mint ops"
    unfolding assms(5) by (rule conserved_run [OF assms(1) inv assms(4) that])
  then show ?thesis using le total_supply_small [OF le] total_supply_small [OF assms(3)] by simp
qed

theorem account_supply_capped_witness:
  "total_supply demo_state_env demo_state \<le> MINT_MAX_SUPPLY \<and>
   total_supply demo_state_env demo_state = supply_of demo_state_env demo_state"
proof -
  have "supply_of demo_state_env \<lparr>db = [], cache = [], block_height = 0, trie = smt_new\<rparr> \<le> MINT_MAX_SUPPLY"
    by (simp add: supply_of_def all_balances_def log_contents_def bt_sum_def)
  from account_supply_capped [OF demo_state_ok demo_reach this _ demo_state_def]
  show ?thesis by (simp add: str_bytes_def self_transfer_def sets_balance_def)
qed

text \<open>C35: a transfer whose sender is its receiver is accepted and creates money: the balance, and with it
  the supply, grows by the amount.\<close>

theorem self_transfer_creates_money:
  assumes "store_ok c" "bt_wf (cache s)" "utf8_valid (str_bytes a)"
    and "0 < amount" "amount \<le> get_balance c s a" "get_balance c s a + amount < 2 ^ 128" "get_nonce c s a + 1 < 2 ^ 64"
  shows "\<exists>s'. apply_transfer_with_nonce c a a amount (get_nonce c s a) s = (s', True) \<and>
    get_balance c s' a = get_balance c s a + amount \<and> supply_of c s' = supply_of c s + amount"
proof -
  obtain s' where t: "apply_transfer_with_nonce c a a amount (get_nonce c s a) s = (s', True)"
      "get_balance c s' a = get_balance c s a + amount"
    using assms(4-) by (auto simp: apply_transfer_with_nonce_def Let_def checked_add_if set_balance_def get_balance_def get_nonce_def)
  then show ?thesis using transfer_supply(1) [OF assms(1-3,3) t(1)] by simp
qed

theorem self_transfer_creates_money_witness:
  "\<exists>s'. apply_transfer_with_nonce demo_state_env ''alice'' ''alice'' 100 4 demo_rich = (s', True) \<and>
     get_balance demo_state_env s' ''alice'' = 200 \<and>
     supply_of demo_state_env s' = supply_of demo_state_env demo_rich + 100"
proof -
  have a: "get_balance demo_state_env demo_rich ''alice'' = 100" "get_nonce demo_state_env demo_rich ''alice'' = 4"
    by (simp_all add: get_balance_def get_nonce_def get_account_def demo_rich_def)
  have wf: "bt_wf (cache demo_rich)" by (simp add: demo_rich_def bt_wf_def)
  show ?thesis
    using self_transfer_creates_money [OF env_okD(1) [OF demo_state_ok] wf, of "''alice''" 100] a by (simp add: str_bytes_def)
qed

text \<open>C14: applying a canonical block is atomic.  A rejected block leaves cache, height, trie and stored
  contents as they were; an accepted one raises the height by one, leaves the accounts of its transfers,
  makes its declared root the state root, and stores its record and its hash as the tip.\<close>

theorem canonical_block_atomic:
  assumes "env_ok c" "sm_reach c s" "typed_op (SmApply b i h p ch g r xs)"
    and call: "apply_canonical_block c b i h p ch g r xs s = (s', x)"
  shows "(\<exists>e. x = Err e \<and> s' = s\<lparr>db := db s'\<rparr> \<and> db_contents c (db s') = db_contents c (db s)) \<or>
    (x = Ok () \<and> block_height s' = block_height s + 1 \<and> i = block_height s' \<and>
     (\<exists>s1. apply_transfers c xs s = (s1, None) \<and> (\<forall>a. get_account c s' a = get_account c s1 a)) \<and>
     hex_encode c (snd (state_root c s')) = r \<and>
     (\<exists>body v. block_to_vec c b = Some body \<and> bt_get (db_contents c (db s')) (block_key i) = Some v \<and>
       record_from_slice c v = Some \<lparr>cbr_index = i, cbr_block_hash = h, cbr_previous_hash = p, cbr_chain_id = ch, cbr_body = body\<rparr>) \<and>
     bt_get (db_contents c (db s')) KEY_TIP_HASH = Some (str_bytes h))"
proof -
  note e = env_okD [OF assms(1)] and inv = reach_inv [OF assms(1,2)]
  show ?thesis
    using apply_block_cases [OF e(1) call e(4) state_invD(2) [OF inv]]
  proof (elim disjE exE conjE)
    fix s1
    assume x: "x = Ok ()" and chk: "check_next_canonical_block c s i p ch g = Ok ()"
      and t: "apply_transfers c xs s = (s1, None)" and root: "hex_encode c (snd (state_root c s1)) = r"
      and fl: "flush_with_canonical_block c b i h p ch (sync_trie c ((fst (state_root c s1))\<lparr>block_height := i\<rparr>)) = (s', Ok ())"
    have "state_inv c s1" using inv_transfers [OF assms(1) _ inv, of xs] assms(3) t by simp
    note acc = accepted_block [OF assms(1) this check_next_Ok(2) [OF chk] fl]
    have "hex_encode c (snd (state_root c s')) = r" using root acc(3) by simp
    then show ?thesis using x t acc(1,2,4,5) check_next_Ok(1) [OF chk] by blast
  qed blast
qed

theorem canonical_block_atomic_witness:
  "\<exists>s'. apply_canonical_block demo_state_env [7] 1 ''h1'' ''g'' ''bleep'' ''g''
       (hex_encode demo_state_env (snd (state_root demo_state_env \<lparr>db = [], cache = [], block_height = 0, trie = smt_new\<rparr>)))
       [] \<lparr>db = [], cache = [], block_height = 0, trie = smt_new\<rparr> = (s', Ok ()) \<and>
     block_height s' = 1 \<and> bt_get (log_contents (db s')) KEY_TIP_HASH = Some (str_bytes ''h1'')"
    (is "\<exists>s'. ?call = (s', Ok ()) \<and> _")
proof -
  let ?s = "\<lparr>db = [], cache = [], block_height = 0, trie = smt_new\<rparr> :: log_db StateManager"
  let ?s2 = "fst (state_root demo_state_env ?s)"
  have s2: "cache ?s2 = []" "db ?s2 = []" by (simp_all add: state_root_def Let_def case_prod_beta)
  obtain s' x where call: "?call = (s', x)" by force
  have "x = Ok ()"
    using call s2 by (auto simp: apply_canonical_block_def check_next_canonical_block_def checked_add_if log_contents_def Let_def
        case_prod_beta flush_with_canonical_block_def write_batch_def split: prod.splits outcome.splits if_splits)
  then show ?thesis
    using canonical_block_atomic [OF demo_state_ok demo_reach _ call] call by (auto simp del: One_nat_def)
qed

text \<open>C13: a state that was committed survives a restart: opening its store succeeds, with the same height
  and the same accounts, and with the same state root unless two known addresses have colliding digests.\<close>

theorem restart_preserves_state:
  assumes "env_ok c" "sm_reach c s" "commit_block c s = (s', Ok ())"
  shows "\<exists>s2. sm_open c (Some (db s')) = Ok s2 \<and> block_height s2 = block_height s \<and>
    (\<forall>a. get_account c s2 a = get_account c s a) \<and>
    (snd (state_root c s2) = snd (state_root c s') \<or>
     (\<exists>a b. a \<noteq> b \<and> a \<in> known_addresses c s' \<and> b \<in> known_addresses c s' \<and>
       key_to_path (to_crypto c) a = key_to_path (to_crypto c) b))"
proof -
  note e = env_okD [OF assms(1)] and inv = reach_inv [OF assms(1,2)]
  have inv': "state_inv c s'" using inv_commit [OF assms(1) inv] assms(3) by simp
  note com = commit_stored [OF assms(1) inv assms(3)]
  obtain s2 where s2: "sm_open c (Some (db s')) = Ok s2" "block_height s2 = block_height s'"
    using open_committed [OF assms(1) inv' com(3)] by blast
  have h: "block_height s2 < 2 ^ 64" using s2(2) state_invD(3) [OF inv'] by simp
  note o = open_inv [OF assms(1) s2(1) h]
  have acc: "get_account c s2 a = get_account c s a" for a
    using com(1,2) [of a] o by (simp add: get_account_stored [OF e(1), of s2] account_or_default_def)
  show ?thesis
  proof (cases "inj_on (key_to_path (to_crypto c)) (known_addresses c s')")
    case True
    then show ?thesis using s2 acc com(4) reopen_root [OF assms(1) inv' s2(1) h com(1)] by auto
  next
    case False
    then show ?thesis using s2 acc com(4) unfolding inj_on_def by metis
  qed
qed

lemma demo_puts: "\<exists>b. dirty_puts demo_state_env m = Ok b"
proof (induction m)
  case (Cons x m)
  then show ?case by (cases x) auto
qed simp

theorem restart_preserves_state_witness:
  "\<exists>s' s2. commit_block demo_state_env demo_state = (s', Ok ()) \<and> sm_open demo_state_env (Some (db s')) = Ok s2 \<and>
     get_account demo_state_env s2 ''bob'' = get_account demo_state_env demo_state ''bob''"
proof -
  obtain s' where c: "commit_block demo_state_env demo_state = (s', Ok ())"
    using demo_puts [of "cache demo_state"] by (auto simp: commit_block_def flush_internal_def write_batch_def)
  then show ?thesis using restart_preserves_state [OF demo_state_ok demo_state_reach c] by blast
qed

end
