(* ===== verification/CanonicalChain.thy ===== *)
theory CanonicalChain
  imports StateManager
begin

text \<open>
  The canonical chain in the store of the state manager: block records under twenty-digit decimal
  keys, the chain identifier, the tip hash and the height.  \<open>chain_of\<close> says what the store holds for a
  list of appended blocks; every operation keeps it, \<open>persist_canonical_block\<close> and
  \<open>apply_canonical_block\<close> extend it by their block, and \<open>load_canonical_blocks\<close> reads it back.
\<close>

section \<open>Keys of blocks\<close>

lemma length_dec_digits [simp]: "length (dec_digits w n) = w"
  by (induction w n rule: dec_digits.induct) simp_all

lemma lexord_suffix:
  "(xs :: 'a::linorder list) < ys \<Longrightarrow> length xs = length ys \<Longrightarrow> xs @ us < ys @ vs"
proof (induction xs arbitrary: ys)
  case (Cons x xs)
  then show ?case by (cases ys) auto
qed simp

lemma append_less_cancel: "(xs :: 'a::linorder list) @ us < xs @ vs \<longleftrightarrow> us < vs"
  by (induction xs) auto

lemma dec_digits_less: "m < n \<Longrightarrow> n < 10 ^ w \<Longrightarrow> dec_digits w m < dec_digits w n"
proof (induction w arbitrary: m n)
  case (Suc w)
  show ?case
  proof (cases "m div 10 < n div 10")
    case True
    have "n div 10 < 10 ^ w" using Suc.prems(2) by (simp add: less_mult_imp_div_less mult.commute)
    then show ?thesis using Suc.IH [OF True] by (simp add: lexord_suffix)
  next
    case False
    then have "m div 10 = n div 10" using Suc.prems(1) by (meson div_le_mono leI le_antisym less_imp_le)
    moreover from this have "m mod 10 < n mod 10"
      using Suc.prems(1) div_mult_mod_eq [of m 10] div_mult_mod_eq [of n 10] by linarith
    ultimately show ?thesis by (simp add: append_less_cancel)
  qed
qed simp

lemma block_key_less: "m < n \<Longrightarrow> n < 2 ^ 64 \<Longrightarrow> block_key m < block_key n"
  unfolding block_key_def append_less_cancel by (rule dec_digits_less) simp_all

lemma block_key_eq: "m < 2 ^ 64 \<Longrightarrow> n < 2 ^ 64 \<Longrightarrow> block_key m = block_key n \<longleftrightarrow> m = n"
  using block_key_less [of m n] block_key_less [of n m] by (metis less_irrefl nat_neq_iff)

lemma prefix_block_key [simp]: "prefix PREFIX_BLOCK (block_key i)"
  by (simp add: block_key_def)

lemma block_not_system: "block_key i \<noteq> KEY_HEIGHT" "block_key i \<noteq> KEY_CHAIN_ID" "block_key i \<noteq> KEY_TIP_HASH"
    "KEY_HEIGHT \<noteq> KEY_CHAIN_ID" "KEY_HEIGHT \<noteq> KEY_TIP_HASH" "KEY_CHAIN_ID \<noteq> KEY_TIP_HASH"
  by (simp_all add: PREFIX_BLOCK_def block_key_def str_bytes_def)

lemmas system_neq = block_not_system block_not_system [symmetric]

section \<open>What the store holds for a chain\<close>

definition block_record :: "string \<Rightarrow> string \<Rightarrow> ('blk \<Rightarrow> string) \<Rightarrow> 'blk list \<Rightarrow> bytes \<Rightarrow> nat \<Rightarrow> CanonicalBlockRecord" where
  "block_record ch g hash bs body i =
     \<lparr>cbr_index = i, cbr_block_hash = hash (bs ! (i - 1)),
      cbr_previous_hash = (if i = 1 then g else hash (bs ! (i - 2))), cbr_chain_id = ch, cbr_body = body\<rparr>"

definition chain_of ::
  "('db, 'blk) state_env \<Rightarrow> string \<Rightarrow> string \<Rightarrow> ('blk \<Rightarrow> string) \<Rightarrow> 'db \<Rightarrow> 'blk list \<Rightarrow> bool" where
  "chain_of c ch g hash d bs \<longleftrightarrow>
     length bs < 2 ^ 64 \<and> stored_height c d = Some (length bs) \<and>
     (\<forall>k. prefix PREFIX_BLOCK k \<and> bt_get (db_contents c d) k \<noteq> None \<longrightarrow> k \<in> block_key ` {1..length bs}) \<and>
     (\<forall>i \<in> {1..length bs}. \<exists>v body. bt_get (db_contents c d) (block_key i) = Some v \<and>
        record_from_slice c v = Some (block_record ch g hash bs body i) \<and> block_from_slice c body = Some (bs ! (i - 1))) \<and>
     bt_get (db_contents c d) KEY_CHAIN_ID = (if bs = [] then None else Some (str_bytes ch)) \<and>
     bt_get (db_contents c d) KEY_TIP_HASH = (if bs = [] then None else Some (str_bytes (hash (last bs)))) \<and>
     (bs \<noteq> [] \<longrightarrow> utf8_valid (str_bytes (hash (last bs))))"

lemma chain_ofD:
  assumes "chain_of c ch g hash d bs"
  shows "length bs < 2 ^ 64" "stored_height c d = Some (length bs)"
    "prefix PREFIX_BLOCK k \<Longrightarrow> bt_get (db_contents c d) k \<noteq> None \<Longrightarrow> k \<in> block_key ` {1..length bs}"
    "1 \<le> i \<Longrightarrow> i \<le> length bs \<Longrightarrow> \<exists>v body. bt_get (db_contents c d) (block_key i) = Some v \<and>
        record_from_slice c v = Some (block_record ch g hash bs body i) \<and> block_from_slice c body = Some (bs ! (i - 1))"
    "bt_get (db_contents c d) KEY_CHAIN_ID = (if bs = [] then None else Some (str_bytes ch))"
    "bt_get (db_contents c d) KEY_TIP_HASH = (if bs = [] then None else Some (str_bytes (hash (last bs))))"
    "bs \<noteq> [] \<Longrightarrow> utf8_valid (str_bytes (hash (last bs)))"
  using assms unfolding chain_of_def by simp_all

lemma block_not_account:
  assumes "prefix PREFIX_BLOCK k"
  shows "\<not> prefix PREFIX_ACCOUNT k" "k \<noteq> KEY_HEIGHT" "k \<noteq> KEY_CHAIN_ID" "k \<noteq> KEY_TIP_HASH"
proof -
  obtain q where k: "k = PREFIX_BLOCK @ q" using assms by (rule prefixE)
  show "\<not> prefix PREFIX_ACCOUNT k" by (simp add: k PREFIX_BLOCK_def str_bytes_def)
  show "k \<noteq> KEY_HEIGHT" "k \<noteq> KEY_CHAIN_ID" "k \<noteq> KEY_TIP_HASH" using assms system_keys(5-7) by auto
qed

lemma chain_of_cong:
  assumes "chain_of c ch g hash d bs" and h: "stored_height c d' = stored_height c d"
    and "\<And>k. \<not> prefix PREFIX_ACCOUNT k \<Longrightarrow> k \<noteq> KEY_HEIGHT \<Longrightarrow> bt_get (db_contents c d') k = bt_get (db_contents c d) k"
  shows "chain_of c ch g hash d' bs"
proof -
  have b: "bt_get (db_contents c d') k = bt_get (db_contents c d) k" if "prefix PREFIX_BLOCK k" for k
    using assms(3) block_not_account [OF that] by blast
  have "\<forall>i \<in> {1..length bs}. \<exists>v body. bt_get (db_contents c d') (block_key i) = Some v \<and>
      record_from_slice c v = Some (block_record ch g hash bs body i) \<and> block_from_slice c body = Some (bs ! (i - 1))"
    using chain_ofD(4) [OF assms(1)] b [OF prefix_block_key] by simp
  moreover have "\<forall>k. prefix PREFIX_BLOCK k \<and> bt_get (db_contents c d') k \<noteq> None \<longrightarrow> k \<in> block_key ` {1..length bs}"
    using chain_ofD(3) [OF assms(1)] b by (metis (no_types))
  moreover have "bt_get (db_contents c d') KEY_CHAIN_ID = bt_get (db_contents c d) KEY_CHAIN_ID"
    "bt_get (db_contents c d') KEY_TIP_HASH = bt_get (db_contents c d) KEY_TIP_HASH"
    using block_not_system(4,5) by (intro assms(3) system_keys; simp)+
  ultimately show ?thesis
    using chain_ofD(1,2,5-7) [OF assms(1)] unfolding chain_of_def h by (intro conjI) simp_all
qed

lemma chain_of_empty: "db_contents c d = [] \<Longrightarrow> chain_of c ch g hash d []"
  by (simp add: chain_of_def stored_height_def)

section \<open>Reading the chain\<close>

lemma load_loop_stop:
  "load_loop c ch g hash (map Some xs) rs bs =
   load_loop c ch g hash (map Some (takeWhile (\<lambda>(k, v). prefix PREFIX_BLOCK k) xs)) rs bs"
proof (induction xs arbitrary: rs bs)
  case (Cons x xs)
  obtain k v where x: "x = (k, v)" by force
  show ?case
  proof (cases "prefix PREFIX_BLOCK k")
    case True
    then have tw: "takeWhile (\<lambda>(k, v). prefix PREFIX_BLOCK k) ((k, v) # xs) = (k, v) # takeWhile (\<lambda>(k, v). prefix PREFIX_BLOCK k) xs"
      by simp
    show ?thesis unfolding x tw list.map load_loop.simps Cons.IH ..
  qed (simp add: x)
qed simp

lemma load_loop_chain:
  assumes "length bs < 2 ^ 64" "k \<le> length bs"
    and "\<And>i. 1 \<le> i \<Longrightarrow> i \<le> length bs \<Longrightarrow>
      record_from_slice c (v i) = Some (block_record ch g hash bs (body i) i) \<and> block_from_slice c (body i) = Some (bs ! (i - 1))"
  shows "load_loop c ch g hash (map Some (map (\<lambda>i. (block_key i, v i)) [Suc k..<Suc (length bs)]))
      (map (\<lambda>i. block_record ch g hash bs (body i) i) [1..<Suc k]) (take k bs) =
    Ok (map (\<lambda>i. block_record ch g hash bs (body i) i) [1..<Suc (length bs)], bs)"
  using assms(2)
proof (induction "length bs - k" arbitrary: k)
  case 0
  then show ?case by simp
next
  case (Suc m)
  then have k: "k < length bs" by simp
  let ?r = "\<lambda>i. block_record ch g hash bs (body i) i"
  have list: "[Suc k..<Suc (length bs)] = Suc k # [Suc (Suc k)..<Suc (length bs)]" using k by (simp add: upt_rec)
  have idx: "wrap_add 64 (cast 64 (length (map ?r [1..<Suc k]))) 1 = Suc k"
    using k assms(1) by (simp add: wrap_add_def cast_def)
  have tip: "tip_of g (map ?r [1..<Suc k]) = cbr_previous_hash (?r (Suc k))"
    by (cases k) (simp_all add: block_record_def last_map)
  have r: "record_from_slice c (v (Suc k)) = Some (?r (Suc k))" "block_from_slice c (body (Suc k)) = Some (bs ! k)"
    using assms(3) [of "Suc k"] k by simp_all
  have "load_loop c ch g hash (map Some (map (\<lambda>i. (block_key i, v i)) [Suc k..<Suc (length bs)])) (map ?r [1..<Suc k]) (take k bs) =
      load_loop c ch g hash (map Some (map (\<lambda>i. (block_key i, v i)) [Suc (Suc k)..<Suc (length bs)]))
        (map ?r [1..<Suc k] @ [?r (Suc k)]) (take k bs @ [bs ! k])"
    unfolding list list.map load_loop.simps r option.case Let_def idx tip
    by (simp only: prefix_block_key block_record_def CanonicalBlockRecord.simps r(2) option.case diff_Suc_1 not_True_eq_False
        if_False simp_thms)
  also have "\<dots> = load_loop c ch g hash (map Some (map (\<lambda>i. (block_key i, v i)) [Suc (Suc k)..<Suc (length bs)]))
        (map ?r [1..<Suc (Suc k)]) (take (Suc k) bs)"
    using k by (simp add: take_Suc_conv_app_nth)
  finally show ?case using Suc.hyps(1) [of "Suc k"] Suc.hyps(2) k by simp
qed

lemma keyed_get:
  "k \<notin> f ` set xs \<Longrightarrow> map_of (map (\<lambda>i. (f i, v i)) xs) k = None"
  "inj_on f (set xs) \<Longrightarrow> i \<in> set xs \<Longrightarrow> map_of (map (\<lambda>i. (f i, v i)) xs) (f i) = Some (v i)"
  by (induction xs) (auto simp: inj_on_def)

lemma load_chain:
  assumes "env_ok c" "chain_of c ch g hash (db s) bs" "block_height s = length bs"
  shows "load_canonical_blocks c ch g hash s = Ok bs"
proof -
  note st = env_okD(1) [OF assms(1)] and ch = chain_ofD [OF assms(2)]
  let ?m = "db_contents c (db s)"
  obtain v body where vb: "\<And>i. 1 \<le> i \<Longrightarrow> i \<le> length bs \<Longrightarrow> bt_get ?m (block_key i) = Some (v i) \<and>
      record_from_slice c (v i) = Some (block_record ch g hash bs (body i) i) \<and> block_from_slice c (body i) = Some (bs ! (i - 1))"
    using ch(4) by metis
  let ?es = "map (\<lambda>i. (block_key i, v i)) [Suc 0..<Suc (length bs)]"
  let ?rs = "map (\<lambda>i. block_record ch g hash bs (body i) i) [1..<Suc (length bs)]"
  have segment: "filter (\<lambda>(k, v). prefix PREFIX_BLOCK k) ?m = ?es"
  proof (rule bt_wf_ext)
    show "bt_wf ?es" using ch(1) by (auto simp: bt_wf_def comp_def sorted_wrt_map block_key_less
          simp del: upt_Suc intro: sorted_wrt_mono_rel [OF _ sorted_wrt_upt])
    show "bt_wf (filter (\<lambda>(k, v). prefix PREFIX_BLOCK k) ?m)"
      using store_okD(1) [OF st, of "db s"] by (simp add: bt_wf_def sorted_wrt_map sorted_wrt_filter)
    fix k
    show "bt_get (filter (\<lambda>(k, v). prefix PREFIX_BLOCK k) ?m) k = bt_get ?es k"
    proof (cases "k \<in> block_key ` {1..length bs}")
      case True
      then obtain i where i: "k = block_key i" "1 \<le> i" "i \<le> length bs" by auto
      have "inj_on block_key (set [Suc 0..<Suc (length bs)])" using ch(1) block_key_eq by (auto intro!: inj_onI simp del: upt_Suc)
      then have "bt_get ?es k = Some (v i)" unfolding i(1) by (rule keyed_get(2)) (use i in \<open>simp add: less_Suc_eq_le del: upt_Suc\<close>)
      moreover have "bt_get ?m k = Some (v i)" "prefix PREFIX_BLOCK k" using vb [OF i(2,3)] i(1) by simp_all
      ultimately show ?thesis unfolding map_of_filter_key by simp
    next
      case False
      have "set [Suc 0..<Suc (length bs)] = {1..length bs}" by (simp add: atLeastLessThanSuc_atLeastAtMost del: upt_Suc)
      then have "bt_get ?es k = None" using False by (intro keyed_get(1)) simp
      moreover have "bt_get ?m k = None" if "prefix PREFIX_BLOCK k" using contrapos_nn [OF False ch(3) [OF that]] by auto
      ultimately show ?thesis unfolding map_of_filter_key by simp
    qed
  qed
  have loop: "load_loop c ch g hash (db_prefix_iterator c (db s) PREFIX_BLOCK) [] [] = Ok (?rs, bs)"
    unfolding store_okD(3) [OF st] load_loop_stop [of _ _ _ _ "filter (\<lambda>(k, v). PREFIX_BLOCK \<le> k) ?m"] prefix_segment [OF store_okD(1) [OF st]] segment
    using load_loop_chain [OF ch(1), of 0 c v ch g hash body] vb by simp
  show ?thesis
  proof (cases "bs = []")
    case True
    then show ?thesis
      using loop assms(3) ch(5,6) by (simp add: load_canonical_blocks_def store_okD(2) [OF st])
  next
    case False
    have "cbr_block_hash (last ?rs) = hash (last bs)" using False
      by (cases bs rule: rev_cases) (simp_all add: last_map block_record_def)
    then show ?thesis
      using loop assms(3) ch(1,5,6) ch(7) [OF False] False
      by (simp add: load_canonical_blocks_def store_okD(2) [OF st] cast_def del: upt_Suc)
  qed
qed

section \<open>Operations on the chain\<close>

abbreviation chain_inv ::
  "('db, 'blk) state_env \<Rightarrow> string \<Rightarrow> string \<Rightarrow> ('blk \<Rightarrow> string) \<Rightarrow> 'db StateManager \<Rightarrow> 'blk list \<Rightarrow> bool" where
  "chain_inv c ch g hash s bs \<equiv> chain_of c ch g hash (db s) bs \<and> block_height s = length bs"

lemma puts_other:
  assumes "dirty_puts c m = Ok b" "\<not> prefix PREFIX_ACCOUNT k"
  shows "bt_get (fold (\<lambda>(k, v). bt_insert k v) b d) k = bt_get d k"
proof -
  have "k \<notin> set (map fst b)" using dirty_puts_keys [OF assms(1)] assms(2) by (auto simp: account_key_def)
  then have "map_of (rev b) k = None" by (simp add: map_of_eq_None_iff)
  then show ?thesis by (simp add: fold_insert_get)
qed

lemma chain_frame:
  "chain_inv c ch g hash s bs \<Longrightarrow> db_contents c (db s') = db_contents c (db s) \<Longrightarrow> block_height s' = block_height s \<Longrightarrow>
   chain_inv c ch g hash s' bs"
  using chain_of_cong [of c ch g hash "db s" bs "db s'"] by (simp add: stored_height_def)

lemma chain_commit:
  assumes "store_ok c" "chain_inv c ch g hash s bs"
  shows "chain_inv c ch g hash (fst (commit_block c s)) bs"
proof (cases "dirty_puts c (cache s)")
  case (Ok b)
  let ?b = "b @ [(KEY_HEIGHT, to_le_bytes 8 (block_height s))]"
  have com: "commit_block c s = write_batch c ?b (sync_trie c s)" using Ok by (simp add: commit_block_def flush_internal_def)
  have h: "length bs < 2 ^ 64" "stored_height c (db s) = Some (length bs)" using chain_ofD(1,2) [OF conjunct1 [OF assms(2)]] by simp_all
  show ?thesis
  proof (cases "snd (write_batch c ?b (sync_trie c s)) = Ok ()")
    case True
    let ?d = "db (fst (commit_block c s))"
    have get: "bt_get (db_contents c ?d) k = (if k = KEY_HEIGHT then Some (to_le_bytes 8 (block_height s)) else bt_get (db_contents c (db s)) k)"
      if "\<not> prefix PREFIX_ACCOUNT k" for k
      using write_batch_contents [OF assms(1), of ?b "sync_trie c s"] True com puts_other [OF Ok that] by simp
    have "stored_height c ?d = stored_height c (db s)"
      using get [OF system_keys(1)] h assms(2) from_to_le_bytes [of "length bs" 8] by (simp add: stored_height_def)
    then have "chain_of c ch g hash ?d bs" by (rule chain_of_cong [OF conjunct1 [OF assms(2)]]) (simp add: get)
    then show ?thesis using assms(2) com by simp
  next
    case False
    then show ?thesis using chain_frame [OF assms(2)] write_batch_contents [OF assms(1), of ?b "sync_trie c s"] com by simp
  qed
qed (use assms(2) in \<open>simp_all add: commit_block_def flush_internal_def\<close>)

lemma chain_extend:
  assumes ch: "chain_of c ch g hash d bs" and n: "length bs + 1 < 2 ^ 64"
    and get: "\<And>k. \<not> prefix PREFIX_ACCOUNT k \<Longrightarrow> bt_get (db_contents c d') k =
      (if k = block_key (length bs + 1) then Some v else if k = KEY_TIP_HASH then Some (str_bytes (hash b))
       else if k = KEY_CHAIN_ID then Some (str_bytes ch) else if k = KEY_HEIGHT then Some (to_le_bytes 8 (length bs + 1))
       else bt_get (db_contents c d) k)"
    and v: "record_from_slice c v = Some (block_record ch g hash (bs @ [b]) body (length bs + 1))" "block_from_slice c body = Some b"
    and utf8: "utf8_valid (str_bytes (hash b))"
  shows "chain_of c ch g hash d' (bs @ [b])"
  unfolding chain_of_def
proof (intro conjI ballI allI impI)
  let ?n = "length bs + 1"
  have len: "length (bs @ [b]) = ?n" by simp
  show "length (bs @ [b]) < 2 ^ 64" using n by simp
  show "stored_height c d' = Some (length (bs @ [b]))"
    using get [OF system_keys(1)] from_to_le_bytes [of ?n 8] n by (simp add: stored_height_def system_neq)
  show "bt_get (db_contents c d') KEY_CHAIN_ID = (if bs @ [b] = [] then None else Some (str_bytes ch))"
    using get [OF system_keys(2)] by (simp add: system_neq)
  show "bt_get (db_contents c d') KEY_TIP_HASH = (if bs @ [b] = [] then None else Some (str_bytes (hash (last (bs @ [b])))))"
    using get [OF system_keys(3)] by (simp add: system_neq)
  show "utf8_valid (str_bytes (hash (last (bs @ [b]))))" using utf8 by simp
  fix k assume k: "prefix PREFIX_BLOCK k \<and> bt_get (db_contents c d') k \<noteq> None"
  show "k \<in> block_key ` {1..length (bs @ [b])}"
    unfolding len
  proof (cases "k = block_key ?n")
    case False
    then have "bt_get (db_contents c d) k \<noteq> None" using k get [of k] block_not_account [of k] by simp
    then show "k \<in> block_key ` {1..?n}" using chain_ofD(3) [OF ch, of k] k by auto
  qed simp
next
  fix i assume i: "i \<in> {1..length (bs @ [b])}"
  show "\<exists>v body. bt_get (db_contents c d') (block_key i) = Some v \<and>
      record_from_slice c v = Some (block_record ch g hash (bs @ [b]) body i) \<and> block_from_slice c body = Some ((bs @ [b]) ! (i - 1))"
  proof (cases "i = length bs + 1")
    case True
    then show ?thesis using v get [OF system_keys(4), of i] by (intro exI [of _ v] exI [of _ body]) simp
  next
    case False
    then have le: "1 \<le> i" "i \<le> length bs" using i by auto
    obtain v2 body2 where vb: "bt_get (db_contents c d) (block_key i) = Some v2"
        "record_from_slice c v2 = Some (block_record ch g hash bs body2 i)" "block_from_slice c body2 = Some (bs ! (i - 1))"
      using chain_ofD(4) [OF ch le] by blast
    have "block_key i \<noteq> block_key (length bs + 1)" using block_key_eq [of i "length bs + 1"] n le by simp
    then have "bt_get (db_contents c d') (block_key i) = Some v2"
      using vb(1) get [OF system_keys(4), of i] by (simp add: system_neq)
    moreover have "block_record ch g hash (bs @ [b]) body2 i = block_record ch g hash bs body2 i"
    proof -
      have "i - 1 < length bs" "i - 2 < length bs" using le by linarith+
      then show ?thesis by (simp only: block_record_def nth_append if_True)
    qed
    moreover have "(bs @ [b]) ! (i - 1) = bs ! (i - 1)" using le by (intro nth_append_left) linarith
    ultimately show ?thesis using vb(2,3) by (intro exI [of _ v2] exI [of _ body2]) simp
  qed
qed

lemma check_next_parent:
  assumes "env_ok c" "chain_inv c ch g hash s bs" "check_next_canonical_block c s i p ch g = Ok ()"
  shows "i = length bs + 1" "length bs + 1 < 2 ^ 64" "p = (if bs = [] then g else hash (last bs))"
proof -
  note st = env_okD(1) [OF assms(1)] and ch = chain_ofD [OF conjunct1 [OF assms(2)]]
  show "i = length bs + 1" "length bs + 1 < 2 ^ 64" using check_next_Ok [OF assms(3)] assms(2) by simp_all
  show "p = (if bs = [] then g else hash (last bs))"
    using assms(3) ch(7) unfolding check_next_canonical_block_def store_okD(2) [OF st] ch(5,6)
    by (cases "bs = []") (auto simp: Let_def split: option.splits if_splits)
qed

lemma chain_flush:
  assumes env: "env_ok c" and ch: "chain_of c ch g hash (db s) bs" and n: "length bs + 1 < 2 ^ 64"
    and p: "p = (if bs = [] then g else hash (last bs))" and utf8: "utf8_valid (str_bytes (hash b))"
    and fl: "flush_with_canonical_block c b (length bs + 1) (hash b) p ch s = (s', Ok ())"
  shows "chain_of c ch g hash (db s') (bs @ [b])"
proof -
  note e = env_okD [OF env]
  obtain body v puts where bv: "block_to_vec c b = Some body"
      "record_to_vec c \<lparr>cbr_index = length bs + 1, cbr_block_hash = hash b, cbr_previous_hash = p, cbr_chain_id = ch, cbr_body = body\<rparr> = Some v"
    and puts: "dirty_puts c (cache s) = Ok puts"
    and w: "write_batch c (puts @ [(KEY_HEIGHT, to_le_bytes 8 (length bs + 1)), (KEY_CHAIN_ID, str_bytes ch),
        (KEY_TIP_HASH, str_bytes (hash b)), (block_key (length bs + 1), v)]) s = (s', Ok ())"
    using flush_block_cases [OF e(1), of b "length bs + 1" "hash b" p ch s] fl by auto
  have cont: "db_contents c (db s') = bt_insert (block_key (length bs + 1)) v (bt_insert KEY_TIP_HASH (str_bytes (hash b))
      (bt_insert KEY_CHAIN_ID (str_bytes ch) (bt_insert KEY_HEIGHT (to_le_bytes 8 (length bs + 1))
        (fold (\<lambda>(k, v). bt_insert k v) puts (db_contents c (db s))))))"
    using write_batch_contents [OF e(1), of "puts @ [(KEY_HEIGHT, to_le_bytes 8 (length bs + 1)), (KEY_CHAIN_ID, str_bytes ch),
        (KEY_TIP_HASH, str_bytes (hash b)), (block_key (length bs + 1), v)]" s] unfolding w by simp
  show ?thesis
  proof (rule chain_extend [OF ch n])
    fix k assume k: "\<not> prefix PREFIX_ACCOUNT k"
    show "bt_get (db_contents c (db s')) k =
      (if k = block_key (length bs + 1) then Some v else if k = KEY_TIP_HASH then Some (str_bytes (hash b))
       else if k = KEY_CHAIN_ID then Some (str_bytes ch) else if k = KEY_HEIGHT then Some (to_le_bytes 8 (length bs + 1))
       else bt_get (db_contents c (db s)) k)"
      unfolding cont bt_get_insert puts_other [OF puts k] by simp
  next
    have "record_from_slice c v = Some \<lparr>cbr_index = length bs + 1, cbr_block_hash = hash b, cbr_previous_hash = p, cbr_chain_id = ch, cbr_body = body\<rparr>"
      using bv(2) e(2) by (simp add: json_ok_def)
    moreover have "p = (if length bs + 1 = 1 then g else hash ((bs @ [b]) ! (length bs + 1 - 2)))"
      by (cases bs rule: rev_cases) (simp_all add: p nth_append)
    ultimately show "record_from_slice c v = Some (block_record ch g hash (bs @ [b]) body (length bs + 1))"
      by (simp add: block_record_def)
    show "block_from_slice c body = Some b" using bv(1) e(2) by (simp add: json_ok_def)
  qed (rule utf8)
qed

lemma chain_persist:
  assumes env: "env_ok c" and ch: "chain_inv c ch g hash s bs" and utf8: "utf8_valid (str_bytes (hash b))"
    and call: "persist_canonical_block c b i (hash b) p ch g s = (s', x)"
  shows "x \<noteq> Ok () \<Longrightarrow> chain_inv c ch g hash s' bs" "x = Ok () \<Longrightarrow> chain_inv c ch g hash s' (bs @ [b])"
proof -
  note e = env_okD [OF env]
  let ?s1 = "sync_trie c (s\<lparr>block_height := i\<rparr>)"
  obtain s2 y where fl: "flush_with_canonical_block c b i (hash b) p ch ?s1 = (s2, y)" by force
  note fr = flush_block_frame [of c b i "hash b" p ch ?s1, unfolded fl fst_conv snd_conv]
  show "chain_inv c ch g hash s' bs" if x: "x \<noteq> Ok ()"
  proof (cases "check_next_canonical_block c s i p ch g")
    case (Ok u)
    then obtain err where y: "y = Err err" and s': "s' = s2\<lparr>block_height := sat_sub i 1\<rparr>"
      using call fl fr(4) x by (cases y) (simp_all add: persist_canonical_block_def Let_def)
    have "db_contents c (db s') = db_contents c (db s)"
      using flush_block_cases [OF e(1), of b i "hash b" p ch ?s1] fl y s' by auto
    then show ?thesis
      using chain_frame [OF ch, of s'] check_next_parent(1) [OF env ch, of i p] Ok s' ch by (simp add: sat_sub_def)
  qed (use call ch in \<open>simp_all add: persist_canonical_block_def\<close>)
  show "chain_inv c ch g hash s' (bs @ [b])" if x: "x = Ok ()"
  proof -
    have chk: "check_next_canonical_block c s i p ch g = Ok ()"
      using call x by (cases "check_next_canonical_block c s i p ch g") (simp_all add: persist_canonical_block_def)
    then have s': "s' = s2" "y = Ok ()"
      using call fl x fr(4) by (cases y; simp add: persist_canonical_block_def Let_def)+
    note par = check_next_parent [OF env ch chk]
    have "chain_of c ch g hash (db ?s1) bs" using ch by simp
    then have "chain_of c ch g hash (db s') (bs @ [b])"
      by (rule chain_flush [OF env _ par(2,3) utf8]) (use fl s' par(1) in simp)
    then show ?thesis using fr(3) s' par(1) by simp
  qed
qed

lemma chain_apply:
  assumes env: "env_ok c" and inv: "state_inv c s" and ch: "chain_inv c ch g hash s bs" and utf8: "utf8_valid (str_bytes (hash b))"
    and typed: "typed_op (SmApply b i (hash b) p ch g r xs)"
    and call: "apply_canonical_block c b i (hash b) p ch g r xs s = (s', x)"
  shows "x \<noteq> Ok () \<Longrightarrow> chain_inv c ch g hash s' bs" "x = Ok () \<Longrightarrow> chain_inv c ch g hash s' (bs @ [b])"
proof -
  note e = env_okD [OF env]
  note cs = apply_block_cases [OF e(1) call e(4) state_invD(2) [OF inv]]
  show "chain_inv c ch g hash s' bs" if "x \<noteq> Ok ()"
  proof -
    have same: "db_contents c (db s') = db_contents c (db s)" "s' = s\<lparr>db := db s'\<rparr>" using cs that by blast+
    have "block_height s' = block_height s" by (subst same(2)) simp
    then show ?thesis by (rule chain_frame [OF ch same(1)])
  qed
  show "chain_inv c ch g hash s' (bs @ [b])" if x: "x = Ok ()"
  proof -
    obtain s1 where chk: "check_next_canonical_block c s i p ch g = Ok ()" and t: "apply_transfers c xs s = (s1, None)"
      and fl: "flush_with_canonical_block c b i (hash b) p ch (sync_trie c ((fst (state_root c s1))\<lparr>block_height := i\<rparr>)) = (s', Ok ())"
      using cs x by auto
    note par = check_next_parent [OF env ch chk]
    have inv1: "state_inv c s1" using inv_transfers [OF env _ inv, of xs] typed t by simp
    have "db s1 = db s" using transfers_frame [of c xs s] t by simp
    then have "chain_of c ch g hash (db (sync_trie c ((fst (state_root c s1))\<lparr>block_height := i\<rparr>))) bs"
      using ch state_root_eq(4) [OF e(4) state_invD(2) [OF inv1]] by simp
    then have "chain_of c ch g hash (db s') (bs @ [b])"
      by (rule chain_flush [OF env _ par(2,3) utf8]) (use fl par(1) in simp)
    then show ?thesis using accepted_block(1) [OF env inv1 check_next_Ok(2) [OF chk] fl] par(1) by simp
  qed
qed

section \<open>The life of a chain\<close>

definition is_block_op :: "'blk sm_op \<Rightarrow> bool" where
  "is_block_op a = (case a of SmPersist b i h p ch g \<Rightarrow> True | SmApply b i h p ch g r xs \<Rightarrow> True
     | SmAttempt calls block \<Rightarrow> block \<noteq> None | _ \<Rightarrow> False)"

text \<open>\<open>chain_reach c ch g hash s bs\<close>: a node of the network \<open>ch\<close> with genesis \<open>g\<close>, started on an empty store,
  has reached \<open>s\<close> after appending the blocks \<open>bs\<close>, through any operations, failed appends, proposals that were undone
  and restarts.\<close>

inductive chain_reach ::
  "('db, 'blk) state_env \<Rightarrow> string \<Rightarrow> string \<Rightarrow> ('blk \<Rightarrow> string) \<Rightarrow> 'db StateManager \<Rightarrow> 'blk list \<Rightarrow> bool"
  for c ch g hash where
  created: "sm_open c (Some d) = Ok s \<Longrightarrow> db_contents c d = [] \<Longrightarrow> chain_reach c ch g hash s []"
| other: "chain_reach c ch g hash s bs \<Longrightarrow> typed_op a \<Longrightarrow> \<not> is_block_op a \<Longrightarrow> chain_reach c ch g hash (sm_step c a s) bs"
| persisted: "chain_reach c ch g hash s bs \<Longrightarrow> utf8_valid (str_bytes (hash b)) \<Longrightarrow>
    persist_canonical_block c b i (hash b) p ch g s = (s', x) \<Longrightarrow>
    chain_reach c ch g hash s' (if x = Ok () then bs @ [b] else bs)"
| applied: "chain_reach c ch g hash s bs \<Longrightarrow> utf8_valid (str_bytes (hash b)) \<Longrightarrow>
    typed_op (SmApply b i (hash b) p ch g r xs) \<Longrightarrow>
    apply_canonical_block c b i (hash b) p ch g r xs s = (s', x) \<Longrightarrow>
    chain_reach c ch g hash s' (if x = Ok () then bs @ [b] else bs)"
| attempted: "chain_reach c ch g hash s bs \<Longrightarrow> utf8_valid (str_bytes (hash b)) \<Longrightarrow>
    a = SmAttempt calls (Some (b, i, hash b, p, ch, g)) \<Longrightarrow> typed_op a \<Longrightarrow>
    persist_canonical_block c b i (hash b) p ch g (fold (sm_step c) calls s) = (s', x) \<Longrightarrow>
    chain_reach c ch g hash (sm_step c a s) (if x = Ok () then bs @ [b] else bs)"
| reopened: "chain_reach c ch g hash s bs \<Longrightarrow> sm_open c (Some (db s)) = Ok s' \<Longrightarrow> chain_reach c ch g hash s' bs"

lemma volatile_height:
  assumes "volatile a"
  shows "block_height (sm_step c a s) = block_height s"
proof (cases a)
  case (SmTransfer now x y m n ts)
  have "block_height (fst (apply_transfer_with_nonce c x y m n s)) = block_height s"
    by (auto simp: apply_transfer_with_nonce_def Let_def set_balance_def split: option.splits)
  then show ?thesis by (simp add: SmTransfer apply_transfer_def)
next
  case (SmMint x m)
  then show ?thesis by (auto simp: mint_def Let_def set_balance_def split: option.splits)
qed (use assms in \<open>simp_all add: set_balance_def increment_nonce_def set_code_hash_def state_root_def prove_account_def
    Let_def case_prod_beta\<close>)

lemma chain_volatile:
  assumes "chain_inv c ch g hash s bs" "list_all volatile calls"
  shows "chain_inv c ch g hash (fold (sm_step c) calls s) bs"
  using assms by (induction calls arbitrary: s) (simp_all add: volatile_db volatile_height)

lemma chain_other:
  assumes "env_ok c" "state_inv c s" "chain_inv c ch g hash s bs" "\<not> is_block_op a" "typed_op a"
  shows "chain_inv c ch g hash (sm_step c a s) bs"
proof -
  note e = env_okD [OF assms(1)]
  show ?thesis
  proof (cases "volatile a")
    case True
    then show ?thesis using assms(3) by (simp add: volatile_db volatile_height)
  next
    case False
    then consider "a = SmCommit" | calls where "a = SmAttempt calls None"
      using assms(4) by (cases a) (auto simp: is_block_op_def simp del: not_None_eq)
    then show ?thesis
    proof cases
      case 1
      then show ?thesis using chain_commit [OF e(1) assms(3)] by simp
    next
      case 2
      then obtain d where "db_contents c d = db_contents c (db s)" "sm_step c a s = s\<lparr>db := d\<rparr>"
        using attempt_cases [OF assms(1,2) assms(5) [unfolded 2]] by auto
      then show ?thesis using chain_frame [OF assms(3), of "s\<lparr>db := d\<rparr>"] by simp
    qed
  qed
qed

lemma chain_attempt:
  assumes env: "env_ok c" and inv: "state_inv c s" and ch: "chain_inv c ch g hash s bs" and utf8: "utf8_valid (str_bytes (hash b))"
    and typed: "typed_op (SmAttempt calls (Some (b, i, hash b, p, ch, g)))"
    and call: "persist_canonical_block c b i (hash b) p ch g (fold (sm_step c) calls s) = (s', x)"
  shows "chain_inv c ch g hash (sm_step c (SmAttempt calls (Some (b, i, hash b, p, ch, g))) s) (if x = Ok () then bs @ [b] else bs)"
proof -
  let ?a = "SmAttempt calls (Some (b, i, hash b, p, ch, g))"
  have ch1: "chain_inv c ch g hash (fold (sm_step c) calls s) bs" using chain_volatile [OF ch, of calls] typed by simp
  have run: "fold (\<lambda>f. f) (map (sm_step c) calls) s = fold (sm_step c) calls s" by (simp add: fold_map comp_def)
  show ?thesis
  proof (cases "x = Ok ()")
    case True
    then have "sm_step c ?a s = s'" using call by (simp add: run)
    then show ?thesis using chain_persist(2) [OF env ch1 utf8 call] True by simp
  next
    case False
    then obtain d where "db_contents c d = db_contents c (db s)" "sm_step c ?a s = s\<lparr>db := d\<rparr>"
      using attempt_cases [OF env inv typed] call by auto
    then show ?thesis using chain_frame [OF ch, of "s\<lparr>db := d\<rparr>"] False by simp
  qed
qed

lemma open_chain:
  assumes "env_ok c" "chain_of c ch g hash d bs" "sm_open c (Some d) = Ok s"
  shows "state_inv c s \<and> chain_inv c ch g hash s bs"
proof -
  note ch = chain_ofD(1,2) [OF assms(2)]
  have h: "block_height s = length bs" "db s = d"
    using assms(3) open_eq [OF env_okD(1) [OF assms(1)], of d s] ch(2) by auto
  have "state_inv c s" by (rule open_inv(1) [OF assms(1,3)]) (use h ch(1) in simp)
  then show ?thesis using h assms(2) by simp
qed

lemma chain_reach_inv:
  assumes "env_ok c" "chain_reach c ch g hash s bs"
  shows "state_inv c s \<and> chain_inv c ch g hash s bs"
  using assms(2)
proof (induction rule: chain_reach.induct)
  case (created d s)
  then show ?case using open_chain [OF assms(1) chain_of_empty] by blast
next
  case (other s bs a)
  then show ?case using inv_step [OF assms(1), of s a] chain_other [OF assms(1)] by blast
next
  case (attempted s bs b a calls i p s' x)
  then have inv: "state_inv c s" and ch: "chain_inv c ch g hash s bs" by blast+
  then show ?case
    using inv_step [OF assms(1) inv attempted.hyps(4)] chain_attempt [OF assms(1) inv ch attempted.hyps(2) _ attempted.hyps(5)]
      attempted.hyps(3,4) by blast
next
  case (persisted s bs b i p s' x)
  then have inv: "state_inv c s" and ch: "chain_inv c ch g hash s bs" by blast+
  have "state_inv c s'" using inv_persist [OF assms(1) inv, of b i "hash b" p ch g] persisted.hyps(3) by simp
  then show ?case using chain_persist [OF assms(1) ch persisted.hyps(2,3)] by simp
next
  case (applied s bs b i p r xs s' x)
  then have inv: "state_inv c s" and ch: "chain_inv c ch g hash s bs" by blast+
  have "state_inv c s'"
    using inv_apply [OF assms(1) inv, of xs b i "hash b" p ch g r] applied.hyps(3,4) by simp
  then show ?case using chain_apply [OF assms(1) inv ch applied.hyps(2,3,4)] by simp
next
  case (reopened s bs s')
  then show ?case using open_chain [OF assms(1), of ch g hash "db s" bs s'] by blast
qed

section \<open>Properties\<close>

text \<open>C10: whatever a node does between appending blocks, including appends that fail, proposals that are undone and restarts, reading
  the chain returns exactly the appended blocks in order, their number is the height, and a restart on the
  same store succeeds and reads the same chain.\<close>

theorem chain_survives_restart:
  assumes "env_ok c" "chain_reach c ch g hash s bs"
  shows "load_canonical_blocks c ch g hash s = Ok bs \<and> block_height s = length bs \<and>
    (\<exists>s'. sm_open c (Some (db s)) = Ok s' \<and> load_canonical_blocks c ch g hash s' = Ok bs)"
proof -
  have inv: "state_inv c s" and ch: "chain_of c ch g hash (db s) bs" "block_height s = length bs"
    using chain_reach_inv [OF assms] by simp_all
  obtain s' where s': "sm_open c (Some (db s)) = Ok s'" using open_committed [OF assms(1) inv chain_ofD(2) [OF ch(1)]] by blast
  have "chain_of c ch g hash (db s') bs" "block_height s' = length bs" using open_chain [OF assms(1) ch(1) s'] by simp_all
  then show ?thesis using load_chain [OF assms(1)] ch s' by blast
qed

definition demo_hash :: "bytes \<Rightarrow> string" where
  "demo_hash b = (if b = [7] then ''h1'' else ''h2'')"

lemma demo_hash_7: "demo_hash [7] = ''h1''"
  by (simp add: demo_hash_def)

lemma demo_chain: "chain_reach demo_state_env ''bleep'' ''g'' demo_hash demo_state []"
proof -
  let ?s = "\<lparr>db = [], cache = [], block_height = 0, trie = smt_new\<rparr> :: log_db StateManager"
  have s: "chain_reach demo_state_env ''bleep'' ''g'' demo_hash ?s []" by (rule created [OF demo_open]) (simp add: log_contents_def)
  show ?thesis unfolding demo_state_def fold_simps
    by (intro other s) (simp_all add: is_block_op_def str_bytes_def)
qed

lemma demo_persist:
  "\<exists>s. persist_canonical_block demo_state_env [7] 1 (demo_hash [7]) ''g'' ''bleep'' ''g'' demo_state = (s, Ok ())"
proof -
  have ch: "chain_of demo_state_env ''bleep'' ''g'' demo_hash (db demo_state) []" "block_height demo_state = 0"
    using chain_reach_inv [OF demo_state_ok demo_chain] by simp_all
  have "check_next_canonical_block demo_state_env demo_state 1 ''g'' ''bleep'' ''g'' = Ok ()"
    using chain_ofD(5,6) [OF ch(1)] ch(2) by (simp add: check_next_canonical_block_def checked_add_if)
  moreover obtain b where "dirty_puts demo_state_env (cache demo_state) = Ok b" using demo_puts by blast
  ultimately show ?thesis by (simp add: persist_canonical_block_def Let_def flush_with_canonical_block_def write_batch_def)
qed

theorem chain_survives_restart_witness:
  "\<exists>s s'. persist_canonical_block demo_state_env [7] 1 ''h1'' ''g'' ''bleep'' ''g'' demo_state = (s, Ok ()) \<and>
     sm_open demo_state_env (Some (db s)) = Ok s' \<and> load_canonical_blocks demo_state_env ''bleep'' ''g'' demo_hash s' = Ok [[7]]"
proof -
  obtain s where p: "persist_canonical_block demo_state_env [7] 1 (demo_hash [7]) ''g'' ''bleep'' ''g'' demo_state = (s, Ok ())"
    using demo_persist by blast
  have "chain_reach demo_state_env ''bleep'' ''g'' demo_hash s [[7]]"
    using persisted [OF demo_chain _ p] by (simp add: demo_hash_7 str_bytes_def)
  then show ?thesis using chain_survives_restart [OF demo_state_ok, of "''bleep''" "''g''" demo_hash s "[[7]]"] p
    by (auto simp: demo_hash_7)
qed

end
