(* ===== verification/Tokenomics.thy ===== *)
theory Tokenomics
  imports BTree
begin

text \<open>
  \<open>crates/bleep-economics/src/tokenomics.rs\<close>: the supply state, the emission schedule, the burn
  configuration and the canonical tokenomics engine. SHA-256 is the argument \<open>sha256\<close> of the
  definitions that hash. The string inside an error is represented by the values it prints.
  The lemmas show that every run of the engine from genesis keeps the supply under the cap, keeps
  the accounting identity with its emission and burn records, and keeps the hash commitment.
\<close>

section \<open>Constants\<close>

abbreviation BLEEP_UNIT :: u128 where "BLEEP_UNIT \<equiv> 100000000"

abbreviation MAX_TOKEN_SUPPLY :: u128 where "MAX_TOKEN_SUPPLY \<equiv> 200000000 * BLEEP_UNIT"

definition MAX_SUPPLY :: u128 where
  [const_defs]: "MAX_SUPPLY = MAX_TOKEN_SUPPLY"

abbreviation GENESIS_SUPPLY :: u128 where "GENESIS_SUPPLY \<equiv> 0"

abbreviation MAX_INFLATION_RATE_BPS :: u16 where "MAX_INFLATION_RATE_BPS \<equiv> 500"

abbreviation MIN_SLASHING_AMOUNT :: u128 where "MIN_SLASHING_AMOUNT \<equiv> 1000000"

section \<open>Data\<close>

datatype EmissionType = BlockProposal | Participation | HealingParticipation | CrossShardCoordination

primrec emission_index :: "EmissionType \<Rightarrow> nat" where
  "emission_index BlockProposal = 0"
| "emission_index Participation = 1"
| "emission_index HealingParticipation = 2"
| "emission_index CrossShardCoordination = 3"

lemma emission_index_inj: "emission_index a = emission_index b \<longleftrightarrow> a = b"
  by (cases a; cases b) auto

instantiation EmissionType :: linorder
begin

definition less_eq_EmissionType :: "EmissionType \<Rightarrow> EmissionType \<Rightarrow> bool" where
  [simp]: "a \<le> b \<longleftrightarrow> emission_index a \<le> emission_index b"

definition less_EmissionType :: "EmissionType \<Rightarrow> EmissionType \<Rightarrow> bool" where
  [simp]: "a < b \<longleftrightarrow> emission_index a < emission_index b"

instance
  by standard (auto simp: emission_index_inj [symmetric])

end

datatype BurnType = TransactionFee | SlashingPenalty | ProposalRejection | SpamPenalty

primrec burn_index :: "BurnType \<Rightarrow> nat" where
  "burn_index TransactionFee = 0"
| "burn_index SlashingPenalty = 1"
| "burn_index ProposalRejection = 2"
| "burn_index SpamPenalty = 3"

lemma burn_index_inj: "burn_index a = burn_index b \<longleftrightarrow> a = b"
  by (cases a; cases b) auto

instantiation BurnType :: linorder
begin

definition less_eq_BurnType :: "BurnType \<Rightarrow> BurnType \<Rightarrow> bool" where
  [simp]: "a \<le> b \<longleftrightarrow> burn_index a \<le> burn_index b"

definition less_BurnType :: "BurnType \<Rightarrow> BurnType \<Rightarrow> bool" where
  [simp]: "a < b \<longleftrightarrow> burn_index a < burn_index b"

instance
  by standard (auto simp: burn_index_inj [symmetric])

end

datatype SupplyFault =
    MintedBelowBurned
  | MintedOverCap u128 u128 u128
  | CirculationMismatch u128 u128 u128 u128
  | CirculatingOverCap u128 u128
  | GenesisNotFresh
  | BurnExceedsCirculating

datatype ScheduleFault = TotalEmissionOverMax u32 u16 | DecayFactorOutOfRange

datatype TokenomicsError =
    InvalidSupplyState SupplyFault
  | HashMismatch
  | InvalidEmissionSchedule ScheduleFault
  | InvalidBurnConfig
  | ExcessiveEmission u128 u128
  | SupplyCapExceeded
  | BurnTooSmall
  | InvalidEmissionType
  | EpochNotFound u64

record SupplyState =
  circulating_supply :: u128
  total_minted :: u128
  total_burned :: u128
  ss_epoch :: u64
  state_hash :: bytes

record EmissionSchedule =
  emission_rates :: "(EmissionType, u16) btree_map"
  decay_factor_bps :: u16
  min_epoch_for_decay :: u64

record BurnConfig =
  fee_burn_percentage_bps :: u16
  slashing_burn_multiplier :: u8

record CanonicalTokenomicsEngine =
  supply_state :: SupplyState
  emission_schedule :: EmissionSchedule
  burn_config :: BurnConfig
  historical_states :: "(u64, SupplyState) btree_map"
  emission_records :: "(u64 \<times> EmissionType, u128) btree_map"
  burn_records :: "(u64 \<times> BurnType, u128) btree_map"

section \<open>Supply state\<close>

definition supply_verify :: "SupplyState \<Rightarrow> (TokenomicsError, unit) outcome" where
  "supply_verify s =
     (if total_minted s < total_burned s then Err (InvalidSupplyState MintedBelowBurned)
      else if total_minted s > MAX_SUPPLY then
        Err (InvalidSupplyState
               (MintedOverCap (total_minted s) MAX_SUPPLY (total_minted s - MAX_SUPPLY)))
      else
        let expected_circulation = sat_sub (total_minted s) (total_burned s) in
        if circulating_supply s \<noteq> expected_circulation then
          Err (InvalidSupplyState
                 (CirculationMismatch (circulating_supply s) (total_minted s) (total_burned s)
                    expected_circulation))
        else if circulating_supply s > MAX_SUPPLY then
          Err (InvalidSupplyState (CirculatingOverCap (circulating_supply s) MAX_SUPPLY))
        else Ok ())"

abbreviation supply_preimage :: "SupplyState \<Rightarrow> bytes" where
  "supply_preimage s \<equiv> to_le_bytes 16 (circulating_supply s) @ to_le_bytes 16 (total_minted s)
     @ to_le_bytes 16 (total_burned s) @ to_le_bytes 8 (ss_epoch s)"

abbreviation supply_compute_hash :: "(bytes \<Rightarrow> bytes) \<Rightarrow> SupplyState \<Rightarrow> bytes" where
  "supply_compute_hash sha256 s \<equiv> sha256 (supply_preimage s)"

abbreviation supply_verify_hash ::
  "(bytes \<Rightarrow> bytes) \<Rightarrow> SupplyState \<Rightarrow> (TokenomicsError, unit) outcome" where
  "supply_verify_hash sha256 s \<equiv> (if supply_compute_hash sha256 s \<noteq> state_hash s then Err HashMismatch else Ok ())"

section \<open>Emission schedule and burn configuration\<close>

definition EmissionSchedule_new :: EmissionSchedule where
  "EmissionSchedule_new =
     \<lparr>emission_rates =
        bt_insert CrossShardCoordination 50
          (bt_insert HealingParticipation 100
            (bt_insert Participation 150 (bt_insert BlockProposal 200 []))),
      decay_factor_bps = 9900,
      min_epoch_for_decay = 52560\<rparr>"

definition schedule_validate :: "EmissionSchedule \<Rightarrow> (TokenomicsError, unit) outcome" where
  "schedule_validate sch =
     (let total_emission = wrap_sum 32 (bt_values (emission_rates sch)) in
      if cast 16 total_emission > MAX_INFLATION_RATE_BPS then
        Err (InvalidEmissionSchedule (TotalEmissionOverMax total_emission MAX_INFLATION_RATE_BPS))
      else if decay_factor_bps sch = 0 \<or> decay_factor_bps sch > 10000 then
        Err (InvalidEmissionSchedule DecayFactorOutOfRange)
      else Ok ())"

text \<open>\<open>u64::pow\<close>, and the decayed rate; \<open>None\<close> is a division by a power that wrapped to zero.\<close>

definition wrap_pow :: "nat \<Rightarrow> nat \<Rightarrow> nat \<Rightarrow> nat" where
  "wrap_pow w a n = a ^ n mod 2 ^ w"

abbreviation decayed_rate :: "u16 \<Rightarrow> u16 \<Rightarrow> u64 \<Rightarrow> u16 option" where
  "decayed_rate decay rate decay_epochs \<equiv> (let n = cast 32 decay_epochs;
          num = wrap_mul 64 rate (wrap_pow 64 decay n);
          den = wrap_pow 64 10000 n
      in if den = 0 then None else Some (cast 16 (num div den)))"

fun decay_rates ::
  "u16 \<Rightarrow> u64 \<Rightarrow> (EmissionType, u16) btree_map \<Rightarrow>
   (TokenomicsError, (EmissionType, u16) btree_map) outcome" where
  "decay_rates decay n [] = Ok []"
| "decay_rates decay n ((t, rate) # rates) =
     (case decayed_rate decay rate n of
        None \<Rightarrow> Panic
      | Some r \<Rightarrow>
          (case decay_rates decay n rates of
             Ok rs \<Rightarrow> Ok (bt_insert t r rs) | Err e \<Rightarrow> Err e | Panic \<Rightarrow> Panic))"

definition get_emission_rates ::
  "EmissionSchedule \<Rightarrow> u64 \<Rightarrow> (TokenomicsError, (EmissionType, u16) btree_map) outcome" where
  "get_emission_rates sch current_epoch =
     (if current_epoch < min_epoch_for_decay sch then Ok (emission_rates sch)
      else
        let decay_epochs = current_epoch - min_epoch_for_decay sch in
        decay_rates (decay_factor_bps sch) decay_epochs (emission_rates sch))"

abbreviation TK_FEE_BURN_BPS :: u32 where "TK_FEE_BURN_BPS \<equiv> 2500"

abbreviation BurnConfig_new :: BurnConfig where
  "BurnConfig_new \<equiv> \<lparr>fee_burn_percentage_bps = cast 16 TK_FEE_BURN_BPS, slashing_burn_multiplier = 1\<rparr>"

abbreviation burn_config_validate :: "BurnConfig \<Rightarrow> (TokenomicsError, unit) outcome" where
  "burn_config_validate c \<equiv> (if fee_burn_percentage_bps c > 10000 then Err InvalidBurnConfig else Ok ())"

section \<open>The engine\<close>

abbreviation rehash :: "(bytes \<Rightarrow> bytes) \<Rightarrow> SupplyState \<Rightarrow> SupplyState" where
  "rehash sha256 s \<equiv> s\<lparr>state_hash := supply_compute_hash sha256 s\<rparr>"

definition tk_genesis :: "(bytes \<Rightarrow> bytes) \<Rightarrow> CanonicalTokenomicsEngine" where
  "tk_genesis sha256 =
     (let supply =
        \<lparr>circulating_supply = GENESIS_SUPPLY, total_minted = GENESIS_SUPPLY, total_burned = 0,
         ss_epoch = 0, state_hash = []\<rparr>
      in \<lparr>supply_state = rehash sha256 supply,
          emission_schedule = EmissionSchedule_new,
          burn_config = BurnConfig_new,
          historical_states = [],
          emission_records = [],
          burn_records = []\<rparr>)"

definition initialize_genesis_supply ::
  "(bytes \<Rightarrow> bytes) \<Rightarrow> u128 \<Rightarrow> CanonicalTokenomicsEngine \<Rightarrow>
   CanonicalTokenomicsEngine \<times> (TokenomicsError, unit) outcome" where
  "initialize_genesis_supply sha256 initial_supply e =
     (let s = supply_state e in
      if ss_epoch s \<noteq> 0 \<or> total_minted s \<noteq> GENESIS_SUPPLY \<or> total_burned s \<noteq> 0 then
        (e, Err (InvalidSupplyState GenesisNotFresh))
      else if initial_supply > MAX_SUPPLY then (e, Err SupplyCapExceeded)
      else
        let s' = rehash sha256
                   (s\<lparr>circulating_supply := initial_supply, total_minted := initial_supply\<rparr>)
        in (e\<lparr>supply_state := s'\<rparr>, supply_verify s'))"

abbreviation base_supply :: "SupplyState \<Rightarrow> u128" where
  "base_supply s \<equiv> (if circulating_supply s = 0 then MAX_SUPPLY else circulating_supply s)"

abbreviation max_allowed :: "SupplyState \<Rightarrow> u16 \<Rightarrow> u128" where
  "max_allowed s rate \<equiv> sat_mul 128 (base_supply s) rate div 10000"

definition apply_emission ::
  "(bytes \<Rightarrow> bytes) \<Rightarrow> u64 \<Rightarrow> EmissionType \<Rightarrow> u128 \<Rightarrow> CanonicalTokenomicsEngine \<Rightarrow>
   CanonicalTokenomicsEngine" where
  "apply_emission sha256 epoch etype amount e =
     (let s = supply_state e; key = (epoch, etype); current = bt_get_or (emission_records e) key 0 in
      e\<lparr>emission_records := bt_insert key (wrap_add 128 current amount) (emission_records e),
        supply_state := rehash sha256
          (s\<lparr>total_minted := sat_add 128 (total_minted s) amount,
             circulating_supply := sat_add 128 (circulating_supply s) amount\<rparr>)\<rparr>)"

definition record_emission ::
  "(bytes \<Rightarrow> bytes) \<Rightarrow> u64 \<Rightarrow> EmissionType \<Rightarrow> u128 \<Rightarrow> CanonicalTokenomicsEngine \<Rightarrow>
   CanonicalTokenomicsEngine \<times> (TokenomicsError, unit) outcome" where
  "record_emission sha256 epoch etype amount e =
     (let s = supply_state e in
      case get_emission_rates (emission_schedule e) epoch of
        Panic \<Rightarrow> (e, Panic)
      | Err x \<Rightarrow> (e, Err x)
      | Ok rates \<Rightarrow>
          (case bt_get rates etype of
             None \<Rightarrow> (e, Err InvalidEmissionType)
           | Some rate \<Rightarrow>
               if amount > max_allowed s rate then
                 (e, Err (ExcessiveEmission amount (max_allowed s rate)))
               else if amount > sat_sub MAX_SUPPLY (total_minted s) then (e, Err SupplyCapExceeded)
               else (apply_emission sha256 epoch etype amount e, Ok ())))"

definition apply_burn ::
  "(bytes \<Rightarrow> bytes) \<Rightarrow> u64 \<Rightarrow> BurnType \<Rightarrow> u128 \<Rightarrow> CanonicalTokenomicsEngine \<Rightarrow>
   CanonicalTokenomicsEngine" where
  "apply_burn sha256 epoch btype amount e =
     (let s = supply_state e; key = (epoch, btype); current = bt_get_or (burn_records e) key 0 in
      e\<lparr>burn_records := bt_insert key (wrap_add 128 current amount) (burn_records e),
        supply_state := rehash sha256
          (s\<lparr>total_burned := sat_add 128 (total_burned s) amount,
             circulating_supply := sat_sub (circulating_supply s) amount\<rparr>)\<rparr>)"

definition record_burn ::
  "(bytes \<Rightarrow> bytes) \<Rightarrow> u64 \<Rightarrow> BurnType \<Rightarrow> u128 \<Rightarrow> CanonicalTokenomicsEngine \<Rightarrow>
   CanonicalTokenomicsEngine \<times> (TokenomicsError, unit) outcome" where
  "record_burn sha256 epoch btype amount e =
     (if amount < MIN_SLASHING_AMOUNT \<and> btype = SlashingPenalty then (e, Err BurnTooSmall)
      else if amount > circulating_supply (supply_state e) then
        (e, Err (InvalidSupplyState BurnExceedsCirculating))
      else (apply_burn sha256 epoch btype amount e, Ok ()))"

definition finalize_epoch ::
  "(bytes \<Rightarrow> bytes) \<Rightarrow> u64 \<Rightarrow> CanonicalTokenomicsEngine \<Rightarrow>
   CanonicalTokenomicsEngine \<times> (TokenomicsError, bytes) outcome" where
  "finalize_epoch sha256 epoch e =
     (let s = (supply_state e)\<lparr>ss_epoch := epoch\<rparr> in
      case supply_verify s of
        Err x \<Rightarrow> (e\<lparr>supply_state := s\<rparr>, Err x)
      | Panic \<Rightarrow> (e\<lparr>supply_state := s\<rparr>, Panic)
      | Ok _ \<Rightarrow>
          let s' = rehash sha256 s in
          (e\<lparr>supply_state := s', historical_states := bt_insert epoch s' (historical_states e)\<rparr>,
           Ok (state_hash s')))"

abbreviation get_supply_at_epoch ::
  "CanonicalTokenomicsEngine \<Rightarrow> u64 \<Rightarrow> (TokenomicsError, SupplyState) outcome" where
  "get_supply_at_epoch e epoch \<equiv> ok_or (EpochNotFound epoch) (bt_get (historical_states e) epoch)"

text \<open>\<open>start..=end\<close> is empty when \<open>end\<close> is below \<open>start\<close>.\<close>

abbreviation get_total_emissions ::
  "CanonicalTokenomicsEngine \<Rightarrow> u64 \<Rightarrow> u64 \<Rightarrow> EmissionType \<Rightarrow> u128" where
  "get_total_emissions e start_epoch end_epoch etype \<equiv> wrap_sum 128
       (map (\<lambda>epoch. bt_get_or (emission_records e) (epoch, etype) 0) [start_epoch..<Suc end_epoch])"

abbreviation get_total_burns ::
  "CanonicalTokenomicsEngine \<Rightarrow> u64 \<Rightarrow> u64 \<Rightarrow> BurnType \<Rightarrow> u128" where
  "get_total_burns e start_epoch end_epoch btype \<equiv> wrap_sum 128
       (map (\<lambda>epoch. bt_get_or (burn_records e) (epoch, btype) 0) [start_epoch..<Suc end_epoch])"

section \<open>Operations as steps, and the accounting invariant\<close>

datatype tk_op =
    TkInit u128
  | TkEmit u64 EmissionType u128
  | TkBurn u64 BurnType u128
  | TkFinalize u64

primrec tk_step ::
  "(bytes \<Rightarrow> bytes) \<Rightarrow> tk_op \<Rightarrow> CanonicalTokenomicsEngine \<Rightarrow> CanonicalTokenomicsEngine" where
  "tk_step sha256 (TkInit a) e = fst (initialize_genesis_supply sha256 a e)"
| "tk_step sha256 (TkEmit ep t a) e = fst (record_emission sha256 ep t a e)"
| "tk_step sha256 (TkBurn ep t a) e = fst (record_burn sha256 ep t a e)"
| "tk_step sha256 (TkFinalize ep) e = fst (finalize_epoch sha256 ep e)"

definition supply_ok :: "SupplyState \<Rightarrow> bool" where
  "supply_ok s \<longleftrightarrow>
     total_burned s \<le> total_minted s \<and> total_minted s \<le> MAX_SUPPLY \<and>
     circulating_supply s = total_minted s - total_burned s"

text \<open>\<open>g\<close> is the supply set before the first epoch; everything else is in the records.\<close>

definition tk_accounts :: "u128 \<Rightarrow> CanonicalTokenomicsEngine \<Rightarrow> bool" where
  "tk_accounts g e \<longleftrightarrow>
     bt_wf (emission_records e) \<and> bt_wf (burn_records e) \<and>
     total_minted (supply_state e) = g + bt_sum id (emission_records e) \<and>
     total_burned (supply_state e) = bt_sum id (burn_records e)"

definition tk_inv :: "(bytes \<Rightarrow> bytes) \<Rightarrow> CanonicalTokenomicsEngine \<Rightarrow> bool" where
  "tk_inv sha256 e \<longleftrightarrow>
     supply_ok (supply_state e) \<and> (\<exists>g. tk_accounts g e) \<and>
     state_hash (supply_state e) = supply_compute_hash sha256 (supply_state e)"

section \<open>Lemmas\<close>

lemma MAX_SUPPLY_value: "MAX_SUPPLY = 20000000000000000"
  by (simp add: const_defs)

lemma MAX_SUPPLY_fits: "n \<le> MAX_SUPPLY \<Longrightarrow> n < 2 ^ 128"
  by (simp add: MAX_SUPPLY_value)

lemma MAX_SUPPLY_sat_add: "a + b \<le> MAX_SUPPLY \<Longrightarrow> sat_add 128 a b = a + b"
  by (simp add: sat_add_def MAX_SUPPLY_value)

lemma supply_verify_iff: "supply_verify s = Ok () \<longleftrightarrow> supply_ok s"
  by (auto simp: supply_verify_def supply_ok_def Let_def)

lemma supply_verify_not_Panic: "supply_verify s \<noteq> Panic"
  by (simp add: supply_verify_def Let_def)

lemma supply_ok_frame [simp]:
  "supply_ok (s\<lparr>ss_epoch := n\<rparr>) = supply_ok s"
  "supply_ok (s\<lparr>state_hash := h\<rparr>) = supply_ok s"
  by (simp_all add: supply_ok_def)

lemma supply_preimage_hash [simp]: "supply_preimage (s\<lparr>state_hash := h\<rparr>) = supply_preimage s"
  by simp

lemma supply_compute_hash_frame [simp]:
  "supply_compute_hash sha256 (s\<lparr>state_hash := h\<rparr>) = supply_compute_hash sha256 s"
  by simp

lemma length_supply_preimage: "length (supply_preimage s) = 56"
  by simp

lemma supply_preimage_inj:
  assumes "circulating_supply s < 2 ^ 128" "total_minted s < 2 ^ 128" "total_burned s < 2 ^ 128"
    and "ss_epoch s < 2 ^ 64"
    and "circulating_supply t < 2 ^ 128" "total_minted t < 2 ^ 128" "total_burned t < 2 ^ 128"
    and "ss_epoch t < 2 ^ 64"
  shows "supply_preimage s = supply_preimage t \<longleftrightarrow> s\<lparr>state_hash := state_hash t\<rparr> = t"
  using assms by (cases s; cases t) (auto simp: to_le_bytes_inj)

lemma bt_sum_record:
  assumes "bt_wf m" and "bt_get_or m k 0 + amount < 2 ^ 128"
  shows "bt_sum id (bt_insert k (wrap_add 128 (bt_get_or m k 0) amount) m) = bt_sum id m + amount"
  using bt_sum_insert [OF assms(1), of id k "bt_get_or m k 0 + amount"] assms(2)
  by (auto simp: wrap_add_exact bt_get_or_def split: option.splits)

lemma bt_get_or_le_sum: "bt_get_or m k 0 \<le> bt_sum id m"
  by (auto simp: bt_get_or_def split: option.splits dest: bt_sum_ge [where f = id])

lemma apply_emission_inv:
  assumes inv: "tk_inv sha256 e" and amount: "amount \<le> MAX_SUPPLY - total_minted (supply_state e)"
  shows "tk_inv sha256 (apply_emission sha256 epoch etype amount e)"
    and "total_minted (supply_state (apply_emission sha256 epoch etype amount e))
         = total_minted (supply_state e) + amount"
    and "circulating_supply (supply_state (apply_emission sha256 epoch etype amount e))
         = circulating_supply (supply_state e) + amount"
proof -
  let ?s = "supply_state e" and ?m = "emission_records e"
  from inv obtain g where ok: "supply_ok ?s" and acc: "tk_accounts g e"
    by (auto simp: tk_inv_def)
  have mint: "total_minted ?s + amount \<le> MAX_SUPPLY"
    using ok amount by (auto simp: supply_ok_def)
  have circ: "circulating_supply ?s + amount \<le> MAX_SUPPLY"
    using ok mint by (auto simp: supply_ok_def)
  have "bt_get_or ?m (epoch, etype) 0 \<le> total_minted ?s"
    using acc bt_get_or_le_sum [of ?m "(epoch, etype)"] by (simp add: tk_accounts_def)
  with mint have "bt_get_or ?m (epoch, etype) 0 + amount < 2 ^ 128"
    by (intro MAX_SUPPLY_fits) simp
  with acc have sum: "bt_sum id (bt_insert (epoch, etype)
      (wrap_add 128 (bt_get_or ?m (epoch, etype) 0) amount) ?m) = bt_sum id ?m + amount"
    by (simp add: bt_sum_record tk_accounts_def)
  from mint circ have exact:
    "sat_add 128 (total_minted ?s) amount = total_minted ?s + amount"
    "sat_add 128 (circulating_supply ?s) amount = circulating_supply ?s + amount"
    by (simp_all add: MAX_SUPPLY_sat_add)
  show "tk_inv sha256 (apply_emission sha256 epoch etype amount e)"
    using acc sum exact ok mint
    by (auto simp: tk_inv_def apply_emission_def Let_def tk_accounts_def supply_ok_def)
  show "total_minted (supply_state (apply_emission sha256 epoch etype amount e))
         = total_minted ?s + amount"
    and "circulating_supply (supply_state (apply_emission sha256 epoch etype amount e))
         = circulating_supply ?s + amount"
    using exact by (simp_all add: apply_emission_def Let_def)
qed

lemma apply_burn_inv:
  assumes inv: "tk_inv sha256 e" and amount: "amount \<le> circulating_supply (supply_state e)"
  shows "tk_inv sha256 (apply_burn sha256 epoch btype amount e)"
    and "total_burned (supply_state (apply_burn sha256 epoch btype amount e))
         = total_burned (supply_state e) + amount"
proof -
  let ?s = "supply_state e" and ?m = "burn_records e"
  from inv obtain g where ok: "supply_ok ?s" and acc: "tk_accounts g e"
    by (auto simp: tk_inv_def)
  have burn: "total_burned ?s + amount \<le> MAX_SUPPLY"
    using ok amount by (auto simp: supply_ok_def)
  have "bt_get_or ?m (epoch, btype) 0 \<le> total_burned ?s"
    using acc bt_get_or_le_sum [of ?m "(epoch, btype)"] by (simp add: tk_accounts_def)
  with burn have "bt_get_or ?m (epoch, btype) 0 + amount < 2 ^ 128"
    by (intro MAX_SUPPLY_fits) simp
  with acc have sum: "bt_sum id (bt_insert (epoch, btype)
      (wrap_add 128 (bt_get_or ?m (epoch, btype) 0) amount) ?m) = bt_sum id ?m + amount"
    by (simp add: bt_sum_record tk_accounts_def)
  from burn have exact: "sat_add 128 (total_burned ?s) amount = total_burned ?s + amount"
    by (simp add: MAX_SUPPLY_sat_add)
  show "tk_inv sha256 (apply_burn sha256 epoch btype amount e)"
    using acc sum exact ok amount
    by (auto simp: tk_inv_def apply_burn_def Let_def tk_accounts_def supply_ok_def)
  show "total_burned (supply_state (apply_burn sha256 epoch btype amount e))
         = total_burned ?s + amount"
    using exact by (simp add: apply_burn_def Let_def)
qed

lemma initialize_inv: "tk_inv sha256 e \<Longrightarrow> tk_inv sha256 (fst (initialize_genesis_supply sha256 a e))"
  by (auto simp: initialize_genesis_supply_def Let_def tk_inv_def tk_accounts_def supply_ok_def
        const_defs)

lemma record_emission_cases:
  "record_emission sha256 ep t a e = (e', r) \<Longrightarrow>
   (r = Ok () \<and> e' = apply_emission sha256 ep t a e \<and> a \<le> MAX_SUPPLY - total_minted (supply_state e))
   \<or> (r \<noteq> Ok () \<and> e' = e)"
  by (auto simp: record_emission_def Let_def split: outcome.splits option.splits if_splits)

lemma record_burn_cases:
  "record_burn sha256 ep t a e = (e', r) \<Longrightarrow>
   (r = Ok () \<and> e' = apply_burn sha256 ep t a e \<and> a \<le> circulating_supply (supply_state e))
   \<or> (r \<noteq> Ok () \<and> e' = e)"
  by (auto simp: record_burn_def split: if_splits)

lemma record_emission_inv: "tk_inv sha256 e \<Longrightarrow> tk_inv sha256 (fst (record_emission sha256 ep t a e))"
  using record_emission_cases [of sha256 ep t a e] apply_emission_inv(1) by (metis prod.collapse)

lemma record_burn_inv: "tk_inv sha256 e \<Longrightarrow> tk_inv sha256 (fst (record_burn sha256 ep t a e))"
  using record_burn_cases [of sha256 ep t a e] apply_burn_inv(1) by (metis prod.collapse)

lemma tk_inv_verify: "tk_inv sha256 e \<Longrightarrow> supply_verify ((supply_state e)\<lparr>ss_epoch := n\<rparr>) = Ok ()"
  by (simp add: supply_verify_iff tk_inv_def)

lemma finalize_epoch_Ok:
  assumes "tk_inv sha256 e"
  shows "\<exists>h. snd (finalize_epoch sha256 ep e) = Ok h"
    and "tk_inv sha256 (fst (finalize_epoch sha256 ep e))"
    and "get_supply_at_epoch (fst (finalize_epoch sha256 ep e)) ep
         = Ok (supply_state (fst (finalize_epoch sha256 ep e)))"
  using assms tk_inv_verify [OF assms, of ep]
  by (auto simp: finalize_epoch_def Let_def tk_inv_def tk_accounts_def)

lemma tk_genesis_inv: "tk_inv sha256 (tk_genesis sha256)"
  by (simp add: tk_inv_def tk_genesis_def Let_def tk_accounts_def supply_ok_def const_defs bt_sum_def
     )

interpretation tk: machine "tk_step sha256" "tk_inv sha256" "\<lambda>_. True" for sha256
proof
  fix s a
  show "tk_inv sha256 s \<Longrightarrow> tk_inv sha256 (tk_step sha256 a s)"
    by (cases a) (simp_all add: initialize_inv record_emission_inv record_burn_inv finalize_epoch_Ok)
qed

lemma tk_run_inv: "tk_inv sha256 (fold (tk_step sha256) ops (tk_genesis sha256))"
  by (rule tk.run_inv) (simp_all add: tk_genesis_inv list_all_iff)

section \<open>Properties\<close>

text \<open>C9: whatever sequence of genesis initialisation, emissions, burns and epoch finalisations is
  run on a fresh engine, with whatever amounts and whether or not the single calls fail, the total
  ever minted stays within MAX\_SUPPLY, no more is burned than was minted, and the circulating
  supply is their difference.\<close>

theorem supply_cap_every_run:
  "let s = supply_state (fold (tk_step sha256) ops (tk_genesis sha256)) in
   total_minted s \<le> MAX_SUPPLY \<and> total_burned s \<le> total_minted s \<and>
   circulating_supply s = total_minted s - total_burned s"
  using tk_run_inv [of sha256 ops] by (simp add: Let_def tk_inv_def supply_ok_def)

text \<open>After any run from genesis the books balance: there is one genesis amount such that the
  minted total is that amount plus the sum of all emission records, and the burned total is the sum
  of all burn records (no record is lost to wrap-around).\<close>

theorem records_account_for_supply:
  "\<exists>g. let e = fold (tk_step sha256) ops (tk_genesis sha256) in
     total_minted (supply_state e) = g + bt_sum id (emission_records e) \<and>
     total_burned (supply_state e) = bt_sum id (burn_records e)"
  using tk_run_inv [of sha256 ops] by (auto simp: Let_def tk_inv_def tk_accounts_def)

text \<open>After any run from genesis, finalising any epoch succeeds, the stored snapshot is the
  current supply state, and both its accounting check and its hash check accept it.\<close>

theorem finalize_epoch_total:
  "let e = fst (finalize_epoch sha256 ep (fold (tk_step sha256) ops (tk_genesis sha256))) in
   is_ok (snd (finalize_epoch sha256 ep (fold (tk_step sha256) ops (tk_genesis sha256)))) \<and>
   get_supply_at_epoch e ep = Ok (supply_state e) \<and>
   supply_verify (supply_state e) = Ok () \<and> supply_verify_hash sha256 (supply_state e) = Ok ()"
  using finalize_epoch_Ok [OF tk_run_inv [of sha256 ops], of ep]
  by (auto simp: Let_def is_ok_iff supply_verify_iff tk_inv_def)

text \<open>The bytes hashed into the supply commitment determine the supply state: two states whose
  fields fit their types have equal hash preimages exactly when they agree on every field but the
  stored hash.\<close>

theorem supply_commitment_binding:
  assumes "circulating_supply s < 2 ^ 128" "total_minted s < 2 ^ 128" "total_burned s < 2 ^ 128"
    and "ss_epoch s < 2 ^ 64"
    and "circulating_supply t < 2 ^ 128" "total_minted t < 2 ^ 128" "total_burned t < 2 ^ 128"
    and "ss_epoch t < 2 ^ 64"
  shows "supply_preimage s = supply_preimage t \<longleftrightarrow>
     circulating_supply s = circulating_supply t \<and> total_minted s = total_minted t \<and>
     total_burned s = total_burned t \<and> ss_epoch s = ss_epoch t"
  using supply_preimage_inj [OF assms] by (cases s; cases t) simp

theorem supply_commitment_binding_witness:
  "supply_preimage \<lparr>circulating_supply = 5, total_minted = 7, total_burned = 2, ss_epoch = 1, state_hash = []\<rparr>
   \<noteq> supply_preimage \<lparr>circulating_supply = 6, total_minted = 7, total_burned = 1, ss_epoch = 1, state_hash = []\<rparr>"
  using supply_commitment_binding
    [of "\<lparr>circulating_supply = 5, total_minted = 7, total_burned = 2, ss_epoch = 1, state_hash = []\<rparr>"
        "\<lparr>circulating_supply = 6, total_minted = 7, total_burned = 1, ss_epoch = 1, state_hash = []\<rparr>"]
  by simp

text \<open>From the sixteenth decay epoch on, for as long as the epoch distance fits 32 bits, a
  schedule with any rate at all makes the emission-rate lookup panic: the 64-bit power of 10000
  wraps to zero and is divided by.\<close>

theorem decay_panics_after_sixteen_epochs:
  assumes "emission_rates sch \<noteq> []"
    and "min_epoch_for_decay sch + 16 \<le> epoch" and "epoch < min_epoch_for_decay sch + 2 ^ 32"
  shows "get_emission_rates sch epoch = Panic"
proof -
  have zero: "wrap_pow 64 10000 n = 0" if "16 \<le> n" for n
  proof -
    have "(2::nat) ^ 64 dvd 10000 ^ 16" by simp
    also have "(10000::nat) ^ 16 dvd 10000 ^ n" using that by (rule le_imp_power_dvd)
    finally show ?thesis by (simp add: wrap_pow_def mod_eq_0_iff_dvd)
  qed
  have "cast 32 (epoch - min_epoch_for_decay sch) = epoch - min_epoch_for_decay sch"
    using assms by (simp add: cast_exact)
  with assms have none: "decayed_rate d r (epoch - min_epoch_for_decay sch) = None" for d r
    using zero [of "epoch - min_epoch_for_decay sch"] by (simp add: Let_def)
  obtain t r rest where "emission_rates sch = (t, r) # rest"
    using assms(1) by (metis list.exhaust prod.exhaust)
  with none assms show ?thesis by (simp add: get_emission_rates_def Let_def)
qed

theorem decay_panics_after_sixteen_epochs_witness:
  "get_emission_rates EmissionSchedule_new 52576 = Panic"
  by (rule decay_panics_after_sixteen_epochs) (simp_all add: EmissionSchedule_new_def)

end
