(* ===== verification/Distribution.thy ===== *)
theory Distribution
  imports Tokenomics Float64
begin

text \<open>
  \<open>crates/bleep-economics/src/distribution.rs\<close>: the six allocation buckets of the token supply, the
  validator emission pool, linear vesting, the split of transaction fees, and the genesis allocation
  from which tokens are drawn.  The lemmas show that no sequence of draws exceeds a ceiling, the
  vested part of a bucket or the supply, and that vesting is monotone and complete.
\<close>

section \<open>Constants\<close>

abbreviation MAX_SUPPLY_MICRO :: u128 where "MAX_SUPPLY_MICRO \<equiv> MAX_TOKEN_SUPPLY"

abbreviation ALLOC_VALIDATOR_REWARDS :: u128 where "ALLOC_VALIDATOR_REWARDS \<equiv> 60000000 * 100000000"
abbreviation ALLOC_ECOSYSTEM_FUND :: u128 where "ALLOC_ECOSYSTEM_FUND \<equiv> 50000000 * 100000000"
abbreviation ALLOC_COMMUNITY_INCENTIVES :: u128 where "ALLOC_COMMUNITY_INCENTIVES \<equiv> 30000000 * 100000000"
abbreviation ALLOC_FOUNDATION_TREASURY :: u128 where "ALLOC_FOUNDATION_TREASURY \<equiv> 30000000 * 100000000"
abbreviation ALLOC_CORE_CONTRIBUTORS :: u128 where "ALLOC_CORE_CONTRIBUTORS \<equiv> 20000000 * 100000000"
abbreviation ALLOC_STRATEGIC_RESERVE :: u128 where "ALLOC_STRATEGIC_RESERVE \<equiv> 10000000 * 100000000"

abbreviation ALLOCATION_TOTAL :: u128 where 
  "ALLOCATION_TOTAL \<equiv> ALLOC_VALIDATOR_REWARDS + ALLOC_ECOSYSTEM_FUND + ALLOC_COMMUNITY_INCENTIVES +
     ALLOC_FOUNDATION_TREASURY + ALLOC_CORE_CONTRIBUTORS + ALLOC_STRATEGIC_RESERVE"

text \<open>The launch unlocks and vesting years (lines 67--80) only name literals.\<close>

abbreviation LAUNCH_VALIDATOR_UNLOCK :: u128 where "LAUNCH_VALIDATOR_UNLOCK \<equiv> 10000000 * 100000000"
abbreviation LAUNCH_COMMUNITY_UNLOCK :: u128 where "LAUNCH_COMMUNITY_UNLOCK \<equiv> 5000000 * 100000000"
abbreviation LAUNCH_ECOSYSTEM_UNLOCK :: u128 where "LAUNCH_ECOSYSTEM_UNLOCK \<equiv> 5000000 * 100000000"
abbreviation LAUNCH_FOUNDATION_UNLOCK :: u128 where "LAUNCH_FOUNDATION_UNLOCK \<equiv> 5000000 * 100000000"

abbreviation INITIAL_CIRCULATING_SUPPLY :: u128 where 
  "INITIAL_CIRCULATING_SUPPLY \<equiv> LAUNCH_VALIDATOR_UNLOCK + LAUNCH_COMMUNITY_UNLOCK + LAUNCH_ECOSYSTEM_UNLOCK + LAUNCH_FOUNDATION_UNLOCK"

abbreviation VESTING_CORE_CONTRIBUTORS_YEARS :: u64 where "VESTING_CORE_CONTRIBUTORS_YEARS \<equiv> 4"
abbreviation VESTING_CLIFF_CORE_YEARS :: u64 where "VESTING_CLIFF_CORE_YEARS \<equiv> 1"
abbreviation VESTING_FOUNDATION_TREASURY_YEARS :: u64 where "VESTING_FOUNDATION_TREASURY_YEARS \<equiv> 6"
abbreviation VESTING_ECOSYSTEM_FUND_YEARS :: u64 where "VESTING_ECOSYSTEM_FUND_YEARS \<equiv> 10"

abbreviation FEE_BURN_BPS :: u32 where "FEE_BURN_BPS \<equiv> 2500"
abbreviation FEE_VALIDATOR_REWARD_BPS :: u32 where "FEE_VALIDATOR_REWARD_BPS \<equiv> 5000"
abbreviation FEE_TREASURY_BPS :: u32 where "FEE_TREASURY_BPS \<equiv> 2500"

abbreviation VALIDATOR_EMISSION_YEAR :: "u8 list" where "VALIDATOR_EMISSION_YEAR \<equiv> [12, 10, 8, 6, 4]"

section \<open>Buckets\<close>

datatype AllocationBucket =
  ValidatorRewards | EcosystemFund | CommunityIncentives | FoundationTreasury | CoreContributors | StrategicReserve

primrec bucket_index :: "AllocationBucket \<Rightarrow> nat" where
  "bucket_index ValidatorRewards = 0"
| "bucket_index EcosystemFund = 1"
| "bucket_index CommunityIncentives = 2"
| "bucket_index FoundationTreasury = 3"
| "bucket_index CoreContributors = 4"
| "bucket_index StrategicReserve = 5"

lemma bucket_index_inj: "bucket_index a = bucket_index b \<longleftrightarrow> a = b"
  by (cases a; cases b) auto

instantiation AllocationBucket :: linorder
begin

definition less_eq_AllocationBucket :: "AllocationBucket \<Rightarrow> AllocationBucket \<Rightarrow> bool" where
  [simp]: "a \<le> b \<longleftrightarrow> bucket_index a \<le> bucket_index b"

definition less_AllocationBucket :: "AllocationBucket \<Rightarrow> AllocationBucket \<Rightarrow> bool" where
  [simp]: "a < b \<longleftrightarrow> bucket_index a < bucket_index b"

instance
  by standard (auto simp: bucket_index_inj [symmetric])

end

datatype VestingPolicy =
    ImmediateOnDistribution
  | EmissionScheduled
  | Linear u64
  | CliffThenLinear u64 u64
  | GovernanceControlled

primrec ceiling_of :: "AllocationBucket \<Rightarrow> u128" where
  "ceiling_of ValidatorRewards = ALLOC_VALIDATOR_REWARDS"
| "ceiling_of EcosystemFund = ALLOC_ECOSYSTEM_FUND"
| "ceiling_of CommunityIncentives = ALLOC_COMMUNITY_INCENTIVES"
| "ceiling_of FoundationTreasury = ALLOC_FOUNDATION_TREASURY"
| "ceiling_of CoreContributors = ALLOC_CORE_CONTRIBUTORS"
| "ceiling_of StrategicReserve = ALLOC_STRATEGIC_RESERVE"

primrec bucket_name :: "AllocationBucket \<Rightarrow> string" where
  "bucket_name ValidatorRewards = ''Validator Rewards''"
| "bucket_name EcosystemFund = ''Ecosystem Development Fund''"
| "bucket_name CommunityIncentives = ''Community Incentives''"
| "bucket_name FoundationTreasury = ''Foundation Treasury''"
| "bucket_name CoreContributors = ''Core Contributors''"
| "bucket_name StrategicReserve = ''Strategic Reserve''"

primrec percent :: "AllocationBucket \<Rightarrow> u8" where
  "percent ValidatorRewards = 30"
| "percent EcosystemFund = 25"
| "percent CommunityIncentives = 15"
| "percent FoundationTreasury = 15"
| "percent CoreContributors = 10"
| "percent StrategicReserve = 5"

primrec vesting_policy :: "AllocationBucket \<Rightarrow> VestingPolicy" where
  "vesting_policy ValidatorRewards = EmissionScheduled"
| "vesting_policy EcosystemFund = Linear VESTING_ECOSYSTEM_FUND_YEARS"
| "vesting_policy CommunityIncentives = ImmediateOnDistribution"
| "vesting_policy FoundationTreasury = Linear VESTING_FOUNDATION_TREASURY_YEARS"
| "vesting_policy CoreContributors =
     CliffThenLinear VESTING_CLIFF_CORE_YEARS (VESTING_CLIFF_CORE_YEARS + VESTING_CORE_CONTRIBUTORS_YEARS)"
| "vesting_policy StrategicReserve = GovernanceControlled"

primrec launch_unlock :: "AllocationBucket \<Rightarrow> u128" where
  "launch_unlock ValidatorRewards = LAUNCH_VALIDATOR_UNLOCK"
| "launch_unlock EcosystemFund = LAUNCH_ECOSYSTEM_UNLOCK"
| "launch_unlock CommunityIncentives = LAUNCH_COMMUNITY_UNLOCK"
| "launch_unlock FoundationTreasury = LAUNCH_FOUNDATION_UNLOCK"
| "launch_unlock CoreContributors = 0"
| "launch_unlock StrategicReserve = 0"

primrec governance_adjustable :: "AllocationBucket \<Rightarrow> bool" where
  "governance_adjustable ValidatorRewards = True"
| "governance_adjustable EcosystemFund = True"
| "governance_adjustable CommunityIncentives = True"
| "governance_adjustable FoundationTreasury = True"
| "governance_adjustable CoreContributors = False"
| "governance_adjustable StrategicReserve = True"

definition all_buckets :: "AllocationBucket list" where
  "all_buckets =
     [ValidatorRewards, EcosystemFund, CommunityIncentives, FoundationTreasury, CoreContributors, StrategicReserve]"

datatype DistributionError =
    AllocationPoolExhausted AllocationBucket u128 u128
  | AllocationCeilingBreached AllocationBucket u128 u128
  | VestingLockup AllocationBucket u128 u128 u128
  | GovernanceApprovalRequired AllocationBucket
  | MaxSupplyBreached u128 u128
  | FeeConfigInvalid

section \<open>Validator emission pool\<close>

record ValidatorEmissionSchedule =
  ves_remaining :: u128
  ves_emitted :: u128

abbreviation ves_new :: ValidatorEmissionSchedule where
  "ves_new \<equiv> \<lparr>ves_remaining = ALLOC_VALIDATOR_REWARDS, ves_emitted = 0\<rparr>"

abbreviation annual_emission_for_year :: "u128 \<Rightarrow> u128" where
  "annual_emission_for_year year \<equiv> (let pct =
        (if year = 0 then VALIDATOR_EMISSION_YEAR ! 0
         else VALIDATOR_EMISSION_YEAR ! min (cast 64 (year - 1)) (length VALIDATOR_EMISSION_YEAR - 1))
      in wrap_mul 128 ALLOC_VALIDATOR_REWARDS pct div 100)"

abbreviation epoch_emission :: "ValidatorEmissionSchedule \<Rightarrow> u128 \<Rightarrow> u128 \<Rightarrow> u128" where
  "epoch_emission v year epochs_per_year \<equiv> (if ves_remaining v = 0 \<or> epochs_per_year = 0 then 0
      else min (annual_emission_for_year year div epochs_per_year) (ves_remaining v))"

definition ves_record_emission ::
  "u128 \<Rightarrow> ValidatorEmissionSchedule \<Rightarrow> ValidatorEmissionSchedule \<times> (DistributionError, unit) outcome" where
  "ves_record_emission amount v =
     (if amount > ves_remaining v then (v, Err (AllocationPoolExhausted ValidatorRewards amount (ves_remaining v)))
      else (v\<lparr>ves_remaining := sat_sub (ves_remaining v) amount, ves_emitted := sat_add 128 (ves_emitted v) amount\<rparr>, Ok ()))"

abbreviation utilization :: "ValidatorEmissionSchedule \<Rightarrow> f64" where
  "utilization v \<equiv> (if ALLOC_VALIDATOR_REWARDS = 0 then 0
      else f64_div (f64_of_nat (ves_emitted v)) (f64_of_nat ALLOC_VALIDATOR_REWARDS))"

section \<open>Linear vesting\<close>

record LinearVestingSchedule =
  lv_bucket :: AllocationBucket
  lv_total :: u128
  lv_unlocked :: u128
  cliff_epochs :: u64
  total_epochs :: u64
  lv_start_epoch :: u64

definition lv_new :: "AllocationBucket \<Rightarrow> u128 \<Rightarrow> u64 \<Rightarrow> u64 \<Rightarrow> u64 \<Rightarrow> LinearVestingSchedule" where
  "lv_new bucket amount cliff tot start =
     \<lparr>lv_bucket = bucket, lv_total = amount, lv_unlocked = 0, cliff_epochs = cliff, total_epochs = tot,
      lv_start_epoch = start\<rparr>"

definition unlocked_at_epoch :: "LinearVestingSchedule \<Rightarrow> u64 \<Rightarrow> u128" where
  "unlocked_at_epoch v epoch =
     (if epoch < lv_start_epoch v then 0
      else
        let elapsed = epoch - lv_start_epoch v in
        if elapsed < cliff_epochs v then 0
        else if total_epochs v = 0 then lv_total v
        else
          let vesting_elapsed = sat_sub elapsed (cliff_epochs v);
              vesting_duration = sat_sub (total_epochs v) (cliff_epochs v) in
          if vesting_duration = 0 then lv_total v
          else min (sat_mul 128 (lv_total v) (min vesting_elapsed vesting_duration) div vesting_duration) (lv_total v))"

abbreviation newly_unlocked :: "LinearVestingSchedule \<Rightarrow> u64 \<Rightarrow> u64 \<Rightarrow> u128" where
  "newly_unlocked v from_epoch to_epoch \<equiv> sat_sub (unlocked_at_epoch v to_epoch) (unlocked_at_epoch v from_epoch)"

abbreviation is_complete :: "LinearVestingSchedule \<Rightarrow> u64 \<Rightarrow> bool" where
  "is_complete v epoch \<equiv> unlocked_at_epoch v epoch \<ge> lv_total v"

section \<open>Fee split\<close>

record FeeDistribution =
  fd_burned :: u128
  fd_validator_reward :: u128
  fd_treasury :: u128
  total_fee :: u128

definition fee_compute :: "u128 \<Rightarrow> FeeDistribution" where
  "fee_compute fee =
     (let burned = wrap_mul 128 fee FEE_BURN_BPS div 10000;
          treasury = wrap_mul 128 fee FEE_TREASURY_BPS div 10000
      in \<lparr>fd_burned = burned, fd_validator_reward = sat_sub (sat_sub fee burned) treasury, fd_treasury = treasury,
          total_fee = fee\<rparr>)"

abbreviation is_consistent :: "FeeDistribution \<Rightarrow> bool" where
  "is_consistent f \<equiv> wrap_add 128 (wrap_add 128 (fd_burned f) (fd_validator_reward f)) (fd_treasury f) = total_fee f"

section \<open>Genesis allocation\<close>

record GenesisAllocation =
  drawn :: "(AllocationBucket, u128) btree_map"
  validator_schedule :: ValidatorEmissionSchedule
  vesting :: "(AllocationBucket, LinearVestingSchedule) btree_map"
  genesis_epoch :: u64
  initial_circulating :: u128

definition GenesisAllocation_new :: "u64 \<Rightarrow> u64 \<Rightarrow> GenesisAllocation" where
  "GenesisAllocation_new ge epy =
     (let v1 = bt_insert EcosystemFund
            (lv_new EcosystemFund ALLOC_ECOSYSTEM_FUND 0 (wrap_mul 64 VESTING_ECOSYSTEM_FUND_YEARS epy) ge) [];
          v2 = bt_insert FoundationTreasury
            (lv_new FoundationTreasury ALLOC_FOUNDATION_TREASURY 0 (wrap_mul 64 VESTING_FOUNDATION_TREASURY_YEARS epy) ge) v1;
          cliff = wrap_mul 64 VESTING_CLIFF_CORE_YEARS epy;
          tot = wrap_mul 64 (wrap_add 64 VESTING_CLIFF_CORE_YEARS VESTING_CORE_CONTRIBUTORS_YEARS) epy;
          v3 = bt_insert CoreContributors (lv_new CoreContributors ALLOC_CORE_CONTRIBUTORS cliff tot ge) v2;
          v4 = bt_insert CommunityIncentives (lv_new CommunityIncentives ALLOC_COMMUNITY_INCENTIVES 0 1 ge) v3;
          v5 = bt_insert StrategicReserve (lv_new StrategicReserve ALLOC_STRATEGIC_RESERVE 0 0 ge) v4
      in \<lparr>drawn = map (\<lambda>b. (b, 0)) all_buckets, validator_schedule = ves_new, vesting = v5, genesis_epoch = ge,
          initial_circulating = INITIAL_CIRCULATING_SUPPLY\<rparr>)"

definition draw ::
  "AllocationBucket \<Rightarrow> u128 \<Rightarrow> u64 \<Rightarrow> u64 \<Rightarrow> bool \<Rightarrow> GenesisAllocation \<Rightarrow> GenesisAllocation \<times> (DistributionError, u128) outcome" where
  "draw bucket amount current_epoch year governance_approved a =
     (if bucket = StrategicReserve \<and> \<not> governance_approved then (a, Err (GovernanceApprovalRequired bucket))
      else
        let ceiling = ceiling_of bucket; drawn_so_far = bt_get_or (drawn a) bucket 0 in
        if sat_add 128 drawn_so_far amount > ceiling then
          (a, Err (AllocationPoolExhausted bucket amount (sat_sub ceiling drawn_so_far)))
        else
          let vested = (case bt_get (vesting a) bucket of Some sched \<Rightarrow> unlocked_at_epoch sched current_epoch | None \<Rightarrow> ceiling);
              available_vested = sat_sub vested drawn_so_far in
          if bucket \<noteq> ValidatorRewards \<and> amount > available_vested then
            (a, Err (VestingLockup bucket amount available_vested vested))
          else
            case (if bucket = ValidatorRewards then ves_record_emission amount (validator_schedule a)
                  else (validator_schedule a, Ok ())) of
              (v, Err e) \<Rightarrow> (a\<lparr>validator_schedule := v\<rparr>, Err e)
            | (v, Panic) \<Rightarrow> (a\<lparr>validator_schedule := v\<rparr>, Panic)
            | (v, Ok _) \<Rightarrow>
                (a\<lparr>validator_schedule := v,
                   drawn := bt_insert bucket (wrap_add 128 (bt_get_or (drawn a) bucket 0) amount) (drawn a)\<rparr>, Ok amount))"

abbreviation remaining :: "GenesisAllocation \<Rightarrow> AllocationBucket \<Rightarrow> u128" where
  "remaining a bucket \<equiv> sat_sub (ceiling_of bucket) (bt_get_or (drawn a) bucket 0)"

definition total_drawn :: "GenesisAllocation \<Rightarrow> u128" where
  "total_drawn a = wrap_sum 128 (bt_values (drawn a))"

definition verify_invariants :: "GenesisAllocation \<Rightarrow> (DistributionError, unit) outcome" where
  "verify_invariants a =
     bind_outcome
       (check_all
          (\<lambda>bucket. let d = bt_get_or (drawn a) bucket 0 in
             if d > ceiling_of bucket then Err (AllocationCeilingBreached bucket d (ceiling_of bucket)) else Ok ())
          all_buckets)
       (\<lambda>_. if total_drawn a > MAX_SUPPLY_MICRO then Err (MaxSupplyBreached (total_drawn a) MAX_SUPPLY_MICRO)
            else if wrap_add 32 (wrap_add 32 FEE_BURN_BPS FEE_VALIDATOR_REWARD_BPS) FEE_TREASURY_BPS \<noteq> 10000
            then Err FeeConfigInvalid
            else Ok ())"

section \<open>Reports\<close>

record BucketSnapshot =
  bs_bucket :: AllocationBucket
  bs_name :: string
  ceiling_micro :: u128
  drawn_micro :: u128
  remaining_micro :: u128
  percent_of_supply :: u8
  bs_governance_adjustable :: bool
  bs_vesting :: VestingPolicy
  launch_unlock_micro :: u128

record DistributionSnapshot =
  buckets :: "BucketSnapshot list"
  total_allocated_micro :: u128
  total_drawn_micro :: u128
  dsn_initial_circulating :: u128
  validator_pool_remaining :: u128
  fee_burn_bps :: u32
  fee_validator_bps :: u32
  fee_treasury_bps :: u32

definition snapshot :: "GenesisAllocation \<Rightarrow> DistributionSnapshot" where
  "snapshot a =
     \<lparr>buckets =
        map (\<lambda>b.
          \<lparr>bs_bucket = b, bs_name = bucket_name b, ceiling_micro = ceiling_of b, drawn_micro = bt_get_or (drawn a) b 0,
           remaining_micro = remaining a b, percent_of_supply = percent b, bs_governance_adjustable = governance_adjustable b,
           bs_vesting = vesting_policy b, launch_unlock_micro = launch_unlock b\<rparr>) all_buckets,
      total_allocated_micro = ALLOCATION_TOTAL, total_drawn_micro = total_drawn a,
      dsn_initial_circulating = INITIAL_CIRCULATING_SUPPLY,
      validator_pool_remaining = ves_remaining (validator_schedule a),
      fee_burn_bps = FEE_BURN_BPS, fee_validator_bps = FEE_VALIDATOR_REWARD_BPS, fee_treasury_bps = FEE_TREASURY_BPS\<rparr>"

record SupplyDynamics =
  sd_epoch :: u64
  sd_emitted :: u128
  sd_burned :: u128
  net_change :: int
  is_deflationary :: bool

abbreviation dynamics_compute :: "u64 \<Rightarrow> u128 \<Rightarrow> u128 \<Rightarrow> SupplyDynamics" where
  "dynamics_compute epoch emitted burned \<equiv> \<lparr>sd_epoch = epoch, sd_emitted = emitted, sd_burned = burned,
      net_change = wrap_i128 (as_i128 emitted - as_i128 burned), is_deflationary = burned > emitted\<rparr>"

section \<open>Vesting\<close>

lemma unlocked_le: "unlocked_at_epoch v e \<le> lv_total v"
  by (simp add: unlocked_at_epoch_def Let_def)

lemma unlocked_mono:
  assumes "e \<le> e'"
  shows "unlocked_at_epoch v e \<le> unlocked_at_epoch v e'"
proof -
  let ?d = "total_epochs v - cliff_epochs v"
  have m: "min (e - lv_start_epoch v - cliff_epochs v) ?d \<le> min (e' - lv_start_epoch v - cliff_epochs v) ?d"
    using assms by (intro min.mono diff_le_mono order_refl)
  have "sat_mul 128 (lv_total v) (min (e - lv_start_epoch v - cliff_epochs v) ?d) div ?d \<le>
      sat_mul 128 (lv_total v) (min (e' - lv_start_epoch v - cliff_epochs v) ?d) div ?d"
    by (intro div_le_mono sat_mul_mono order_refl m)
  moreover have "e - lv_start_epoch v \<le> e' - lv_start_epoch v" using assms by (rule diff_le_mono)
  ultimately show ?thesis using assms unfolding unlocked_at_epoch_def Let_def sat_sub_def by (auto simp: min_le_iff_disj)
qed

lemma unlocked_end:
  assumes "lv_total v * total_epochs v < 2 ^ 128" "lv_start_epoch v + max (cliff_epochs v) (total_epochs v) \<le> e"
  shows "unlocked_at_epoch v e = lv_total v"
proof -
  let ?d = "total_epochs v - cliff_epochs v"
  have "lv_total v * ?d < 2 ^ 128" using assms(1) by (meson diff_le_self le_less_trans mult_le_mono2)
  then have "sat_mul 128 (lv_total v) ?d = lv_total v * ?d" by (rule sat_mul_exact)
  moreover have "min (e - lv_start_epoch v - cliff_epochs v) ?d = ?d" using assms(2) by (intro min_absorb2) linarith
  moreover have "\<not> e < lv_start_epoch v" "\<not> e - lv_start_epoch v < cliff_epochs v" using assms(2) by linarith+
  ultimately show ?thesis by (simp add: unlocked_at_epoch_def Let_def)
qed

section \<open>Draws\<close>

record draw_call =
  dc_bucket :: AllocationBucket
  dc_amount :: u128
  dc_epoch :: u64
  dc_year :: u64
  dc_approved :: bool

definition draw_step :: "draw_call \<Rightarrow> GenesisAllocation \<Rightarrow> GenesisAllocation" where
  "draw_step d a = fst (draw (dc_bucket d) (dc_amount d) (dc_epoch d) (dc_year d) (dc_approved d) a)"

text \<open>The vested part of a bucket under the schedules \<open>vs\<close>; validator rewards are not vested but emitted.\<close>

definition vested_part :: "(AllocationBucket, LinearVestingSchedule) btree_map \<Rightarrow> AllocationBucket \<Rightarrow> u64 \<Rightarrow> u128" where
  "vested_part vs b e = (case bt_get vs b of Some v \<Rightarrow> unlocked_at_epoch v e | None \<Rightarrow> ceiling_of b)"

definition draws_ok :: "(AllocationBucket, LinearVestingSchedule) btree_map \<Rightarrow> u64 \<Rightarrow> bool \<Rightarrow> GenesisAllocation \<Rightarrow> bool" where
  "draws_ok vs E approved a \<longleftrightarrow>
     vesting a = vs \<and> bt_keys (drawn a) = all_buckets \<and>
     (\<forall>b. bt_get_or (drawn a) b 0 \<le> ceiling_of b) \<and>
     (\<forall>b. b \<noteq> ValidatorRewards \<longrightarrow> bt_get_or (drawn a) b 0 \<le> vested_part vs b E) \<and>
     ves_emitted (validator_schedule a) = bt_get_or (drawn a) ValidatorRewards 0 \<and>
     ves_remaining (validator_schedule a) + ves_emitted (validator_schedule a) = ALLOC_VALIDATOR_REWARDS \<and>
     (\<not> approved \<longrightarrow> bt_get_or (drawn a) StrategicReserve 0 = 0)"

lemma ceiling_small: "ceiling_of b < 2 ^ 127"
  by (cases b) (simp_all add: const_defs)

lemma buckets_wf: "bt_keys m = all_buckets \<Longrightarrow> bt_wf m"
  by (simp add: bt_wf_def all_buckets_def)

lemma all_buckets_set: "b \<in> set all_buckets"
  by (cases b) (simp_all add: all_buckets_def)

lemma vested_mono: "e \<le> e' \<Longrightarrow> vested_part vs b e \<le> vested_part vs b e'"
  by (auto simp: vested_part_def unlocked_mono split: option.splits)

text \<open>A draw fails and changes nothing, or it is within ceiling, vesting and pool and is recorded.\<close>

lemma draw_cases:
  assumes "draws_ok vs E ap a"
  shows "(\<exists>err. draw b n e y g a = (a, Err err)) \<or>
    (draw b n e y g a =
       (a\<lparr>validator_schedule := (if b = ValidatorRewards then
            \<lparr>ves_remaining = ves_remaining (validator_schedule a) - n, ves_emitted = ves_emitted (validator_schedule a) + n\<rparr>
            else validator_schedule a),
          drawn := bt_insert b (bt_get_or (drawn a) b 0 + n) (drawn a)\<rparr>, Ok n) \<and>
     bt_get_or (drawn a) b 0 + n \<le> ceiling_of b \<and> (b = StrategicReserve \<longrightarrow> g) \<and>
     (b \<noteq> ValidatorRewards \<longrightarrow> bt_get_or (drawn a) b 0 + n \<le> max (bt_get_or (drawn a) b 0) (vested_part vs b e)) \<and>
     (b = ValidatorRewards \<longrightarrow> n \<le> ves_remaining (validator_schedule a)))"
proof -
  let ?d = "bt_get_or (drawn a) b 0" and ?v = "validator_schedule a"
  have vs: "vesting a = vs" and pool: "ves_emitted ?v + ves_remaining ?v = ALLOC_VALIDATOR_REWARDS"
    using assms by (simp_all add: draws_ok_def)
  have exact: "sat_add 128 ?d n \<le> ceiling_of b \<longleftrightarrow> ?d + n \<le> ceiling_of b"
    using ceiling_small [of b] by (auto simp: sat_add_def min_le_iff_disj)
  have part: "(case bt_get (vesting a) b of Some v \<Rightarrow> unlocked_at_epoch v e | None \<Rightarrow> ceiling_of b) = vested_part vs b e"
    by (simp add: vested_part_def vs)
  have emit: "ves_emitted ?v + n < 2 ^ 128" if "n \<le> ves_remaining ?v"
    using that pool ceiling_small [of ValidatorRewards] by simp
  consider "b = StrategicReserve \<and> \<not> g" | "\<not> ?d + n \<le> ceiling_of b" | "b \<noteq> ValidatorRewards \<and> vested_part vs b e - ?d < n"
    | "b = ValidatorRewards \<and> \<not> n \<le> ves_remaining ?v"
    | (fine) "b = StrategicReserve \<longrightarrow> g" "?d + n \<le> ceiling_of b" "b \<noteq> ValidatorRewards \<longrightarrow> n \<le> vested_part vs b e - ?d"
        "b = ValidatorRewards \<longrightarrow> n \<le> ves_remaining ?v" by linarith
  then show ?thesis
  proof cases
    case fine
    have "wrap_add 128 ?d n = ?d + n" using fine(2) ceiling_small [of b] by (intro wrap_add_exact) simp
    then show ?thesis using fine exact emit
      by (cases "b = ValidatorRewards") (auto simp: draw_def Let_def part not_less ves_record_emission_def sat_add_exact)
  next
    case 2
    then have "ceiling_of b < sat_add 128 ?d n" using exact by linarith
    then show ?thesis by (cases "b = StrategicReserve \<and> \<not> g") (simp_all add: draw_def Let_def)
  qed (simp_all add: draw_def Let_def part ves_record_emission_def)
qed

lemma bt_keys_insert: "bt_wf m \<Longrightarrow> bt_get m k \<noteq> None \<Longrightarrow> bt_keys (bt_insert k v m) = bt_keys m"
proof (induction m)
  case (Cons p m)
  obtain k' v' where p: "p = (k', v')" by force
  have wf: "bt_wf m" and above: "\<forall>y\<in>set m. k' < fst y" using Cons.prems p by (auto simp: bt_wf_def)
  have "k' < k" if "k \<noteq> k'"
    using Cons.prems(2) p that above by (fastforce dest: map_of_SomeD)
  then show ?case using Cons.IH [OF wf] Cons.prems(2) p by auto
qed simp

lemma draws_ok_step:
  assumes "draws_ok vs E ap a" "dc_epoch d \<le> E" "dc_approved d \<longrightarrow> ap"
  shows "draws_ok vs E ap (draw_step d a)"
proof -
  let ?b = "dc_bucket d" and ?n = "dc_amount d"
  have keys: "bt_keys (drawn a) = all_buckets" using assms(1) by (simp add: draws_ok_def)
  have "bt_get (drawn a) ?b \<noteq> None" using keys all_buckets_set [of ?b] by (auto simp: map_of_eq_None_iff simp flip: set_map)
  then have ins: "bt_keys (bt_insert ?b x (drawn a)) = all_buckets" for x
    using bt_keys_insert [OF buckets_wf [OF keys], of ?b x] keys by simp
  have get: "bt_get_or (bt_insert ?b x (drawn a)) b 0 = (if b = ?b then x else bt_get_or (drawn a) b 0)" for b x
    by (simp add: bt_get_or_def)
  have v: "vested_part vs ?b (dc_epoch d) \<le> vested_part vs ?b E" by (rule vested_mono [OF assms(2)])
  show ?thesis
    using draw_cases [OF assms(1), of ?b ?n "dc_epoch d" "dc_year d" "dc_approved d"]
  proof (elim disjE exE conjE)
    assume ok: "bt_get_or (drawn a) ?b 0 + ?n \<le> ceiling_of ?b" "?b = StrategicReserve \<longrightarrow> dc_approved d"
        "?b \<noteq> ValidatorRewards \<longrightarrow> bt_get_or (drawn a) ?b 0 + ?n \<le> max (bt_get_or (drawn a) ?b 0) (vested_part vs ?b (dc_epoch d))"
        "?b = ValidatorRewards \<longrightarrow> ?n \<le> ves_remaining (validator_schedule a)"
      and eq: "draw ?b ?n (dc_epoch d) (dc_year d) (dc_approved d) a =
        (a\<lparr>validator_schedule := (if ?b = ValidatorRewards then
            \<lparr>ves_remaining = ves_remaining (validator_schedule a) - ?n, ves_emitted = ves_emitted (validator_schedule a) + ?n\<rparr>
            else validator_schedule a),
          drawn := bt_insert ?b (bt_get_or (drawn a) ?b 0 + ?n) (drawn a)\<rparr>, Ok ?n)"
    have "?b \<noteq> ValidatorRewards \<longrightarrow> bt_get_or (drawn a) ?b 0 + ?n \<le> vested_part vs ?b E"
      using ok(3) v assms(1) by (auto simp: draws_ok_def max_def split: if_splits)
    then show ?thesis using assms ok unfolding draw_step_def eq draws_ok_def by (auto simp: ins get)
  qed (use assms(1) in \<open>simp add: draw_step_def\<close>)
qed

interpretation draws: machine draw_step "draws_ok vs E ap" "\<lambda>d. dc_epoch d \<le> E \<and> (dc_approved d \<longrightarrow> ap)" for vs E ap
  by unfold_locales (rule draws_ok_step; simp)

lemma draws_ok_new: "draws_ok (vesting (GenesisAllocation_new ge epy)) E ap (GenesisAllocation_new ge epy)"
proof -
  have "bt_get_or (drawn (GenesisAllocation_new ge epy)) b 0 = 0" for b
    by (cases b) (simp_all add: GenesisAllocation_new_def Let_def all_buckets_def bt_get_or_def)
  then show ?thesis by (simp add: draws_ok_def GenesisAllocation_new_def Let_def comp_def)
qed

lemma values_le:
  fixes f :: "'k \<Rightarrow> nat"
  shows "(\<forall>(k, v) \<in> set m. v \<le> f k) \<Longrightarrow> sum_list (bt_values m) \<le> sum_list (map f (bt_keys m))"
  by (induction m) (auto simp: comp_def intro!: add_mono)

lemma drawn_total:
  assumes "draws_ok vs E ap a"
  shows "total_drawn a \<le> MAX_SUPPLY_MICRO" "verify_invariants a = Ok ()"
proof -
  have keys: "bt_keys (drawn a) = all_buckets" and le: "bt_get_or (drawn a) b 0 \<le> ceiling_of b" for b
    using assms by (simp_all add: draws_ok_def)
  have "\<forall>(k, v) \<in> set (drawn a). v \<le> ceiling_of k"
  proof (clarify)
    fix k v assume "(k, v) \<in> set (drawn a)"
    then have "bt_get (drawn a) k = Some v" using bt_get_in [OF buckets_wf [OF keys]] by blast
    then show "v \<le> ceiling_of k" using le [of k] by (simp add: bt_get_or_def)
  qed
  from values_le [OF this] have "sum_list (bt_values (drawn a)) \<le> MAX_SUPPLY_MICRO"
    unfolding keys by (simp add: all_buckets_def const_defs)
  moreover have "wrap_sum 128 (bt_values (drawn a)) \<le> sum_list (bt_values (drawn a))" by (simp add: wrap_sum_eq)
  ultimately show drawn: "total_drawn a \<le> MAX_SUPPLY_MICRO" by (simp add: total_drawn_def)
  have "check_all (\<lambda>bucket. let d = bt_get_or (drawn a) bucket 0 in
      if d > ceiling_of bucket then Err (AllocationCeilingBreached bucket d (ceiling_of bucket)) else Ok ()) all_buckets = Ok ()"
    using le by (simp add: check_all_Ok Let_def not_less)
  then show "verify_invariants a = Ok ()"
    using drawn by (simp add: verify_invariants_def not_less wrap_add_def const_defs)
qed

section \<open>Fees\<close>

text \<open>The three parts always add up; without overflow of the products a quarter is burned, a quarter goes to
  the treasury, and the validators get the rest, at least half.\<close>

lemma fee_split:
  assumes "fee < 2 ^ 128"
  shows "fd_burned (fee_compute fee) + fd_validator_reward (fee_compute fee) + fd_treasury (fee_compute fee) = fee"
    "is_consistent (fee_compute fee)"
    "fee * 2500 < 2 ^ 128 \<Longrightarrow> fd_burned (fee_compute fee) = fee div 4 \<and> fd_treasury (fee_compute fee) = fee div 4"
proof -
  have "wrap_mul 128 fee 2500 \<le> fee * 2500" by (simp add: wrap_mul_def)
  then have "wrap_mul 128 fee 2500 div 10000 \<le> fee * 2500 div 10000" by (rule div_le_mono)
  then have quarter: "wrap_mul 128 fee 2500 div 10000 \<le> fee div 4" by simp
  then show parts: "fd_burned (fee_compute fee) + fd_validator_reward (fee_compute fee) + fd_treasury (fee_compute fee) = fee"
    by (simp add: fee_compute_def Let_def)
  then show "is_consistent (fee_compute fee)"
    using assms by (simp add: wrap_add_def mod_add_left_eq) (simp add: fee_compute_def Let_def)
  show "fd_burned (fee_compute fee) = fee div 4 \<and> fd_treasury (fee_compute fee) = fee div 4" if "fee * 2500 < 2 ^ 128"
    using wrap_mul_exact [OF that] by (simp add: fee_compute_def Let_def)
qed

text \<open>The sign of the net change says which way the supply moves, for all amounts below half the range.\<close>

lemma dynamics_sign:
  assumes "emitted < 2 ^ 127" "burned < 2 ^ 127"
  shows "net_change (dynamics_compute ep emitted burned) = int emitted - int burned"
    "is_deflationary (dynamics_compute ep emitted burned) \<longleftrightarrow> net_change (dynamics_compute ep emitted burned) < 0"
proof -
  have "- (2 ^ 127) \<le> int emitted - int burned" "int emitted - int burned < 2 ^ 127" using assms by simp_all
  then have "wrap_i128 (int emitted - int burned) = int emitted - int burned"
    unfolding wrap_i128_def by (subst mod_pos_pos_trivial) simp_all
  then show "net_change (dynamics_compute ep emitted burned) = int emitted - int burned"
    "is_deflationary (dynamics_compute ep emitted burned) \<longleftrightarrow> net_change (dynamics_compute ep emitted burned) < 0"
    using assms by (simp_all add: as_i128_def)
qed

text \<open>The launch unlocks of the foundation and the ecosystem fund cannot be drawn at launch: linear vesting
  starts from zero and the launch amounts are not part of it.\<close>

lemma launch_unlock_not_drawable:
  assumes "0 < epy" "epy < 2 ^ 32"
  shows "draw FoundationTreasury (launch_unlock FoundationTreasury) ge 0 g (GenesisAllocation_new ge epy) =
    (GenesisAllocation_new ge epy, Err (VestingLockup FoundationTreasury (launch_unlock FoundationTreasury) 0 0))"
  using assms
  by (simp add: draw_def GenesisAllocation_new_def Let_def all_buckets_def bt_get_or_def const_defs sat_add_def
      unlocked_at_epoch_def lv_new_def sat_mul_def wrap_mul_def)

section \<open>Properties\<close>

text \<open>C17: whatever draws are made from a new allocation, with epochs up to \<open>E\<close> in any order, no bucket exceeds
  its ceiling or what has vested at \<open>E\<close>, the total stays within the supply, the validator pool is exactly
  what it has not emitted, the strategic reserve is untouched without an approved draw, and the runtime
  invariant check passes.\<close>

theorem allocation_draws_bounded:
  assumes "list_all (\<lambda>d. dc_epoch d \<le> E) ds" and a: "a = fold draw_step ds (GenesisAllocation_new ge epy)"
  shows "verify_invariants a = Ok () \<and> total_drawn a \<le> MAX_SUPPLY_MICRO \<and>
    (\<forall>b. bt_get_or (drawn a) b 0 \<le> ceiling_of b \<and>
       (b \<noteq> ValidatorRewards \<longrightarrow> bt_get_or (drawn a) b 0 \<le> vested_part (vesting (GenesisAllocation_new ge epy)) b E)) \<and>
    bt_get_or (drawn a) ValidatorRewards 0 + ves_remaining (validator_schedule a) = ALLOC_VALIDATOR_REWARDS \<and>
    (list_all (\<lambda>d. \<not> dc_approved d) ds \<longrightarrow> bt_get_or (drawn a) StrategicReserve 0 = 0)"
proof -
  have ok: "draws_ok (vesting (GenesisAllocation_new ge epy)) E ap a" if "\<forall>d \<in> set ds. dc_approved d \<longrightarrow> ap" for ap
    unfolding a by (rule draws.run_inv [OF draws_ok_new]) (use assms(1) that in \<open>auto simp: list_all_iff\<close>)
  have all: "draws_ok (vesting (GenesisAllocation_new ge epy)) E True a" by (rule ok) simp
  moreover have "draws_ok (vesting (GenesisAllocation_new ge epy)) E False a" if "list_all (\<lambda>d. \<not> dc_approved d) ds"
    using that by (intro ok) (simp add: list_all_iff)
  ultimately show ?thesis using drawn_total [OF all] by (auto simp: draws_ok_def)
qed

theorem allocation_draws_bounded_witness:
  "let a = fold draw_step [\<lparr>dc_bucket = EcosystemFund, dc_amount = 700, dc_epoch = 40, dc_year = 1, dc_approved = False\<rparr>]
       (GenesisAllocation_new 0 10) in
   verify_invariants a = Ok () \<and> bt_get_or (drawn a) EcosystemFund 0 = 700 \<and> bt_get_or (drawn a) StrategicReserve 0 = 0"
proof -
  let ?ds = "[\<lparr>dc_bucket = EcosystemFund, dc_amount = 700, dc_epoch = 40, dc_year = 1, dc_approved = False\<rparr>]"
  have "bt_get_or (drawn (fold draw_step ?ds (GenesisAllocation_new 0 10))) EcosystemFund 0 = 700"
    by (simp add: draw_step_def draw_def GenesisAllocation_new_def Let_def all_buckets_def bt_get_or_def const_defs sat_add_def
        unlocked_at_epoch_def lv_new_def sat_mul_def wrap_mul_def wrap_add_def)
  then show ?thesis using allocation_draws_bounded [of 40 ?ds _ 0 10, OF _ refl] by (simp add: Let_def)
qed

end
