(* ===== verification/FeeMarket.thy ===== *)
theory FeeMarket
  imports BTree Float64
begin

text \<open>
  \<open>crates/bleep-economics/src/fee_market.rs\<close>: the base fee that follows the load, shard congestion and the
  fee of a transaction.  \<open>f64::powf\<close> is not specified to the last bit, so the congestion multiplier takes it
  as the argument \<open>powf\<close>.  The lemmas show that the base fee never leaves its bounds and how far and in
  which direction one update moves it.
\<close>

definition MIN_BASE_FEE :: u128 where [const_defs]: "MIN_BASE_FEE = 1000"
definition MAX_BASE_FEE :: u128 where [const_defs]: "MAX_BASE_FEE = 10000000000"

datatype TransactionType = Transfer | SmartContract | Governance | ShardHealing | CrossShard

primrec tx_type_index :: "TransactionType \<Rightarrow> nat" where
  "tx_type_index Transfer = 0"
| "tx_type_index SmartContract = 1"
| "tx_type_index Governance = 2"
| "tx_type_index ShardHealing = 3"
| "tx_type_index CrossShard = 4"

lemma tx_type_index_inj: "tx_type_index a = tx_type_index b \<longleftrightarrow> a = b"
  by (cases a; cases b) auto

instantiation TransactionType :: linorder
begin

definition less_eq_TransactionType :: "TransactionType \<Rightarrow> TransactionType \<Rightarrow> bool" where
  [simp]: "a \<le> b \<longleftrightarrow> tx_type_index a \<le> tx_type_index b"

definition less_TransactionType :: "TransactionType \<Rightarrow> TransactionType \<Rightarrow> bool" where
  [simp]: "a < b \<longleftrightarrow> tx_type_index a < tx_type_index b"

instance
  by standard (auto simp: tx_type_index_inj [symmetric])

end

datatype FeeMarketError =
    InvalidCongestion
  | BaseFeeToolow
  | BaseFeeTooHigh
  | InvalidBaseFeeParams
  | ShardNotFound u32
  | UnknownTransactionType
  | FeeEpochNotFound u64

record ResourceUsage =
  compute_units :: u32
  storage_units :: u32
  bandwidth_bytes :: u32
  memory_bytes :: u32

abbreviation total_units :: "ResourceUsage \<Rightarrow> u64" where
  "total_units r \<equiv> wrap_add 64 (wrap_add 64 (wrap_add 64 (compute_units r) (storage_units r)) (bandwidth_bytes r div 1024))
       (memory_bytes r div 1024)"

record ShardCongestion =
  sc_shard_id :: u32
  utilization_bps :: u16
  pending_txns :: u32
  avg_tx_size_bytes :: u32

abbreviation congestion_validate :: "ShardCongestion \<Rightarrow> (FeeMarketError, unit) outcome" where
  "congestion_validate s \<equiv> (if utilization_bps s > 10000 then Err InvalidCongestion else Ok ())"

definition congestion_multiplier :: "(f64 \<Rightarrow> f64 \<Rightarrow> f64) \<Rightarrow> ShardCongestion \<Rightarrow> u64" where
  "congestion_multiplier powf s =
     (let util = utilization_bps s in
      if util < 5000 then 1000
      else
        let excess = util - 5000; exponent = f64_div (f64_of_nat excess) 2500 in
        f64_to_uint 64 (f64_mul (powf 10 exponent) 1000))"

record BaseFeeParams =
  current_base_fee :: u128
  max_increase_bps :: u16
  max_decrease_bps :: u16
  target_utilization_bps :: u16
  elasticity_multiplier :: u16

definition BaseFeeParams_new :: BaseFeeParams where
  "BaseFeeParams_new =
     \<lparr>current_base_fee = MIN_BASE_FEE, max_increase_bps = 1250, max_decrease_bps = 1000,
      target_utilization_bps = 5000, elasticity_multiplier = 2\<rparr>"

definition params_validate :: "BaseFeeParams \<Rightarrow> (FeeMarketError, unit) outcome" where
  "params_validate p =
     (if current_base_fee p < MIN_BASE_FEE then Err BaseFeeToolow
      else if current_base_fee p > MAX_BASE_FEE then Err BaseFeeTooHigh
      else if target_utilization_bps p > 10000 then Err InvalidBaseFeeParams
      else Ok ())"

record FeeMarket =
  base_fee_params :: BaseFeeParams
  resource_costs :: "(TransactionType, u64) btree_map"
  shard_congestion :: "(u32, ShardCongestion) btree_map"
  fee_history :: "(u64, u128) btree_map"
  tx_counts :: "(u64 \<times> u32, u32) btree_map"

definition fm_genesis :: FeeMarket where
  "fm_genesis =
     (let c1 = bt_insert Transfer 21000 []; c2 = bt_insert SmartContract 100000 c1; c3 = bt_insert Governance 50000 c2;
          c4 = bt_insert ShardHealing 10000 c3; c5 = bt_insert CrossShard 75000 c4
      in \<lparr>base_fee_params = BaseFeeParams_new, resource_costs = c5, shard_congestion = [], fee_history = [], tx_counts = []\<rparr>)"

definition calculate_fee ::
  "(f64 \<Rightarrow> f64 \<Rightarrow> f64) \<Rightarrow> FeeMarket \<Rightarrow> TransactionType \<Rightarrow> ResourceUsage \<Rightarrow> u32 \<Rightarrow> (FeeMarketError, u128) outcome" where
  "calculate_fee powf m tx_type resource_usage shard_id =
     bind_outcome (ok_or (ShardNotFound shard_id) (bt_get (shard_congestion m) shard_id)) (\<lambda>congestion.
     bind_outcome (congestion_validate congestion) (\<lambda>_.
     let base_fee = current_base_fee (base_fee_params m) in
     bind_outcome (ok_or UnknownTransactionType (bt_get (resource_costs m) tx_type)) (\<lambda>type_cost.
     let cong_mult = congestion_multiplier powf congestion;
         fee = sat_mul 64 (sat_mul 64 (sat_mul 64 (cast 64 base_fee) type_cost) (total_units resource_usage)) cong_mult div 1000000
     in Ok fee)))"

definition update_base_fee :: "u64 \<Rightarrow> u16 \<Rightarrow> FeeMarket \<Rightarrow> FeeMarket \<times> (FeeMarketError, u128) outcome" where
  "update_base_fee epoch average_utilization_bps m =
     (if average_utilization_bps > 10000 then (m, Err InvalidCongestion)
      else
        let p = base_fee_params m; current = current_base_fee p; target = target_utilization_bps p;
            actual = average_utilization_bps in
        if target = 0 then (m, Panic)
        else
          let new_fee =
            (if actual > target then
               let increase_bps = min (wrap_mul 64 (max_increase_bps p) (actual - target) div target) (max_increase_bps p) in
               wrap_mul 64 (cast 64 current) (wrap_add 64 10000 increase_bps) div 10000
             else
               let decrease_bps = min (wrap_mul 64 (max_decrease_bps p) (target - actual) div target) (max_decrease_bps p) in
               wrap_mul 64 (cast 64 current) (wrap_sub 64 10000 decrease_bps) div 10000);
              bounded_fee = max MIN_BASE_FEE (min new_fee MAX_BASE_FEE)
          in (m\<lparr>base_fee_params := p\<lparr>current_base_fee := bounded_fee\<rparr>,
               fee_history := bt_insert epoch bounded_fee (fee_history m)\<rparr>, Ok bounded_fee))"

definition record_shard_congestion :: "ShardCongestion \<Rightarrow> FeeMarket \<Rightarrow> FeeMarket \<times> (FeeMarketError, unit) outcome" where
  "record_shard_congestion s m =
     (case congestion_validate s of
        Ok _ \<Rightarrow> (m\<lparr>shard_congestion := bt_insert (sc_shard_id s) s (shard_congestion m)\<rparr>, Ok ())
      | Err e \<Rightarrow> (m, Err e)
      | Panic \<Rightarrow> (m, Panic))"

definition record_tx_count :: "u64 \<Rightarrow> u32 \<Rightarrow> u32 \<Rightarrow> FeeMarket \<Rightarrow> FeeMarket" where
  "record_tx_count epoch shard_id count m = m\<lparr>tx_counts := bt_insert (epoch, shard_id) count (tx_counts m)\<rparr>"

record FeeStats =
  fs_epoch :: u64
  fs_base_fee :: u128
  total_transactions :: u32

definition get_epoch_stats :: "FeeMarket \<Rightarrow> u64 \<Rightarrow> (FeeMarketError, FeeStats) outcome" where
  "get_epoch_stats m epoch =
     bind_outcome (ok_or (FeeEpochNotFound epoch) (bt_get (fee_history m) epoch)) (\<lambda>base_fee.
     let total_txns = wrap_sum 32 (map snd (filter (\<lambda>((e, s), n). e = epoch) (tx_counts m)))
     in Ok \<lparr>fs_epoch = epoch, fs_base_fee = base_fee, total_transactions = total_txns\<rparr>)"

section \<open>The base fee\<close>

definition market_ok :: "FeeMarket \<Rightarrow> bool" where
  "market_ok m \<longleftrightarrow>
     (\<exists>f. MIN_BASE_FEE \<le> f \<and> f \<le> MAX_BASE_FEE \<and> base_fee_params m = BaseFeeParams_new\<lparr>current_base_fee := f\<rparr>) \<and>
     (\<forall>ep x. bt_get (fee_history m) ep = Some x \<longrightarrow> MIN_BASE_FEE \<le> x \<and> x \<le> MAX_BASE_FEE)"

lemma market_ok_genesis: "market_ok fm_genesis"
  by (simp add: market_ok_def fm_genesis_def Let_def BaseFeeParams_new_def const_defs)

text \<open>One update, with the parameters of the code: the new fee in exact arithmetic.\<close>

lemma update_exact:
  assumes "market_ok m" "util \<le> 10000"
  shows "update_base_fee ep util m =
    (let f = current_base_fee (base_fee_params m);
         g = (if util > 5000 then f * (10000 + min (1250 * (util - 5000) div 5000) 1250) div 10000
              else f * (10000 - min (1000 * (5000 - util) div 5000) 1000) div 10000);
         b = max MIN_BASE_FEE (min g MAX_BASE_FEE)
     in (m\<lparr>base_fee_params := BaseFeeParams_new\<lparr>current_base_fee := b\<rparr>, fee_history := bt_insert ep b (fee_history m)\<rparr>, Ok b))"
proof -
  obtain f where f: "MIN_BASE_FEE \<le> f" "f \<le> MAX_BASE_FEE" "base_fee_params m = BaseFeeParams_new\<lparr>current_base_fee := f\<rparr>"
    using assms(1) by (auto simp: market_ok_def)
  have small: "f * k < 2 ^ 64" if "k \<le> 11250" for k
  proof -
    have "f * k \<le> MAX_BASE_FEE * 11250" using f(2) that by (rule mult_le_mono)
    then show ?thesis by (simp add: MAX_BASE_FEE_def)
  qed
  have c: "cast 64 f = f" using f(2) by (simp add: cast_def MAX_BASE_FEE_def)
  have up: "wrap_mul 64 f (wrap_add 64 10000 (min k 1250)) = f * (10000 + min k 1250)" for k
    using small [of "10000 + min k 1250"] by (simp add: wrap_add_def wrap_mul_exact)
  have down: "wrap_mul 64 f (wrap_sub 64 10000 (min k 1000)) = f * (10000 - min k 1000)" for k
  proof -
    have "min k 1000 \<le> 10000" by simp
    then have "wrap_sub 64 10000 (min k 1000) = 10000 - min k 1000" by (simp add: wrap_sub_exact)
    then show ?thesis using small [of "10000 - min k 1000"] by (simp add: wrap_mul_exact)
  qed
  have bps: "wrap_mul 64 1250 (util - 5000) = 1250 * (util - 5000)" "wrap_mul 64 1000 (5000 - util) = 1000 * (5000 - util)"
    using assms(2) by (simp_all add: wrap_mul_def)
  have p: "\<not> 10000 < util" "(5000 :: nat) \<noteq> 0" using assms(2) by simp_all
  show ?thesis
    unfolding update_base_fee_def Let_def f(3) BaseFeeParams_new_def
    by (simp only: BaseFeeParams.simps c up down bps p if_False)
qed

datatype fm_op = FmUpdate u64 u16 | FmCongestion ShardCongestion | FmCount u64 u32 u32

primrec fm_step :: "fm_op \<Rightarrow> FeeMarket \<Rightarrow> FeeMarket" where
  "fm_step (FmUpdate ep util) m = fst (update_base_fee ep util m)"
| "fm_step (FmCongestion s) m = fst (record_shard_congestion s m)"
| "fm_step (FmCount ep s n) m = record_tx_count ep s n m"

lemma market_ok_frame:
  "market_ok m \<Longrightarrow> base_fee_params m' = base_fee_params m \<Longrightarrow> fee_history m' = fee_history m \<Longrightarrow> market_ok m'"
  by (simp add: market_ok_def)

lemma market_ok_update:
  assumes "market_ok m"
  shows "market_ok (fst (update_base_fee ep util m))"
proof (cases "util \<le> 10000")
  case True
  define b where "b = max MIN_BASE_FEE (min
      (if util > 5000 then current_base_fee (base_fee_params m) * (10000 + min (1250 * (util - 5000) div 5000) 1250) div 10000
       else current_base_fee (base_fee_params m) * (10000 - min (1000 * (5000 - util) div 5000) 1000) div 10000) MAX_BASE_FEE)"
  have "fst (update_base_fee ep util m) =
      m\<lparr>base_fee_params := BaseFeeParams_new\<lparr>current_base_fee := b\<rparr>, fee_history := bt_insert ep b (fee_history m)\<rparr>"
    unfolding update_exact [OF assms True] b_def Let_def by simp
  moreover have "MIN_BASE_FEE \<le> b \<and> b \<le> MAX_BASE_FEE" by (simp add: b_def const_defs)
  ultimately show ?thesis using assms unfolding market_ok_def by auto
next
  case False
  then show ?thesis using assms by (simp add: update_base_fee_def)
qed

lemma market_ok_congestion: "market_ok m \<Longrightarrow> market_ok (fst (record_shard_congestion s m))"
  by (cases "congestion_validate s") (simp_all add: record_shard_congestion_def market_ok_def)

interpretation fees: machine fm_step market_ok "\<lambda>_. True"
proof
  fix m a assume "market_ok m"
  then show "market_ok (fm_step a m)"
    by (cases a) (simp_all add: market_ok_update market_ok_congestion record_tx_count_def market_ok_frame)
qed

lemma run_market_ok: "market_ok (fold fm_step ops fm_genesis)"
  by (rule fees.run_inv [OF market_ok_genesis]) (simp add: list_all_iff)

text \<open>A fee is capped by the 64-bit saturation of its product.\<close>

lemma fee_cap: "calculate_fee powf m t r s = Ok fee \<Longrightarrow> fee \<le> (2 ^ 64 - 1) div 1000000"
proof -
  have "sat_mul 64 a b div 1000000 \<le> (2 ^ 64 - 1) div 1000000" for a b by (intro div_le_mono) (simp add: sat_mul_def)
  then show "calculate_fee powf m t r s = Ok fee \<Longrightarrow> fee \<le> (2 ^ 64 - 1) div 1000000"
    by (auto simp: calculate_fee_def bind_outcome_Ok Let_def)
qed

section \<open>Properties\<close>

text \<open>C18: in every state a fee market can reach, and for every load, the base fee before and after an update is
  between its minimum and maximum, an update above the target load never lowers it and raises it by at most
  an eighth, an update at or below the target never raises it and lowers it by at most a tenth (one unit of
  rounding), and the stored parameters stay valid.\<close>

theorem base_fee_bounded:
  assumes "m = fold fm_step ops fm_genesis" "util \<le> 10000"
  shows "\<exists>m' g. update_base_fee ep util m = (m', Ok g) \<and> current_base_fee (base_fee_params m') = g \<and>
    params_validate (base_fee_params m) = Ok () \<and> params_validate (base_fee_params m') = Ok () \<and>
    MIN_BASE_FEE \<le> g \<and> g \<le> MAX_BASE_FEE \<and>
    (5000 < util \<longrightarrow> current_base_fee (base_fee_params m) \<le> g \<and> 8 * g \<le> 9 * current_base_fee (base_fee_params m)) \<and>
    (util \<le> 5000 \<longrightarrow> g \<le> current_base_fee (base_fee_params m) \<and> 9 * current_base_fee (base_fee_params m) \<le> 10 * g + 9)"
proof -
  have ok: "market_ok m" unfolding assms(1) by (rule run_market_ok)
  define f where "f = current_base_fee (base_fee_params m)"
  define g where "g = (if util > 5000 then f * (10000 + min (1250 * (util - 5000) div 5000) 1250) div 10000
              else f * (10000 - min (1000 * (5000 - util) div 5000) 1000) div 10000)"
  have fb: "MIN_BASE_FEE \<le> f" "f \<le> MAX_BASE_FEE" and p: "params_validate (base_fee_params m) = Ok ()"
    using ok by (auto simp: market_ok_def f_def params_validate_def BaseFeeParams_new_def)
  let ?b = "max MIN_BASE_FEE (min g MAX_BASE_FEE)"
  let ?m = "m\<lparr>base_fee_params := BaseFeeParams_new\<lparr>current_base_fee := ?b\<rparr>, fee_history := bt_insert ep ?b (fee_history m)\<rparr>"
  have upd: "update_base_fee ep util m = (?m, Ok ?b)"
    using update_exact [OF ok assms(2), of ep] unfolding Let_def f_def [symmetric] g_def [symmetric] .
  have up: "f \<le> g" "8 * g \<le> 9 * f" if "5000 < util"
  proof -
    let ?k = "min (1250 * (util - 5000) div 5000) 1250"
    have g: "g = f * (10000 + ?k) div 10000" using that by (simp only: g_def if_True)
    have "f * 10000 div 10000 \<le> g" "g \<le> f * 11250 div 10000"
      unfolding g by (intro div_le_mono mult_le_mono2; simp)+
    then show "f \<le> g" "8 * g \<le> 9 * f" by simp_all
  qed
  have down: "g \<le> f" "9 * f \<le> 10 * g + 9" if "util \<le> 5000"
  proof -
    let ?k = "min (1000 * (5000 - util) div 5000) 1000"
    have g: "g = f * (10000 - ?k) div 10000" using that by (simp only: g_def not_less [symmetric] if_False)
    have "g \<le> f * 10000 div 10000" "f * 9000 div 10000 \<le> g"
      unfolding g by (intro div_le_mono mult_le_mono2; simp)+
    then show "g \<le> f" "9 * f \<le> 10 * g + 9" by simp_all
  qed
  have b: "MIN_BASE_FEE \<le> ?b" "?b \<le> MAX_BASE_FEE" by (simp_all add: const_defs)
  have rise: "f \<le> ?b \<and> 8 * ?b \<le> 9 * f" if "5000 < util" using up [OF that] fb by linarith
  have fall: "?b \<le> f \<and> 9 * f \<le> 10 * ?b + 9" if "util \<le> 5000" using down [OF that] fb by linarith
  have q: "current_base_fee (base_fee_params ?m) = ?b" by simp
  have v: "params_validate (BaseFeeParams_new\<lparr>current_base_fee := x\<rparr>) = Ok ()" if "MIN_BASE_FEE \<le> x" "x \<le> MAX_BASE_FEE" for x
    using that by (simp add: params_validate_def BaseFeeParams_new_def)
  have v': "params_validate (base_fee_params ?m) = Ok ()" using v [OF b] by simp
  show ?thesis unfolding f_def [symmetric] upd using q v' p b rise fall by blast
qed

theorem base_fee_bounded_witness:
  "\<exists>m' g. update_base_fee 3 9000 (fold fm_step [FmUpdate 1 8000, FmUpdate 2 100] fm_genesis) = (m', Ok g) \<and>
     1000 \<le> g \<and> g \<le> 10000000000"
  using base_fee_bounded [OF refl, of 9000 3 "[FmUpdate 1 8000, FmUpdate 2 100]"]
  by (auto simp: MIN_BASE_FEE_def MAX_BASE_FEE_def simp del: fold.simps)

end
