(* ===== verification/Incentives.thy ===== *)
theory Incentives
  imports BTree Crypto
begin

text \<open>
  \<open>crates/bleep-economics/src/validator_incentives.rs\<close>: validator accounts, the rewards of an epoch and
  slashing with jail and ejection.  SHA-256 is the argument \<open>sha256\<close>.  The lemmas show that a reward is
  the exact sum of its parts, that slashing never exceeds the stake, that ejection is exactly complete
  slashing and permanent, and two defects: metrics are rewarded again in every epoch, and the jail period
  is counted from epoch zero.
\<close>

section \<open>Data\<close>

datatype RewardType = RwBlockProposal | RwParticipation | RwHealingContribution | RwCrossShardCoordination

primrec reward_index :: "RewardType \<Rightarrow> nat" where
  "reward_index RwBlockProposal = 0"
| "reward_index RwParticipation = 1"
| "reward_index RwHealingContribution = 2"
| "reward_index RwCrossShardCoordination = 3"

lemma reward_index_inj: "reward_index a = reward_index b \<longleftrightarrow> a = b"
  by (cases a; cases b) auto

instantiation RewardType :: linorder
begin

definition less_eq_RewardType :: "RewardType \<Rightarrow> RewardType \<Rightarrow> bool" where
  [simp]: "a \<le> b \<longleftrightarrow> reward_index a \<le> reward_index b"

definition less_RewardType :: "RewardType \<Rightarrow> RewardType \<Rightarrow> bool" where
  [simp]: "a < b \<longleftrightarrow> reward_index a < reward_index b"

instance
  by standard (auto simp: reward_index_inj [symmetric])

end

datatype ValidatorStatus = VsActive | VsSlashed | VsJailed | VsEjected

datatype ValidatorError =
    VeNotFound
  | VeAlreadyExists
  | VeInvalidStake
  | VeRewardHashMismatch
  | VeNotJailed
  | VeJailPeriodNotExpired

record ValidatorMetrics =
  vm_validator_id :: bytes
  blocks_proposed :: u32
  attestations_included :: u32
  healing_participations :: u32
  shards_coordinated :: u32
  double_signs_evidence :: u32
  state_transition_failures :: u32
  vm_epoch :: u64

record RewardRecord =
  rr_validator_id :: bytes
  rr_epoch :: u64
  rewards :: "(RewardType, u128) btree_map"
  total_reward :: u128
  computation_hash :: bytes

definition reward_hash :: "(bytes \<Rightarrow> bytes) \<Rightarrow> RewardRecord \<Rightarrow> bytes" where
  "reward_hash sha256 r =
     sha256 (rr_validator_id r @ to_le_bytes 8 (rr_epoch r) @ to_le_bytes 16 (total_reward r) @
       concat (map (\<lambda>(t, amount). to_le_bytes 1 (reward_index t) @ to_le_bytes 16 amount) (rewards r)))"

definition reward_verify_hash :: "(bytes \<Rightarrow> bytes) \<Rightarrow> RewardRecord \<Rightarrow> (ValidatorError, unit) outcome" where
  "reward_verify_hash sha256 r = (if reward_hash sha256 r \<noteq> computation_hash r then Err VeRewardHashMismatch else Ok ())"

datatype SlashingViolationType =
  DoubleSigning | InvalidTransition | RecoveryWithholding | FalseGovernance | MaliciousRollback

primrec base_slash_percentage :: "SlashingViolationType \<Rightarrow> u16" where
  "base_slash_percentage DoubleSigning = 3200"
| "base_slash_percentage InvalidTransition = 1600"
| "base_slash_percentage RecoveryWithholding = 800"
| "base_slash_percentage FalseGovernance = 1000"
| "base_slash_percentage MaliciousRollback = 3200"

record SlashEvidence =
  sl_validator_id :: bytes
  sl_epoch :: u64
  violation_type :: SlashingViolationType
  slash_amount :: u128
  proof_hash :: bytes
  disputed :: bool

record ValidatorAccount =
  va_validator_id :: bytes
  va_stake :: u128
  va_status :: ValidatorStatus
  total_rewards :: u128
  va_total_slashed :: u128
  status_change_epoch :: u64
  jail_duration_epochs :: u32

definition va_effective_stake :: "ValidatorAccount \<Rightarrow> u128" where
  "va_effective_stake v = sat_sub (va_stake v) (va_total_slashed v)"

abbreviation va_is_active :: "ValidatorAccount \<Rightarrow> bool" where
  "va_is_active v \<equiv> va_status v = VsActive \<or> va_status v = VsSlashed"

definition va_is_ejected :: "ValidatorAccount \<Rightarrow> bool" where
  "va_is_ejected v \<longleftrightarrow> va_status v = VsEjected"

record RewardParameters =
  block_proposal_reward :: u128
  participation_reward :: u128
  healing_multiplier :: u16
  cross_shard_reward :: u128

definition RewardParameters_default :: RewardParameters where
  "RewardParameters_default =
     \<lparr>block_proposal_reward = 32 * 10 ^ 6, participation_reward = 10 ^ 6, healing_multiplier = 3,
      cross_shard_reward = 5 * 10 ^ 6\<rparr>"

record ValidatorIncentivesEngine =
  ve_validators :: "(bytes, ValidatorAccount) btree_map"
  current_metrics :: "(bytes, ValidatorMetrics) btree_map"
  reward_history :: "(u64 \<times> bytes, RewardRecord) btree_map"
  ve_slashing_evidence :: "(bytes, SlashEvidence) btree_map"
  reward_params :: RewardParameters

section \<open>Operations\<close>

definition ve_genesis :: ValidatorIncentivesEngine where
  "ve_genesis =
     \<lparr>ve_validators = [], current_metrics = [], reward_history = [], ve_slashing_evidence = [],
      reward_params = RewardParameters_default\<rparr>"

definition ve_register_validator ::
  "bytes \<Rightarrow> u128 \<Rightarrow> ValidatorIncentivesEngine \<Rightarrow> ValidatorIncentivesEngine \<times> (ValidatorError, unit) outcome" where
  "ve_register_validator validator_id stake e =
     (if bt_contains (ve_validators e) validator_id then (e, Err VeAlreadyExists)
      else if stake = 0 then (e, Err VeInvalidStake)
      else
        (e\<lparr>ve_validators := bt_insert validator_id
             \<lparr>va_validator_id = validator_id, va_stake = stake, va_status = VsActive, total_rewards = 0,
              va_total_slashed = 0, status_change_epoch = 0, jail_duration_epochs = 0\<rparr> (ve_validators e)\<rparr>, Ok ()))"

definition record_metrics ::
  "bytes \<Rightarrow> ValidatorMetrics \<Rightarrow> ValidatorIncentivesEngine \<Rightarrow> ValidatorIncentivesEngine \<times> (ValidatorError, unit) outcome" where
  "record_metrics validator_id m e =
     (if \<not> bt_contains (ve_validators e) validator_id then (e, Err VeNotFound)
      else (e\<lparr>current_metrics := bt_insert validator_id m (current_metrics e)\<rparr>, Ok ()))"

text \<open>The body of the reward loop: the parts of one validator and their total.\<close>

definition reward_parts :: "RewardParameters \<Rightarrow> ValidatorMetrics \<Rightarrow> (RewardType, u128) btree_map \<times> u128" where
  "reward_parts p m =
     (let proposal_reward = sat_mul 128 (blocks_proposed m) (block_proposal_reward p);
          r1 = bt_insert RwBlockProposal proposal_reward [];
          t1 = sat_add 128 0 proposal_reward;
          (r2, t2) = (if attestations_included m > 0 then
              (bt_insert RwParticipation (participation_reward p) r1, sat_add 128 t1 (participation_reward p)) else (r1, t1));
          healing_reward = sat_mul 128 (sat_mul 128 (healing_participations m) (participation_reward p)) (healing_multiplier p) div 100;
          (r3, t3) = (if healing_reward > 0 then
              (bt_insert RwHealingContribution healing_reward r2, sat_add 128 t2 healing_reward) else (r2, t2));
          cross_reward = sat_mul 128 (shards_coordinated m) (cross_shard_reward p)
      in if cross_reward > 0 then
           (bt_insert RwCrossShardCoordination cross_reward r3, sat_add 128 t3 cross_reward) else (r3, t3))"

definition reward_record :: "(bytes \<Rightarrow> bytes) \<Rightarrow> RewardParameters \<Rightarrow> u64 \<Rightarrow> bytes \<times> ValidatorMetrics \<Rightarrow> RewardRecord" where
  "reward_record sha256 p epoch vm =
     (case vm of (validator_id, m) \<Rightarrow>
        (let (rs, t) = reward_parts p m;
             record0 = \<lparr>rr_validator_id = validator_id, rr_epoch = epoch, rewards = rs, total_reward = t, computation_hash = []\<rparr>
         in record0\<lparr>computation_hash := reward_hash sha256 record0\<rparr>))"

definition reward_one ::
  "(bytes \<Rightarrow> bytes) \<Rightarrow> u64 \<Rightarrow> bytes \<times> ValidatorMetrics \<Rightarrow> ValidatorIncentivesEngine \<times> RewardRecord list \<Rightarrow>
   ValidatorIncentivesEngine \<times> RewardRecord list" where
  "reward_one sha256 epoch vm er =
     (case er of (e, records) \<Rightarrow>
        (let r = reward_record sha256 (reward_params e) epoch vm in
         (e\<lparr>ve_validators := bt_modify (fst vm) (\<lambda>v. v\<lparr>total_rewards := sat_add 128 (total_rewards v) (total_reward r)\<rparr>) (ve_validators e),
            reward_history := bt_insert (epoch, fst vm) r (reward_history e)\<rparr>,
          records @ [r])))"

definition compute_epoch_rewards ::
  "(bytes \<Rightarrow> bytes) \<Rightarrow> u64 \<Rightarrow> ValidatorIncentivesEngine \<Rightarrow>
   ValidatorIncentivesEngine \<times> (ValidatorError, RewardRecord list) outcome" where
  "compute_epoch_rewards sha256 epoch e =
     (case fold (reward_one sha256 epoch) (current_metrics e) (e, []) of (e', records) \<Rightarrow> (e', Ok records))"

definition slash_account :: "u128 \<Rightarrow> ValidatorAccount \<Rightarrow> ValidatorAccount" where
  "slash_account amount v =
     (let actual_slash = min amount (va_effective_stake v);
          v1 = v\<lparr>va_total_slashed := sat_add 128 (va_total_slashed v) actual_slash\<rparr>;
          v2 = (if va_total_slashed v1 \<ge> sat_mul 128 (va_stake v1) 32 div 100
                then v1\<lparr>va_status := VsJailed, jail_duration_epochs := 2016\<rparr> else v1)
      in if va_total_slashed v2 \<ge> va_stake v2 then v2\<lparr>va_status := VsEjected\<rparr> else v2)"

definition apply_slashing ::
  "SlashEvidence \<Rightarrow> ValidatorIncentivesEngine \<Rightarrow> ValidatorIncentivesEngine \<times> (ValidatorError, unit) outcome" where
  "apply_slashing ev e =
     (if bt_contains (ve_validators e) (sl_validator_id ev) then
        (e\<lparr>ve_validators := bt_modify (sl_validator_id ev) (slash_account (slash_amount ev)) (ve_validators e),
           ve_slashing_evidence := bt_insert (proof_hash ev) ev (ve_slashing_evidence e)\<rparr>, Ok ())
      else (e, Err VeNotFound))"

definition unjail_validator ::
  "bytes \<Rightarrow> u64 \<Rightarrow> ValidatorIncentivesEngine \<Rightarrow> ValidatorIncentivesEngine \<times> (ValidatorError, unit) outcome" where
  "unjail_validator validator_id current_epoch e =
     (case bt_get (ve_validators e) validator_id of
        None \<Rightarrow> (e, Err VeNotFound)
      | Some v \<Rightarrow>
          if va_status v \<noteq> VsJailed then (e, Err VeNotJailed)
          else if sat_sub current_epoch (status_change_epoch v) < jail_duration_epochs v then (e, Err VeJailPeriodNotExpired)
          else
            (e\<lparr>ve_validators := bt_modify validator_id
                 (\<lambda>v. v\<lparr>va_status := VsActive, status_change_epoch := current_epoch\<rparr>) (ve_validators e)\<rparr>, Ok ()))"

abbreviation ve_total_active_stake :: "ValidatorIncentivesEngine \<Rightarrow> u128" where
  "ve_total_active_stake e \<equiv> wrap_sum 128 (map va_effective_stake (filter va_is_active (bt_values (ve_validators e))))"

abbreviation get_validator_rewards :: "ValidatorIncentivesEngine \<Rightarrow> bytes \<Rightarrow> u64 \<Rightarrow> u64 \<Rightarrow> RewardRecord list" where
  "get_validator_rewards e validator_id start_epoch end_epoch \<equiv> List.map_filter (\<lambda>epoch. bt_get (reward_history e) (epoch, validator_id)) [start_epoch..<Suc end_epoch]"

section \<open>Rewards\<close>

text \<open>Metrics whose counters fit their 32-bit types.\<close>

definition typed_metrics :: "ValidatorMetrics \<Rightarrow> bool" where
  "typed_metrics m \<longleftrightarrow> blocks_proposed m < 2 ^ 32 \<and> attestations_included m < 2 ^ 32 \<and>
     healing_participations m < 2 ^ 32 \<and> shards_coordinated m < 2 ^ 32"

definition exact_reward :: "ValidatorMetrics \<Rightarrow> nat" where
  "exact_reward m =
     blocks_proposed m * 32000000 + (if attestations_included m > 0 then 1000000 else 0) +
     healing_participations m * 3000000 div 100 + shards_coordinated m * 5000000"

lemma reward_parts_exact:
  assumes "typed_metrics m"
  shows "snd (reward_parts RewardParameters_default m) = exact_reward m"
    "sum_list (bt_values (fst (reward_parts RewardParameters_default m))) = exact_reward m"
    "exact_reward m < 2 ^ 64"
proof -
  have small: "x * k < 2 ^ 58" if "x < 2 ^ 32" "k \<le> 32000000" for x k :: nat
  proof -
    have "x * k \<le> 2 ^ 32 * 32000000" using that by (intro mult_le_mono) simp_all
    then show ?thesis by simp
  qed
  let ?b = "blocks_proposed m" and ?h = "healing_participations m" and ?c = "shards_coordinated m"
  have b: "?b * 32000000 < 2 ^ 58" and h: "?h * 1000000 < 2 ^ 58" and c: "?c * 5000000 < 2 ^ 58"
    using assms by (auto simp: typed_metrics_def intro!: small [simplified])
  then show "exact_reward m < 2 ^ 64" by (simp add: exact_reward_def)
  have sm: "sat_mul 128 ?b 32000000 = ?b * 32000000" "sat_mul 128 ?h 1000000 = ?h * 1000000"
      "sat_mul 128 (?h * 1000000) 3 = ?h * 3000000" "sat_mul 128 ?c 5000000 = ?c * 5000000"
    using b h c by (simp_all add: sat_mul_exact)
  have sa: "sat_add 128 x y = x + y" if "x < 2 ^ 62" "y < 2 ^ 62" for x y using that by (intro sat_add_exact) simp
  show "snd (reward_parts RewardParameters_default m) = exact_reward m"
    "sum_list (bt_values (fst (reward_parts RewardParameters_default m))) = exact_reward m"
    using b h c by (simp_all add: reward_parts_def RewardParameters_default_def Let_def sm sa exact_reward_def)
qed

text \<open>The loop of an epoch: one record per validator with metrics, and only reward totals change in the accounts.\<close>

lemma reward_one_fold:
  assumes "fold (reward_one sha256 ep) ms (e, rs) = (e', rs')"
  shows "rs' = rs @ map (reward_record sha256 (reward_params e) ep) ms" "reward_params e' = reward_params e"
    "current_metrics e' = current_metrics e" "ve_slashing_evidence e' = ve_slashing_evidence e"
proof -
  have "rs' = rs @ map (reward_record sha256 (reward_params e) ep) ms \<and> reward_params e' = reward_params e \<and>
    current_metrics e' = current_metrics e \<and> ve_slashing_evidence e' = ve_slashing_evidence e"
    using assms
  proof (induction ms arbitrary: e rs)
    case (Cons x ms)
    obtain e1 rs1 where e1: "reward_one sha256 ep x (e, rs) = (e1, rs1)" by force
    then have "rs1 = rs @ [reward_record sha256 (reward_params e) ep x]" "reward_params e1 = reward_params e"
        "current_metrics e1 = current_metrics e" "ve_slashing_evidence e1 = ve_slashing_evidence e"
      by (auto simp: reward_one_def Let_def)
    then show ?case using Cons.IH [of e1 rs1] Cons.prems e1 by simp
  qed simp
  then show "rs' = rs @ map (reward_record sha256 (reward_params e) ep) ms" "reward_params e' = reward_params e"
    "current_metrics e' = current_metrics e" "ve_slashing_evidence e' = ve_slashing_evidence e" by simp_all
qed

text \<open>Two accounts that differ in their rewards only.\<close>

definition same_stake :: "ValidatorAccount \<Rightarrow> ValidatorAccount \<Rightarrow> bool" where
  "same_stake v w \<longleftrightarrow> (\<exists>n. w = v\<lparr>total_rewards := n\<rparr>)"

lemma same_stake_refl: "same_stake v v"
proof -
  have "v = v\<lparr>total_rewards := total_rewards v\<rparr>" by simp
  then show ?thesis unfolding same_stake_def by blast
qed

lemma reward_one_accounts:
  assumes "fold (reward_one sha256 ep) ms (e, rs) = (e', rs')" "bt_wf (ve_validators e)"
  shows "bt_wf (ve_validators e') \<and> rel_option same_stake (bt_get (ve_validators e) i) (bt_get (ve_validators e') i)"
  using assms
proof (induction ms arbitrary: e rs)
  case Nil
  then show ?case by (auto intro: option.rel_refl simp: same_stake_refl)
next
  case (Cons x ms)
  obtain e1 rs1 where e1: "reward_one sha256 ep x (e, rs) = (e1, rs1)" by force
  have wf: "bt_wf (ve_validators e1)" using e1 Cons.prems(2) by (auto simp: reward_one_def Let_def)
  have step: "rel_option same_stake (bt_get (ve_validators e) i) (bt_get (ve_validators e1) i)"
    using e1 same_stake_refl by (cases "bt_get (ve_validators e) i") (auto simp: reward_one_def Let_def, auto simp: same_stake_def)
  have rest: "bt_wf (ve_validators e') \<and> rel_option same_stake (bt_get (ve_validators e1) i) (bt_get (ve_validators e') i)"
    using Cons.IH [OF _ wf] Cons.prems(1) e1 by simp
  then show ?case using step
    by (cases "bt_get (ve_validators e) i"; cases "bt_get (ve_validators e1) i"; cases "bt_get (ve_validators e') i")
      (auto simp: same_stake_def)
qed

section \<open>Slashing\<close>

definition account_ok :: "ValidatorAccount \<Rightarrow> bool" where
  "account_ok v \<longleftrightarrow> 0 < va_stake v \<and> va_stake v < 2 ^ 128 \<and> va_total_slashed v \<le> va_stake v \<and>
     (va_status v = VsEjected \<longleftrightarrow> va_total_slashed v = va_stake v)"

definition ve_inv :: "ValidatorIncentivesEngine \<Rightarrow> bool" where
  "ve_inv e \<longleftrightarrow> bt_wf (ve_validators e) \<and> reward_params e = RewardParameters_default \<and>
     (\<forall>i v. bt_get (ve_validators e) i = Some v \<longrightarrow> account_ok v) \<and>
     (\<forall>m \<in> set (bt_values (current_metrics e)). typed_metrics m)"

text \<open>\<open>w\<close> is a later state of the account \<open>v\<close>.\<close>

definition account_later :: "ValidatorAccount \<Rightarrow> ValidatorAccount \<Rightarrow> bool" where
  "account_later v w \<longleftrightarrow> va_stake w = va_stake v \<and> va_total_slashed v \<le> va_total_slashed w \<and>
     (va_status v = VsEjected \<longrightarrow> va_status w = VsEjected)"

lemma account_later_refl: "account_later v v"
  by (simp add: account_later_def)

lemma account_later_trans: "account_later u v \<Longrightarrow> account_later v w \<Longrightarrow> account_later u w"
  by (auto simp: account_later_def)

lemma slash_account_fields:
  "va_stake (slash_account amount v) = va_stake v"
  "va_total_slashed (slash_account amount v) = sat_add 128 (va_total_slashed v) (min amount (va_effective_stake v))"
  "va_status (slash_account amount v) =
     (if va_stake v \<le> va_total_slashed (slash_account amount v) then VsEjected
      else if sat_mul 128 (va_stake v) 32 div 100 \<le> va_total_slashed (slash_account amount v) then VsJailed else va_status v)"
  "status_change_epoch (slash_account amount v) = status_change_epoch v"
  by (simp_all add: slash_account_def Let_def)

lemma slash_account_ok:
  assumes "account_ok v"
  shows "account_ok (slash_account amount v)" "account_later v (slash_account amount v)"
proof -
  have v: "0 < va_stake v" "va_stake v < 2 ^ 128" "va_total_slashed v \<le> va_stake v"
      "va_status v = VsEjected \<longleftrightarrow> va_total_slashed v = va_stake v"
    using assms by (simp_all add: account_ok_def)
  define a where "a = min amount (va_effective_stake v)"
  have a: "va_total_slashed v + a \<le> va_stake v" using v(3) by (simp add: a_def va_effective_stake_def)
  then have "sat_add 128 (va_total_slashed v) a = va_total_slashed v + a" using v(2) by (intro sat_add_exact) linarith
  then have t: "va_total_slashed (slash_account amount v) = va_total_slashed v + a"
    using slash_account_fields(2) [of amount v] by (simp add: a_def)
  note r = slash_account_fields(1) [of amount v] slash_account_fields(3) [of amount v, unfolded t]
  have st: "va_status (slash_account amount v) = VsEjected \<longleftrightarrow> va_total_slashed v + a = va_stake v"
    unfolding r(2) using a v(4) by (auto split: if_splits)
  show "account_ok (slash_account amount v)" unfolding account_ok_def st unfolding t r(1) using v a by blast
  have "va_total_slashed v = va_stake v \<Longrightarrow> va_total_slashed v + a = va_stake v" using a by linarith
  then show "account_later v (slash_account amount v)" unfolding account_later_def st unfolding t r(1) v(4) by simp
qed

datatype ve_op =
    VeRegister bytes u128
  | VeMetrics bytes ValidatorMetrics
  | VeRewards u64
  | VeSlash SlashEvidence
  | VeUnjail bytes u64

primrec ve_step :: "(bytes \<Rightarrow> bytes) \<Rightarrow> ve_op \<Rightarrow> ValidatorIncentivesEngine \<Rightarrow> ValidatorIncentivesEngine" where
  "ve_step sha256 (VeRegister i stake) e = fst (ve_register_validator i stake e)"
| "ve_step sha256 (VeMetrics i m) e = fst (record_metrics i m e)"
| "ve_step sha256 (VeRewards ep) e = fst (compute_epoch_rewards sha256 ep e)"
| "ve_step sha256 (VeSlash ev) e = fst (apply_slashing ev e)"
| "ve_step sha256 (VeUnjail i ep) e = fst (unjail_validator i ep e)"

primrec typed_ve :: "ve_op \<Rightarrow> bool" where
  "typed_ve (VeRegister i stake) = (stake < 2 ^ 128)"
| "typed_ve (VeMetrics i m) = typed_metrics m"
| "typed_ve (VeRewards ep) = True"
| "typed_ve (VeSlash ev) = True"
| "typed_ve (VeUnjail i ep) = True"

text \<open>Changing one account in a way that keeps it well formed keeps the engine well formed.\<close>

lemma ve_inv_modify:
  assumes "ve_inv e" "\<And>v. account_ok v \<Longrightarrow> account_ok (f v)"
  shows "ve_inv (e\<lparr>ve_validators := bt_modify i f (ve_validators e)\<rparr>)"
  using assms unfolding ve_inv_def by auto

lemma ve_inv_genesis: "ve_inv ve_genesis"
  by (simp add: ve_inv_def ve_genesis_def)

lemma ve_inv_rewards:
  assumes "ve_inv e"
  shows "ve_inv (fst (compute_epoch_rewards sha256 ep e))"
    "rel_option same_stake (bt_get (ve_validators e) i) (bt_get (ve_validators (fst (compute_epoch_rewards sha256 ep e))) i)"
proof -
  obtain e' rs where f: "fold (reward_one sha256 ep) (current_metrics e) (e, []) = (e', rs)" by force
  then have e': "fst (compute_epoch_rewards sha256 ep e) = e'" by (simp add: compute_epoch_rewards_def)
  have wf: "bt_wf (ve_validators e)" using assms by (simp add: ve_inv_def)
  note acc = reward_one_accounts [OF f wf]
  have "account_ok v" if "bt_get (ve_validators e') j = Some v" for j v
    using acc [of j] that assms by (cases "bt_get (ve_validators e) j") (auto simp: same_stake_def ve_inv_def account_ok_def)
  then show "ve_inv (fst (compute_epoch_rewards sha256 ep e))"
    using assms acc reward_one_fold [OF f] unfolding e' ve_inv_def by simp
  show "rel_option same_stake (bt_get (ve_validators e) i) (bt_get (ve_validators (fst (compute_epoch_rewards sha256 ep e))) i)"
    using acc e' by simp
qed

lemma set_values_insert: "x \<in> set (bt_values (bt_insert k v m)) \<Longrightarrow> x = v \<or> x \<in> set (bt_values m)"
  using set_bt_insert [of k v m] by force

lemma ve_step_ok:
  assumes "ve_inv e" "typed_ve a"
  shows "ve_inv (ve_step sha256 a e) \<and>
    (\<forall>i v. bt_get (ve_validators e) i = Some v \<longrightarrow>
      (\<exists>w. bt_get (ve_validators (ve_step sha256 a e)) i = Some w \<and> account_later v w))"
proof (cases a)
  case (VeRegister j stake)
  have new: "account_ok \<lparr>va_validator_id = j, va_stake = stake, va_status = VsActive, total_rewards = 0, va_total_slashed = 0,
      status_change_epoch = 0, jail_duration_epochs = 0\<rparr>" if "stake \<noteq> 0"
    using that assms(2) VeRegister by (simp add: account_ok_def)
  show ?thesis
  proof (cases "bt_get (ve_validators e) j = None \<and> stake \<noteq> 0")
    case True
    then show ?thesis using assms(1) new VeRegister
      by (auto simp: ve_register_validator_def bt_contains_get ve_inv_def account_later_refl)
  next
    case False
    then show ?thesis using assms(1) VeRegister
      by (auto simp: ve_register_validator_def bt_contains_get account_later_refl split: option.splits)
  qed
next
  case (VeMetrics j m)
  then show ?thesis using assms set_values_insert [of _ j m "current_metrics e"]
    by (auto simp: record_metrics_def ve_inv_def account_later_refl simp del: set_map)
next
  case (VeRewards ep)
  have "\<exists>w. bt_get (ve_validators (ve_step sha256 a e)) i = Some w \<and> account_later v w"
    if "bt_get (ve_validators e) i = Some v" for i v
    using ve_inv_rewards(2) [OF assms(1), of i sha256 ep] that VeRewards
    by (cases "bt_get (ve_validators (ve_step sha256 a e)) i") (auto simp: same_stake_def account_later_def)
  then show ?thesis using ve_inv_rewards(1) [OF assms(1)] VeRewards by auto
next
  case (VeSlash ev)
  have "ve_inv (e\<lparr>ve_validators := bt_modify (sl_validator_id ev) (slash_account (slash_amount ev)) (ve_validators e)\<rparr>)"
    by (rule ve_inv_modify [OF assms(1) slash_account_ok(1)])
  then have "ve_inv (ve_step sha256 a e)" using VeSlash assms(1) by (auto simp: apply_slashing_def ve_inv_def)
  moreover have "account_ok v" if "bt_get (ve_validators e) i = Some v" for i v using assms(1) that by (simp add: ve_inv_def)
  ultimately show ?thesis using VeSlash slash_account_ok(2) by (auto simp: apply_slashing_def account_later_refl)
next
  case (VeUnjail j ep)
  show ?thesis
  proof (cases "bt_get (ve_validators e) j")
    case (Some u)
    show ?thesis
    proof (cases "va_status u = VsJailed \<and> \<not> ep - status_change_epoch u < jail_duration_epochs u")
      case True
      let ?f = "\<lambda>v. v\<lparr>va_status := VsActive, status_change_epoch := ep\<rparr>"
      have step: "ve_step sha256 a e = e\<lparr>ve_validators := bt_modify j ?f (ve_validators e)\<rparr>"
        using VeUnjail Some True by (simp add: unjail_validator_def)
      have "account_ok u" using assms(1) Some by (simp add: ve_inv_def)
      then have "account_ok (?f u)" "account_later u (?f u)" using True by (auto simp: account_ok_def account_later_def)
      then show ?thesis using assms(1) Some unfolding step ve_inv_def by (auto simp: account_later_refl)
    next
      case False
      then show ?thesis using VeUnjail Some assms(1) by (auto simp: unjail_validator_def account_later_refl)
    qed
  qed (use VeUnjail assms(1) in \<open>auto simp: unjail_validator_def account_later_refl\<close>)
qed

interpretation incentives: machine "ve_step sha256" ve_inv typed_ve for sha256
  by unfold_locales (simp add: ve_step_ok)

lemma account_run:
  assumes "ve_inv e" "list_all typed_ve ops" "bt_get (ve_validators e) i = Some v"
  shows "\<exists>w. bt_get (ve_validators (fold (ve_step sha256) ops e)) i = Some w \<and> account_later v w"
  using assms
proof (induction ops arbitrary: e v)
  case Nil
  then show ?case by (simp add: account_later_refl)
next
  case (Cons a ops)
  then obtain w where w: "bt_get (ve_validators (ve_step sha256 a e)) i = Some w" "account_later v w"
    using ve_step_ok [of e a sha256] by fastforce
  obtain x where "bt_get (ve_validators (fold (ve_step sha256) ops (ve_step sha256 a e))) i = Some x" "account_later w x"
    using Cons.IH [OF incentives.step_inv _ w(1)] Cons.prems by auto
  then show ?case using account_later_trans [OF w(2)] by auto
qed

text \<open>The jail period is counted from the last change of status, which slashing does not record: a validator
  jailed in any epoch from 2016 on can leave at once.\<close>

lemma jail_not_served:
  assumes "bt_get (ve_validators e) i = Some v" "va_status v = VsJailed" "status_change_epoch v = 0"
    and "jail_duration_epochs v = 2016" "2016 \<le> ep"
  shows "snd (unjail_validator i ep e) = Ok ()"
  using assms by (simp add: unjail_validator_def)

text \<open>What the records of an epoch are, in any state reachable by typed calls.\<close>

lemma epoch_records:
  assumes "ve_inv e" "compute_epoch_rewards sha256 ep e = (e', x)"
  shows "x = Ok (map (reward_record sha256 RewardParameters_default ep) (current_metrics e))"
    "current_metrics e' = current_metrics e" "ve_inv e'"
proof -
  obtain e1 rs where f: "fold (reward_one sha256 ep) (current_metrics e) (e, []) = (e1, rs)" by force
  have p: "reward_params e = RewardParameters_default" using assms(1) by (simp add: ve_inv_def)
  show "x = Ok (map (reward_record sha256 RewardParameters_default ep) (current_metrics e))"
    using assms(2) f reward_one_fold(1) [OF f] p by (simp add: compute_epoch_rewards_def)
  show "current_metrics e' = current_metrics e"
    using assms(2) f reward_one_fold(3) [OF f] by (simp add: compute_epoch_rewards_def)
  show "ve_inv e'" using ve_inv_rewards(1) [OF assms(1), of sha256 ep] assms(2) by simp
qed

lemma record_exact:
  assumes "typed_metrics m"
  shows "total_reward (reward_record sha256 RewardParameters_default ep (i, m)) = exact_reward m"
    "sum_list (bt_values (rewards (reward_record sha256 RewardParameters_default ep (i, m)))) = exact_reward m"
    "reward_verify_hash sha256 (reward_record sha256 RewardParameters_default ep (i, m)) = Ok ()"
    "rr_validator_id (reward_record sha256 RewardParameters_default ep (i, m)) = i"
    "rr_epoch (reward_record sha256 RewardParameters_default ep (i, m)) = ep"
  using reward_parts_exact [OF assms]
  by (simp_all add: reward_record_def case_prod_beta Let_def reward_verify_hash_def reward_hash_def)

section \<open>Properties\<close>

text \<open>In every state reachable by typed calls a validator's total slashing is within its stake and it is
  ejected exactly when the whole stake is gone; later calls never change its stake, never lower its
  slashing and never bring an ejected validator back.\<close>

theorem slashing_within_stake:
  assumes "list_all typed_ve ops" "list_all typed_ve later"
    and "e = fold (ve_step sha256) ops ve_genesis" "bt_get (ve_validators e) i = Some v"
  shows "va_total_slashed v \<le> va_stake v \<and> (va_is_ejected v \<longleftrightarrow> va_total_slashed v = va_stake v) \<and>
    va_effective_stake v + va_total_slashed v = va_stake v \<and>
    (\<exists>w. bt_get (ve_validators (fold (ve_step sha256) later e)) i = Some w \<and> va_stake w = va_stake v \<and>
       va_total_slashed v \<le> va_total_slashed w \<and> (va_is_ejected v \<longrightarrow> va_is_ejected w))"
proof -
  have inv: "ve_inv e" unfolding assms(3) by (rule incentives.run_inv [OF ve_inv_genesis assms(1)])
  then have "account_ok v" using assms(4) by (simp add: ve_inv_def)
  moreover obtain w where "bt_get (ve_validators (fold (ve_step sha256) later e)) i = Some w" "account_later v w"
    using account_run [OF inv assms(2,4)] by blast
  ultimately show ?thesis by (auto simp: account_ok_def account_later_def va_is_ejected_def va_effective_stake_def)
qed

theorem slashing_within_stake_witness:
  "let e = fold (ve_step demo_digest) [VeRegister [1] 100,
       VeSlash \<lparr>sl_validator_id = [1], sl_epoch = 3, violation_type = DoubleSigning, slash_amount = 500, proof_hash = [9], disputed = False\<rparr>]
       ve_genesis in
   \<exists>v w. bt_get (ve_validators e) [1] = Some v \<and> va_is_ejected v \<and>
     bt_get (ve_validators (fold (ve_step demo_digest) [VeUnjail [1] 9000] e)) [1] = Some w \<and> va_is_ejected w"
proof -
  let ?ops = "[VeRegister [1] 100,
       VeSlash \<lparr>sl_validator_id = [1], sl_epoch = 3, violation_type = DoubleSigning, slash_amount = 500, proof_hash = [9], disputed = False\<rparr>]"
  let ?e = "fold (ve_step demo_digest) ?ops ve_genesis"
  obtain v where v: "bt_get (ve_validators ?e) [1] = Some v" "va_is_ejected v"
    by (simp add: ve_genesis_def ve_register_validator_def bt_contains_def apply_slashing_def bt_modify_def slash_account_def
        va_effective_stake_def sat_add_def sat_mul_def Let_def va_is_ejected_def)
  show ?thesis
    using slashing_within_stake [OF _ _ refl v(1), of "[VeUnjail [1] 9000]"] v unfolding Let_def by auto
qed

text \<open>The records of an epoch, in any state reachable by typed calls: one for each validator with metrics,
  in order, whose total is the exact sum of its parts (no saturation) and of the published rates, and whose
  hash verifies.  The metrics are kept, so the next epoch pays exactly the same amounts again even if nobody
  has worked.\<close>

theorem epoch_rewards_exact:
  assumes "list_all typed_ve ops" "e = fold (ve_step sha256) ops ve_genesis"
  shows "\<exists>e' rs. compute_epoch_rewards sha256 ep e = (e', Ok rs) \<and>
    map rr_validator_id rs = bt_keys (current_metrics e) \<and>
    map total_reward rs = map exact_reward (bt_values (current_metrics e)) \<and>
    list_all (\<lambda>r. sum_list (bt_values (rewards r)) = total_reward r \<and> rr_epoch r = ep \<and> reward_verify_hash sha256 r = Ok ()) rs \<and>
    (\<exists>e'' rs'. compute_epoch_rewards sha256 ep' e' = (e'', Ok rs') \<and> map total_reward rs' = map total_reward rs)"
proof -
  have inv: "ve_inv e" unfolding assms(2) by (rule incentives.run_inv [OF ve_inv_genesis assms(1)])
  let ?rs = "\<lambda>ep. map (reward_record sha256 RewardParameters_default ep) (current_metrics e)"
  have typed: "typed_metrics (snd x)" if "x \<in> set (current_metrics e)" for x using inv that by (auto simp: ve_inv_def)
  have total: "map total_reward (?rs ep) = map exact_reward (bt_values (current_metrics e))" for ep
    using typed record_exact(1) by (auto simp: comp_def)
  obtain e' x where e': "compute_epoch_rewards sha256 ep e = (e', x)" by force
  note r = epoch_records [OF inv e']
  obtain e'' y where e'': "compute_epoch_rewards sha256 ep' e' = (e'', y)" by force
  note r' = epoch_records(1) [OF r(3) e'', unfolded r(2)]
  have "map rr_validator_id (?rs ep) = bt_keys (current_metrics e)" using typed record_exact(4) by (auto simp: comp_def)
  moreover have "list_all (\<lambda>r. sum_list (bt_values (rewards r)) = total_reward r \<and> rr_epoch r = ep \<and> reward_verify_hash sha256 r = Ok ()) (?rs ep)"
    unfolding list_all_iff using typed record_exact by fastforce
  ultimately show ?thesis using e' e'' r(1) r' total by auto
qed

theorem epoch_rewards_exact_witness:
  "let e = fold (ve_step demo_digest) [VeRegister [1] 100,
       VeMetrics [1] \<lparr>vm_validator_id = [1], blocks_proposed = 2, attestations_included = 1, healing_participations = 0,
         shards_coordinated = 0, double_signs_evidence = 0, state_transition_failures = 0, vm_epoch = 1\<rparr>] ve_genesis in
   \<exists>e' rs. compute_epoch_rewards demo_digest 1 e = (e', Ok rs) \<and> map total_reward rs = [65000000] \<and>
     (\<exists>e'' rs'. compute_epoch_rewards demo_digest 2 e' = (e'', Ok rs') \<and> map total_reward rs' = [65000000])"
proof -
  let ?m = "\<lparr>vm_validator_id = [1], blocks_proposed = 2, attestations_included = 1, healing_participations = 0,
         shards_coordinated = 0, double_signs_evidence = 0, state_transition_failures = 0, vm_epoch = 1\<rparr>"
  let ?ops = "[VeRegister [1] 100, VeMetrics [1] ?m]"
  have "current_metrics (fold (ve_step demo_digest) ?ops ve_genesis) = [([1], ?m)]"
    by (simp add: ve_genesis_def ve_register_validator_def record_metrics_def bt_contains_def)
  then show ?thesis
    using epoch_rewards_exact [OF _ refl, of ?ops demo_digest 1 2] unfolding Let_def
    by (auto simp: typed_metrics_def exact_reward_def simp del: fold.simps)
qed

end
