(* ===== verification/OracleBridge.thy ===== *)
theory OracleBridge
  imports BTree Crypto Float64
begin

text \<open>
  \<open>crates/bleep-economics/src/oracle_bridge.rs\<close>: oracle operators, signed price updates, their aggregation
  into a median, disputes and bridge transactions.  SPHINCS+ and SHA-256 are the fields of \<open>crypto_env\<close>.
  The lemmas show that an aggregate counts every registered operator once, uses only updates the operator
  signed, and cannot be moved by a minority.
\<close>

section \<open>Data\<close>

datatype OracleSource = Chainlink string | Pyth string | Custom bytes

datatype OracleError =
    OperatorAlreadyRegistered
  | OperatorNotRegistered
  | InsufficientConfidence
  | NoDataForAsset
  | InsufficientSources
  | AggregationHashMismatch
  | InvalidBridgeConfig
  | BridgeAlreadyRegistered
  | BridgeNotRegistered
  | BridgePaused
  | InvalidBridgeAmount
  | OracleInvalidSignature
  | InvalidOperatorKey

record PriceUpdate =
  pu_source :: OracleSource
  pu_asset :: string
  price :: u128
  pu_timestamp :: u64
  pu_confidence_bps :: u16
  pu_operator_id :: bytes
  pu_signature :: bytes

definition oracle_signing_message :: "PriceUpdate \<Rightarrow> bytes" where
  "oracle_signing_message u =
     str_bytes ''BLEEP_ORACLE_PRICE_V1:'' @ len_prefix_be (pu_operator_id u) @ len_prefix_be (str_bytes (pu_asset u)) @
     (case pu_source u of
        Chainlink feed \<Rightarrow> [0] @ len_prefix_be (str_bytes feed)
      | Pyth feed \<Rightarrow> [1] @ len_prefix_be (str_bytes feed)
      | Custom source \<Rightarrow> [2] @ len_prefix_be source) @
     to_le_bytes 16 (price u) @ to_le_bytes 8 (pu_timestamp u) @ to_le_bytes 2 (pu_confidence_bps u)"

abbreviation update_hash :: "crypto_env \<Rightarrow> PriceUpdate \<Rightarrow> bytes" where
  "update_hash c u \<equiv> sha2_256 c (oracle_signing_message u)"

definition is_fresh :: "PriceUpdate \<Rightarrow> u64 \<Rightarrow> u64 \<Rightarrow> bool" where
  "is_fresh u current_timestamp max_age_seconds \<longleftrightarrow> sat_sub current_timestamp (pu_timestamp u) < max_age_seconds"

record AggregatedPrice =
  ap_asset :: string
  median_price :: u128
  mean_price :: u128
  ap_confidence_bps :: u16
  source_count :: u32
  ap_timestamp :: u64
  aggregation_hash :: bytes

definition agg_hash :: "crypto_env \<Rightarrow> AggregatedPrice \<Rightarrow> bytes" where
  "agg_hash c a =
     sha2_256 c (str_bytes (ap_asset a) @ to_le_bytes 16 (median_price a) @ to_le_bytes 16 (mean_price a) @
       to_le_bytes 2 (ap_confidence_bps a) @ to_le_bytes 4 (source_count a) @ to_le_bytes 8 (ap_timestamp a))"

abbreviation agg_verify :: "crypto_env \<Rightarrow> AggregatedPrice \<Rightarrow> (OracleError, unit) outcome" where
  "agg_verify c a \<equiv> (if agg_hash c a \<noteq> aggregation_hash a then Err AggregationHashMismatch else Ok ())"

record OracleOperator =
  oo_operator_id :: bytes
  updates_submitted :: u64
  accepted_updates :: u64
  rejected_updates :: u64
  oo_disputed_updates :: u64
  slashing_balance :: u128
  reputation_score :: u16

abbreviation accuracy_rate :: "OracleOperator \<Rightarrow> f64" where
  "accuracy_rate op \<equiv> (if updates_submitted op = 0 then 0
      else f64_div (f64_of_nat (accepted_updates op)) (f64_of_nat (updates_submitted op)))"

record BridgeConfig =
  remote_chain_id :: u64
  light_client_height :: u64
  max_tx_size :: u32
  rate_limit :: u32
  kill_switch_enabled :: bool

abbreviation bridge_validate :: "BridgeConfig \<Rightarrow> (OracleError, unit) outcome" where
  "bridge_validate b \<equiv> (if max_tx_size b = 0 then Err InvalidBridgeConfig
      else if rate_limit b = 0 then Err InvalidBridgeConfig
      else Ok ())"

datatype BridgeStatus = BridgePending | BridgeVerified | BridgeDisputed | BridgeFinalized

record BridgeTransaction =
  source_chain :: u64
  dest_chain :: u64
  bt_tx_id :: bytes
  bt_amount :: u128
  light_client_proof :: bytes
  recipient :: bytes
  bt_status :: BridgeStatus

record DisputeRecord =
  dr_price_update_hash :: bytes
  dr_operator_id :: bytes
  challenger_id :: bytes
  evidence_hash :: bytes
  dispute_epoch :: u64

record OracleBridgeEngine =
  price_updates :: "(string, PriceUpdate list) btree_map"
  aggregated_prices :: "(string, AggregatedPrice) btree_map"
  operators :: "(bytes, OracleOperator) btree_map"
  bridge_configs :: "(u64, BridgeConfig) btree_map"
  bridge_transactions :: "(bytes, BridgeTransaction) btree_map"
  disputed_updates :: "(bytes, DisputeRecord) btree_map"

section \<open>Operations\<close>

definition or_genesis :: OracleBridgeEngine where
  "or_genesis =
     \<lparr>price_updates = [], aggregated_prices = [], operators = [], bridge_configs = [], bridge_transactions = [],
      disputed_updates = []\<rparr>"

definition register_operator ::
  "crypto_env \<Rightarrow> bytes \<Rightarrow> u128 \<Rightarrow> OracleBridgeEngine \<Rightarrow> OracleBridgeEngine \<times> (OracleError, unit) outcome" where
  "register_operator c operator_id balance e =
     (if \<not> pk_from_bytes_ok c operator_id then (e, Err InvalidOperatorKey)
      else if bt_contains (operators e) operator_id then (e, Err OperatorAlreadyRegistered)
      else
        (e\<lparr>operators := bt_insert operator_id
             \<lparr>oo_operator_id = operator_id, updates_submitted = 0, accepted_updates = 0, rejected_updates = 0,
              oo_disputed_updates = 0, slashing_balance = balance, reputation_score = 5000\<rparr> (operators e)\<rparr>, Ok ()))"

definition valid_signature :: "crypto_env \<Rightarrow> OracleOperator \<Rightarrow> PriceUpdate \<Rightarrow> bool" where
  "valid_signature c operator u \<longleftrightarrow>
     pu_signature u \<noteq> [] \<and> oo_operator_id operator = pu_operator_id u \<and>
     pk_from_bytes_ok c (oo_operator_id operator) \<and> sig_from_bytes_ok c (pu_signature u) \<and>
     verify_detached_signature c (pu_signature u) (oracle_signing_message u) (oo_operator_id operator)"

definition submit_price_update ::
  "crypto_env \<Rightarrow> PriceUpdate \<Rightarrow> OracleBridgeEngine \<Rightarrow> OracleBridgeEngine \<times> (OracleError, unit) outcome" where
  "submit_price_update c u e =
     (case bt_get (operators e) (pu_operator_id u) of
        None \<Rightarrow> (e, Err OperatorNotRegistered)
      | Some operator \<Rightarrow>
          if pu_confidence_bps u > 5000 then (e, Err InsufficientConfidence)
          else if \<not> valid_signature c operator u then
            (e\<lparr>operators := bt_modify (pu_operator_id u)
                 (\<lambda>op. op\<lparr>updates_submitted := wrap_add 64 (updates_submitted op) 1,
                          rejected_updates := wrap_add 64 (rejected_updates op) 1\<rparr>) (operators e)\<rparr>,
             Err OracleInvalidSignature)
          else
            (e\<lparr>price_updates := bt_insert (pu_asset u) (bt_get_or (price_updates e) (pu_asset u) [] @ [u]) (price_updates e),
               operators := bt_modify (pu_operator_id u)
                 (\<lambda>op. op\<lparr>updates_submitted := wrap_add 64 (updates_submitted op) 1,
                          accepted_updates := wrap_add 64 (accepted_updates op) 1\<rparr>) (operators e)\<rparr>, Ok ()))"

text \<open>The newest fresh update of each operator; among equal timestamps the one submitted last.\<close>

definition keep_newest :: "PriceUpdate \<Rightarrow> (bytes, PriceUpdate) btree_map \<Rightarrow> (bytes, PriceUpdate) btree_map" where
  "keep_newest u m =
     (if (case bt_get m (pu_operator_id u) of None \<Rightarrow> True | Some current \<Rightarrow> pu_timestamp u \<ge> pu_timestamp current)
      then bt_insert (pu_operator_id u) u m else m)"

definition fresh_updates :: "PriceUpdate list \<Rightarrow> u64 \<Rightarrow> u64 \<Rightarrow> PriceUpdate list" where
  "fresh_updates us now max_age = bt_values (fold keep_newest (filter (\<lambda>u. is_fresh u now max_age) us) [])"

definition median_of :: "u128 list \<Rightarrow> u128" where
  "median_of prices = sort prices ! (length prices div 2)"

text \<open>The sum is truncated to 16 bits before the division; \<open>None\<close> is a division by zero.\<close>

abbreviation agg_confidence :: "u16 list \<Rightarrow> u16 option" where
  "agg_confidence cs \<equiv> (if cast 16 (length cs) = 0 then None else Some (cast 16 (wrap_sum 32 cs) div cast 16 (length cs)))"

definition aggregate_prices ::
  "crypto_env \<Rightarrow> string \<Rightarrow> u64 \<Rightarrow> u64 \<Rightarrow> OracleBridgeEngine \<Rightarrow> OracleBridgeEngine \<times> (OracleError, AggregatedPrice) outcome" where
  "aggregate_prices c asset current_timestamp max_age_seconds e =
     (case bt_get (price_updates e) asset of
        None \<Rightarrow> (e, Err NoDataForAsset)
      | Some updates \<Rightarrow>
          let fresh = fresh_updates updates current_timestamp max_age_seconds in
          if length fresh < 3 then (e, Err InsufficientSources)
          else
            let prices = map price fresh; median = median_of prices;
                mean = wrap_sum 128 (sort prices) div length prices in
            (case agg_confidence (map pu_confidence_bps fresh) of
               None \<Rightarrow> (e, Panic)
             | Some confidence \<Rightarrow>
                 let agg0 = \<lparr>ap_asset = asset, median_price = median, mean_price = mean, ap_confidence_bps = confidence,
                       source_count = cast 32 (length fresh), ap_timestamp = current_timestamp, aggregation_hash = []\<rparr>;
                     agg = agg0\<lparr>aggregation_hash := agg_hash c agg0\<rparr>
                 in (e\<lparr>aggregated_prices := bt_insert asset agg (aggregated_prices e)\<rparr>, Ok agg)))"

definition dispute_price_update ::
  "bytes \<Rightarrow> bytes \<Rightarrow> bytes \<Rightarrow> bytes \<Rightarrow> u64 \<Rightarrow> OracleBridgeEngine \<Rightarrow> OracleBridgeEngine \<times> (OracleError, unit) outcome" where
  "dispute_price_update operator_id update challenger evidence epoch e =
     (if \<not> bt_contains (operators e) operator_id then (e, Err OperatorNotRegistered)
      else
        (e\<lparr>disputed_updates := bt_insert update
             \<lparr>dr_price_update_hash = update, dr_operator_id = operator_id, challenger_id = challenger,
              evidence_hash = evidence, dispute_epoch = epoch\<rparr> (disputed_updates e),
           operators := bt_modify operator_id
             (\<lambda>op. let op1 = op\<lparr>oo_disputed_updates := wrap_add 64 (oo_disputed_updates op) 1,
                                accepted_updates := sat_sub (accepted_updates op) 1\<rparr>
                   in op1\<lparr>reputation_score := f64_to_uint 16 (f64_mul (accuracy_rate op1) 10000)\<rparr>) (operators e)\<rparr>, Ok ()))"

definition register_bridge ::
  "u64 \<Rightarrow> BridgeConfig \<Rightarrow> OracleBridgeEngine \<Rightarrow> OracleBridgeEngine \<times> (OracleError, unit) outcome" where
  "register_bridge chain config e =
     (case bridge_validate config of
        Err x \<Rightarrow> (e, Err x)
      | Panic \<Rightarrow> (e, Panic)
      | Ok _ \<Rightarrow>
          if bt_contains (bridge_configs e) chain then (e, Err BridgeAlreadyRegistered)
          else (e\<lparr>bridge_configs := bt_insert chain config (bridge_configs e)\<rparr>, Ok ()))"

definition finalize_bridge_transaction ::
  "BridgeTransaction \<Rightarrow> OracleBridgeEngine \<Rightarrow> OracleBridgeEngine \<times> (OracleError, unit) outcome" where
  "finalize_bridge_transaction tx e =
     (case bt_get (bridge_configs e) (dest_chain tx) of
        None \<Rightarrow> (e, Err BridgeNotRegistered)
      | Some config \<Rightarrow>
          if kill_switch_enabled config then (e, Err BridgePaused)
          else if bt_amount tx = 0 then (e, Err InvalidBridgeAmount)
          else (e\<lparr>bridge_transactions := bt_insert (bt_tx_id tx) tx (bridge_transactions e)\<rparr>, Ok ()))"

abbreviation get_operator_reputation :: "OracleBridgeEngine \<Rightarrow> bytes \<Rightarrow> (OracleError, u16) outcome" where
  "get_operator_reputation e operator_id \<equiv> ok_or OperatorNotRegistered (map_option reputation_score (bt_get (operators e) operator_id))"

section \<open>Medians\<close>

text \<open>A majority decides the median.\<close>

lemma median_majority:
  assumes "length xs < 2 * length (filter (\<lambda>x. lo \<le> x \<and> x \<le> hi) xs)"
  shows "lo \<le> median_of xs \<and> median_of xs \<le> hi"
proof -
  define ys where "ys = sort xs"
  let ?n = "length ys" and ?k = "length ys div 2"
  let ?in = "{i. i < ?n \<and> lo \<le> ys ! i \<and> ys ! i \<le> hi}"
  have "length (filter (\<lambda>x. lo \<le> x \<and> x \<le> hi) ys) = length (filter (\<lambda>x. lo \<le> x \<and> x \<le> hi) xs)"
    unfolding ys_def by (metis filter_sort length_sort)
  then have many: "?n < 2 * card ?in" using assms by (simp add: length_filter_conv_card ys_def)
  have srt: "ys ! i \<le> ys ! j" if "i \<le> j" "j < ?n" for i j
    using sorted_nth_mono [of ys i j] that by (simp add: ys_def)
  have "?n \<noteq> 0" using many by auto
  then have k: "?k < ?n" by simp
  have "lo \<le> ys ! ?k"
  proof (rule ccontr)
    assume "\<not> lo \<le> ys ! ?k"
    then have "?in \<subseteq> {Suc ?k..<?n}" using srt [of _ ?k] k by (fastforce simp: not_le Suc_le_eq)
    then have "card ?in \<le> ?n - Suc ?k" using card_mono [of "{Suc ?k..<?n}" ?in] by simp
    then show False using many by linarith
  qed
  moreover have "ys ! ?k \<le> hi"
  proof (rule ccontr)
    assume "\<not> ys ! ?k \<le> hi"
    then have "?in \<subseteq> {0..<?k}" using srt [of ?k] by (fastforce simp: not_le)
    then have "card ?in \<le> ?k" using card_mono [of "{0..<?k}" ?in] by simp
    then show False using many by linarith
  qed
  ultimately show ?thesis by (simp add: median_of_def ys_def)
qed

text \<open>Fourteen sources of the largest admitted interval report an aggregate interval of 318 instead of 5000.\<close>

lemma agg_confidence_wraps: "agg_confidence (replicate 14 5000) = Some 318"
  by (simp add: wrap_sum_eq cast_def sum_list_replicate)

section \<open>One vote per operator\<close>

definition newest_inv :: "PriceUpdate list \<Rightarrow> (bytes, PriceUpdate) btree_map \<Rightarrow> bool" where
  "newest_inv us m \<longleftrightarrow> bt_wf m \<and>
     (\<forall>k u. bt_get m k = Some u \<longrightarrow> pu_operator_id u = k \<and> u \<in> set us) \<and>
     (\<forall>u \<in> set us. \<exists>w. bt_get m (pu_operator_id u) = Some w \<and> pu_timestamp u \<le> pu_timestamp w)"

lemma newest_put:
  assumes inv: "newest_inv us m"
    and newer: "\<And>w. bt_get m (pu_operator_id u) = Some w \<Longrightarrow> pu_timestamp w \<le> pu_timestamp u"
  shows "newest_inv (us @ [u]) (bt_insert (pu_operator_id u) u m)"
proof -
  have wf: "bt_wf m" using inv by (simp add: newest_inv_def)
  have get: "bt_get (bt_insert (pu_operator_id u) u m) k = (if k = pu_operator_id u then Some u else bt_get m k)" for k
    using wf by simp
  have cover: "\<exists>w. bt_get (bt_insert (pu_operator_id u) u m) (pu_operator_id x) = Some w \<and> pu_timestamp x \<le> pu_timestamp w"
    if x: "x \<in> set us" for x
  proof -
    obtain w where w: "bt_get m (pu_operator_id x) = Some w" "pu_timestamp x \<le> pu_timestamp w"
      using inv x unfolding newest_inv_def by blast
    show ?thesis
    proof (cases "pu_operator_id x = pu_operator_id u")
      case True
      have "pu_timestamp w \<le> pu_timestamp u" using newer w(1) True by simp
      then show ?thesis using True w(2) get by auto
    next
      case False
      then show ?thesis using w get by auto
    qed
  qed
  have own: "pu_operator_id v = k \<and> v \<in> set (us @ [u])"
    if v: "bt_get (bt_insert (pu_operator_id u) u m) k = Some v" for k v
  proof (cases "k = pu_operator_id u")
    case True
    then show ?thesis using v get by simp
  next
    case False
    then have "bt_get m k = Some v" using v get by simp
    then show ?thesis using inv unfolding newest_inv_def by auto
  qed
  have last: "\<exists>w. bt_get (bt_insert (pu_operator_id u) u m) (pu_operator_id u) = Some w \<and> pu_timestamp u \<le> pu_timestamp w"
    using get by simp
  have wf': "bt_wf (bt_insert (pu_operator_id u) u m)" using wf by simp
  have all: "\<forall>x \<in> set (us @ [u]). \<exists>w. bt_get (bt_insert (pu_operator_id u) u m) (pu_operator_id x) = Some w
      \<and> pu_timestamp x \<le> pu_timestamp w"
    using cover last by (simp only: set_append list.set Un_iff insert_iff empty_iff) blast
  show ?thesis unfolding newest_inv_def using wf' own all by blast
qed

lemma newest_skip:
  assumes inv: "newest_inv us m" and w: "bt_get m (pu_operator_id u) = Some w" "pu_timestamp u \<le> pu_timestamp w"
  shows "newest_inv (us @ [u]) m"
  using inv w unfolding newest_inv_def by (simp only: set_append list.set Un_iff insert_iff empty_iff) blast

lemma newest_step:
  assumes "newest_inv us m"
  shows "newest_inv (us @ [u]) (keep_newest u m)"
proof (cases "bt_get m (pu_operator_id u)")
  case None
  then show ?thesis using newest_put [OF assms, of u] by (simp add: keep_newest_def)
next
  case (Some w)
  show ?thesis
  proof (cases "pu_timestamp w \<le> pu_timestamp u")
    case True
    then show ?thesis using newest_put [OF assms, of u] Some by (simp add: keep_newest_def)
  next
    case False
    then show ?thesis using newest_skip [OF assms Some] Some by (simp add: keep_newest_def)
  qed
qed

lemma newest_fold: "newest_inv us m \<Longrightarrow> newest_inv (us @ vs) (fold keep_newest vs m)"
proof (induction vs arbitrary: us m)
  case (Cons v vs)
  show ?case using Cons.IH [OF newest_step [OF Cons.prems, of v]] by simp
qed simp

lemma fresh_votes:
  assumes "us' = fresh_updates us now age"
  shows "distinct (map pu_operator_id us')"
    and "u \<in> set us' \<Longrightarrow> u \<in> set us \<and> is_fresh u now age"
    and "u \<in> set us' \<Longrightarrow> w \<in> set us \<Longrightarrow> is_fresh w now age \<Longrightarrow> pu_operator_id w = pu_operator_id u \<Longrightarrow>
      pu_timestamp w \<le> pu_timestamp u"
proof -
  let ?fs = "filter (\<lambda>u. is_fresh u now age) us"
  define m where "m = fold keep_newest ?fs []"
  have "newest_inv [] []" by (simp add: newest_inv_def)
  then have inv: "newest_inv ?fs m" unfolding m_def using newest_fold [of "[]" "[]" ?fs] by simp
  have wf: "bt_wf m" using inv by (simp add: newest_inv_def)
  have us': "us' = bt_values m" by (simp add: assms fresh_updates_def m_def)
  have entry: "pu_operator_id u = k \<and> u \<in> set ?fs" if ku: "(k, u) \<in> set m" for k u
  proof -
    have "bt_get m k = Some u" using bt_get_in [OF wf] ku by simp
    then show ?thesis using inv unfolding newest_inv_def by blast
  qed
  have in_m: "\<exists>k. (k, u) \<in> set m" if "u \<in> set us'" for u
    using that unfolding us' set_map by force
  have "map (\<lambda>q. pu_operator_id (snd q)) m = bt_keys m"
  proof (rule map_cong [OF refl])
    fix q assume "q \<in> set m"
    then show "pu_operator_id (snd q) = fst q" using entry [of "fst q" "snd q"] by simp
  qed
  then have "map pu_operator_id us' = bt_keys m" by (simp add: us' comp_def)
  then show "distinct (map pu_operator_id us')" using bt_wf_distinct [OF wf] by simp
  show "u \<in> set us \<and> is_fresh u now age" if "u \<in> set us'"
  proof -
    obtain k where "(k, u) \<in> set m" using in_m \<open>u \<in> set us'\<close> by blast
    then have "u \<in> set ?fs" using entry by blast
    then show ?thesis by simp
  qed
  show "pu_timestamp w \<le> pu_timestamp u"
    if u: "u \<in> set us'" and w: "w \<in> set us" "is_fresh w now age" "pu_operator_id w = pu_operator_id u"
  proof -
    obtain k where k: "(k, u) \<in> set m" using in_m u by blast
    then have get: "bt_get m (pu_operator_id w) = Some u" using entry [OF k] bt_get_in [OF wf] w(3) by simp
    have "w \<in> set ?fs" using w by simp
    then obtain x where "bt_get m (pu_operator_id w) = Some x" "pu_timestamp w \<le> pu_timestamp x"
      using inv unfolding newest_inv_def by blast
    then show ?thesis using get by simp
  qed
qed

section \<open>Runs of the engine\<close>

datatype or_op =
    OrRegister bytes u128
  | OrSubmit PriceUpdate
  | OrAggregate string u64 u64
  | OrDispute bytes bytes bytes bytes u64
  | OrBridge u64 BridgeConfig
  | OrFinalize BridgeTransaction

primrec or_step :: "crypto_env \<Rightarrow> or_op \<Rightarrow> OracleBridgeEngine \<Rightarrow> OracleBridgeEngine" where
  "or_step c (OrRegister i b) e = fst (register_operator c i b e)"
| "or_step c (OrSubmit u) e = fst (submit_price_update c u e)"
| "or_step c (OrAggregate a now age) e = fst (aggregate_prices c a now age e)"
| "or_step c (OrDispute i h ch ev ep) e = fst (dispute_price_update i h ch ev ep e)"
| "or_step c (OrBridge i b) e = fst (register_bridge i b e)"
| "or_step c (OrFinalize tx) e = fst (finalize_bridge_transaction tx e)"

definition pu_authentic :: "crypto_env \<Rightarrow> PriceUpdate \<Rightarrow> bool" where
  "pu_authentic c u \<longleftrightarrow> pu_confidence_bps u \<le> 5000 \<and> sig_from_bytes_ok c (pu_signature u) \<and>
     verify_detached_signature c (pu_signature u) (oracle_signing_message u) (pu_operator_id u)"

definition stored_ok :: "crypto_env \<Rightarrow> OracleBridgeEngine \<Rightarrow> string \<Rightarrow> PriceUpdate \<Rightarrow> bool" where
  "stored_ok c e a u \<longleftrightarrow> pu_asset u = a \<and> bt_contains (operators e) (pu_operator_id u) \<and> pu_authentic c u"

definition or_inv :: "crypto_env \<Rightarrow> OracleBridgeEngine \<Rightarrow> bool" where
  "or_inv c e \<longleftrightarrow> (\<forall>a us u. bt_get (price_updates e) a = Some us \<longrightarrow> u \<in> set us \<longrightarrow> stored_ok c e a u)"

lemma or_inv_keep:
  assumes "or_inv c e" "price_updates e' = price_updates e"
    "\<And>k. bt_contains (operators e) k \<Longrightarrow> bt_contains (operators e') k"
  shows "or_inv c e'"
  using assms unfolding or_inv_def stored_ok_def by metis

lemma or_inv_submit:
  assumes inv: "or_inv c e"
  shows "or_inv c (fst (submit_price_update c u e))"
proof (cases "bt_get (operators e) (pu_operator_id u)")
  case None
  then show ?thesis using inv by (simp add: submit_price_update_def)
next
  case (Some operator)
  let ?e = "fst (submit_price_update c u e)"
  have keeps: "bt_contains (operators ?e) k = bt_contains (operators e) k" for k
    using Some by (auto simp: submit_price_update_def bt_contains_get)
  show ?thesis
  proof (cases "pu_confidence_bps u \<le> 5000 \<and> valid_signature c operator u")
    case False
    then have "price_updates ?e = price_updates e" using Some by (auto simp: submit_price_update_def)
    then show ?thesis using or_inv_keep [OF inv] keeps by blast
  next
    case True
    then have pu: "price_updates ?e =
        bt_insert (pu_asset u) (bt_get_or (price_updates e) (pu_asset u) [] @ [u]) (price_updates e)"
      using Some by (simp add: submit_price_update_def)
    have new: "stored_ok c ?e (pu_asset u) u"
      using True Some keeps by (auto simp: stored_ok_def pu_authentic_def valid_signature_def bt_contains_get)
    have old: "stored_ok c ?e a w" if "bt_get (price_updates e) a = Some us" "w \<in> set us" for a us w
      using inv that keeps unfolding or_inv_def stored_ok_def by blast
    have "stored_ok c ?e a w" if g: "bt_get (price_updates ?e) a = Some us" and w: "w \<in> set us" for a us w
    proof (cases "a = pu_asset u")
      case True
      then have "us = bt_get_or (price_updates e) a [] @ [u]" using g pu by simp
      then show ?thesis using new old w True by (cases "bt_get (price_updates e) a") (auto simp: bt_get_or_def)
    next
      case False
      then show ?thesis using old g pu w by simp
    qed
    then show ?thesis unfolding or_inv_def by blast
  qed
qed

lemma or_inv_step:
  assumes inv: "or_inv c e"
  shows "or_inv c (or_step c a e)"
proof (cases a)
  case (OrSubmit u)
  then show ?thesis using or_inv_submit [OF inv] by simp
qed ((rule or_inv_keep [OF inv];
     auto simp: register_operator_def aggregate_prices_def dispute_price_update_def register_bridge_def
       finalize_bridge_transaction_def bt_contains_get Let_def split: option.splits outcome.splits)+)

interpretation price_feed: machine "or_step c" "or_inv c" "\<lambda>_. True" for c
  by unfold_locales (rule or_inv_step)

lemma or_inv_run: "or_inv c (fold (or_step c) ops or_genesis)"
proof -
  have "or_inv c or_genesis" by (simp add: or_inv_def or_genesis_def)
  then show ?thesis using price_feed.run_inv [of c or_genesis ops] by (simp add: list_all_iff)
qed

lemma aggregate_ok:
  assumes "snd (aggregate_prices c asset now age e) = Ok agg"
  obtains us where "bt_get (price_updates e) asset = Some us" "3 \<le> length (fresh_updates us now age)"
    "median_price agg = median_of (map price (fresh_updates us now age))"
    "source_count agg = cast 32 (length (fresh_updates us now age))" "agg_verify c agg = Ok ()"
proof (cases "bt_get (price_updates e) asset")
  case None
  then show ?thesis using assms by (simp add: aggregate_prices_def)
next
  case (Some us)
  then show ?thesis using assms that [of us]
    by (auto simp: aggregate_prices_def Let_def agg_hash_def split: if_splits option.splits)
qed

text \<open>C16: in every engine reached from genesis by any sequence of operations, a successful aggregation counts at
  least three updates of the asset, at most one per operator; each is fresh, was signed by a registered
  operator and is that operator's newest fresh one; and whenever more than half of the counted prices lie in
  an interval, so does the median that is published.
\<close>

theorem aggregate_needs_majority:
  assumes e: "e = fold (or_step c) ops or_genesis"
    and ok: "snd (aggregate_prices c asset now age e) = Ok agg"
    and us: "us = bt_get_or (price_updates e) asset []" and votes: "votes = fresh_updates us now age"
  shows "3 \<le> length votes \<and> source_count agg = cast 32 (length votes) \<and> distinct (map pu_operator_id votes) \<and>
    (\<forall>u \<in> set votes. u \<in> set us \<and> is_fresh u now age \<and> stored_ok c e asset u \<and>
       (\<forall>w \<in> set us. is_fresh w now age \<and> pu_operator_id w = pu_operator_id u \<longrightarrow> pu_timestamp w \<le> pu_timestamp u)) \<and>
    (length votes < 2 * length (filter (\<lambda>u. lo \<le> price u \<and> price u \<le> hi) votes) \<longrightarrow>
       lo \<le> median_price agg \<and> median_price agg \<le> hi)"
proof -
  obtain vs where vs: "bt_get (price_updates e) asset = Some vs" "3 \<le> length (fresh_updates vs now age)"
    "median_price agg = median_of (map price (fresh_updates vs now age))"
    "source_count agg = cast 32 (length (fresh_updates vs now age))"
    using aggregate_ok [OF ok] by blast
  have same: "us = vs" using us vs(1) by (simp add: bt_get_or_def)
  have stored: "stored_ok c e asset u" if "u \<in> set us" for u
    using or_inv_run [of c ops] vs(1) that unfolding e same or_inv_def by blast
  have med: "lo \<le> median_price agg \<and> median_price agg \<le> hi"
    if "length votes < 2 * length (filter (\<lambda>u. lo \<le> price u \<and> price u \<le> hi) votes)"
    using median_majority [of "map price votes" lo hi] that vs(3)
    by (simp add: votes same filter_map comp_def)
  note fv = fresh_votes [OF votes]
  show ?thesis using vs(2,4) fv stored med unfolding votes [symmetric] same [symmetric] by blast
qed

definition feed_env :: crypto_env where
  "feed_env = demo_env\<lparr>pk_from_bytes_ok := (\<lambda>k. length k = 1), sig_from_bytes_ok := (\<lambda>s. length s = 1),
     verify_detached_signature := (\<lambda>s m k. s = k)\<rparr>"

definition feed_update :: "nat \<Rightarrow> u128 \<Rightarrow> PriceUpdate" where
  "feed_update i p = \<lparr>pu_source = Custom [i], pu_asset = ''A'', price = p, pu_timestamp = 1000, pu_confidence_bps = 100,
     pu_operator_id = [i], pu_signature = [i]\<rparr>"

definition feed_ops :: "or_op list" where
  "feed_ops = [OrRegister [2] 9, OrRegister [3] 9, OrRegister [4] 9,
     OrSubmit (feed_update 2 45), OrSubmit (feed_update 3 46), OrSubmit (feed_update 4 9000)]"

lemma feed_run:
  "price_updates (fold (or_step feed_env) feed_ops or_genesis) =
     [(''A'', [feed_update 2 45, feed_update 3 46, feed_update 4 9000])]"
  by (simp add: feed_ops_def or_genesis_def register_operator_def submit_price_update_def valid_signature_def
      feed_env_def feed_update_def bt_contains_def bt_get_or_def bt_modify_def)

lemma feed_votes:
  "fresh_updates [feed_update 2 45, feed_update 3 46, feed_update 4 9000] 1000 60 =
     [feed_update 2 45, feed_update 3 46, feed_update 4 9000]"
  by (simp add: fresh_updates_def is_fresh_def keep_newest_def feed_update_def sat_sub_def)

lemma feed_aggregates:
  "\<exists>agg. snd (aggregate_prices feed_env ''A'' 1000 60 (fold (or_step feed_env) feed_ops or_genesis)) = Ok agg"
  by (simp add: aggregate_prices_def feed_run feed_votes cast_def Let_def)

theorem aggregate_needs_majority_witness:
  "\<exists>agg. snd (aggregate_prices feed_env ''A'' 1000 60 (fold (or_step feed_env) feed_ops or_genesis)) = Ok agg \<and>
     source_count agg = 3 \<and> 40 \<le> median_price agg \<and> median_price agg \<le> 50"
proof -
  let ?e = "fold (or_step feed_env) feed_ops or_genesis"
  obtain agg where agg: "snd (aggregate_prices feed_env ''A'' 1000 60 ?e) = Ok agg" using feed_aggregates by blast
  have us: "bt_get_or (price_updates ?e) ''A'' [] = [feed_update 2 45, feed_update 3 46, feed_update 4 9000]"
    by (simp add: feed_run bt_get_or_def)
  show ?thesis using aggregate_needs_majority [OF refl agg refl refl, of 40 50] agg
    unfolding us feed_votes by (auto simp: feed_update_def cast_def)
qed

end
