(* ===== verification/EconomicsRuntime.thy ===== *)
theory EconomicsRuntime
  imports Tokenomics Distribution FeeMarket Incentives OracleBridge
begin

text \<open>
  \<open>crates/bleep-economics/src/lib.rs\<close> (module \<open>integration\<close>) and \<open>runtime.rs\<close>: the four engines as one
  state and the epoch runtime that drives them.  The wall clock that \<open>process_epoch\<close> reads is the argument
  \<open>ts\<close>.  A call that returns early keeps the changes made before it, as the code does.  The lemmas show that
  every run keeps the invariants of all engines, and what a successful epoch does to the supply.
\<close>

section \<open>The integrated state\<close>

record BleepEconomics =
  tokenomics :: CanonicalTokenomicsEngine
  fee_market :: FeeMarket
  validators :: ValidatorIncentivesEngine
  oracle_bridge :: OracleBridgeEngine

datatype EconomicError =
    EcTokenomics TokenomicsError
  | EcFeeMarket FeeMarketError
  | EcValidator ValidatorError
  | EcOracle OracleError
  | EcSupplyInvariantViolation
  | EcCirculationMismatch

abbreviation econ_genesis :: "crypto_env \<Rightarrow> BleepEconomics" where
  "econ_genesis c \<equiv> \<lparr>tokenomics = tk_genesis (sha2_256 c), fee_market = fm_genesis, validators = ve_genesis, oracle_bridge = or_genesis\<rparr>"

definition verify_epoch_invariants :: "crypto_env \<Rightarrow> BleepEconomics \<Rightarrow> (EconomicError, unit) outcome" where
  "verify_epoch_invariants c s =
     (let ss = supply_state (tokenomics s) in
      bind_outcome (map_err EcTokenomics (supply_verify ss)) (\<lambda>_.
      bind_outcome (map_err EcTokenomics (supply_verify_hash (sha2_256 c) ss)) (\<lambda>_.
      if total_burned ss > total_minted ss then Err EcSupplyInvariantViolation
      else if circulating_supply ss \<noteq> sat_sub (total_minted ss) (total_burned ss) then Err EcCirculationMismatch
      else map_err EcFeeMarket (params_validate (base_fee_params (fee_market s))))))"

section \<open>The runtime\<close>

record EpochInput =
  ei_epoch :: u64
  block_count :: u64
  fee_revenue :: u128
  avg_utilisation_bps :: u16
  validator_metrics :: "ValidatorMetrics list"
  oracle_updates :: "PriceUpdate list"

record EpochOutput =
  eo_epoch :: u64
  new_base_fee :: u128
  eo_total_emitted :: u128
  eo_total_burned :: u128
  eo_circulating_supply :: u128
  reward_records :: "RewardRecord list"
  supply_state_hash :: bytes
  bleep_usd_price :: "u128 option"

datatype RuntimeError =
    RtTokenomics TokenomicsError
  | RtFeeMarket FeeMarketError
  | RtValidator ValidatorError
  | RtOracle OracleError
  | RtInvariantViolation EconomicError

record BleepEconomicsRuntime =
  rt_state :: BleepEconomics
  last_epoch :: u64
  epoch_history :: "EpochOutput list"

text \<open>Calls on one engine of the state.\<close>

definition on_tokenomics where
  "on_tokenomics f s = (case f (tokenomics s) of (t, r) \<Rightarrow> (s\<lparr>tokenomics := t\<rparr>, map_err RtTokenomics r))"

definition on_fee_market where
  "on_fee_market f s = (case f (fee_market s) of (m, r) \<Rightarrow> (s\<lparr>fee_market := m\<rparr>, map_err RtFeeMarket r))"

definition on_validators where
  "on_validators f s = (case f (validators s) of (v, r) \<Rightarrow> (s\<lparr>validators := v\<rparr>, map_err RtValidator r))"

definition on_oracle where
  "on_oracle f s = (case f (oracle_bridge s) of (b, r) \<Rightarrow> (s\<lparr>oracle_bridge := b\<rparr>, map_err RtOracle r))"

definition rt_genesis :: "crypto_env \<Rightarrow> (RuntimeError, BleepEconomicsRuntime) outcome" where
  "rt_genesis c =
     (case on_fee_market (record_shard_congestion
             \<lparr>sc_shard_id = 0, utilization_bps = 5000, pending_txns = 0, avg_tx_size_bytes = 250\<rparr>) (econ_genesis c) of
        (s, Ok _) \<Rightarrow> Ok \<lparr>rt_state = s, last_epoch = 0, epoch_history = []\<rparr>
      | _ \<Rightarrow> Panic)"

definition lift_state where
  "lift_state f r = (case f (rt_state r) of (s, x) \<Rightarrow> (r\<lparr>rt_state := s\<rparr>, x))"

definition rt_initialize_genesis_supply ::
  "crypto_env \<Rightarrow> u128 \<Rightarrow> BleepEconomicsRuntime \<Rightarrow> BleepEconomicsRuntime \<times> (RuntimeError, unit) outcome" where
  "rt_initialize_genesis_supply c a = lift_state (on_tokenomics (initialize_genesis_supply (sha2_256 c) a))"

definition rt_register_validator ::
  "bytes \<Rightarrow> u128 \<Rightarrow> BleepEconomicsRuntime \<Rightarrow> BleepEconomicsRuntime \<times> (RuntimeError, unit) outcome" where
  "rt_register_validator i stake = lift_state (on_validators (ve_register_validator i stake))"

definition rt_register_oracle_operator ::
  "crypto_env \<Rightarrow> bytes \<Rightarrow> u128 \<Rightarrow> BleepEconomicsRuntime \<Rightarrow> BleepEconomicsRuntime \<times> (RuntimeError, unit) outcome" where
  "rt_register_oracle_operator c i b = lift_state (on_oracle (register_operator c i b))"

definition rt_submit_price_update ::
  "crypto_env \<Rightarrow> PriceUpdate \<Rightarrow> BleepEconomicsRuntime \<Rightarrow> BleepEconomicsRuntime \<times> (RuntimeError, unit) outcome" where
  "rt_submit_price_update c u = lift_state (on_oracle (submit_price_update c u))"

section \<open>An epoch\<close>

abbreviation epoch_congestion :: "EpochInput \<Rightarrow> ShardCongestion" where
  "epoch_congestion i \<equiv> \<lparr>sc_shard_id = 0, utilization_bps = avg_utilisation_bps i, pending_txns = cast 32 (wrap_mul 64 (block_count i) 100),
      avg_tx_size_bytes = (if block_count i > 0 then cast 32 (fee_revenue i div block_count i) else 0)\<rparr>"

primrec submit_all :: "crypto_env \<Rightarrow> PriceUpdate list \<Rightarrow> BleepEconomics \<Rightarrow> BleepEconomics \<times> (RuntimeError, unit) outcome" where
  "submit_all c [] s = (s, Ok ())"
| "submit_all c (u # us) s = and_then (on_oracle (submit_price_update c u) s) (\<lambda>s _. submit_all c us s)"

definition epoch_price :: "crypto_env \<Rightarrow> u64 \<Rightarrow> BleepEconomics \<Rightarrow> BleepEconomics \<times> (RuntimeError, u128 option) outcome" where
  "epoch_price c ts s =
     (case aggregate_prices c ''BLEEP/USD'' ts 300 (oracle_bridge s) of
        (b, Ok agg) \<Rightarrow> (s\<lparr>oracle_bridge := b\<rparr>, Ok (Some (median_price agg)))
      | (b, Err _) \<Rightarrow> (s\<lparr>oracle_bridge := b\<rparr>, Ok None)
      | (b, Panic) \<Rightarrow> (s\<lparr>oracle_bridge := b\<rparr>, Panic))"

definition record_all_metrics :: "ValidatorMetrics list \<Rightarrow> BleepEconomics \<Rightarrow> BleepEconomics" where
  "record_all_metrics ms s =
     s\<lparr>validators := fold (\<lambda>m v. fst (record_metrics (vm_validator_id m) m v)) ms (validators s)\<rparr>"

definition epoch_rewards ::
  "crypto_env \<Rightarrow> u64 \<Rightarrow> BleepEconomics \<Rightarrow> BleepEconomics \<times> (RuntimeError, RewardRecord list) outcome" where
  "epoch_rewards c epoch s =
     (case compute_epoch_rewards (sha2_256 c) epoch (validators s) of
        (v, Ok rs) \<Rightarrow> (s\<lparr>validators := v\<rparr>, Ok rs)
      | (v, Err _) \<Rightarrow> (s\<lparr>validators := v\<rparr>, Ok [])
      | (v, Panic) \<Rightarrow> (s\<lparr>validators := v\<rparr>, Panic))"

definition settle_epoch ::
  "crypto_env \<Rightarrow> u64 \<Rightarrow> u128 \<Rightarrow> FeeDistribution \<Rightarrow> BleepEconomics \<Rightarrow> BleepEconomics \<times> (RuntimeError, bytes) outcome" where
  "settle_epoch c epoch emitted fd s0 =
     and_then (if emitted > 0 then on_tokenomics (record_emission (sha2_256 c) epoch BlockProposal emitted) s0 else (s0, Ok ())) (\<lambda>s1 _.
     and_then (if fd_burned fd > 0 then on_tokenomics (record_burn (sha2_256 c) epoch TransactionFee (fd_burned fd)) s1 else (s1, Ok ())) (\<lambda>s2 _.
     and_then (if fd_validator_reward fd > 0
               then ignore_err (on_tokenomics (record_emission (sha2_256 c) epoch BlockProposal (fd_validator_reward fd)) s2)
               else (s2, Ok ())) (\<lambda>s3 _.
     and_then (if fd_treasury fd > 0 then ignore_err (on_tokenomics (record_burn (sha2_256 c) epoch ProposalRejection 0) s3)
               else (s3, Ok ())) (\<lambda>s4 _.
     on_tokenomics (finalize_epoch (sha2_256 c) epoch) s4))))"

definition push_output :: "EpochOutput \<Rightarrow> EpochOutput list \<Rightarrow> EpochOutput list" where
  "push_output out h = (if length h \<ge> 100 then tl h else h) @ [out]"

definition epoch_state ::
  "crypto_env \<Rightarrow> u64 \<Rightarrow> EpochInput \<Rightarrow> BleepEconomics \<Rightarrow> BleepEconomics \<times> (RuntimeError, EpochOutput) outcome" where
  "epoch_state c ts i s0 =
     and_then (on_fee_market (update_base_fee (ei_epoch i) (avg_utilisation_bps i)) s0) (\<lambda>s1 fee.
     and_then (on_fee_market (record_shard_congestion (epoch_congestion i)) s1) (\<lambda>s2 _.
     and_then (submit_all c (oracle_updates i) s2) (\<lambda>s3 _.
     and_then (epoch_price c ts s3) (\<lambda>s4 usd.
     and_then (epoch_rewards c (ei_epoch i) (record_all_metrics (validator_metrics i) s4)) (\<lambda>s5 rs.
     let emitted = wrap_sum 128 (map total_reward rs); fd = fee_compute (fee_revenue i) in
     and_then (settle_epoch c (ei_epoch i) emitted fd s5) (\<lambda>s6 h.
     case verify_epoch_invariants c s6 of
       Err e \<Rightarrow> (s6, Err (RtInvariantViolation e))
     | Panic \<Rightarrow> (s6, Panic)
     | Ok _ \<Rightarrow>
         (s6, Ok \<lparr>eo_epoch = ei_epoch i, new_base_fee = fee, eo_total_emitted = emitted, eo_total_burned = fd_burned fd,
                 eo_circulating_supply = circulating_supply (supply_state (tokenomics s6)), reward_records = rs,
                 supply_state_hash = h, bleep_usd_price = usd\<rparr>)))))))"

definition process_epoch ::
  "crypto_env \<Rightarrow> u64 \<Rightarrow> EpochInput \<Rightarrow> BleepEconomicsRuntime \<Rightarrow> BleepEconomicsRuntime \<times> (RuntimeError, EpochOutput) outcome" where
  "process_epoch c ts i r =
     and_then (lift_state (epoch_state c ts i) r) (\<lambda>r out.
       (r\<lparr>last_epoch := ei_epoch i, epoch_history := push_output out (epoch_history r)\<rparr>, Ok out))"

abbreviation rt_circulating_supply :: "BleepEconomicsRuntime \<Rightarrow> u128" where
  "rt_circulating_supply r \<equiv> circulating_supply (supply_state (tokenomics (rt_state r)))"

abbreviation rt_current_base_fee :: "BleepEconomicsRuntime \<Rightarrow> u128" where
  "rt_current_base_fee r \<equiv> current_base_fee (base_fee_params (fee_market (rt_state r)))"

definition rt_total_burned :: "BleepEconomicsRuntime \<Rightarrow> u128" where
  "rt_total_burned r = total_burned (supply_state (tokenomics (rt_state r)))"

definition rt_total_minted :: "BleepEconomicsRuntime \<Rightarrow> u128" where
  "rt_total_minted r = total_minted (supply_state (tokenomics (rt_state r)))"

abbreviation get_epoch_output :: "BleepEconomicsRuntime \<Rightarrow> u64 \<Rightarrow> EpochOutput option" where
  "get_epoch_output r epoch \<equiv> find (\<lambda>entry. eo_epoch entry = epoch) (epoch_history r)"

section \<open>The invariant of the integrated state\<close>

definition econ_ok :: "crypto_env \<Rightarrow> BleepEconomics \<Rightarrow> bool" where
  "econ_ok c s \<longleftrightarrow> tk_inv (sha2_256 c) (tokenomics s) \<and> emission_schedule (tokenomics s) = EmissionSchedule_new \<and>
     market_ok (fee_market s) \<and> ve_inv (validators s) \<and> or_inv c (oracle_bridge s)"

lemma schedule_kept:
  "emission_schedule (fst (initialize_genesis_supply h a e)) = emission_schedule e"
  "emission_schedule (fst (record_emission h ep t a e)) = emission_schedule e"
  "emission_schedule (fst (record_burn h ep b a e)) = emission_schedule e"
  "emission_schedule (fst (finalize_epoch h ep e)) = emission_schedule e"
  by (auto simp: initialize_genesis_supply_def record_emission_def record_burn_def finalize_epoch_def
      apply_emission_def apply_burn_def Let_def split: outcome.splits option.splits)

lemma econ_ok_tokenomics:
  assumes "econ_ok c s" "tk_inv (sha2_256 c) (fst (f (tokenomics s)))"
    "emission_schedule (fst (f (tokenomics s))) = emission_schedule (tokenomics s)"
  shows "econ_ok c (fst (on_tokenomics f s))"
  using assms by (simp add: econ_ok_def on_tokenomics_def case_prod_beta)

lemma econ_ok_emit: "econ_ok c s \<Longrightarrow> econ_ok c (fst (on_tokenomics (record_emission (sha2_256 c) ep t a) s))"
  by (rule econ_ok_tokenomics) (auto simp: econ_ok_def record_emission_inv schedule_kept)

lemma econ_ok_burn: "econ_ok c s \<Longrightarrow> econ_ok c (fst (on_tokenomics (record_burn (sha2_256 c) ep t a) s))"
  by (rule econ_ok_tokenomics) (auto simp: econ_ok_def record_burn_inv schedule_kept)

lemma econ_ok_finalize: "econ_ok c s \<Longrightarrow> econ_ok c (fst (on_tokenomics (finalize_epoch (sha2_256 c) ep) s))"
  by (rule econ_ok_tokenomics) (auto simp: econ_ok_def finalize_epoch_Ok schedule_kept)

lemma econ_ok_init: "econ_ok c s \<Longrightarrow> econ_ok c (fst (on_tokenomics (initialize_genesis_supply (sha2_256 c) a) s))"
  by (rule econ_ok_tokenomics) (auto simp: econ_ok_def initialize_inv schedule_kept)

lemma econ_ok_fees:
  "econ_ok c s \<Longrightarrow> econ_ok c (fst (on_fee_market (update_base_fee ep util) s))"
  "econ_ok c s \<Longrightarrow> econ_ok c (fst (on_fee_market (record_shard_congestion g) s))"
  by (simp_all add: econ_ok_def on_fee_market_def case_prod_beta market_ok_update market_ok_congestion)

lemma econ_ok_register: "econ_ok c s \<Longrightarrow> stake < 2 ^ 128 \<Longrightarrow> econ_ok c (fst (on_validators (ve_register_validator i stake) s))"
  using incentives.step_inv [of "validators s" "VeRegister i stake"]
  by (simp add: econ_ok_def on_validators_def case_prod_beta)

lemma econ_ok_oracle:
  "econ_ok c s \<Longrightarrow> econ_ok c (fst (on_oracle (register_operator c i b) s))"
  "econ_ok c s \<Longrightarrow> econ_ok c (fst (on_oracle (submit_price_update c u) s))"
  using or_inv_step [of c "oracle_bridge s" "OrRegister i b"] or_inv_step [of c "oracle_bridge s" "OrSubmit u"]
  by (simp_all add: econ_ok_def on_oracle_def case_prod_beta)

lemma econ_ok_submit_all: "econ_ok c s \<Longrightarrow> econ_ok c (fst (submit_all c us s))"
proof (induction us arbitrary: s)
  case (Cons u us)
  show ?case unfolding submit_all.simps
    by (rule and_then_keeps [where P = "econ_ok c"]) (use econ_ok_oracle(2) [OF Cons.prems] Cons.IH in auto)
qed simp

lemma econ_ok_price:
  assumes "econ_ok c s"
  shows "econ_ok c (fst (epoch_price c ts s))"
proof -
  obtain b x where p: "aggregate_prices c ''BLEEP/USD'' ts 300 (oracle_bridge s) = (b, x)" by force
  have "or_inv c b" using or_inv_step [of c "oracle_bridge s" "OrAggregate ''BLEEP/USD'' ts 300"] assms p
    by (simp add: econ_ok_def)
  then show ?thesis using assms p by (cases x) (simp_all add: epoch_price_def econ_ok_def)
qed

lemma econ_ok_metrics:
  assumes "econ_ok c s" "list_all typed_metrics ms"
  shows "econ_ok c (record_all_metrics ms s)"
proof -
  have "ve_inv (fold (\<lambda>m v. fst (record_metrics (vm_validator_id m) m v)) ms v)" if "ve_inv v" for v
    using assms(2) that
  proof (induction ms arbitrary: v)
    case (Cons m ms)
    then have "ve_inv (fst (record_metrics (vm_validator_id m) m v))"
      using incentives.step_inv [of v "VeMetrics (vm_validator_id m) m"] by simp
    then show ?case using Cons by simp
  qed simp
  then show ?thesis using assms(1) by (simp add: econ_ok_def record_all_metrics_def)
qed

lemma econ_ok_rewards: "econ_ok c s \<Longrightarrow> econ_ok c (fst (epoch_rewards c ep s))"
  using incentives.step_inv [of "validators s" "VeRewards ep" "sha2_256 c"]
  by (cases "compute_epoch_rewards (sha2_256 c) ep (validators s)"; cases "snd (compute_epoch_rewards (sha2_256 c) ep (validators s))")
     (auto simp: econ_ok_def epoch_rewards_def)

lemma econ_ok_settle: "econ_ok c s \<Longrightarrow> econ_ok c (fst (settle_epoch c ep n fd s))"
  unfolding settle_epoch_def
  by (intro and_then_keeps [where P = "econ_ok c"]) (simp_all add: econ_ok_emit econ_ok_burn econ_ok_finalize)

lemma econ_ok_verifies:
  assumes "econ_ok c s"
  shows "verify_epoch_invariants c s = Ok ()"
proof -
  have "supply_ok (supply_state (tokenomics s))" "supply_verify (supply_state (tokenomics s)) = Ok ()"
    "supply_verify_hash (sha2_256 c) (supply_state (tokenomics s)) = Ok ()"
    using assms by (auto simp: econ_ok_def tk_inv_def supply_verify_iff)
  moreover have "params_validate (base_fee_params (fee_market s)) = Ok ()"
    using assms by (auto simp: econ_ok_def market_ok_def params_validate_def BaseFeeParams_new_def)
  ultimately show ?thesis by (simp add: verify_epoch_invariants_def Let_def supply_ok_def)
qed

lemma econ_ok_genesis: "econ_ok c (econ_genesis c)"
proof -
  have "emission_schedule (tk_genesis (sha2_256 c)) = EmissionSchedule_new" by (simp add: tk_genesis_def Let_def)
  moreover have "or_inv c or_genesis" by (simp add: or_inv_def or_genesis_def)
  ultimately show ?thesis by (simp add: econ_ok_def tk_genesis_inv market_ok_genesis ve_inv_genesis)
qed

lemma econ_ok_epoch:
  assumes "econ_ok c s" "list_all typed_metrics (validator_metrics i)"
  shows "econ_ok c (fst (epoch_state c ts i s))"
  unfolding epoch_state_def Let_def
  by (intro and_then_keeps [where P = "econ_ok c"])
     (auto simp: assms econ_ok_fees econ_ok_submit_all econ_ok_price econ_ok_metrics econ_ok_rewards econ_ok_settle
       split: outcome.splits)

section \<open>Runs of the runtime\<close>

datatype rt_op =
    RtInit u128
  | RtValidatorReg bytes u128
  | RtOperatorReg bytes u128
  | RtUpdate PriceUpdate
  | RtEpoch u64 EpochInput

primrec rt_step :: "crypto_env \<Rightarrow> rt_op \<Rightarrow> BleepEconomicsRuntime \<Rightarrow> BleepEconomicsRuntime" where
  "rt_step c (RtInit a) r = fst (rt_initialize_genesis_supply c a r)"
| "rt_step c (RtValidatorReg i stake) r = fst (rt_register_validator i stake r)"
| "rt_step c (RtOperatorReg i b) r = fst (rt_register_oracle_operator c i b r)"
| "rt_step c (RtUpdate u) r = fst (rt_submit_price_update c u r)"
| "rt_step c (RtEpoch ts i) r = fst (process_epoch c ts i r)"

primrec typed_rt :: "rt_op \<Rightarrow> bool" where
  "typed_rt (RtInit a) = True"
| "typed_rt (RtValidatorReg i stake) = (stake < 2 ^ 128)"
| "typed_rt (RtOperatorReg i b) = True"
| "typed_rt (RtUpdate u) = True"
| "typed_rt (RtEpoch ts i) = list_all typed_metrics (validator_metrics i)"

definition rt_inv :: "crypto_env \<Rightarrow> BleepEconomicsRuntime \<Rightarrow> bool" where
  "rt_inv c r \<longleftrightarrow> econ_ok c (rt_state r) \<and> length (epoch_history r) \<le> 100"

lemma lift_state_fields:
  "rt_state (fst (lift_state f r)) = fst (f (rt_state r))" "epoch_history (fst (lift_state f r)) = epoch_history r"
  "snd (lift_state f r) = snd (f (rt_state r))"
  by (simp_all add: lift_state_def case_prod_beta)

lemma rt_inv_process:
  assumes "rt_inv c r" "list_all typed_metrics (validator_metrics i)"
  shows "rt_inv c (fst (process_epoch c ts i r))"
  unfolding process_epoch_def
proof (rule and_then_keeps)
  show "rt_inv c (fst (lift_state (epoch_state c ts i) r))"
    using assms econ_ok_epoch by (simp add: rt_inv_def lift_state_fields)
next
  fix q out assume "rt_inv c q"
  then show "rt_inv c (fst (q\<lparr>last_epoch := ei_epoch i, epoch_history := push_output out (epoch_history q)\<rparr>, Ok out))"
    by (auto simp: rt_inv_def push_output_def)
qed

lemmas rt_call_defs = rt_initialize_genesis_supply_def rt_register_validator_def rt_register_oracle_operator_def
  rt_submit_price_update_def

interpretation runtime: machine "rt_step c" "rt_inv c" typed_rt for c
proof
  fix r a assume "rt_inv c r" "typed_rt a"
  then show "rt_inv c (rt_step c a r)"
    by (cases a) (auto simp: rt_inv_process, simp_all add: rt_inv_def rt_call_defs lift_state_fields econ_ok_init
        econ_ok_register econ_ok_oracle)
qed

lemma rt_genesis_ok: "\<exists>r0. rt_genesis c = Ok r0 \<and> rt_inv c r0"
proof -
  let ?g = "\<lparr>sc_shard_id = 0, utilization_bps = 5000, pending_txns = 0, avg_tx_size_bytes = 250\<rparr>"
  obtain s x where p: "on_fee_market (record_shard_congestion ?g) (econ_genesis c) = (s, x)" by force
  have "econ_ok c s" using econ_ok_fees(2) [OF econ_ok_genesis, of c ?g] p by simp
  moreover have "x = Ok ()" using p by (auto simp: on_fee_market_def record_shard_congestion_def)
  ultimately show ?thesis using p by (simp add: rt_genesis_def rt_inv_def)
qed

lemma rt_run:
  assumes "rt_genesis c = Ok r0" "list_all typed_rt ops"
  shows "rt_inv c (fold (rt_step c) ops r0)"
  using rt_genesis_ok [of c] runtime.run_inv [OF _ assms(2), of c r0] assms(1) by auto

section \<open>What an epoch does to the supply\<close>

abbreviation minted :: "BleepEconomics \<Rightarrow> u128" where
  "minted s \<equiv> total_minted (supply_state (tokenomics s))"

abbreviation burned :: "BleepEconomics \<Rightarrow> u128" where
  "burned s \<equiv> total_burned (supply_state (tokenomics s))"

definition moved :: "BleepEconomics \<Rightarrow> nat \<Rightarrow> nat \<Rightarrow> BleepEconomics \<Rightarrow> bool" where
  "moved s m b s' \<longleftrightarrow> minted s' = minted s + m \<and> burned s' = burned s + b \<and>
     validators s' = validators s \<and> fee_market s' = fee_market s"

lemma moved_trans: "moved s m b s' \<Longrightarrow> moved s' m' b' s'' \<Longrightarrow> moved s (m + m') (b + b') s''"
  by (simp add: moved_def)

lemma moved_refl: "moved s 0 0 s"
  by (simp add: moved_def)

lemma emit_moves:
  assumes "econ_ok c s" "on_tokenomics (record_emission (sha2_256 c) ep t a) s = (s', x)"
  shows "x = Ok () \<and> moved s a 0 s' \<or> x \<noteq> Ok () \<and> moved s 0 0 s'"
proof -
  obtain e y where r: "record_emission (sha2_256 c) ep t a (tokenomics s) = (e, y)" by force
  have cap: "minted s \<le> MAX_SUPPLY" using assms(1) by (simp add: econ_ok_def tk_inv_def supply_ok_def)
  have s': "s' = s\<lparr>tokenomics := e\<rparr>" "x = map_err RtTokenomics y" using assms(2) r by (simp_all add: on_tokenomics_def)
  from record_emission_cases [OF r] show ?thesis
  proof
    assume ok: "y = Ok () \<and> e = apply_emission (sha2_256 c) ep t a (tokenomics s) \<and> a \<le> MAX_SUPPLY - minted s"
    then have "sat_add 128 (minted s) a = minted s + a" using cap by (intro MAX_SUPPLY_sat_add) linarith
    then show ?thesis using ok s' by (simp add: moved_def apply_emission_def Let_def)
  next
    assume "y \<noteq> Ok () \<and> e = tokenomics s"
    then show ?thesis using s' by (simp add: moved_def)
  qed
qed

lemma burn_moves:
  assumes "econ_ok c s" "on_tokenomics (record_burn (sha2_256 c) ep t a) s = (s', x)"
  shows "x = Ok () \<and> moved s 0 a s' \<or> x \<noteq> Ok () \<and> moved s 0 0 s'"
proof -
  obtain e y where r: "record_burn (sha2_256 c) ep t a (tokenomics s) = (e, y)" by force
  have ok_s: "minted s \<le> MAX_SUPPLY" "burned s \<le> minted s" "circulating_supply (supply_state (tokenomics s)) = minted s - burned s"
    using assms(1) by (simp_all add: econ_ok_def tk_inv_def supply_ok_def)
  have s': "s' = s\<lparr>tokenomics := e\<rparr>" "x = map_err RtTokenomics y" using assms(2) r by (simp_all add: on_tokenomics_def)
  from record_burn_cases [OF r] show ?thesis
  proof
    assume ok: "y = Ok () \<and> e = apply_burn (sha2_256 c) ep t a (tokenomics s) \<and> a \<le> circulating_supply (supply_state (tokenomics s))"
    then have "sat_add 128 (burned s) a = burned s + a" using ok_s by (intro MAX_SUPPLY_sat_add) linarith
    then show ?thesis using ok s' by (simp add: moved_def apply_burn_def Let_def)
  next
    assume "y \<noteq> Ok () \<and> e = tokenomics s"
    then show ?thesis using s' by (simp add: moved_def)
  qed
qed

lemma finalize_moves:
  assumes "econ_ok c s" "on_tokenomics (finalize_epoch (sha2_256 c) ep) s = (s', Ok h)"
  shows "moved s 0 0 s'" "get_supply_at_epoch (tokenomics s') ep = Ok (supply_state (tokenomics s'))"
    "state_hash (supply_state (tokenomics s')) = h"
proof -
  have inv: "tk_inv (sha2_256 c) (tokenomics s)" using assms(1) by (simp add: econ_ok_def)
  have s': "s' = s\<lparr>tokenomics := fst (finalize_epoch (sha2_256 c) ep (tokenomics s))\<rparr>"
    "snd (finalize_epoch (sha2_256 c) ep (tokenomics s)) = Ok h"
    using assms(2) by (auto simp: on_tokenomics_def case_prod_beta)
  show "moved s 0 0 s'" "state_hash (supply_state (tokenomics s')) = h"
    using s' tk_inv_verify [OF inv, of ep] by (auto simp: moved_def finalize_epoch_def Let_def)
  show "get_supply_at_epoch (tokenomics s') ep = Ok (supply_state (tokenomics s'))"
    using finalize_epoch_Ok(3) [OF inv, of ep] s'(1) by simp
qed

lemma settle_moves:
  assumes ok: "econ_ok c s" and st: "settle_epoch c ep n fd s = (s', Ok h)"
  shows "moved s n (fd_burned fd) s' \<or> moved s (n + fd_validator_reward fd) (fd_burned fd) s'"
    and "get_supply_at_epoch (tokenomics s') ep = Ok (supply_state (tokenomics s'))"
    and "state_hash (supply_state (tokenomics s')) = h"
    and "fd_validator_reward fd > 0 \<Longrightarrow> get_emission_rates EmissionSchedule_new ep \<noteq> Panic"
proof -
  let ?h = "sha2_256 c"
  obtain s1 s2 s3 s4 where
    1: "(if n > 0 then on_tokenomics (record_emission ?h ep BlockProposal n) s else (s, Ok ())) = (s1, Ok ())" and
    2: "(if fd_burned fd > 0 then on_tokenomics (record_burn ?h ep TransactionFee (fd_burned fd)) s1 else (s1, Ok ())) = (s2, Ok ())" and
    3: "(if fd_validator_reward fd > 0 then ignore_err (on_tokenomics (record_emission ?h ep BlockProposal (fd_validator_reward fd)) s2)
         else (s2, Ok ())) = (s3, Ok ())" and
    4: "(if fd_treasury fd > 0 then ignore_err (on_tokenomics (record_burn ?h ep ProposalRejection 0) s3) else (s3, Ok ())) = (s4, Ok ())" and
    5: "on_tokenomics (finalize_epoch ?h ep) s4 = (s', Ok h)"
    using st unfolding settle_epoch_def and_then_Ok by auto
  have ok1: "econ_ok c s1" using ok 1 econ_ok_emit [OF ok] by (metis fst_conv)
  have ok2: "econ_ok c s2" using ok1 2 econ_ok_burn [OF ok1] by (metis fst_conv)
  have ok3: "econ_ok c s3" using ok2 3 econ_ok_emit [OF ok2] by (metis fst_conv fst_ignore_err)
  have ok4: "econ_ok c s4" using ok3 4 econ_ok_burn [OF ok3] by (metis fst_conv fst_ignore_err)
  have m1: "moved s n 0 s1" using 1 emit_moves [OF ok, of ep BlockProposal n s1] moved_refl by (auto split: if_splits)
  have m2: "moved s1 0 (fd_burned fd) s2"
    using 2 burn_moves [OF ok1, of ep TransactionFee "fd_burned fd" s2] moved_refl by (auto split: if_splits)
  have m3: "moved s2 0 0 s3 \<or> moved s2 (fd_validator_reward fd) 0 s3"
    using 3 emit_moves [OF ok2, of ep BlockProposal "fd_validator_reward fd" s3] moved_refl by (auto simp: ignore_err_Ok split: if_splits)
  have m4: "moved s3 0 0 s4"
    using 4 burn_moves [OF ok3, of ep ProposalRejection 0 s4] moved_refl by (auto simp: ignore_err_Ok split: if_splits)
  note m5 = finalize_moves [OF ok4 5]
  show "moved s n (fd_burned fd) s' \<or> moved s (n + fd_validator_reward fd) (fd_burned fd) s'"
    using m1 m2 m3 m4 m5(1) by (auto simp: moved_def)
  show "get_supply_at_epoch (tokenomics s') ep = Ok (supply_state (tokenomics s'))"
    "state_hash (supply_state (tokenomics s')) = h" using m5 by auto
  show "get_emission_rates EmissionSchedule_new ep \<noteq> Panic" if pos: "fd_validator_reward fd > 0"
  proof
    assume "get_emission_rates EmissionSchedule_new ep = Panic"
    moreover have "emission_schedule (tokenomics s2) = EmissionSchedule_new" using ok2 by (simp add: econ_ok_def)
    ultimately show False using 3 pos by (simp add: on_tokenomics_def record_emission_def Let_def ignore_err_def)
  qed
qed

lemma market_step_keeps:
  assumes "on_fee_market f s = (s', x)"
  shows "tokenomics s' = tokenomics s" "validators s' = validators s" "oracle_bridge s' = oracle_bridge s"
  using assms by (auto simp: on_fee_market_def split: prod.splits)

lemma submit_all_keeps:
  "submit_all c us s = (s', x) \<Longrightarrow>
   tokenomics s' = tokenomics s \<and> validators s' = validators s \<and> fee_market s' = fee_market s"
proof (induction us arbitrary: s)
  case (Cons u us)
  obtain s1 y where p: "on_oracle (submit_price_update c u) s = (s1, y)" by force
  then have "tokenomics s1 = tokenomics s \<and> validators s1 = validators s \<and> fee_market s1 = fee_market s"
    by (auto simp: on_oracle_def split: prod.splits)
  then show ?case using Cons p by (cases y) (auto simp: and_then_def)
qed simp

lemma price_keeps:
  "epoch_price c ts s = (s', x) \<Longrightarrow>
   tokenomics s' = tokenomics s \<and> validators s' = validators s \<and> fee_market s' = fee_market s"
  by (auto simp: epoch_price_def split: prod.splits outcome.splits)

lemma stored_fee:
  assumes "(if A then (m, Err x) else if B then (m, Panic)
     else (m\<lparr>base_fee_params := p\<lparr>current_base_fee := b\<rparr>, fee_history := g\<rparr>, Ok b)) = (m', Ok fee)"
  shows "current_base_fee (base_fee_params m') = fee"
  using assms by (auto split: if_splits)

lemma update_fee_result: "update_base_fee ep util m = (m', Ok fee) \<Longrightarrow> current_base_fee (base_fee_params m') = fee"
  unfolding update_base_fee_def Let_def by (rule stored_fee)

lemma congestion_keeps_fee: "record_shard_congestion g m = (m', x) \<Longrightarrow> base_fee_params m' = base_fee_params m"
  by (auto simp: record_shard_congestion_def split: outcome.splits)

lemma rewards_result:
  assumes ok: "econ_ok c s" and r: "epoch_rewards c ep s = (s', Ok rs)"
  shows "tokenomics s' = tokenomics s" "fee_market s' = fee_market s"
    "map total_reward rs = map exact_reward (bt_values (current_metrics (validators s')))"
proof -
  obtain v x where p: "compute_epoch_rewards (sha2_256 c) ep (validators s) = (v, x)" by force
  have inv: "ve_inv (validators s)" using ok by (simp add: econ_ok_def)
  note er = epoch_records [OF inv p]
  have s': "s' = s\<lparr>validators := v\<rparr>" "rs = map (reward_record (sha2_256 c) RewardParameters_default ep) (current_metrics (validators s))"
    using r p er(1) by (simp_all add: epoch_rewards_def)
  then show "tokenomics s' = tokenomics s" "fee_market s' = fee_market s" by simp_all
  have "total_reward (reward_record (sha2_256 c) RewardParameters_default ep q) = exact_reward (snd q)"
    if "q \<in> set (current_metrics (validators s))" for q
    using record_exact(1) [of "snd q" "sha2_256 c" ep "fst q"] inv that by (auto simp: ve_inv_def)
  then show "map total_reward rs = map exact_reward (bt_values (current_metrics (validators s')))"
    using s' er(2) by simp
qed

text \<open>A successful epoch, stage by stage: everything before the settlement leaves the supply alone.\<close>

lemma epoch_stages:
  assumes ok: "econ_ok c s" and typed: "list_all typed_metrics (validator_metrics i)"
    and ep: "epoch_state c ts i s = (s', Ok out)"
  obtains s5 h where "econ_ok c s5" "tokenomics s5 = tokenomics s"
    "eo_total_emitted out = wrap_sum 128 (map exact_reward (bt_values (current_metrics (validators s5))))"
    "settle_epoch c (ei_epoch i) (eo_total_emitted out) (fee_compute (fee_revenue i)) s5 = (s', Ok h)"
    "new_base_fee out = current_base_fee (base_fee_params (fee_market s5))" "supply_state_hash out = h"
    "eo_total_burned out = fd_burned (fee_compute (fee_revenue i))" "eo_epoch out = ei_epoch i"
    "eo_circulating_supply out = circulating_supply (supply_state (tokenomics s'))"
proof -
  obtain s1 fee s2 u2 s3 u3 s4 usd s5 rs s6 h where
    1: "on_fee_market (update_base_fee (ei_epoch i) (avg_utilisation_bps i)) s = (s1, Ok fee)" and
    2: "on_fee_market (record_shard_congestion (epoch_congestion i)) s1 = (s2, Ok u2)" and
    3: "submit_all c (oracle_updates i) s2 = (s3, Ok u3)" and
    4: "epoch_price c ts s3 = (s4, Ok usd)" and
    5: "epoch_rewards c (ei_epoch i) (record_all_metrics (validator_metrics i) s4) = (s5, Ok rs)" and
    6: "settle_epoch c (ei_epoch i) (wrap_sum 128 (map total_reward rs)) (fee_compute (fee_revenue i)) s5 = (s6, Ok h)" and
    7: "(case verify_epoch_invariants c s6 of Err e \<Rightarrow> (s6, Err (RtInvariantViolation e)) | Panic \<Rightarrow> (s6, Panic) | Ok _ \<Rightarrow>
      (s6, Ok \<lparr>eo_epoch = ei_epoch i, new_base_fee = fee, eo_total_emitted = wrap_sum 128 (map total_reward rs),
        eo_total_burned = fd_burned (fee_compute (fee_revenue i)),
        eo_circulating_supply = circulating_supply (supply_state (tokenomics s6)), reward_records = rs,
        supply_state_hash = h, bleep_usd_price = usd\<rparr>)) = (s', Ok out)"
    using ep unfolding epoch_state_def Let_def by (elim and_then_E) (rule that)
  have s6: "s6 = s'" using 7 by (cases "verify_epoch_invariants c s6") simp_all
  have out: "eo_epoch out = ei_epoch i" "new_base_fee out = fee" "eo_total_emitted out = wrap_sum 128 (map total_reward rs)"
    "eo_total_burned out = fd_burned (fee_compute (fee_revenue i))" "supply_state_hash out = h"
    "eo_circulating_supply out = circulating_supply (supply_state (tokenomics s'))"
    using 7 by (cases "verify_epoch_invariants c s6"; auto)+
  have ok4: "econ_ok c s4"
    using econ_ok_price [OF econ_ok_submit_all [OF econ_ok_fees(2) [OF econ_ok_fees(1) [OF ok]]],
        of ts "oracle_updates i" "epoch_congestion i" "ei_epoch i" "avg_utilisation_bps i"] 1 2 3 4 by simp
  have okm: "econ_ok c (record_all_metrics (validator_metrics i) s4)" by (rule econ_ok_metrics [OF ok4 typed])
  have ok5: "econ_ok c s5" using econ_ok_rewards [OF okm] 5 by (metis fst_conv)
  note rr = rewards_result [OF okm 5]
  have fee1: "current_base_fee (base_fee_params (fee_market s1)) = fee"
    using 1 update_fee_result by (auto simp: on_fee_market_def split: prod.splits)
  have fee2: "base_fee_params (fee_market s2) = base_fee_params (fee_market s1)"
    using 2 congestion_keeps_fee by (auto simp: on_fee_market_def split: prod.splits)
  have tk: "tokenomics s5 = tokenomics s"
    using market_step_keeps(1) [OF 1] market_step_keeps(1) [OF 2] submit_all_keeps [OF 3] price_keeps [OF 4] rr(1)
    by (simp add: record_all_metrics_def)
  have "fee_market s5 = fee_market s2"
    using submit_all_keeps [OF 3] price_keeps [OF 4] rr(2) by (simp add: record_all_metrics_def)
  then show ?thesis using that [OF ok5 tk, of h] 6 out s6 fee1 fee2 rr(3) by simp
qed

text \<open>An epoch without metrics or price updates succeeds when the load is valid, the burn share circulates and the
  emission rates of the epoch can be computed.\<close>

lemma settle_succeeds:
  assumes ok: "econ_ok c s" and burn: "fd_burned fd \<le> circulating_supply (supply_state (tokenomics s))"
    and rates: "get_emission_rates EmissionSchedule_new ep \<noteq> Panic"
  shows "\<exists>s' h. settle_epoch c ep 0 fd s = (s', Ok h)"
proof -
  let ?h = "sha2_256 c"
  have emit: "snd (on_tokenomics (record_emission ?h ep BlockProposal a) q) \<noteq> Panic" if "econ_ok c q" for a q
    using that rates by (auto simp: econ_ok_def on_tokenomics_def record_emission_def Let_def split: outcome.splits option.splits)
  have fin: "\<exists>q' h. on_tokenomics (finalize_epoch ?h ep) q = (q', Ok h)" if "econ_ok c q" for q
    using finalize_epoch_Ok(1) [of ?h "tokenomics q" ep] that by (auto simp: econ_ok_def on_tokenomics_def case_prod_beta)
  have ign: "\<exists>q'. ignore_err p = (q', Ok ()) \<and> q' = fst p" if "snd p \<noteq> Panic" for p :: "BleepEconomics \<times> (RuntimeError, unit) outcome"
    using that by (cases p; cases "snd p") (auto simp: ignore_err_def)
  obtain s2 where 2: "(if fd_burned fd > 0 then on_tokenomics (record_burn ?h ep TransactionFee (fd_burned fd)) s else (s, Ok ())) = (s2, Ok ())"
    using burn that by (cases "fd_burned fd > 0") (simp_all add: on_tokenomics_def record_burn_def)
  then have ok2: "econ_ok c s2" using ok econ_ok_burn [OF ok] by (metis fst_conv)
  obtain s3 where 3: "(if fd_validator_reward fd > 0 then ignore_err (on_tokenomics (record_emission ?h ep BlockProposal (fd_validator_reward fd)) s2)
      else (s2, Ok ())) = (s3, Ok ())" and ok3: "econ_ok c s3"
    using ign [OF emit [OF ok2]] econ_ok_emit [OF ok2] ok2 by (cases "fd_validator_reward fd > 0") auto
  have nb: "snd (on_tokenomics (record_burn ?h ep ProposalRejection 0) s3) \<noteq> Panic" by (simp add: on_tokenomics_def record_burn_def)
  obtain s4 where 4: "(if fd_treasury fd > 0 then ignore_err (on_tokenomics (record_burn ?h ep ProposalRejection 0) s3) else (s3, Ok ()))
      = (s4, Ok ())" and ok4: "econ_ok c s4"
    using ign [OF nb] econ_ok_burn [OF ok3] ok3 by (cases "fd_treasury fd > 0") auto
  show ?thesis using fin [OF ok4] unfolding settle_epoch_def and_then_Ok using 2 3 4 by auto
qed

lemma update_succeeds: "market_ok m \<Longrightarrow> util \<le> 10000 \<Longrightarrow> \<exists>m' fee. update_base_fee ep util m = (m', Ok fee)"
  using update_exact [of m util ep] unfolding Let_def by blast

lemma epoch_succeeds:
  assumes ok: "econ_ok c s" and util: "avg_utilisation_bps i \<le> 10000"
    and quiet: "oracle_updates i = []" "validator_metrics i = []" "current_metrics (validators s) = []"
      "bt_get (price_updates (oracle_bridge s)) ''BLEEP/USD'' = None"
    and burn: "fd_burned (fee_compute (fee_revenue i)) \<le> circulating_supply (supply_state (tokenomics s))"
    and rates: "get_emission_rates EmissionSchedule_new (ei_epoch i) \<noteq> Panic"
  shows "\<exists>s' out. epoch_state c ts i s = (s', Ok out)"
proof -
  obtain m fee where "update_base_fee (ei_epoch i) (avg_utilisation_bps i) (fee_market s) = (m, Ok fee)"
    using update_succeeds ok util unfolding econ_ok_def by blast
  then obtain s1 where 1: "on_fee_market (update_base_fee (ei_epoch i) (avg_utilisation_bps i)) s = (s1, Ok fee)"
    by (simp add: on_fee_market_def)
  obtain s2 where 2: "on_fee_market (record_shard_congestion (epoch_congestion i)) s1 = (s2, Ok ())"
    using util by (simp add: on_fee_market_def record_shard_congestion_def)
  note keep = market_step_keeps [OF 1] market_step_keeps [OF 2]
  have ok2: "econ_ok c s2" using econ_ok_fees(2) [OF econ_ok_fees(1) [OF ok]] 1 2 by (metis fst_conv)
  have 4: "epoch_price c ts s2 = (s2, Ok None)" using quiet(4) keep by (simp add: epoch_price_def aggregate_prices_def)
  have 5: "epoch_rewards c (ei_epoch i) (record_all_metrics (validator_metrics i) s2) = (s2, Ok [])"
    using quiet keep by (simp add: record_all_metrics_def epoch_rewards_def compute_epoch_rewards_def)
  obtain s6 h where 6: "settle_epoch c (ei_epoch i) 0 (fee_compute (fee_revenue i)) s2 = (s6, Ok h)"
    using settle_succeeds [OF ok2 _ rates, of "fee_compute (fee_revenue i)"] burn keep by auto
  have "verify_epoch_invariants c s6 = Ok ()" using econ_ok_verifies econ_ok_settle [OF ok2] 6 by (metis fst_conv)
  then show ?thesis unfolding epoch_state_def Let_def and_then_Ok using 1 2 4 5 6 quiet(1) by (auto simp: wrap_sum_def)
qed

definition demo_epoch :: "u64 \<Rightarrow> EpochInput" where
  "demo_epoch ep = \<lparr>ei_epoch = ep, block_count = 10, fee_revenue = 400, avg_utilisation_bps = 6000, validator_metrics = [],
     oracle_updates = []\<rparr>"

lemma demo_shares: "fd_burned (fee_compute 400) = 100" "fd_validator_reward (fee_compute 400) = 200"
  by (simp_all add: fee_compute_def Let_def wrap_mul_def)

lemma demo_run:
  assumes "rt_genesis c = Ok r0" "r = fold (rt_step c) [RtInit 1000000] r0"
  shows "\<exists>r' out. process_epoch c ts (demo_epoch 2) r = (r', Ok out)"
proof -
  have inv: "rt_inv c r" unfolding assms(2) by (rule rt_run [OF assms(1)]) simp
  have s: "oracle_bridge (rt_state r) = or_genesis" "validators (rt_state r) = ve_genesis"
    "circulating_supply (supply_state (tokenomics (rt_state r))) = 1000000"
    using assms by (auto simp: rt_genesis_def on_fee_market_def record_shard_congestion_def
        rt_initialize_genesis_supply_def lift_state_def on_tokenomics_def initialize_genesis_supply_def
        tk_genesis_def Let_def const_defs case_prod_beta)
  have rates: "get_emission_rates EmissionSchedule_new 2 \<noteq> Panic" by (simp add: get_emission_rates_def EmissionSchedule_new_def)
  obtain s' out where "epoch_state c ts (demo_epoch 2) (rt_state r) = (s', Ok out)"
    using epoch_succeeds [of c "rt_state r" "demo_epoch 2" ts] inv s rates
    by (auto simp: rt_inv_def demo_epoch_def demo_shares ve_genesis_def or_genesis_def)
  then show ?thesis by (simp add: process_epoch_def lift_state_def and_then_def)
qed

section \<open>Properties\<close>

text \<open>C1: whatever sequence of calls a new runtime receives, epochs that fail halfway included, the invariant check
  of the integrated state passes: the minted supply is within its cap, the circulating supply is what is minted
  and not burned, the base fee is within its bounds; no validator is slashed beyond its stake, every stored
  price update was signed by a registered operator, and the history holds at most a hundred epochs.\<close>

theorem economics_invariants_every_run:
  assumes "rt_genesis c = Ok r0" "list_all typed_rt ops" and r: "r = fold (rt_step c) ops r0"
  shows "verify_epoch_invariants c (rt_state r) = Ok () \<and> rt_total_minted r \<le> MAX_SUPPLY \<and>
    rt_circulating_supply r + rt_total_burned r = rt_total_minted r \<and>
    MIN_BASE_FEE \<le> rt_current_base_fee r \<and> rt_current_base_fee r \<le> MAX_BASE_FEE \<and>
    (\<forall>i v. bt_get (ve_validators (validators (rt_state r))) i = Some v \<longrightarrow> va_total_slashed v \<le> va_stake v) \<and>
    (\<forall>a us u. bt_get (price_updates (oracle_bridge (rt_state r))) a = Some us \<longrightarrow> u \<in> set us \<longrightarrow>
       stored_ok c (oracle_bridge (rt_state r)) a u) \<and>
    length (epoch_history r) \<le> 100"
proof -
  have inv: "rt_inv c r" unfolding r by (rule rt_run [OF assms(1,2)])
  then have ok: "econ_ok c (rt_state r)" by (simp add: rt_inv_def)
  have sup: "rt_total_minted r \<le> MAX_SUPPLY" "rt_circulating_supply r + rt_total_burned r = rt_total_minted r"
    using ok by (auto simp: econ_ok_def tk_inv_def supply_ok_def rt_total_minted_def rt_total_burned_def)
  have fee: "MIN_BASE_FEE \<le> rt_current_base_fee r \<and> rt_current_base_fee r \<le> MAX_BASE_FEE"
    using ok by (auto simp: econ_ok_def market_ok_def)
  have "va_total_slashed v \<le> va_stake v" if "bt_get (ve_validators (validators (rt_state r))) i = Some v" for i v
    using ok that by (auto simp: econ_ok_def ve_inv_def account_ok_def)
  moreover have "or_inv c (oracle_bridge (rt_state r))" using ok by (simp add: econ_ok_def)
  ultimately show ?thesis using sup fee econ_ok_verifies [OF ok] inv unfolding or_inv_def rt_inv_def by blast
qed

theorem economics_invariants_every_run_witness:
  "\<exists>r0. rt_genesis demo_env = Ok r0 \<and>
     verify_epoch_invariants demo_env (rt_state (fold (rt_step demo_env) [RtInit 1000000, RtEpoch 0 (demo_epoch 2)] r0)) = Ok ()"
proof -
  obtain r0 where "rt_genesis demo_env = Ok r0" using rt_genesis_ok by blast
  then show ?thesis
    using economics_invariants_every_run [of demo_env r0 "[RtInit 1000000, RtEpoch 0 (demo_epoch 2)]", OF _ _ refl]
    by (auto simp: demo_epoch_def)
qed

text \<open>C8: a successful epoch of a runtime reached by any calls: it burns exactly the burn share of the fees, mints
  exactly the rewards of the recorded metrics plus either the whole validator share of the fees or, when that
  emission is refused, nothing of it; the output reports the new fee, supply and hash, the snapshot of the epoch
  is the stored supply, and the output is the newest entry of the history.\<close>

theorem process_epoch_accounts:
  assumes "rt_genesis c = Ok r0" "list_all typed_rt ops" "r = fold (rt_step c) ops r0"
    and typed: "list_all typed_metrics (validator_metrics i)" and ep: "process_epoch c ts i r = (r', Ok out)"
    and fd: "fd = fee_compute (fee_revenue i)"
  shows "rt_total_burned r' = rt_total_burned r + fd_burned fd \<and>
    (rt_total_minted r' = rt_total_minted r + eo_total_emitted out \<or>
     rt_total_minted r' = rt_total_minted r + eo_total_emitted out + fd_validator_reward fd) \<and>
    eo_total_emitted out = wrap_sum 128 (map exact_reward (bt_values (current_metrics (validators (rt_state r'))))) \<and>
    eo_total_burned out = fd_burned fd \<and> eo_circulating_supply out = rt_circulating_supply r' \<and>
    new_base_fee out = rt_current_base_fee r' \<and>
    get_supply_at_epoch (tokenomics (rt_state r')) (ei_epoch i) = Ok (supply_state (tokenomics (rt_state r'))) \<and>
    state_hash (supply_state (tokenomics (rt_state r'))) = supply_state_hash out \<and>
    last_epoch r' = ei_epoch i \<and> last (epoch_history r') = out"
proof -
  have ok: "econ_ok c (rt_state r)" using rt_run [OF assms(1,2)] assms(3) by (simp add: rt_inv_def)
  obtain q where q: "lift_state (epoch_state c ts i) r = (q, Ok out)"
    and r': "r' = q\<lparr>last_epoch := ei_epoch i, epoch_history := push_output out (epoch_history q)\<rparr>"
    using ep unfolding process_epoch_def by (elim and_then_E) simp
  have es: "epoch_state c ts i (rt_state r) = (rt_state r', Ok out)"
    using q lift_state_fields(1,3) [of "epoch_state c ts i" r] r' by (simp add: prod_eq_iff)
  obtain s5 h where st: "econ_ok c s5" "tokenomics s5 = tokenomics (rt_state r)"
    "eo_total_emitted out = wrap_sum 128 (map exact_reward (bt_values (current_metrics (validators s5))))"
    "settle_epoch c (ei_epoch i) (eo_total_emitted out) fd s5 = (rt_state r', Ok h)"
    "new_base_fee out = current_base_fee (base_fee_params (fee_market s5))" "supply_state_hash out = h"
    "eo_total_burned out = fd_burned fd"
    "eo_circulating_supply out = circulating_supply (supply_state (tokenomics (rt_state r')))"
    using epoch_stages [OF ok typed es] unfolding fd by metis
  note sm = settle_moves [OF st(1,4)]
  have "last (epoch_history r') = out" "last_epoch r' = ei_epoch i" by (simp_all add: r' push_output_def)
  then show ?thesis using sm(1-3) st
    by (auto simp: moved_def rt_total_burned_def rt_total_minted_def)
qed

theorem process_epoch_accounts_witness:
  "\<exists>r0 r' out. rt_genesis demo_env = Ok r0 \<and>
     process_epoch demo_env 0 (demo_epoch 2) (fold (rt_step demo_env) [RtInit 1000000] r0) = (r', Ok out) \<and>
     rt_total_burned r' = rt_total_burned (fold (rt_step demo_env) [RtInit 1000000] r0) + 100"
proof -
  obtain r0 where g: "rt_genesis demo_env = Ok r0" using rt_genesis_ok by blast
  obtain r' out where ep: "process_epoch demo_env 0 (demo_epoch 2) (fold (rt_step demo_env) [RtInit 1000000] r0) = (r', Ok out)"
    using demo_run [OF g refl] by blast
  have "list_all typed_rt [RtInit 1000000]" "list_all typed_metrics (validator_metrics (demo_epoch 2))"
    by (simp_all add: demo_epoch_def)
  from process_epoch_accounts [OF g this(1) refl this(2) ep refl]
  have "rt_total_burned r' = rt_total_burned (fold (rt_step demo_env) [RtInit 1000000] r0) + fd_burned (fee_compute (fee_revenue (demo_epoch 2)))"
    by (rule conjunct1)
  moreover have "fee_revenue (demo_epoch 2) = 400" by (simp add: demo_epoch_def)
  ultimately show ?thesis using g ep demo_shares(1) by metis
qed

text \<open>From the sixteenth decay epoch on, for as long as the epoch distance fits 32 bits, no epoch with a validator
  share of fees is ever processed successfully, whatever happened before.\<close>

theorem late_epochs_never_succeed:
  assumes "rt_genesis c = Ok r0" "list_all typed_rt ops" "r = fold (rt_step c) ops r0"
    and typed: "list_all typed_metrics (validator_metrics i)"
    and late: "52576 \<le> ei_epoch i" "ei_epoch i < 52560 + 2 ^ 32" and fees: "0 < fd_validator_reward (fee_compute (fee_revenue i))"
  shows "snd (process_epoch c ts i r) \<noteq> Ok out"
proof
  assume "snd (process_epoch c ts i r) = Ok out"
  then have ep: "process_epoch c ts i r = (fst (process_epoch c ts i r), Ok out)" by (simp add: prod_eq_iff)
  have ok: "econ_ok c (rt_state r)" using rt_run [OF assms(1,2)] assms(3) by (simp add: rt_inv_def)
  obtain q where q: "lift_state (epoch_state c ts i) r = (q, Ok out)"
    using ep unfolding process_epoch_def by (elim and_then_E) simp
  then have es: "epoch_state c ts i (rt_state r) = (rt_state q, Ok out)"
    using lift_state_fields(1,3) [of "epoch_state c ts i" r] by (simp add: prod_eq_iff)
  obtain s5 h where "econ_ok c s5"
    "settle_epoch c (ei_epoch i) (eo_total_emitted out) (fee_compute (fee_revenue i)) s5 = (rt_state q, Ok h)"
    using epoch_stages [OF ok typed es] by metis
  then have "get_emission_rates EmissionSchedule_new (ei_epoch i) \<noteq> Panic" using settle_moves(4) fees by blast
  then show False using decay_panics_after_sixteen_epochs [of EmissionSchedule_new "ei_epoch i"] late
    by (simp add: EmissionSchedule_new_def)
qed

theorem late_epochs_never_succeed_witness:
  "\<exists>r0. rt_genesis demo_env = Ok r0 \<and>
     (\<forall>out. snd (process_epoch demo_env 0 (demo_epoch 52576) (fold (rt_step demo_env) [RtInit 1000000] r0)) \<noteq> Ok out)"
proof -
  obtain r0 where g: "rt_genesis demo_env = Ok r0" using rt_genesis_ok by blast
  have "snd (process_epoch demo_env 0 (demo_epoch 52576) (fold (rt_step demo_env) [RtInit 1000000] r0)) \<noteq> Ok out" for out
    by (rule late_epochs_never_succeed [OF g _ refl]) (simp_all add: demo_epoch_def demo_shares)
  then show ?thesis using g by blast
qed

end
