(* ===== verification/PatToken.thy ===== *)
theory PatToken
  imports Crypto
begin

text \<open>
  Programmable asset tokens, the layers below the engine (\<open>bleep-pat\<close>: \<open>error.rs\<close>, \<open>intent.rs\<close>,
  \<open>gas_model.rs\<close>, \<open>token.rs\<close>): the intents, their gas cost, the token record with its integrity
  hash, the balance ledger and the allowance table of one token. Accounts are keyed by the
  hexadecimal form of their 32-byte address, as in the sources.
\<close>

section \<open>Errors and intents\<close>

type_synonym Address = bytes

datatype PATError =
    PatTokenNotFound string
  | PatTokenAlreadyExists string
  | PatInsufficientBalance u128 u128
  | PatSupplyCapExceeded u128 u128
  | PatBalanceOverflow string
  | PatUnauthorized string
  | PatInsufficientAllowance u128 u128
  | PatZeroAmount
  | PatSelfTransfer
  | PatInvalidBurnRate u16
  | PatSymbolTooLong string
  | PatNameTooLong string
  | PatInvalidDecimals u8
  | PatMemoTooLong usize
  | PatFrozen string
  | PatNotFreezable string
  | PatOutOfGas u64 u64
  | PatDuplicateIntent
  | PatSerialisation string

text \<open>The arguments of each constructor are the fields of its payload struct, in order.\<close>

datatype PATIntentKind =
    PatCreateToken string string u8 u128 u16 bool
  | PatMint string Address u128
  | PatBurn string u128
  | PatTransfer string Address u128 "bytes option"
  | PatApprove string Address u128
  | PatTransferFrom string Address Address u128
  | PatFreeze string bool
  | PatUpdateBurnRate string u16
  | PatTransferOwnership string Address

record PATIntent =
  in_caller :: Address
  in_kind :: PATIntentKind
  in_gas_limit :: u64
  in_block :: u64
  in_nonce :: u64

fun intent_symbol :: "PATIntentKind \<Rightarrow> string" where
  "intent_symbol (PatCreateToken symb _ _ _ _ _) = symb"
| "intent_symbol (PatMint symb _ _) = symb"
| "intent_symbol (PatBurn symb _) = symb"
| "intent_symbol (PatTransfer symb _ _ _) = symb"
| "intent_symbol (PatApprove symb _ _) = symb"
| "intent_symbol (PatTransferFrom symb _ _ _) = symb"
| "intent_symbol (PatFreeze symb _) = symb"
| "intent_symbol (PatUpdateBurnRate symb _) = symb"
| "intent_symbol (PatTransferOwnership symb _) = symb"

section \<open>Gas\<close>

record PATGasModel =
  create_token_base :: u64
  create_token_per_symbol :: u64
  mint_base :: u64
  burn_base :: u64
  transfer_base :: u64
  transfer_per_memo_byte :: u64
  approve_base :: u64
  transfer_from_base :: u64
  freeze_base :: u64
  update_burn_rate_base :: u64
  transfer_ownership_base :: u64

definition PATGasModel_default :: PATGasModel where
  "PATGasModel_default =
     \<lparr>create_token_base = 50000, create_token_per_symbol = 10, mint_base = 21000, burn_base = 15000,
      transfer_base = 21000, transfer_per_memo_byte = 5, approve_base = 15000,
      transfer_from_base = 25000, freeze_base = 10000, update_burn_rate_base = 10000,
      transfer_ownership_base = 20000\<rparr>"

fun gas_cost :: "PATGasModel \<Rightarrow> PATIntentKind \<Rightarrow> u64" where
  "gas_cost g (PatCreateToken symb _ _ _ _ _) =
     wrap_add 64 (create_token_base g) (wrap_mul 64 (length symb) (create_token_per_symbol g))"
| "gas_cost g (PatMint _ _ _) = mint_base g"
| "gas_cost g (PatBurn _ _) = burn_base g"
| "gas_cost g (PatTransfer _ _ _ memo) =
     wrap_add 64 (transfer_base g)
       (wrap_mul 64 (case memo of None \<Rightarrow> 0 | Some m \<Rightarrow> length m) (transfer_per_memo_byte g))"
| "gas_cost g (PatApprove _ _ _) = approve_base g"
| "gas_cost g (PatTransferFrom _ _ _ _) = transfer_from_base g"
| "gas_cost g (PatFreeze _ _) = freeze_base g"
| "gas_cost g (PatUpdateBurnRate _ _) = update_burn_rate_base g"
| "gas_cost g (PatTransferOwnership _ _) = transfer_ownership_base g"

definition gas_charge :: "PATGasModel \<Rightarrow> PATIntentKind \<Rightarrow> u64 \<Rightarrow> (PATError, u64) outcome" where
  "gas_charge g kind gas_limit =
     (let cost = gas_cost g kind
      in if cost > gas_limit then Err (PatOutOfGas gas_limit cost) else Ok cost)"

text \<open>The builders of intents; each authorises the gas of the default model.\<close>

definition intent_create_token :: "Address \<Rightarrow> string \<Rightarrow> string \<Rightarrow> u8 \<Rightarrow> u128 \<Rightarrow> u16 \<Rightarrow> bool \<Rightarrow> PATIntent" where
  "intent_create_token caller symb name decimals cap burn_bps freezable =
     (let kind = PatCreateToken symb name decimals cap burn_bps freezable
      in \<lparr>in_caller = caller, in_kind = kind, in_gas_limit = gas_cost PATGasModel_default kind,
          in_block = 0, in_nonce = 0\<rparr>)"

definition intent_mint :: "Address \<Rightarrow> string \<Rightarrow> Address \<Rightarrow> u128 \<Rightarrow> PATIntent" where
  "intent_mint caller symb to amount =
     \<lparr>in_caller = caller, in_kind = PatMint symb to amount, in_gas_limit = 21000, in_block = 0, in_nonce = 0\<rparr>"

definition intent_transfer :: "Address \<Rightarrow> string \<Rightarrow> Address \<Rightarrow> u128 \<Rightarrow> PATIntent" where
  "intent_transfer caller symb to amount =
     \<lparr>in_caller = caller, in_kind = PatTransfer symb to amount None, in_gas_limit = 21000,
      in_block = 0, in_nonce = 0\<rparr>"

definition intent_burn :: "Address \<Rightarrow> string \<Rightarrow> u128 \<Rightarrow> PATIntent" where
  "intent_burn caller symb amount =
     \<lparr>in_caller = caller, in_kind = PatBurn symb amount, in_gas_limit = 21000, in_block = 0, in_nonce = 0\<rparr>"

section \<open>The token record\<close>

record PATToken =
  tk_symbol :: string
  tk_name :: string
  tk_decimals :: u8
  tk_owner :: Address
  tk_total_supply_cap :: u128
  tk_freezable :: bool
  tk_created_at :: u64
  tk_current_supply :: u128
  tk_total_burned :: u128
  tk_burn_rate_bps :: u16
  tk_frozen :: bool
  tk_state_hash :: bytes

definition recompute_hash :: "crypto_env \<Rightarrow> PATToken \<Rightarrow> PATToken" where
  "recompute_hash c t = t\<lparr>tk_state_hash := sha2_256 c
     (str_bytes (tk_symbol t) @ to_be_bytes 16 (tk_current_supply t) @ to_be_bytes 16 (tk_total_burned t)
      @ to_be_bytes 2 (tk_burn_rate_bps t) @ [if tk_frozen t then 1 else 0])\<rparr>"

definition PATToken_new ::
  "crypto_env \<Rightarrow> string \<Rightarrow> string \<Rightarrow> u8 \<Rightarrow> Address \<Rightarrow> u128 \<Rightarrow> u16 \<Rightarrow> bool \<Rightarrow> u64 \<Rightarrow> (PATError, PATToken) outcome" where
  "PATToken_new c symbol name decimals owner total_supply_cap burn_rate_bps freezable created_at =
     (if length symbol > 16 then Err (PatSymbolTooLong symbol)
      else if length name > 64 then Err (PatNameTooLong name)
      else if decimals > 18 then Err (PatInvalidDecimals decimals)
      else if burn_rate_bps > 1000 then Err (PatInvalidBurnRate burn_rate_bps)
      else Ok (recompute_hash c
        \<lparr>tk_symbol = symbol, tk_name = name, tk_decimals = decimals, tk_owner = owner,
         tk_total_supply_cap = total_supply_cap, tk_freezable = freezable, tk_created_at = created_at,
         tk_current_supply = 0, tk_total_burned = 0, tk_burn_rate_bps = burn_rate_bps,
         tk_frozen = False, tk_state_hash = replicate 32 0\<rparr>))"

definition transfer_burn_amount :: "PATToken \<Rightarrow> u128 \<Rightarrow> u128" where
  "transfer_burn_amount t amount =
     (if tk_burn_rate_bps t = 0 then 0 else wrap_mul 128 amount (tk_burn_rate_bps t) div 10000)"

section \<open>The ledger of one token\<close>

type_synonym TokenLedger = "(string, u128) btree_map"

definition ledger_balance_of :: "crypto_env \<Rightarrow> TokenLedger \<Rightarrow> Address \<Rightarrow> u128" where
  "ledger_balance_of c l address = bt_get_or l (hex_encode c address) 0"

text \<open>\<open>entry(key).or_insert(0)\<close> leaves a zero entry behind when the addition overflows.\<close>

definition credit :: "crypto_env \<Rightarrow> Address \<Rightarrow> u128 \<Rightarrow> TokenLedger \<Rightarrow> TokenLedger \<times> (PATError, u128) outcome" where
  "credit c address amount l =
     (let key = hex_encode c address; entry = bt_get_or l key 0
      in case checked_add 128 entry amount of
           None \<Rightarrow> (bt_insert key entry l, Err (PatBalanceOverflow key))
         | Some v \<Rightarrow> (bt_insert key v l, Ok v))"

definition debit :: "crypto_env \<Rightarrow> Address \<Rightarrow> u128 \<Rightarrow> TokenLedger \<Rightarrow> TokenLedger \<times> (PATError, u128) outcome" where
  "debit c address amount l =
     (let key = hex_encode c address; bal = bt_get_or l key 0
      in if bal < amount then (l, Err (PatInsufficientBalance bal amount))
         else let new_bal = bal - amount
              in if new_bal = 0 then (bt_remove key l, Ok new_bal)
                 else (bt_insert key new_bal l, Ok new_bal))"

section \<open>The allowances of one token\<close>

type_synonym AllowanceTable = "(string \<times> string, u128) btree_map"

definition allowance_set :: "crypto_env \<Rightarrow> Address \<Rightarrow> Address \<Rightarrow> u128 \<Rightarrow> AllowanceTable \<Rightarrow> AllowanceTable" where
  "allowance_set c owner spender amount tab =
     (let key = (hex_encode c owner, hex_encode c spender)
      in if amount = 0 then bt_remove key tab else bt_insert key amount tab)"

abbreviation allowance_get :: "crypto_env \<Rightarrow> AllowanceTable \<Rightarrow> Address \<Rightarrow> Address \<Rightarrow> u128" where
  "allowance_get c tab owner spender \<equiv> bt_get_or tab (hex_encode c owner, hex_encode c spender) 0"

definition allowance_spend ::
  "crypto_env \<Rightarrow> Address \<Rightarrow> Address \<Rightarrow> u128 \<Rightarrow> AllowanceTable \<Rightarrow> AllowanceTable \<times> (PATError, unit) outcome" where
  "allowance_spend c owner spender amount tab =
     (let key = (hex_encode c owner, hex_encode c spender); approved = bt_get_or tab key 0
      in if approved < amount then (tab, Err (PatInsufficientAllowance approved amount))
         else let remaining = approved - amount
              in if remaining = 0 then (bt_remove key tab, Ok ())
                 else (bt_insert key remaining tab, Ok ()))"

section \<open>Ledger laws\<close>

abbreviation ledger_total :: "TokenLedger \<Rightarrow> nat" where
  "ledger_total l \<equiv> bt_sum (\<lambda>v. v) l"

lemma get_or_remove [simp]: "bt_get_or (bt_remove k m) k' d = (if k' = k then d else bt_get_or m k' d)"
  by (simp add: bt_get_or_def)

lemma total_insert:
  assumes "bt_wf l" shows "ledger_total (bt_insert k v l) + bt_get_or l k 0 = ledger_total l + v"
  using bt_sum_insert [OF assms, of "\<lambda>v. v" k v] by (simp add: bt_get_or_def)

lemma total_remove:
  assumes "bt_wf l" shows "ledger_total (bt_remove k l) + bt_get_or l k 0 = ledger_total l"
  using bt_sum_remove [OF assms, of "\<lambda>v. v" k] by (simp add: bt_get_or_def)

lemma balance_le_total: "ledger_balance_of c l a \<le> ledger_total l"
  using bt_sum_ge [of l "hex_encode c a" _ "\<lambda>v. v"]
  by (auto simp: ledger_balance_of_def bt_get_or_def split: option.splits)

text \<open>A credit that fits and a covered debit succeed; each moves one balance and the total alike.\<close>

lemma credit_exact:
  assumes "bt_wf l" "ledger_balance_of c l a + v < 2 ^ 128"
  obtains l' where "credit c a v l = (l', Ok (ledger_balance_of c l a + v))" "bt_wf l'"
    "ledger_total l' = ledger_total l + v"
    "\<And>b. ledger_balance_of c l' b =
       (if hex_encode c b = hex_encode c a then ledger_balance_of c l a + v else ledger_balance_of c l b)"
proof -
  let ?k = "hex_encode c a"
  let ?l = "bt_insert ?k (bt_get_or l ?k 0 + v) l"
  have "credit c a v l = (?l, Ok (ledger_balance_of c l a + v))"
    using assms(2) by (simp add: credit_def checked_add_def ledger_balance_of_def Let_def)
  moreover have "ledger_total ?l = ledger_total l + v" using total_insert [OF assms(1), of ?k "bt_get_or l ?k 0 + v"] by simp
  ultimately show thesis using assms(1) by (intro that) (auto simp: ledger_balance_of_def)
qed

lemma debit_exact:
  assumes "bt_wf l" "v \<le> ledger_balance_of c l a"
  obtains l' where "debit c a v l = (l', Ok (ledger_balance_of c l a - v))" "bt_wf l'"
    "ledger_total l' + v = ledger_total l"
    "\<And>b. ledger_balance_of c l' b =
       (if hex_encode c b = hex_encode c a then ledger_balance_of c l a - v else ledger_balance_of c l b)"
proof -
  let ?k = "hex_encode c a"
  let ?new = "bt_get_or l ?k 0 - v"
  let ?l = "if ?new = 0 then bt_remove ?k l else bt_insert ?k ?new l"
  have "debit c a v l = (?l, Ok (ledger_balance_of c l a - v))"
    using assms(2) by (simp add: debit_def ledger_balance_of_def Let_def)
  moreover have "bt_wf ?l" using assms(1) by simp
  moreover have "ledger_total ?l + v = ledger_total l"
    using total_insert [OF assms(1), of ?k ?new] total_remove [OF assms(1), of ?k] assms(2)
    by (auto simp: ledger_balance_of_def)
  moreover have "ledger_balance_of c ?l b =
      (if hex_encode c b = ?k then ledger_balance_of c l a - v else ledger_balance_of c l b)" for b
    by (simp add: ledger_balance_of_def)
  ultimately show thesis by (rule that)
qed

lemma allowance_get_set:
  "allowance_get c (allowance_set c a b v tab) a' b' =
     (if hex_encode c a' = hex_encode c a \<and> hex_encode c b' = hex_encode c b then v
      else allowance_get c tab a' b')"
  by (simp add: allowance_set_def Let_def)

lemma allowance_set_wf [simp]: "bt_wf tab \<Longrightarrow> bt_wf (allowance_set c a b v tab)"
  by (simp add: allowance_set_def Let_def)

text \<open>The engine lowers an allowance with \<open>set\<close>; that is what the unused \<open>spend\<close> would do.\<close>

lemma spend_is_set:
  "v \<le> allowance_get c tab a b \<Longrightarrow>
   allowance_spend c a b v tab = (allowance_set c a b (allowance_get c tab a b - v) tab, Ok ())"
  by (simp add: allowance_spend_def allowance_set_def Let_def)

text \<open>The burn taken from a transfer never exceeds the amount, and is the exact share below \<open>2 ^ 118\<close>.\<close>

lemma transfer_burn_le:
  assumes "tk_burn_rate_bps t \<le> 1000" shows "transfer_burn_amount t amount \<le> amount"
proof -
  have "wrap_mul 128 amount (tk_burn_rate_bps t) \<le> amount * tk_burn_rate_bps t" by (simp add: wrap_mul_def)
  also have "\<dots> \<le> amount * 10000" using assms by simp
  finally have "wrap_mul 128 amount (tk_burn_rate_bps t) div 10000 \<le> amount * 10000 div 10000" by (rule div_le_mono)
  then show ?thesis by (simp add: transfer_burn_amount_def)
qed

lemma transfer_burn_exact:
  assumes "tk_burn_rate_bps t \<le> 1000" "amount < 2 ^ 118"
  shows "transfer_burn_amount t amount = amount * tk_burn_rate_bps t div 10000"
proof -
  have "amount * tk_burn_rate_bps t \<le> amount * 1000" using assms(1) by simp
  also have "\<dots> < 2 ^ 128" using assms(2) by simp
  finally show ?thesis by (simp add: transfer_burn_amount_def wrap_mul_exact)
qed

lemma hex_inj: "hex_ok c \<Longrightarrow> is_bytes a \<Longrightarrow> is_bytes b \<Longrightarrow> hex_encode c a = hex_encode c b \<longleftrightarrow> a = b"
  unfolding hex_ok_def by (metis option.inject)

end
