(* ===== verification/PatEngine.thy ===== *)
theory PatEngine
  imports PatToken
begin

text \<open>
  Programmable asset tokens, the engine and the registry (\<open>bleep-pat\<close>: \<open>state_diff.rs\<close>, \<open>engine.rs\<close>,
  \<open>registry.rs\<close>). The engine reads the registry and returns a diff; the registry applies the diff
  piece by piece. The two \<open>bincode\<close> encodings that are hashed are parameters, and so are the two
  readings of the system clock of one call.
\<close>

section \<open>State diffs\<close>

datatype PATEvent =
    EvTokenCreated string Address u128 u16 u64
  | EvMint string Address u128 u64
  | EvBurn string Address u128 u64
  | EvTransfer string Address Address u128 u128 u128 u64
  | EvApprove string Address Address u128 u64
  | EvTransferFrom string Address Address Address u128 u128 u128 u64
  | EvFrozen string bool u64
  | EvBurnRateUpdated string u16 u16 u64
  | EvOwnershipTransferred string Address Address u64

record BalanceDelta =
  bd_symbol :: string
  bd_address :: Address
  bd_delta :: int

record SupplyDelta =
  sd_symbol :: string
  sd_supply_delta :: int
  sd_burned_add :: u128

record AllowanceUpdate =
  au_symbol :: string
  au_owner :: Address
  au_spender :: Address
  au_new_value :: u128

datatype TokenMutation =
    SetFrozen string bool
  | SetBurnRate string u16
  | SetOwner string Address
  | CreateTokenSignal string

record PATStateDiff =
  balance_deltas :: "BalanceDelta list"
  supply_deltas :: "SupplyDelta list"
  allowance_updates :: "AllowanceUpdate list"
  token_mutations :: "TokenMutation list"
  diff_events :: "PATEvent list"
  diff_gas_used :: u64
  diff_hash :: bytes

definition diff_empty :: PATStateDiff where
  "diff_empty = \<lparr>balance_deltas = [], supply_deltas = [], allowance_updates = [], token_mutations = [],
                 diff_events = [], diff_gas_used = 0, diff_hash = replicate 32 0\<rparr>"

record pat_env =
  pe_crypto :: crypto_env
  enc_intent :: "PATIntent \<Rightarrow> bytes option"
  enc_diff :: "PATStateDiff \<Rightarrow> bytes option"

definition unwrap_or_default :: "bytes option \<Rightarrow> bytes" where
  "unwrap_or_default b = (case b of None \<Rightarrow> [] | Some x \<Rightarrow> x)"

definition intent_hash :: "pat_env \<Rightarrow> PATIntent \<Rightarrow> bytes" where
  "intent_hash e i = sha2_256 (pe_crypto e) (unwrap_or_default (enc_intent e i))"

definition finalise :: "pat_env \<Rightarrow> PATStateDiff \<Rightarrow> PATStateDiff" where
  "finalise e d =
     (let d = d\<lparr>diff_hash := replicate 32 0\<rparr>
      in d\<lparr>diff_hash := sha2_256 (pe_crypto e) (unwrap_or_default (enc_diff e d))\<rparr>)"

record PATOutcome =
  oc_success :: bool
  oc_diff :: PATStateDiff
  oc_return_value :: "u128 option"
  oc_revert :: "string option"
  oc_gas_used :: u64

definition outcome_success :: "PATStateDiff \<Rightarrow> u128 option \<Rightarrow> PATOutcome" where
  "outcome_success diff return_value =
     \<lparr>oc_success = True, oc_diff = diff, oc_return_value = return_value, oc_revert = None,
      oc_gas_used = diff_gas_used diff\<rparr>"

section \<open>The engine\<close>

record RegistryView =
  view_tokens :: "(string, PATToken) btree_map"
  view_ledgers :: "(string, TokenLedger) btree_map"
  view_allowances :: "(string, AllowanceTable) btree_map"

definition view_token :: "RegistryView \<Rightarrow> string \<Rightarrow> (PATError, PATToken) outcome" where
  "view_token view symb = ok_or (PatTokenNotFound symb) (bt_get (view_tokens view) symb)"

definition view_ledger :: "RegistryView \<Rightarrow> string \<Rightarrow> (PATError, TokenLedger) outcome" where
  "view_ledger view symb = ok_or (PatTokenNotFound symb) (bt_get (view_ledgers view) symb)"

abbreviation neg_i128 :: "u128 \<Rightarrow> int" where
  "neg_i128 x \<equiv> wrap_i128 (- as_i128 x)"

definition exec_create_token ::
  "pat_env \<Rightarrow> u64 \<Rightarrow> string \<Rightarrow> string \<Rightarrow> u8 \<Rightarrow> u128 \<Rightarrow> u16 \<Rightarrow> Address \<Rightarrow> u64 \<Rightarrow> (PATError, PATOutcome) outcome" where
  "exec_create_token e ts symb name decimals cap burn_rate_bps caller gas_used =
     (if length symb > 16 then Err (PatSymbolTooLong symb)
      else if length name > 64 then Err (PatNameTooLong name)
      else if decimals > 18 then Err (PatInvalidDecimals decimals)
      else if burn_rate_bps > 1000 then Err (PatInvalidBurnRate burn_rate_bps)
      else Ok (outcome_success (finalise e (diff_empty
        \<lparr>diff_gas_used := gas_used,
         token_mutations := [CreateTokenSignal symb],
         diff_events := [EvTokenCreated symb caller cap burn_rate_bps ts]\<rparr>)) None))"

definition exec_mint ::
  "pat_env \<Rightarrow> u64 \<Rightarrow> string \<Rightarrow> Address \<Rightarrow> u128 \<Rightarrow> Address \<Rightarrow> u64 \<Rightarrow> RegistryView \<Rightarrow> (PATError, PATOutcome) outcome" where
  "exec_mint e ts symb to amount caller gas_used view =
     (if amount = 0 then Err PatZeroAmount
      else bind_outcome (view_token view symb) (\<lambda>token.
        if tk_owner token \<noteq> caller then Err (PatUnauthorized (hex_encode (pe_crypto e) caller))
        else
          let new_supply = sat_add 128 (tk_current_supply token) amount
          in if tk_total_supply_cap token > 0 \<and> new_supply > tk_total_supply_cap token
             then Err (PatSupplyCapExceeded (tk_total_supply_cap token) new_supply)
             else Ok (outcome_success (finalise e (diff_empty
               \<lparr>diff_gas_used := gas_used,
                balance_deltas := [\<lparr>bd_symbol = symb, bd_address = to, bd_delta = as_i128 amount\<rparr>],
                supply_deltas := [\<lparr>sd_symbol = symb, sd_supply_delta = as_i128 amount, sd_burned_add = 0\<rparr>],
                diff_events := [EvMint symb to amount ts]\<rparr>)) (Some amount))))"

definition exec_burn ::
  "pat_env \<Rightarrow> u64 \<Rightarrow> string \<Rightarrow> u128 \<Rightarrow> Address \<Rightarrow> u64 \<Rightarrow> RegistryView \<Rightarrow> (PATError, PATOutcome) outcome" where
  "exec_burn e ts symb amount caller gas_used view =
     (if amount = 0 then Err PatZeroAmount
      else bind_outcome (view_ledger view symb) (\<lambda>ledger.
        let bal = ledger_balance_of (pe_crypto e) ledger caller
        in if bal < amount then Err (PatInsufficientBalance bal amount)
           else Ok (outcome_success (finalise e (diff_empty
             \<lparr>diff_gas_used := gas_used,
              balance_deltas := [\<lparr>bd_symbol = symb, bd_address = caller, bd_delta = neg_i128 amount\<rparr>],
              supply_deltas := [\<lparr>sd_symbol = symb, sd_supply_delta = neg_i128 amount, sd_burned_add = amount\<rparr>],
              diff_events := [EvBurn symb caller amount ts]\<rparr>)) None)))"

definition exec_transfer ::
  "pat_env \<Rightarrow> u64 \<Rightarrow> string \<Rightarrow> Address \<Rightarrow> u128 \<Rightarrow> bytes option \<Rightarrow> Address \<Rightarrow> u64 \<Rightarrow> RegistryView
   \<Rightarrow> (PATError, PATOutcome) outcome" where
  "exec_transfer e ts symb to amount memo caller gas_used view =
     (if amount = 0 then Err PatZeroAmount
      else if caller = to then Err PatSelfTransfer
      else if (case memo of None \<Rightarrow> False | Some m \<Rightarrow> length m > 128)
      then Err (PatMemoTooLong (case memo of None \<Rightarrow> 0 | Some m \<Rightarrow> length m))
      else bind_outcome (view_token view symb) (\<lambda>token.
        if tk_frozen token then Err (PatFrozen symb)
        else bind_outcome (view_ledger view symb) (\<lambda>ledger.
          let bal = ledger_balance_of (pe_crypto e) ledger caller
          in if bal < amount then Err (PatInsufficientBalance bal amount)
             else
               let burn_amount = transfer_burn_amount token amount;
                   received = wrap_sub 128 amount burn_amount
               in Ok (outcome_success (finalise e (diff_empty
                 \<lparr>diff_gas_used := gas_used,
                  balance_deltas :=
                    [\<lparr>bd_symbol = symb, bd_address = caller, bd_delta = neg_i128 amount\<rparr>,
                     \<lparr>bd_symbol = symb, bd_address = to, bd_delta = as_i128 received\<rparr>],
                  supply_deltas :=
                    (if burn_amount > 0
                     then [\<lparr>sd_symbol = symb, sd_supply_delta = neg_i128 burn_amount, sd_burned_add = burn_amount\<rparr>]
                     else []),
                  diff_events := [EvTransfer symb caller to amount received burn_amount ts]\<rparr>))
                 (Some received)))))"

definition exec_approve ::
  "pat_env \<Rightarrow> u64 \<Rightarrow> string \<Rightarrow> Address \<Rightarrow> u128 \<Rightarrow> Address \<Rightarrow> u64 \<Rightarrow> RegistryView \<Rightarrow> (PATError, PATOutcome) outcome" where
  "exec_approve e ts symb spender amount caller gas_used view =
     bind_outcome (view_token view symb) (\<lambda>_.
       Ok (outcome_success (finalise e (diff_empty
         \<lparr>diff_gas_used := gas_used,
          allowance_updates :=
            [\<lparr>au_symbol = symb, au_owner = caller, au_spender = spender, au_new_value = amount\<rparr>],
          diff_events := [EvApprove symb caller spender amount ts]\<rparr>)) None))"

definition exec_transfer_from ::
  "pat_env \<Rightarrow> u64 \<Rightarrow> string \<Rightarrow> Address \<Rightarrow> Address \<Rightarrow> u128 \<Rightarrow> Address \<Rightarrow> u64 \<Rightarrow> RegistryView
   \<Rightarrow> (PATError, PATOutcome) outcome" where
  "exec_transfer_from e ts symb from to amount caller gas_used view =
     (if amount = 0 then Err PatZeroAmount
      else if from = to then Err PatSelfTransfer
      else bind_outcome (view_token view symb) (\<lambda>token.
        if tk_frozen token then Err (PatFrozen symb)
        else
          let allowance = (case bt_get (view_allowances view) symb of
                             None \<Rightarrow> 0 | Some tab \<Rightarrow> allowance_get (pe_crypto e) tab from caller)
          in if allowance < amount then Err (PatInsufficientAllowance allowance amount)
             else bind_outcome (view_ledger view symb) (\<lambda>ledger.
               let bal = ledger_balance_of (pe_crypto e) ledger from
               in if bal < amount then Err (PatInsufficientBalance bal amount)
                  else
                    let burn_amount = transfer_burn_amount token amount;
                        received = wrap_sub 128 amount burn_amount
                    in Ok (outcome_success (finalise e (diff_empty
                      \<lparr>diff_gas_used := gas_used,
                       balance_deltas :=
                         [\<lparr>bd_symbol = symb, bd_address = from, bd_delta = neg_i128 amount\<rparr>,
                          \<lparr>bd_symbol = symb, bd_address = to, bd_delta = as_i128 received\<rparr>],
                       supply_deltas :=
                         (if burn_amount > 0
                          then [\<lparr>sd_symbol = symb, sd_supply_delta = neg_i128 burn_amount,
                                 sd_burned_add = burn_amount\<rparr>]
                          else []),
                       allowance_updates :=
                         [\<lparr>au_symbol = symb, au_owner = from, au_spender = caller,
                           au_new_value = allowance - amount\<rparr>],
                       diff_events := [EvTransferFrom symb from to caller amount received burn_amount ts]\<rparr>))
                      (Some received)))))"

definition exec_freeze ::
  "pat_env \<Rightarrow> u64 \<Rightarrow> string \<Rightarrow> bool \<Rightarrow> Address \<Rightarrow> u64 \<Rightarrow> RegistryView \<Rightarrow> (PATError, PATOutcome) outcome" where
  "exec_freeze e ts symb frozen caller gas_used view =
     bind_outcome (view_token view symb) (\<lambda>token.
       if tk_owner token \<noteq> caller then Err (PatUnauthorized (hex_encode (pe_crypto e) caller))
       else if \<not> tk_freezable token then Err (PatNotFreezable symb)
       else Ok (outcome_success (finalise e (diff_empty
         \<lparr>diff_gas_used := gas_used,
          token_mutations := [SetFrozen symb frozen],
          diff_events := [EvFrozen symb frozen ts]\<rparr>)) None))"

definition exec_update_burn_rate ::
  "pat_env \<Rightarrow> u64 \<Rightarrow> string \<Rightarrow> u16 \<Rightarrow> Address \<Rightarrow> u64 \<Rightarrow> RegistryView \<Rightarrow> (PATError, PATOutcome) outcome" where
  "exec_update_burn_rate e ts symb new_rate_bps caller gas_used view =
     (if new_rate_bps > 1000 then Err (PatInvalidBurnRate new_rate_bps)
      else bind_outcome (view_token view symb) (\<lambda>token.
        if tk_owner token \<noteq> caller then Err (PatUnauthorized (hex_encode (pe_crypto e) caller))
        else Ok (outcome_success (finalise e (diff_empty
          \<lparr>diff_gas_used := gas_used,
           token_mutations := [SetBurnRate symb new_rate_bps],
           diff_events := [EvBurnRateUpdated symb (tk_burn_rate_bps token) new_rate_bps ts]\<rparr>)) None)))"

definition exec_transfer_ownership ::
  "pat_env \<Rightarrow> u64 \<Rightarrow> string \<Rightarrow> Address \<Rightarrow> Address \<Rightarrow> u64 \<Rightarrow> RegistryView \<Rightarrow> (PATError, PATOutcome) outcome" where
  "exec_transfer_ownership e ts symb new_owner caller gas_used view =
     bind_outcome (view_token view symb) (\<lambda>token.
       if tk_owner token \<noteq> caller then Err (PatUnauthorized (hex_encode (pe_crypto e) caller))
       else Ok (outcome_success (finalise e (diff_empty
         \<lparr>diff_gas_used := gas_used,
          token_mutations := [SetOwner symb new_owner],
          diff_events := [EvOwnershipTransferred symb (tk_owner token) new_owner ts]\<rparr>)) None))"

definition engine_execute ::
  "pat_env \<Rightarrow> u64 \<Rightarrow> PATGasModel \<Rightarrow> PATIntent \<Rightarrow> RegistryView \<Rightarrow> (PATError, PATOutcome) outcome" where
  "engine_execute e ts gas i view =
     bind_outcome (gas_charge gas (in_kind i) (in_gas_limit i)) (\<lambda>gas_used.
       case in_kind i of
         PatCreateToken symb name decimals cap burn_rate_bps freezable \<Rightarrow>
           exec_create_token e ts symb name decimals cap burn_rate_bps (in_caller i) gas_used
       | PatMint symb to amount \<Rightarrow> exec_mint e ts symb to amount (in_caller i) gas_used view
       | PatBurn symb amount \<Rightarrow> exec_burn e ts symb amount (in_caller i) gas_used view
       | PatTransfer symb to amount memo \<Rightarrow> exec_transfer e ts symb to amount memo (in_caller i) gas_used view
       | PatApprove symb spender amount \<Rightarrow> exec_approve e ts symb spender amount (in_caller i) gas_used view
       | PatTransferFrom symb from to amount \<Rightarrow>
           exec_transfer_from e ts symb from to amount (in_caller i) gas_used view
       | PatFreeze symb frozen \<Rightarrow> exec_freeze e ts symb frozen (in_caller i) gas_used view
       | PatUpdateBurnRate symb rate \<Rightarrow> exec_update_burn_rate e ts symb rate (in_caller i) gas_used view
       | PatTransferOwnership symb new_owner \<Rightarrow>
           exec_transfer_ownership e ts symb new_owner (in_caller i) gas_used view)"

end
