(* ===== verification/PatRegistry.thy ===== *)
theory PatRegistry
  imports PatEngine
begin

text \<open>
  The registry of \<open>bleep-pat\<close> (\<open>registry.rs\<close>): replay protection, the existence check, the call of
  the engine, and the application of its diff, which stops at the first error and does not undo
  what it wrote before. An abstract token ledger specifies what an executed intent does.
\<close>

section \<open>The registry\<close>

record PATRegistry =
  pr_tokens :: "(string, PATToken) btree_map"
  pr_ledgers :: "(string, TokenLedger) btree_map"
  pr_allowances :: "(string, AllowanceTable) btree_map"
  pr_events :: "PATEvent list"
  pr_seen_intents :: "bytes list"
  pr_seen_nonces :: "(Address \<times> u64) list"
  pr_gas :: PATGasModel

definition PATRegistry_with_gas_model :: "PATGasModel \<Rightarrow> PATRegistry" where
  "PATRegistry_with_gas_model gas =
     \<lparr>pr_tokens = [], pr_ledgers = [], pr_allowances = [], pr_events = [], pr_seen_intents = [],
      pr_seen_nonces = [], pr_gas = gas\<rparr>"

definition PATRegistry_new :: PATRegistry where
  "PATRegistry_new = PATRegistry_with_gas_model PATGasModel_default"

definition apply_balance_delta :: "pat_env \<Rightarrow> BalanceDelta \<Rightarrow> PATRegistry \<Rightarrow> PATRegistry \<times> (PATError, unit) outcome" where
  "apply_balance_delta e d s =
     (case bt_get (pr_ledgers s) (bd_symbol d) of
        None \<Rightarrow> (s, Err (PatTokenNotFound (bd_symbol d)))
      | Some ledger \<Rightarrow>
          (case (if bd_delta d \<ge> 0 then credit (pe_crypto e) (bd_address d) (as_u128 (bd_delta d)) ledger
                 else debit (pe_crypto e) (bd_address d) (as_u128 (wrap_i128 (- bd_delta d))) ledger) of
             (ledger', r) \<Rightarrow>
               (s\<lparr>pr_ledgers := bt_insert (bd_symbol d) ledger' (pr_ledgers s)\<rparr>,
                bind_outcome r (\<lambda>_. Ok ()))))"

definition apply_supply_delta :: "pat_env \<Rightarrow> SupplyDelta \<Rightarrow> PATRegistry \<Rightarrow> PATRegistry \<times> (PATError, unit) outcome" where
  "apply_supply_delta e sd s =
     (case bt_get (pr_tokens s) (sd_symbol sd) of
        None \<Rightarrow> (s, Err (PatTokenNotFound (sd_symbol sd)))
      | Some token \<Rightarrow>
          (let put = (\<lambda>t. s\<lparr>pr_tokens := bt_insert (sd_symbol sd) t (pr_tokens s)\<rparr>)
           in case (if sd_supply_delta sd \<ge> 0
                    then checked_add 128 (tk_current_supply token) (as_u128 (sd_supply_delta sd))
                    else Some (sat_sub (tk_current_supply token) (as_u128 (wrap_i128 (- sd_supply_delta sd))))) of
                None \<Rightarrow> (s, Err (PatBalanceOverflow (sd_symbol sd)))
              | Some supply' \<Rightarrow>
                  (let token = token\<lparr>tk_current_supply := supply'\<rparr>
                   in case checked_add 128 (tk_total_burned token) (sd_burned_add sd) of
                        None \<Rightarrow> (put token, Err (PatBalanceOverflow (sd_symbol sd)))
                      | Some burned \<Rightarrow>
                          (put (recompute_hash (pe_crypto e) (token\<lparr>tk_total_burned := burned\<rparr>)), Ok ()))))"

definition apply_allowance_update ::
  "pat_env \<Rightarrow> AllowanceUpdate \<Rightarrow> PATRegistry \<Rightarrow> PATRegistry \<times> (PATError, unit) outcome" where
  "apply_allowance_update e au s =
     (case bt_get (pr_allowances s) (au_symbol au) of
        None \<Rightarrow> (s, Err (PatTokenNotFound (au_symbol au)))
      | Some tab \<Rightarrow>
          (s\<lparr>pr_allowances := bt_insert (au_symbol au)
               (allowance_set (pe_crypto e) (au_owner au) (au_spender au) (au_new_value au) tab) (pr_allowances s)\<rparr>,
           Ok ()))"

fun apply_mutation :: "pat_env \<Rightarrow> TokenMutation \<Rightarrow> PATRegistry \<Rightarrow> PATRegistry" where
  "apply_mutation e (SetFrozen symb frozen) s =
     s\<lparr>pr_tokens := bt_modify symb (\<lambda>t. recompute_hash (pe_crypto e) (t\<lparr>tk_frozen := frozen\<rparr>)) (pr_tokens s)\<rparr>"
| "apply_mutation e (SetBurnRate symb new_bps) s =
     s\<lparr>pr_tokens := bt_modify symb (\<lambda>t. recompute_hash (pe_crypto e) (t\<lparr>tk_burn_rate_bps := new_bps\<rparr>)) (pr_tokens s)\<rparr>"
| "apply_mutation e (SetOwner symb new_owner) s =
     s\<lparr>pr_tokens := bt_modify symb (\<lambda>t. recompute_hash (pe_crypto e) (t\<lparr>tk_owner := new_owner\<rparr>)) (pr_tokens s)\<rparr>"
| "apply_mutation e (CreateTokenSignal symb) s = s"

definition apply_diff :: "pat_env \<Rightarrow> PATStateDiff \<Rightarrow> PATRegistry \<Rightarrow> PATRegistry \<times> (PATError, unit) outcome" where
  "apply_diff e d s =
     and_then (for_each (apply_balance_delta e) (balance_deltas d) s) (\<lambda>s _.
     and_then (for_each (apply_supply_delta e) (supply_deltas d) s) (\<lambda>s _.
     and_then (for_each (apply_allowance_update e) (allowance_updates d) s) (\<lambda>s _.
       let s = fold (apply_mutation e) (token_mutations d) s
       in (s\<lparr>pr_events := pr_events s @ diff_events d\<rparr>, Ok ()))))"

text \<open>\<open>if let PATIntentKind::CreateToken\<close>: the new token is stored before the diff is applied.\<close>

definition materialise :: "pat_env \<Rightarrow> u64 \<Rightarrow> PATIntent \<Rightarrow> PATRegistry \<Rightarrow> PATRegistry \<times> (PATError, unit) outcome" where
  "materialise e created_at i s =
     (case in_kind i of
        PatCreateToken symb name decimals cap burn_rate_bps freezable \<Rightarrow>
          (case PATToken_new (pe_crypto e) symb name decimals (in_caller i) cap burn_rate_bps freezable created_at of
             Ok token \<Rightarrow>
               (s\<lparr>pr_tokens := bt_insert symb token (pr_tokens s),
                  pr_ledgers := bt_insert symb [] (pr_ledgers s),
                  pr_allowances := bt_insert symb [] (pr_allowances s)\<rparr>, Ok ())
           | Err x \<Rightarrow> (s, Err x)
           | Panic \<Rightarrow> (s, Panic))
      | _ \<Rightarrow> (s, Ok ()))"

definition exists_check :: "PATIntentKind \<Rightarrow> PATRegistry \<Rightarrow> (PATError, unit) outcome" where
  "exists_check kind s =
     (case kind of
        PatCreateToken symb _ _ _ _ _ \<Rightarrow>
          if bt_contains (pr_tokens s) symb then Err (PatTokenAlreadyExists symb) else Ok ()
      | _ \<Rightarrow>
          if \<not> bt_contains (pr_tokens s) (intent_symbol kind) then Err (PatTokenNotFound (intent_symbol kind))
          else Ok ())"

definition registry_view :: "PATRegistry \<Rightarrow> RegistryView" where
  "registry_view s =
     \<lparr>view_tokens = pr_tokens s, view_ledgers = pr_ledgers s, view_allowances = pr_allowances s\<rparr>"

definition pat_execute ::
  "pat_env \<Rightarrow> u64 \<Rightarrow> u64 \<Rightarrow> PATIntent \<Rightarrow> PATRegistry \<Rightarrow> PATRegistry \<times> (PATError, PATOutcome) outcome" where
  "pat_execute e ts created_at i s =
     (let hash = intent_hash e i
      in if hash \<in> set (pr_seen_intents s) then (s, Err PatDuplicateIntent)
         else
           and_then (s, exists_check (in_kind i) s) (\<lambda>s _.
           and_then (s, engine_execute e ts (pr_gas s) i (registry_view s)) (\<lambda>s oc.
           and_then (materialise e created_at i s) (\<lambda>s _.
           and_then (apply_diff e (oc_diff oc) s) (\<lambda>s _.
             (s\<lparr>pr_seen_intents := bs_insert hash (pr_seen_intents s)\<rparr>, Ok oc))))))"

definition execute_signed ::
  "pat_env \<Rightarrow> u64 \<Rightarrow> u64 \<Rightarrow> PATIntent \<Rightarrow> PATRegistry \<Rightarrow> PATRegistry \<times> (PATError, PATOutcome) outcome" where
  "execute_signed e ts created_at i s =
     (let nonce_key = (in_caller i, in_nonce i)
      in if in_nonce i = 0 \<or> nonce_key \<in> set (pr_seen_nonces s) then (s, Err PatDuplicateIntent)
         else and_then (pat_execute e ts created_at i s) (\<lambda>s oc.
           (s\<lparr>pr_seen_nonces := bs_insert nonce_key (pr_seen_nonces s)\<rparr>, Ok oc)))"

abbreviation registry_balance_of :: "pat_env \<Rightarrow> PATRegistry \<Rightarrow> string \<Rightarrow> Address \<Rightarrow> u128" where
  "registry_balance_of e s symb a \<equiv> (case bt_get (pr_ledgers s) symb of None \<Rightarrow> 0 | Some l \<Rightarrow> ledger_balance_of (pe_crypto e) l a)"

abbreviation registry_allowance :: "pat_env \<Rightarrow> PATRegistry \<Rightarrow> string \<Rightarrow> Address \<Rightarrow> Address \<Rightarrow> u128" where
  "registry_allowance e s symb a b \<equiv> (case bt_get (pr_allowances s) symb of None \<Rightarrow> 0 | Some tab \<Rightarrow> allowance_get (pe_crypto e) tab a b)"

section \<open>Applying the pieces of a diff\<close>

lemma bt_insert_twice [simp]: "bt_insert k v (bt_insert k u m) = bt_insert k v m"
  by (induction m) auto

lemma apply_credit:
  assumes "bt_get (pr_ledgers s) symb = Some l" "v < 2 ^ 127" "credit (pe_crypto e) a v l = (l', Ok w)"
  shows "apply_balance_delta e \<lparr>bd_symbol = symb, bd_address = a, bd_delta = as_i128 v\<rparr> s =
    (s\<lparr>pr_ledgers := bt_insert symb l' (pr_ledgers s)\<rparr>, Ok ())"
  using assms by (simp add: apply_balance_delta_def i128_exact)

lemma apply_debit:
  assumes "bt_get (pr_ledgers s) symb = Some l" "0 < v" "v < 2 ^ 127" "debit (pe_crypto e) a v l = (l', Ok w)"
  shows "apply_balance_delta e \<lparr>bd_symbol = symb, bd_address = a, bd_delta = neg_i128 v\<rparr> s =
    (s\<lparr>pr_ledgers := bt_insert symb l' (pr_ledgers s)\<rparr>, Ok ())"
  using assms by (simp add: apply_balance_delta_def i128_exact)

lemma apply_mint_supply:
  assumes "bt_get (pr_tokens s) symb = Some t" "v < 2 ^ 127" "tk_current_supply t + v < 2 ^ 128"
    "tk_total_burned t < 2 ^ 128"
  shows "apply_supply_delta e \<lparr>sd_symbol = symb, sd_supply_delta = as_i128 v, sd_burned_add = 0\<rparr> s =
    (s\<lparr>pr_tokens := bt_insert symb (recompute_hash (pe_crypto e) (t\<lparr>tk_current_supply := tk_current_supply t + v\<rparr>))
        (pr_tokens s)\<rparr>, Ok ())"
  using assms by (simp add: apply_supply_delta_def i128_exact checked_add_def Let_def)

definition burn_token :: "pat_env \<Rightarrow> nat \<Rightarrow> PATToken \<Rightarrow> PATToken" where
  "burn_token e v t = recompute_hash (pe_crypto e)
     (t\<lparr>tk_current_supply := tk_current_supply t - v, tk_total_burned := tk_total_burned t + v\<rparr>)"

lemma apply_burn_supply:
  assumes "bt_get (pr_tokens s) symb = Some t" "0 < v" "v < 2 ^ 127"
  shows "apply_supply_delta e \<lparr>sd_symbol = symb, sd_supply_delta = neg_i128 v, sd_burned_add = v\<rparr> s =
    (if tk_total_burned t + v < 2 ^ 128
     then (s\<lparr>pr_tokens := bt_insert symb (burn_token e v t) (pr_tokens s)\<rparr>, Ok ())
     else (s\<lparr>pr_tokens := bt_insert symb (t\<lparr>tk_current_supply := tk_current_supply t - v\<rparr>) (pr_tokens s)\<rparr>,
           Err (PatBalanceOverflow symb)))"
  using assms by (simp add: apply_supply_delta_def i128_exact checked_add_def burn_token_def Let_def)

section \<open>Well-formed registries\<close>

text \<open>
  One token of a registry: its stored symbol is its key, its cap lies in \<open>(0, B)\<close>, the supply is the
  sum of the balances and within the cap, every number fits its machine type.
\<close>

definition address_ok :: "Address \<Rightarrow> bool" where
  "address_ok a \<longleftrightarrow> length a = 32 \<and> is_bytes a"

definition token_ok :: "nat \<Rightarrow> string \<Rightarrow> PATToken \<Rightarrow> TokenLedger \<Rightarrow> AllowanceTable \<Rightarrow> bool" where
  "token_ok B symb t l a \<longleftrightarrow>
     tk_symbol t = symb \<and> length symb \<le> 16 \<and> length (tk_name t) \<le> 64 \<and> tk_decimals t \<le> 18 \<and>
     tk_burn_rate_bps t \<le> 1000 \<and> address_ok (tk_owner t) \<and>
     0 < tk_total_supply_cap t \<and> tk_total_supply_cap t < B \<and>
     tk_current_supply t \<le> tk_total_supply_cap t \<and> tk_total_burned t < 2 ^ 128 \<and>
     bt_wf l \<and> ledger_total l = tk_current_supply t \<and>
     bt_wf a \<and> (\<forall>k v. bt_get a k = Some v \<longrightarrow> v < 2 ^ 128)"

definition pat_wf :: "nat \<Rightarrow> PATRegistry \<Rightarrow> bool" where
  "pat_wf B s \<longleftrightarrow> bt_wf (pr_tokens s) \<and> bt_wf (pr_ledgers s) \<and> bt_wf (pr_allowances s) \<and>
     (\<forall>symb. case bt_get (pr_tokens s) symb of
        None \<Rightarrow> bt_get (pr_ledgers s) symb = None \<and> bt_get (pr_allowances s) symb = None
      | Some t \<Rightarrow> \<exists>l a. bt_get (pr_ledgers s) symb = Some l \<and> bt_get (pr_allowances s) symb = Some a \<and>
                       token_ok B symb t l a)"

text \<open>\<open>lands symb s s' t l a\<close>: \<open>s'\<close> differs from \<open>s\<close> in one token, which has become \<open>(t, l, a)\<close>.\<close>

definition lands :: "string \<Rightarrow> PATRegistry \<Rightarrow> PATRegistry \<Rightarrow> PATToken \<Rightarrow> TokenLedger \<Rightarrow> AllowanceTable \<Rightarrow> bool" where
  "lands symb s s' t l a \<longleftrightarrow>
     pr_tokens s' = bt_insert symb t (pr_tokens s) \<and> pr_ledgers s' = bt_insert symb l (pr_ledgers s) \<and>
     pr_allowances s' = bt_insert symb a (pr_allowances s)"

lemma lands_wf: "pat_wf B s \<Longrightarrow> lands symb s s' t l a \<Longrightarrow> token_ok B symb t l a \<Longrightarrow> pat_wf B s'"
  unfolding pat_wf_def lands_def by (simp cong: option.case_cong)

lemma pat_wf_cell:
  assumes "pat_wf B s" "bt_get (pr_tokens s) symb = Some t"
  obtains l a where "bt_get (pr_ledgers s) symb = Some l" "bt_get (pr_allowances s) symb = Some a"
    "token_ok B symb t l a"
proof -
  from assms(1) have "case bt_get (pr_tokens s) symb of
        None \<Rightarrow> bt_get (pr_ledgers s) symb = None \<and> bt_get (pr_allowances s) symb = None
      | Some t \<Rightarrow> \<exists>l a. bt_get (pr_ledgers s) symb = Some l \<and> bt_get (pr_allowances s) symb = Some a \<and>
                       token_ok B symb t l a"
    unfolding pat_wf_def by blast
  with assms(2) that show thesis by auto
qed

lemma pat_wf_unchanged:
  assumes "pat_wf B s" "bt_get (pr_tokens s) symb = Some t"
  shows "bt_insert symb t (pr_tokens s) = pr_tokens s"
    "bt_get (pr_ledgers s) symb = Some l \<Longrightarrow> bt_insert symb l (pr_ledgers s) = pr_ledgers s"
    "bt_get (pr_allowances s) symb = Some a \<Longrightarrow> bt_insert symb a (pr_allowances s) = pr_allowances s"
  using assms by (simp_all add: pat_wf_def bt_insert_same)

text \<open>Moving \<open>n\<close> from one account to another while \<open>b\<close> of it is burnt.\<close>

lemma move_balances:
  assumes l: "bt_get (pr_ledgers s) symb = Some l" "bt_wf l" "ledger_total l < 2 ^ 127"
    and n: "0 < n" "n \<le> ledger_balance_of (pe_crypto e) l from" "b \<le> n"
  obtains l' where
    "for_each (apply_balance_delta e)
       [\<lparr>bd_symbol = symb, bd_address = from, bd_delta = neg_i128 n\<rparr>,
        \<lparr>bd_symbol = symb, bd_address = to, bd_delta = as_i128 (n - b)\<rparr>] s =
     (s\<lparr>pr_ledgers := bt_insert symb l' (pr_ledgers s)\<rparr>, Ok ())"
    "bt_wf l'" "ledger_total l' + b = ledger_total l"
    "\<And>x. hex_encode (pe_crypto e) from \<noteq> hex_encode (pe_crypto e) to \<Longrightarrow>
       ledger_balance_of (pe_crypto e) l' x =
       (if hex_encode (pe_crypto e) x = hex_encode (pe_crypto e) to then ledger_balance_of (pe_crypto e) l to + (n - b)
        else if hex_encode (pe_crypto e) x = hex_encode (pe_crypto e) from then ledger_balance_of (pe_crypto e) l from - n
        else ledger_balance_of (pe_crypto e) l x)"
proof -
  let ?c = "pe_crypto e"
  have small: "n < 2 ^ 127" "n - b < 2 ^ 127"
    using n(2) balance_le_total [of ?c l "from"] l(3) by linarith+
  obtain m where m: "debit ?c from n l = (m, Ok (ledger_balance_of ?c l from - n))" "bt_wf m"
    "ledger_total m + n = ledger_total l"
    "\<And>x. ledger_balance_of ?c m x =
      (if hex_encode ?c x = hex_encode ?c from then ledger_balance_of ?c l from - n else ledger_balance_of ?c l x)"
    using debit_exact [OF l(2) n(2)] by blast
  have "ledger_balance_of ?c m to + (n - b) \<le> ledger_total l"
    using balance_le_total [of ?c m to] m(3) by linarith
  also have "\<dots> < 2 ^ 128" using l(3) by simp
  finally have "ledger_balance_of ?c m to + (n - b) < 2 ^ 128" .
  then obtain l' where l': "credit ?c to (n - b) m = (l', Ok (ledger_balance_of ?c m to + (n - b)))" "bt_wf l'"
    "ledger_total l' = ledger_total m + (n - b)"
    "\<And>x. ledger_balance_of ?c l' x =
      (if hex_encode ?c x = hex_encode ?c to then ledger_balance_of ?c m to + (n - b) else ledger_balance_of ?c m x)"
    using credit_exact [OF m(2)] by blast
  let ?s = "s\<lparr>pr_ledgers := bt_insert symb m (pr_ledgers s)\<rparr>"
  have "apply_balance_delta e \<lparr>bd_symbol = symb, bd_address = from, bd_delta = neg_i128 n\<rparr> s = (?s, Ok ())"
    by (rule apply_debit [OF l(1) n(1) small(1) m(1)])
  moreover have "apply_balance_delta e \<lparr>bd_symbol = symb, bd_address = to, bd_delta = as_i128 (n - b)\<rparr> ?s =
      (s\<lparr>pr_ledgers := bt_insert symb l' (pr_ledgers s)\<rparr>, Ok ())"
    by (subst apply_credit [OF _ small(2) l'(1)]) simp_all
  ultimately have run: "for_each (apply_balance_delta e)
       [\<lparr>bd_symbol = symb, bd_address = from, bd_delta = neg_i128 n\<rparr>,
        \<lparr>bd_symbol = symb, bd_address = to, bd_delta = as_i128 (n - b)\<rparr>] s =
     (s\<lparr>pr_ledgers := bt_insert symb l' (pr_ledgers s)\<rparr>, Ok ())"
    by (simp add: and_then_def)
  have total: "ledger_total l' + b = ledger_total l" using l'(3) m(3) n(3) by linarith
  show thesis by (rule that [OF run l'(2) total]) (simp add: l'(4) m(4))
qed

section \<open>The abstract ledger\<close>

text \<open>
  What a token promises its holders, with no machine integers, no hexadecimal keys and no diffs:
  balances and allowances are functions of the address, and an operation either is rejected or
  gives the next token.
\<close>

record abs_token =
  at_owner :: Address
  at_cap :: nat
  at_freezable :: bool
  at_supply :: nat
  at_burned :: nat
  at_rate :: nat
  at_frozen :: bool
  at_balance :: "Address \<Rightarrow> nat"
  at_allowance :: "Address \<Rightarrow> Address \<Rightarrow> nat"

definition spec_move :: "Address \<Rightarrow> Address \<Rightarrow> nat \<Rightarrow> abs_token \<Rightarrow> abs_token" where
  "spec_move from to n t =
     (let b = n * at_rate t div 10000
      in t\<lparr>at_supply := at_supply t - b, at_burned := at_burned t + b,
           at_balance := (at_balance t)(from := at_balance t from - n, to := at_balance t to + (n - b))\<rparr>)"

fun spec_token :: "PATIntentKind \<Rightarrow> Address \<Rightarrow> abs_token \<Rightarrow> abs_token option" where
  "spec_token (PatCreateToken _ _ _ _ _ _) caller t = None"
| "spec_token (PatMint _ to n) caller t =
     (if 0 < n \<and> caller = at_owner t \<and> at_supply t + n \<le> at_cap t
      then Some (t\<lparr>at_supply := at_supply t + n, at_balance := (at_balance t)(to := at_balance t to + n)\<rparr>)
      else None)"
| "spec_token (PatBurn _ n) caller t =
     (if 0 < n \<and> n \<le> at_balance t caller
      then Some (t\<lparr>at_supply := at_supply t - n, at_burned := at_burned t + n,
                   at_balance := (at_balance t)(caller := at_balance t caller - n)\<rparr>)
      else None)"
| "spec_token (PatTransfer _ to n memo) caller t =
     (if 0 < n \<and> caller \<noteq> to \<and> (case memo of None \<Rightarrow> True | Some m \<Rightarrow> length m \<le> 128) \<and>
         \<not> at_frozen t \<and> n \<le> at_balance t caller
      then Some (spec_move caller to n t) else None)"
| "spec_token (PatApprove _ spender n) caller t =
     Some (t\<lparr>at_allowance := (at_allowance t)(caller := (at_allowance t caller)(spender := n))\<rparr>)"
| "spec_token (PatTransferFrom _ from to n) caller t =
     (if 0 < n \<and> from \<noteq> to \<and> \<not> at_frozen t \<and> n \<le> at_allowance t from caller \<and> n \<le> at_balance t from
      then Some ((spec_move from to n t)\<lparr>at_allowance := (at_allowance t)
             (from := (at_allowance t from)(caller := at_allowance t from caller - n))\<rparr>)
      else None)"
| "spec_token (PatFreeze _ frozen) caller t =
     (if caller = at_owner t \<and> at_freezable t then Some (t\<lparr>at_frozen := frozen\<rparr>) else None)"
| "spec_token (PatUpdateBurnRate _ rate) caller t =
     (if rate \<le> 1000 \<and> caller = at_owner t then Some (t\<lparr>at_rate := rate\<rparr>) else None)"
| "spec_token (PatTransferOwnership _ new_owner) caller t =
     (if caller = at_owner t then Some (t\<lparr>at_owner := new_owner\<rparr>) else None)"

definition spec_registry ::
  "PATIntentKind \<Rightarrow> Address \<Rightarrow> (string \<Rightarrow> abs_token option) \<Rightarrow> (string \<Rightarrow> abs_token option) option" where
  "spec_registry kind caller T =
     (case kind of
        PatCreateToken symb name decimals cap rate freezable \<Rightarrow>
          if T symb = None \<and> length symb \<le> 16 \<and> length name \<le> 64 \<and> decimals \<le> 18 \<and> rate \<le> 1000
          then Some (T(symb \<mapsto>
            \<lparr>at_owner = caller, at_cap = cap, at_freezable = freezable, at_supply = 0, at_burned = 0,
             at_rate = rate, at_frozen = False, at_balance = (\<lambda>_. 0), at_allowance = (\<lambda>_ _. 0)\<rparr>))
          else None
      | _ \<Rightarrow>
          (case T (intent_symbol kind) of
             None \<Rightarrow> None
           | Some t \<Rightarrow> map_option (\<lambda>t'. T(intent_symbol kind \<mapsto> t')) (spec_token kind caller t)))"

definition abs_balance :: "crypto_env \<Rightarrow> TokenLedger \<Rightarrow> Address \<Rightarrow> nat" where
  "abs_balance c l x = (if address_ok x then ledger_balance_of c l x else 0)"

definition abs_allowance :: "crypto_env \<Rightarrow> AllowanceTable \<Rightarrow> Address \<Rightarrow> Address \<Rightarrow> nat" where
  "abs_allowance c tab x y = (if address_ok x \<and> address_ok y then allowance_get c tab x y else 0)"

definition abs_cell :: "crypto_env \<Rightarrow> PATToken \<Rightarrow> TokenLedger \<Rightarrow> AllowanceTable \<Rightarrow> abs_token" where
  "abs_cell c t l a =
     \<lparr>at_owner = tk_owner t, at_cap = tk_total_supply_cap t, at_freezable = tk_freezable t,
      at_supply = tk_current_supply t, at_burned = tk_total_burned t, at_rate = tk_burn_rate_bps t,
      at_frozen = tk_frozen t, at_balance = abs_balance c l, at_allowance = abs_allowance c a\<rparr>"

definition pat_abs :: "pat_env \<Rightarrow> PATRegistry \<Rightarrow> string \<Rightarrow> abs_token option" where
  "pat_abs e s symb =
     (case (bt_get (pr_tokens s) symb, bt_get (pr_ledgers s) symb, bt_get (pr_allowances s) symb) of
        (Some t, Some l, Some a) \<Rightarrow> Some (abs_cell (pe_crypto e) t l a)
      | _ \<Rightarrow> None)"

lemma address_hex: "hex_ok c \<Longrightarrow> address_ok a \<Longrightarrow> address_ok b \<Longrightarrow> hex_encode c a = hex_encode c b \<longleftrightarrow> a = b"
  by (simp add: address_ok_def hex_inj)

lemma abs_balance_ok [simp]: "address_ok a \<Longrightarrow> abs_balance c l a = ledger_balance_of c l a"
  by (simp add: abs_balance_def)

lemma abs_balance_upd:
  assumes "hex_ok c" "address_ok a"
    "\<And>x. ledger_balance_of c l' x = (if hex_encode c x = hex_encode c a then v else ledger_balance_of c l x)"
  shows "abs_balance c l' = (abs_balance c l)(a := v)"
  using assms by (auto simp: abs_balance_def address_hex)

lemma abs_allowance_upd:
  assumes "hex_ok c" "address_ok a" "address_ok b"
  shows "abs_allowance c (allowance_set c a b v tab) =
    (abs_allowance c tab)(a := (abs_allowance c tab a)(b := v))"
  using assms by (intro ext) (auto simp: abs_allowance_def allowance_get_set address_hex)

section \<open>One intent on one token\<close>

lemma finalise_simps [simp]:
  "balance_deltas (finalise e d) = balance_deltas d" "supply_deltas (finalise e d) = supply_deltas d"
  "allowance_updates (finalise e d) = allowance_updates d" "token_mutations (finalise e d) = token_mutations d"
  "diff_events (finalise e d) = diff_events d" "diff_gas_used (finalise e d) = diff_gas_used d"
  by (simp_all add: finalise_def Let_def)

lemma outcome_success_diff [simp]: "oc_diff (outcome_success d r) = d"
  by (simp add: outcome_success_def)

lemma recompute_hash_simps [simp]:
  "tk_symbol (recompute_hash c t) = tk_symbol t" "tk_name (recompute_hash c t) = tk_name t"
  "tk_decimals (recompute_hash c t) = tk_decimals t" "tk_owner (recompute_hash c t) = tk_owner t"
  "tk_total_supply_cap (recompute_hash c t) = tk_total_supply_cap t" "tk_freezable (recompute_hash c t) = tk_freezable t"
  "tk_current_supply (recompute_hash c t) = tk_current_supply t" "tk_total_burned (recompute_hash c t) = tk_total_burned t"
  "tk_burn_rate_bps (recompute_hash c t) = tk_burn_rate_bps t" "tk_frozen (recompute_hash c t) = tk_frozen t"
  by (simp_all add: recompute_hash_def)

definition settle :: "pat_env \<Rightarrow> (PATError, PATOutcome) outcome \<Rightarrow> PATRegistry \<Rightarrow> PATRegistry \<times> (PATError, unit) outcome" where
  "settle e r s = and_then (s, r) (\<lambda>s oc. apply_diff e (oc_diff oc) s)"

text \<open>
  \<open>fulfils\<close>: a rejected operation leaves the registry alone; an accepted one gives the specified
  token, unless the counter of burnt units leaves its 128 bits, which is reported as an error.
\<close>

definition fulfils ::
  "pat_env \<Rightarrow> nat \<Rightarrow> string \<Rightarrow> PATRegistry \<Rightarrow> abs_token option \<Rightarrow> PATRegistry \<times> (PATError, unit) outcome \<Rightarrow> bool" where
  "fulfils e B symb s at p \<longleftrightarrow>
     (case at of
        None \<Rightarrow> fst p = s \<and> (\<exists>x. snd p = Err x)
      | Some at \<Rightarrow> \<exists>t l a. lands symb s (fst p) t l a \<and> token_ok B symb t l a \<and>
          (if at_burned at < 2 ^ 128 then snd p = Ok () \<and> abs_cell (pe_crypto e) t l a = at
           else \<exists>x. snd p = Err x))"

lemma settle_Err [simp]: "settle e (Err x) s = (s, Err x)"
  by (simp add: settle_def and_then_def)

lemma settle_Ok: "settle e (Ok oc) s = apply_diff e (oc_diff oc) s"
  by (simp add: settle_def and_then_def)

lemma fulfils_reject: "spec = None \<Longrightarrow> \<exists>x. r = Err x \<Longrightarrow> fulfils e B symb s spec (settle e r s)"
  by (auto simp: fulfils_def)

lemma fulfils_accept:
  assumes "p = (s', Ok ())" "lands symb s s' t l a" "token_ok B symb t l a" "spec = Some (abs_cell (pe_crypto e) t l a)"
  shows "fulfils e B symb s spec p"
proof -
  have "at_burned (abs_cell (pe_crypto e) t l a) < 2 ^ 128" using assms(3) by (simp add: token_ok_def abs_cell_def)
  then show ?thesis using assms unfolding fulfils_def by auto
qed

lemma fulfils_overflow:
  assumes "p = (s', Err x)" "lands symb s s' t l a" "token_ok B symb t l a" "spec = Some at" "\<not> at_burned at < 2 ^ 128"
  shows "fulfils e B symb s spec p"
  using assms unfolding fulfils_def by auto

lemma fulfils_SomeE:
  assumes "fulfils e B symb s (Some at) p"
  obtains t l a where "lands symb s (fst p) t l a" "token_ok B symb t l a"
    "at_burned at < 2 ^ 128 \<Longrightarrow> snd p = Ok () \<and> abs_cell (pe_crypto e) t l a = at"
proof -
  from assms obtain t l a where new: "lands symb s (fst p) t l a" "token_ok B symb t l a"
    "if at_burned at < 2 ^ 128 then snd p = Ok () \<and> abs_cell (pe_crypto e) t l a = at else \<exists>x. snd p = Err x"
    unfolding fulfils_def option.case by blast
  show thesis by (rule that [OF new(1,2)]) (use new(3) in \<open>unfold if_P\<close>)
qed

end
