(* ===== verification/PatSpec.thy ===== *)
theory PatSpec
  imports PatRegistry
begin

text \<open>
  The registry of programmable asset tokens implements the abstract ledger, keeps itself
  well-formed, and never executes an intent twice; and the two places where it does not do what it
  means to (amounts in the upper half of \<open>u128\<close>, and errors met while a diff is being applied).
\<close>

section \<open>Every kind of intent fulfils its specification\<close>

lemma mint_fulfils:
  assumes wf: "pat_wf B s" "B \<le> 2 ^ 118" and c: "hex_ok (pe_crypto e)" "address_ok to"
    and cell: "bt_get (pr_tokens s) symb = Some t" "bt_get (pr_ledgers s) symb = Some l"
      "bt_get (pr_allowances s) symb = Some a" "token_ok B symb t l a"
  shows "fulfils e B symb s (spec_token (PatMint symb to n) caller (abs_cell (pe_crypto e) t l a))
    (settle e (exec_mint e ts symb to n caller gas (registry_view s)) s)"
proof (cases "0 < n \<and> caller = tk_owner t \<and> tk_current_supply t + n \<le> tk_total_supply_cap t")
  case False
  have cap: "tk_total_supply_cap t < 2 ^ 118" "0 < tk_total_supply_cap t" using cell(4) wf(2) by (auto simp: token_ok_def)
  then have "tk_total_supply_cap t < 2 ^ 128 - 1" by simp
  then have "tk_total_supply_cap t < sat_add 128 (tk_current_supply t) n"
    if "\<not> tk_current_supply t + n \<le> tk_total_supply_cap t"
    using that unfolding sat_add_def by (simp only: min_less_iff_conj not_le)
  then have "\<exists>x. exec_mint e ts symb to n caller gas (registry_view s) = Err x"
    using False cell(1) cap(2) by (auto simp: exec_mint_def view_token_def registry_view_def Let_def)
  moreover have "spec_token (PatMint symb to n) caller (abs_cell (pe_crypto e) t l a) = None"
    using False by (simp add: abs_cell_def)
  ultimately show ?thesis by (intro fulfils_reject)
next
  case True
  let ?c = "pe_crypto e"
  let ?t = "recompute_hash ?c (t\<lparr>tk_current_supply := tk_current_supply t + n\<rparr>)"
  have ok: "ledger_total l = tk_current_supply t" "bt_wf l" "tk_total_burned t < 2 ^ 128" "tk_total_supply_cap t < 2 ^ 118"
    using cell(4) wf(2) by (auto simp: token_ok_def)
  have small: "n < 2 ^ 127" "tk_current_supply t + n < 2 ^ 128" using True ok(4) by simp_all
  have "sat_add 128 (tk_current_supply t) n = tk_current_supply t + n" by (rule sat_add_exact [OF small(2)])
  then obtain d where d: "exec_mint e ts symb to n caller gas (registry_view s) = Ok (outcome_success d (Some n))"
    "balance_deltas d = [\<lparr>bd_symbol = symb, bd_address = to, bd_delta = as_i128 n\<rparr>]"
    "supply_deltas d = [\<lparr>sd_symbol = symb, sd_supply_delta = as_i128 n, sd_burned_add = 0\<rparr>]"
    "allowance_updates d = []" "token_mutations d = []"
    using True cell(1) by (simp add: exec_mint_def view_token_def registry_view_def Let_def diff_empty_def)
  have "ledger_balance_of ?c l to + n < 2 ^ 128"
    using balance_le_total [of ?c l to] ok(1) small(2) by linarith
  then obtain l' where l': "credit ?c to n l = (l', Ok (ledger_balance_of ?c l to + n))" "bt_wf l'"
    "ledger_total l' = ledger_total l + n"
    "\<And>x. ledger_balance_of ?c l' x =
      (if hex_encode ?c x = hex_encode ?c to then ledger_balance_of ?c l to + n else ledger_balance_of ?c l x)"
    using credit_exact [OF ok(2)] by blast
  let ?s1 = "s\<lparr>pr_ledgers := bt_insert symb l' (pr_ledgers s)\<rparr>"
  let ?s2 = "?s1\<lparr>pr_tokens := bt_insert symb ?t (pr_tokens s)\<rparr>"
  have "apply_supply_delta e \<lparr>sd_symbol = symb, sd_supply_delta = as_i128 n, sd_burned_add = 0\<rparr> ?s1 = (?s2, Ok ())"
    by (subst apply_mint_supply [where t = t, OF _ small ok(3)]) (simp_all add: cell(1))
  then have run: "settle e (exec_mint e ts symb to n caller gas (registry_view s)) s =
      (?s2\<lparr>pr_events := pr_events s @ diff_events d\<rparr>, Ok ())"
    using apply_credit [OF cell(2) small(1) l'(1)] d by (simp add: settle_Ok apply_diff_def and_then_def Let_def)
  have lands: "lands symb s (?s2\<lparr>pr_events := pr_events s @ diff_events d\<rparr>) ?t l' a"
    using pat_wf_unchanged(3) [OF wf(1) cell(1,3)] by (simp add: lands_def)
  have "token_ok B symb ?t l' a" using cell(4) l'(2,3) True by (simp add: token_ok_def)
  then show ?thesis
    by (rule fulfils_accept [OF run lands]) (use True c(2) abs_balance_upd [OF c l'(4)] in \<open>simp add: abs_cell_def\<close>)
qed

lemma burn_token_ok:
  assumes "token_ok B symb t l a" "bt_wf l'" "ledger_total l' + b = ledger_total l" "b \<le> tk_current_supply t"
  shows "tk_total_burned t + b < 2 ^ 128 \<Longrightarrow> token_ok B symb (burn_token e b t) l' a"
    "token_ok B symb (t\<lparr>tk_current_supply := tk_current_supply t - b\<rparr>) l' a"
  using assms by (auto simp: token_ok_def burn_token_def)

text \<open>What follows the balance deltas of a burn or a transfer: \<open>b\<close> units leave the supply.\<close>

lemma burn_settles:
  assumes wf: "pat_wf B s" and cell: "bt_get (pr_tokens s) symb = Some t" "bt_get (pr_allowances s) symb = Some a"
      "token_ok B symb t l a"
    and l': "bt_wf l'" "ledger_total l' + b = ledger_total l" "b \<le> tk_current_supply t" "b < 2 ^ 127"
    and a': "token_ok B symb t l a'"
    and d: "for_each (apply_balance_delta e) (balance_deltas d) s = (s\<lparr>pr_ledgers := bt_insert symb l' (pr_ledgers s)\<rparr>, Ok ())"
      "supply_deltas d = (if b > 0 then [\<lparr>sd_symbol = symb, sd_supply_delta = neg_i128 b, sd_burned_add = b\<rparr>] else [])"
      "\<And>s1. pr_allowances s1 = pr_allowances s \<Longrightarrow> for_each (apply_allowance_update e) (allowance_updates d) s1 =
        (s1\<lparr>pr_allowances := bt_insert symb a' (pr_allowances s)\<rparr>, Ok ())"
      "token_mutations d = []"
  shows "fulfils e B symb s (Some ((abs_cell (pe_crypto e) t l a)\<lparr>at_supply := tk_current_supply t - b,
      at_burned := tk_total_burned t + b, at_balance := abs_balance (pe_crypto e) l',
      at_allowance := abs_allowance (pe_crypto e) a'\<rparr>)) (apply_diff e d s)"
proof -
  let ?s1 = "s\<lparr>pr_ledgers := bt_insert symb l' (pr_ledgers s)\<rparr>"
  let ?put = "\<lambda>t. ?s1\<lparr>pr_tokens := bt_insert symb t (pr_tokens s)\<rparr>"
  let ?done = "\<lambda>s2. s2\<lparr>pr_allowances := bt_insert symb a' (pr_allowances s), pr_events := pr_events s @ diff_events d\<rparr>"
  have s1: "bt_get (pr_tokens ?s1) symb = Some t" using cell(1) by simp
  note unch = pat_wf_unchanged [OF wf cell(1)]
  note burnt = apply_burn_supply [OF s1 _ l'(4), of e]
  note ok = burn_token_ok [OF a' l'(1,2,3)] burn_token_ok [OF cell(3) l'(1,2,3)]
  consider "b = 0" | "0 < b" "tk_total_burned t + b < 2 ^ 128" | "0 < b" "\<not> tk_total_burned t + b < 2 ^ 128" by blast
  then show ?thesis
  proof cases
    case 1
    have "apply_diff e d s = (?done ?s1, Ok ())" using 1 d by (simp add: apply_diff_def and_then_def Let_def)
    moreover have "lands symb s (?done ?s1) t l' a'" using unch(1) by (simp add: lands_def)
    moreover have "token_ok B symb t l' a'" using a' l'(1,2) 1 by (simp add: token_ok_def)
    ultimately show ?thesis by (rule fulfils_accept) (use 1 in \<open>simp add: abs_cell_def\<close>)
  next
    case 2
    have "apply_diff e d s = (?done (?put (burn_token e b t)), Ok ())"
      using 2 d burnt by (simp add: apply_diff_def and_then_def Let_def)
    moreover have "lands symb s (?done (?put (burn_token e b t))) (burn_token e b t) l' a'" by (simp add: lands_def)
    moreover have "token_ok B symb (burn_token e b t) l' a'" by (rule ok(1) [OF 2(2)])
    ultimately show ?thesis by (rule fulfils_accept) (simp add: abs_cell_def burn_token_def)
  next
    case 3
    let ?t = "t\<lparr>tk_current_supply := tk_current_supply t - b\<rparr>"
    have "apply_diff e d s = (?put ?t, Err (PatBalanceOverflow symb))"
      using 3 d burnt by (simp add: apply_diff_def and_then_def Let_def)
    moreover have "lands symb s (?put ?t) ?t l' a" using unch(3) [OF cell(2)] by (simp add: lands_def)
    ultimately show ?thesis by (rule fulfils_overflow [OF _ _ ok(4) refl]) (use 3 in simp)
  qed
qed

lemma burn_fulfils:
  assumes wf: "pat_wf B s" "B \<le> 2 ^ 118" and c: "hex_ok (pe_crypto e)" "address_ok caller"
    and cell: "bt_get (pr_tokens s) symb = Some t" "bt_get (pr_ledgers s) symb = Some l"
      "bt_get (pr_allowances s) symb = Some a" "token_ok B symb t l a"
  shows "fulfils e B symb s (spec_token (PatBurn symb n) caller (abs_cell (pe_crypto e) t l a))
    (settle e (exec_burn e ts symb n caller gas (registry_view s)) s)"
proof (cases "0 < n \<and> n \<le> ledger_balance_of (pe_crypto e) l caller")
  case False
  then show ?thesis
    by (intro fulfils_reject)
       (use cell(2) c(2) in \<open>auto simp: abs_cell_def exec_burn_def view_ledger_def registry_view_def Let_def\<close>)
next
  case True
  let ?c = "pe_crypto e"
  have ok: "ledger_total l = tk_current_supply t" "bt_wf l" "tk_current_supply t < 2 ^ 118"
    using cell(4) wf(2) by (auto simp: token_ok_def)
  have le: "n \<le> tk_current_supply t" using True balance_le_total [of ?c l caller] ok(1) by linarith
  have small: "n < 2 ^ 127" using le ok(3) by simp
  obtain d where d: "exec_burn e ts symb n caller gas (registry_view s) = Ok (outcome_success d None)"
    "balance_deltas d = [\<lparr>bd_symbol = symb, bd_address = caller, bd_delta = neg_i128 n\<rparr>]"
    "supply_deltas d = [\<lparr>sd_symbol = symb, sd_supply_delta = neg_i128 n, sd_burned_add = n\<rparr>]"
    "allowance_updates d = []" "token_mutations d = []"
    using True cell(2) by (simp add: exec_burn_def view_ledger_def registry_view_def Let_def diff_empty_def)
  obtain l' where l': "debit ?c caller n l = (l', Ok (ledger_balance_of ?c l caller - n))" "bt_wf l'"
    "ledger_total l' + n = ledger_total l"
    "\<And>x. ledger_balance_of ?c l' x =
      (if hex_encode ?c x = hex_encode ?c caller then ledger_balance_of ?c l caller - n else ledger_balance_of ?c l x)"
    using debit_exact [OF ok(2)] True by blast
  have "for_each (apply_balance_delta e) (balance_deltas d) s = (s\<lparr>pr_ledgers := bt_insert symb l' (pr_ledgers s)\<rparr>, Ok ())"
    using apply_debit [OF cell(2) _ small l'(1)] True d(2) by (simp add: and_then_def)
  then have "fulfils e B symb s (Some ((abs_cell ?c t l a)\<lparr>at_supply := tk_current_supply t - n,
      at_burned := tk_total_burned t + n, at_balance := abs_balance ?c l', at_allowance := abs_allowance ?c a\<rparr>)) (apply_diff e d s)"
    by (rule burn_settles [OF wf(1) cell(1,3,4) l'(2,3) le small cell(4)])
       (use True d pat_wf_unchanged(3) [OF wf(1) cell(1,3)] in simp_all)
  moreover have "spec_token (PatBurn symb n) caller (abs_cell ?c t l a) = Some ((abs_cell ?c t l a)\<lparr>at_supply := tk_current_supply t - n,
      at_burned := tk_total_burned t + n, at_balance := abs_balance ?c l', at_allowance := abs_allowance ?c a\<rparr>)"
    using True c(2) abs_balance_upd [OF c l'(4)] by (simp add: abs_cell_def)
  ultimately show ?thesis by (simp add: d(1) settle_Ok)
qed

text \<open>Transfers, with the balance deltas both kinds share.\<close>

lemma move_settles:
  assumes wf: "pat_wf B s" "B \<le> 2 ^ 118" and c: "hex_ok (pe_crypto e)" "address_ok from" "address_ok to" "from \<noteq> to"
    and cell: "bt_get (pr_tokens s) symb = Some t" "bt_get (pr_ledgers s) symb = Some l"
      "bt_get (pr_allowances s) symb = Some a" "token_ok B symb t l a" "token_ok B symb t l a'"
    and n: "0 < n" "n \<le> ledger_balance_of (pe_crypto e) l from"
    and b: "b = transfer_burn_amount t n" "r = wrap_sub 128 n b"
    and d: "balance_deltas d = [\<lparr>bd_symbol = symb, bd_address = from, bd_delta = neg_i128 n\<rparr>,
        \<lparr>bd_symbol = symb, bd_address = to, bd_delta = as_i128 r\<rparr>]"
      "supply_deltas d = (if b > 0 then [\<lparr>sd_symbol = symb, sd_supply_delta = neg_i128 b, sd_burned_add = b\<rparr>] else [])"
      "\<And>s1. pr_allowances s1 = pr_allowances s \<Longrightarrow> for_each (apply_allowance_update e) (allowance_updates d) s1 =
        (s1\<lparr>pr_allowances := bt_insert symb a' (pr_allowances s)\<rparr>, Ok ())"
      "token_mutations d = []"
  shows "fulfils e B symb s (Some ((spec_move from to n (abs_cell (pe_crypto e) t l a))
      \<lparr>at_allowance := abs_allowance (pe_crypto e) a'\<rparr>)) (apply_diff e d s)"
proof -
  let ?c = "pe_crypto e"
  have ok: "ledger_total l = tk_current_supply t" "bt_wf l" "tk_current_supply t < 2 ^ 118" "tk_burn_rate_bps t \<le> 1000"
    using cell(4) wf(2) by (auto simp: token_ok_def)
  have le: "n \<le> tk_current_supply t" using n(2) balance_le_total [of ?c l "from"] ok(1) by linarith
  then have n118: "n < 2 ^ 118" using ok(3) by linarith
  have bn: "b \<le> n" unfolding b by (rule transfer_burn_le [OF ok(4)])
  have bx: "b = n * tk_burn_rate_bps t div 10000" unfolding b by (rule transfer_burn_exact [OF ok(4) n118])
  have r: "r = n - b" unfolding b(2) by (rule wrap_sub_exact [OF bn]) (use n118 in simp)
  have total: "ledger_total l < 2 ^ 127" using ok(1,3) by simp
  obtain l' where l': "for_each (apply_balance_delta e) (balance_deltas d) s = (s\<lparr>pr_ledgers := bt_insert symb l' (pr_ledgers s)\<rparr>, Ok ())"
    "bt_wf l'" "ledger_total l' + b = ledger_total l"
    and bal: "\<And>x. hex_encode ?c from \<noteq> hex_encode ?c to \<Longrightarrow> ledger_balance_of ?c l' x =
       (if hex_encode ?c x = hex_encode ?c to then ledger_balance_of ?c l to + (n - b)
        else if hex_encode ?c x = hex_encode ?c from then ledger_balance_of ?c l from - n else ledger_balance_of ?c l x)"
    using move_balances [OF cell(2) ok(2) total n bn, of to] unfolding d(1) r by blast
  have "abs_balance ?c l' = (abs_balance ?c l)(from := ledger_balance_of ?c l from - n, to := ledger_balance_of ?c l to + (n - b))"
    using bal c by (intro ext) (auto simp: abs_balance_def address_hex)
  then have "(spec_move from to n (abs_cell ?c t l a))\<lparr>at_allowance := abs_allowance ?c a'\<rparr> =
      (abs_cell ?c t l a)\<lparr>at_supply := tk_current_supply t - b, at_burned := tk_total_burned t + b,
        at_balance := abs_balance ?c l', at_allowance := abs_allowance ?c a'\<rparr>"
    using c by (simp add: spec_move_def abs_cell_def bx Let_def)
  moreover have "b \<le> tk_current_supply t" "b < 2 ^ 127" using bn le n118 by simp_all
  ultimately show ?thesis using burn_settles [OF wf(1) cell(1,3,4) l'(2,3) _ _ cell(5) l'(1) d(2-4)] by simp
qed

lemma transfer_fulfils:
  assumes wf: "pat_wf B s" "B \<le> 2 ^ 118" and c: "hex_ok (pe_crypto e)" "address_ok caller" "address_ok to"
    and cell: "bt_get (pr_tokens s) symb = Some t" "bt_get (pr_ledgers s) symb = Some l"
      "bt_get (pr_allowances s) symb = Some a" "token_ok B symb t l a"
  shows "fulfils e B symb s (spec_token (PatTransfer symb to n memo) caller (abs_cell (pe_crypto e) t l a))
    (settle e (exec_transfer e ts symb to n memo caller gas (registry_view s)) s)"
proof (cases "0 < n \<and> caller \<noteq> to \<and> (case memo of None \<Rightarrow> True | Some m \<Rightarrow> length m \<le> 128) \<and>
    \<not> tk_frozen t \<and> n \<le> ledger_balance_of (pe_crypto e) l caller")
  case False
  then have "\<exists>x. exec_transfer e ts symb to n memo caller gas (registry_view s) = Err x"
    using cell(1,2) by (auto simp: exec_transfer_def view_token_def view_ledger_def registry_view_def Let_def split: option.splits)
  moreover have "spec_token (PatTransfer symb to n memo) caller (abs_cell (pe_crypto e) t l a) = None"
    using False c(2) by (simp add: abs_cell_def)
  ultimately show ?thesis by (intro fulfils_reject)
next
  case True
  let ?b = "transfer_burn_amount t n"
  let ?r = "wrap_sub 128 n ?b"
  obtain d where d: "exec_transfer e ts symb to n memo caller gas (registry_view s) = Ok (outcome_success d (Some ?r))"
    "balance_deltas d = [\<lparr>bd_symbol = symb, bd_address = caller, bd_delta = neg_i128 n\<rparr>,
        \<lparr>bd_symbol = symb, bd_address = to, bd_delta = as_i128 ?r\<rparr>]"
    "supply_deltas d = (if ?b > 0 then [\<lparr>sd_symbol = symb, sd_supply_delta = neg_i128 ?b, sd_burned_add = ?b\<rparr>] else [])"
    "allowance_updates d = []" "token_mutations d = []"
    using True cell(1,2)
    by (auto simp: exec_transfer_def view_token_def view_ledger_def registry_view_def Let_def diff_empty_def split: option.splits)
  have "fulfils e B symb s (Some ((spec_move caller to n (abs_cell (pe_crypto e) t l a))
      \<lparr>at_allowance := abs_allowance (pe_crypto e) a\<rparr>)) (apply_diff e d s)"
    by (rule move_settles [OF wf c _ cell cell(4) _ _ refl refl d(2,3)])
       (use True d pat_wf_unchanged(3) [OF wf(1) cell(1,3)] in simp_all)
  moreover have "spec_token (PatTransfer symb to n memo) caller (abs_cell (pe_crypto e) t l a) =
      Some ((spec_move caller to n (abs_cell (pe_crypto e) t l a))\<lparr>at_allowance := abs_allowance (pe_crypto e) a\<rparr>)"
    using True c(2) by (simp add: abs_cell_def spec_move_def Let_def)
  ultimately show ?thesis by (simp add: d(1) settle_Ok)
qed

lemma allowance_set_ok:
  assumes "token_ok B symb t l a" "v < 2 ^ 128" shows "token_ok B symb t l (allowance_set c x y v a)"
  using assms by (auto simp: token_ok_def allowance_set_def Let_def split: if_splits)

lemma allowance_bound:
  assumes "token_ok B symb t l a" shows "allowance_get c a x y < 2 ^ 128"
  using assms by (auto simp: token_ok_def bt_get_or_def split: option.splits)

lemma apply_allowance:
  assumes "bt_get (pr_allowances s) symb = Some a" "pr_allowances s1 = pr_allowances s"
  shows "for_each (apply_allowance_update e)
      [\<lparr>au_symbol = symb, au_owner = x, au_spender = y, au_new_value = v\<rparr>] s1 =
    (s1\<lparr>pr_allowances := bt_insert symb (allowance_set (pe_crypto e) x y v a) (pr_allowances s)\<rparr>, Ok ())"
  using assms by (simp add: apply_allowance_update_def and_then_def)

lemma transfer_from_fulfils:
  assumes wf: "pat_wf B s" "B \<le> 2 ^ 118"
    and c: "hex_ok (pe_crypto e)" "address_ok from" "address_ok to" "address_ok caller"
    and cell: "bt_get (pr_tokens s) symb = Some t" "bt_get (pr_ledgers s) symb = Some l"
      "bt_get (pr_allowances s) symb = Some a" "token_ok B symb t l a"
  shows "fulfils e B symb s (spec_token (PatTransferFrom symb from to n) caller (abs_cell (pe_crypto e) t l a))
    (settle e (exec_transfer_from e ts symb from to n caller gas (registry_view s)) s)"
proof (cases "0 < n \<and> from \<noteq> to \<and> \<not> tk_frozen t \<and> n \<le> allowance_get (pe_crypto e) a from caller \<and>
    n \<le> ledger_balance_of (pe_crypto e) l from")
  case False
  then have "\<exists>x. exec_transfer_from e ts symb from to n caller gas (registry_view s) = Err x"
    using cell(1,2,3) by (auto simp: exec_transfer_from_def view_token_def view_ledger_def registry_view_def Let_def)
  moreover have "spec_token (PatTransferFrom symb from to n) caller (abs_cell (pe_crypto e) t l a) = None"
    using False c(2,4) by (simp add: abs_cell_def abs_allowance_def)
  ultimately show ?thesis by (intro fulfils_reject)
next
  case True
  let ?c = "pe_crypto e"
  let ?b = "transfer_burn_amount t n"
  let ?r = "wrap_sub 128 n ?b"
  let ?v = "allowance_get ?c a from caller - n"
  let ?a = "allowance_set ?c from caller ?v a"
  obtain d where d: "exec_transfer_from e ts symb from to n caller gas (registry_view s) = Ok (outcome_success d (Some ?r))"
    "balance_deltas d = [\<lparr>bd_symbol = symb, bd_address = from, bd_delta = neg_i128 n\<rparr>,
        \<lparr>bd_symbol = symb, bd_address = to, bd_delta = as_i128 ?r\<rparr>]"
    "supply_deltas d = (if ?b > 0 then [\<lparr>sd_symbol = symb, sd_supply_delta = neg_i128 ?b, sd_burned_add = ?b\<rparr>] else [])"
    "allowance_updates d = [\<lparr>au_symbol = symb, au_owner = from, au_spender = caller, au_new_value = ?v\<rparr>]"
    "token_mutations d = []"
    using True cell(1,2,3)
    by (auto simp: exec_transfer_from_def view_token_def view_ledger_def registry_view_def Let_def diff_empty_def)
  have "?v < 2 ^ 128" by (rule le_less_trans [OF diff_le_self allowance_bound [OF cell(4)]])
  note a' = allowance_set_ok [OF cell(4) this, of ?c "from" caller]
  have "fulfils e B symb s (Some ((spec_move from to n (abs_cell ?c t l a))\<lparr>at_allowance := abs_allowance ?c ?a\<rparr>)) (apply_diff e d s)"
    by (rule move_settles [OF wf c(1-3) _ cell a' _ _ refl refl d(2,3) _ d(5)])
       (use True apply_allowance [OF cell(3)] in \<open>simp_all add: d(4) del: for_each.simps\<close>)
  moreover have "spec_token (PatTransferFrom symb from to n) caller (abs_cell ?c t l a) =
      Some ((spec_move from to n (abs_cell ?c t l a))\<lparr>at_allowance := abs_allowance ?c ?a\<rparr>)"
    using True c abs_allowance_upd [OF c(1,2,4)] by (simp add: abs_cell_def abs_allowance_def)
  ultimately show ?thesis by (simp add: d(1) settle_Ok)
qed

lemma approve_fulfils:
  assumes wf: "pat_wf B s" and c: "hex_ok (pe_crypto e)" "address_ok caller" "address_ok spender" "n < 2 ^ 128"
    and cell: "bt_get (pr_tokens s) symb = Some t" "bt_get (pr_ledgers s) symb = Some l"
      "bt_get (pr_allowances s) symb = Some a" "token_ok B symb t l a"
  shows "fulfils e B symb s (spec_token (PatApprove symb spender n) caller (abs_cell (pe_crypto e) t l a))
    (settle e (exec_approve e ts symb spender n caller gas (registry_view s)) s)"
proof (rule fulfils_accept)
  let ?a = "allowance_set (pe_crypto e) caller spender n a"
  let ?s = "s\<lparr>pr_allowances := bt_insert symb ?a (pr_allowances s), pr_events := pr_events s @ [EvApprove symb caller spender n ts]\<rparr>"
  show "settle e (exec_approve e ts symb spender n caller gas (registry_view s)) s = (?s, Ok ())"
    using cell(1) apply_allowance [OF cell(3) refl]
    by (simp add: exec_approve_def view_token_def registry_view_def settle_Ok apply_diff_def diff_empty_def and_then_def Let_def)
  show "lands symb s ?s t l ?a" using pat_wf_unchanged [OF wf cell(1)] cell(2) by (simp add: lands_def)
  show "token_ok B symb t l ?a" by (rule allowance_set_ok [OF cell(4) c(4)])
  show "spec_token (PatApprove symb spender n) caller (abs_cell (pe_crypto e) t l a) = Some (abs_cell (pe_crypto e) t l ?a)"
    using abs_allowance_upd [OF c(1-3)] by (simp add: abs_cell_def)
qed

lemma mutation_settles:
  assumes wf: "pat_wf B s"
    and cell: "bt_get (pr_tokens s) symb = Some t" "bt_get (pr_ledgers s) symb = Some l"
      "bt_get (pr_allowances s) symb = Some a" "token_ok B symb (f t) l a"
    and d: "balance_deltas d = []" "supply_deltas d = []" "allowance_updates d = []" "token_mutations d = [m]"
      "apply_mutation e m s = s\<lparr>pr_tokens := bt_modify symb (\<lambda>t. recompute_hash (pe_crypto e) (f t)) (pr_tokens s)\<rparr>"
  shows "fulfils e B symb s (Some (abs_cell (pe_crypto e) (f t) l a)) (apply_diff e d s)"
proof (rule fulfils_accept)
  let ?t = "recompute_hash (pe_crypto e) (f t)"
  let ?s = "s\<lparr>pr_tokens := bt_insert symb ?t (pr_tokens s), pr_events := pr_events s @ diff_events d\<rparr>"
  show "apply_diff e d s = (?s, Ok ())" using d cell(1) by (simp add: apply_diff_def and_then_def Let_def bt_modify_def)
  show "lands symb s ?s ?t l a" using pat_wf_unchanged [OF wf cell(1)] cell(2,3) by (simp add: lands_def)
  show "token_ok B symb ?t l a" using cell(4) by (simp add: token_ok_def)
qed (simp add: abs_cell_def)

lemma freeze_fulfils:
  assumes wf: "pat_wf B s"
    and cell: "bt_get (pr_tokens s) symb = Some t" "bt_get (pr_ledgers s) symb = Some l"
      "bt_get (pr_allowances s) symb = Some a" "token_ok B symb t l a"
  shows "fulfils e B symb s (spec_token (PatFreeze symb frozen) caller (abs_cell (pe_crypto e) t l a))
    (settle e (exec_freeze e ts symb frozen caller gas (registry_view s)) s)"
proof (cases "caller = tk_owner t \<and> tk_freezable t")
  case False
  then show ?thesis by (intro fulfils_reject)
    (use cell(1) in \<open>auto simp: abs_cell_def exec_freeze_def view_token_def registry_view_def\<close>)
next
  case True
  have ok: "token_ok B symb (t\<lparr>tk_frozen := frozen\<rparr>) l a" using cell(4) by (simp add: token_ok_def)
  show ?thesis
    using mutation_settles [where f = "\<lambda>t. t\<lparr>tk_frozen := frozen\<rparr>" and m = "SetFrozen symb frozen", OF wf cell(1-3) ok] True cell(1)
    by (simp add: exec_freeze_def view_token_def registry_view_def settle_Ok abs_cell_def diff_empty_def)
qed

lemma update_burn_rate_fulfils:
  assumes wf: "pat_wf B s"
    and cell: "bt_get (pr_tokens s) symb = Some t" "bt_get (pr_ledgers s) symb = Some l"
      "bt_get (pr_allowances s) symb = Some a" "token_ok B symb t l a"
  shows "fulfils e B symb s (spec_token (PatUpdateBurnRate symb rate) caller (abs_cell (pe_crypto e) t l a))
    (settle e (exec_update_burn_rate e ts symb rate caller gas (registry_view s)) s)"
proof (cases "rate \<le> 1000 \<and> caller = tk_owner t")
  case False
  then show ?thesis by (intro fulfils_reject)
    (use cell(1) in \<open>auto simp: abs_cell_def exec_update_burn_rate_def view_token_def registry_view_def\<close>)
next
  case True
  have ok: "token_ok B symb (t\<lparr>tk_burn_rate_bps := rate\<rparr>) l a" using cell(4) True by (simp add: token_ok_def)
  show ?thesis
    using mutation_settles [where f = "\<lambda>t. t\<lparr>tk_burn_rate_bps := rate\<rparr>" and m = "SetBurnRate symb rate", OF wf cell(1-3) ok] True cell(1)
    by (simp add: exec_update_burn_rate_def view_token_def registry_view_def settle_Ok abs_cell_def diff_empty_def)
qed

lemma transfer_ownership_fulfils:
  assumes wf: "pat_wf B s" and c: "address_ok new_owner"
    and cell: "bt_get (pr_tokens s) symb = Some t" "bt_get (pr_ledgers s) symb = Some l"
      "bt_get (pr_allowances s) symb = Some a" "token_ok B symb t l a"
  shows "fulfils e B symb s (spec_token (PatTransferOwnership symb new_owner) caller (abs_cell (pe_crypto e) t l a))
    (settle e (exec_transfer_ownership e ts symb new_owner caller gas (registry_view s)) s)"
proof (cases "caller = tk_owner t")
  case False
  then show ?thesis by (intro fulfils_reject)
    (use cell(1) in \<open>auto simp: abs_cell_def exec_transfer_ownership_def view_token_def registry_view_def\<close>)
next
  case True
  have ok: "token_ok B symb (t\<lparr>tk_owner := new_owner\<rparr>) l a" using cell(4) c by (simp add: token_ok_def)
  show ?thesis
    using mutation_settles [where f = "\<lambda>t. t\<lparr>tk_owner := new_owner\<rparr>" and m = "SetOwner symb new_owner", OF wf cell(1-3) ok] True cell(1)
    by (simp add: exec_transfer_ownership_def view_token_def registry_view_def settle_Ok abs_cell_def diff_empty_def)
qed

section \<open>The registry refines the abstract ledger\<close>

text \<open>Addresses are arrays of 32 bytes and an approved amount is a \<open>u128\<close>: what the types of an intent say.\<close>

definition intent_ok :: "PATIntent \<Rightarrow> bool" where
  "intent_ok i \<longleftrightarrow> address_ok (in_caller i) \<and>
     (case in_kind i of
        PatMint _ to _ \<Rightarrow> address_ok to
      | PatTransfer _ to _ _ \<Rightarrow> address_ok to
      | PatApprove _ spender n \<Rightarrow> address_ok spender \<and> n < 2 ^ 128
      | PatTransferFrom _ from to _ \<Rightarrow> address_ok from \<and> address_ok to
      | PatTransferOwnership _ new_owner \<Rightarrow> address_ok new_owner
      | _ \<Rightarrow> True)"

definition admitted :: "pat_env \<Rightarrow> PATIntent \<Rightarrow> PATRegistry \<Rightarrow> bool" where
  "admitted e i s \<longleftrightarrow> intent_hash e i \<notin> set (pr_seen_intents s) \<and> gas_cost (pr_gas s) (in_kind i) \<le> in_gas_limit i"

definition is_create :: "PATIntentKind \<Rightarrow> bool" where
  "is_create kind \<longleftrightarrow> (case kind of PatCreateToken _ _ _ _ _ _ \<Rightarrow> True | _ \<Rightarrow> False)"

lemma engine_fulfils:
  assumes wf: "pat_wf B s" "B \<le> 2 ^ 118" and c: "hex_ok (pe_crypto e)" "intent_ok i" "\<not> is_create (in_kind i)"
    and gas: "gas_cost (pr_gas s) (in_kind i) \<le> in_gas_limit i"
    and cell: "bt_get (pr_tokens s) symb = Some t" "bt_get (pr_ledgers s) symb = Some l"
      "bt_get (pr_allowances s) symb = Some a" "token_ok B symb t l a" "symb = intent_symbol (in_kind i)"
  shows "fulfils e B symb s (spec_token (in_kind i) (in_caller i) (abs_cell (pe_crypto e) t l a))
    (settle e (engine_execute e ts (pr_gas s) i (registry_view s)) s)"
proof -
  have charge: "gas_charge (pr_gas s) (in_kind i) (in_gas_limit i) = Ok (gas_cost (pr_gas s) (in_kind i))"
    using gas by (simp add: gas_charge_def Let_def)
  note facts = mint_fulfils [OF wf c(1) _ cell(1-4)] burn_fulfils [OF wf c(1) _ cell(1-4)]
    transfer_fulfils [OF wf c(1) _ _ cell(1-4)] approve_fulfils [OF wf(1) c(1) _ _ _ cell(1-4)]
    transfer_from_fulfils [OF wf c(1) _ _ _ cell(1-4)] freeze_fulfils [OF wf(1) cell(1-4)]
    update_burn_rate_fulfils [OF wf(1) cell(1-4)] transfer_ownership_fulfils [OF wf(1) _ cell(1-4)]
  show ?thesis using c(2,3) charge cell(5) facts
    by (cases "in_kind i") (simp_all add: engine_execute_def intent_ok_def is_create_def del: spec_token.simps)
qed

lemma execute_not_create:
  assumes "\<not> is_create (in_kind i)" "admitted e i s" "bt_get (pr_tokens s) (intent_symbol (in_kind i)) = Some t"
    and p: "settle e (engine_execute e ts (pr_gas s) i (registry_view s)) s = p"
  shows "\<exists>oc. pat_execute e ts created_at i s = (case snd p of
      Ok _ \<Rightarrow> ((fst p)\<lparr>pr_seen_intents := bs_insert (intent_hash e i) (pr_seen_intents (fst p))\<rparr>, Ok oc)
    | Err x \<Rightarrow> (fst p, Err x) | Panic \<Rightarrow> (fst p, Panic))"
proof -
  have "exists_check (in_kind i) s = Ok ()"
    using assms(1,3) by (cases "in_kind i") (auto simp: exists_check_def is_create_def bt_contains_get)
  moreover have "materialise e created_at i s' = (s', Ok ())" for s'
    using assms(1) by (cases "in_kind i") (auto simp: materialise_def is_create_def)
  ultimately show ?thesis using assms(2) p [symmetric]
    by (cases "engine_execute e ts (pr_gas s) i (registry_view s)")
       (auto simp: pat_execute_def settle_def and_then_def admitted_def Let_def split: outcome.splits prod.splits)
qed

lemma execute_not_admitted:
  assumes "\<not> admitted e i s" shows "fst (pat_execute e ts created_at i s) = s" "\<exists>x. snd (pat_execute e ts created_at i s) = Err x"
  using assms by (auto simp: pat_execute_def admitted_def engine_execute_def gas_charge_def and_then_def exists_check_def Let_def
      split: PATIntentKind.splits)

lemma execute_unknown:
  assumes "\<not> is_create (in_kind i)" "bt_get (pr_tokens s) (intent_symbol (in_kind i)) = None"
  shows "fst (pat_execute e ts created_at i s) = s \<and> (\<exists>x. snd (pat_execute e ts created_at i s) = Err x)"
  using assms by (cases "in_kind i") (auto simp: pat_execute_def exists_check_def and_then_def is_create_def bt_contains_def Let_def)

text \<open>A new token starts empty and is stored under its symbol.\<close>

definition fresh_token :: "pat_env \<Rightarrow> u64 \<Rightarrow> PATIntentKind \<Rightarrow> Address \<Rightarrow> PATToken" where
  "fresh_token e created_at kind caller =
     (case kind of PatCreateToken symb name decimals cap rate freezable \<Rightarrow>
        recompute_hash (pe_crypto e)
        \<lparr>tk_symbol = symb, tk_name = name, tk_decimals = decimals, tk_owner = caller,
         tk_total_supply_cap = cap, tk_freezable = freezable, tk_created_at = created_at,
         tk_current_supply = 0, tk_total_burned = 0, tk_burn_rate_bps = rate,
         tk_frozen = False, tk_state_hash = replicate 32 0\<rparr>)"

lemma execute_create:
  assumes "admitted e i s" "in_kind i = PatCreateToken symb name decimals cap rate freezable"
  shows "if \<not> bt_contains (pr_tokens s) symb \<and> length symb \<le> 16 \<and> length name \<le> 64 \<and> decimals \<le> 18 \<and> rate \<le> 1000
    then lands symb s (fst (pat_execute e ts created_at i s)) (fresh_token e created_at (in_kind i) (in_caller i)) [] [] \<and>
      (\<exists>oc. snd (pat_execute e ts created_at i s) = Ok oc)
    else fst (pat_execute e ts created_at i s) = s \<and> (\<exists>x. snd (pat_execute e ts created_at i s) = Err x)"
  using assms
  by (auto simp: pat_execute_def admitted_def exists_check_def engine_execute_def gas_charge_def exec_create_token_def
      materialise_def PATToken_new_def and_then_def apply_diff_def diff_empty_def lands_def fresh_token_def Let_def)




lemma execute_known:
  assumes wf: "pat_wf B s" "B \<le> 2 ^ 118" and c: "hex_ok (pe_crypto e)" "intent_ok i" "\<not> is_create (in_kind i)"
    and adm: "admitted e i s" and t: "bt_get (pr_tokens s) (intent_symbol (in_kind i)) = Some t"
  obtains l a where "bt_get (pr_ledgers s) (intent_symbol (in_kind i)) = Some l"
      "bt_get (pr_allowances s) (intent_symbol (in_kind i)) = Some a" "token_ok B (intent_symbol (in_kind i)) t l a"
    "case spec_token (in_kind i) (in_caller i) (abs_cell (pe_crypto e) t l a) of
       None \<Rightarrow> fst (pat_execute e ts created_at i s) = s \<and> (\<exists>x. snd (pat_execute e ts created_at i s) = Err x)
     | Some at \<Rightarrow> \<exists>t' l' a'. lands (intent_symbol (in_kind i)) s (fst (pat_execute e ts created_at i s)) t' l' a' \<and>
         token_ok B (intent_symbol (in_kind i)) t' l' a' \<and>
         (at_burned at < 2 ^ 128 \<longrightarrow> (\<exists>oc. snd (pat_execute e ts created_at i s) = Ok oc) \<and> abs_cell (pe_crypto e) t' l' a' = at)"
proof -
  let ?p = "settle e (engine_execute e ts (pr_gas s) i (registry_view s)) s"
  obtain l a where cell: "bt_get (pr_ledgers s) (intent_symbol (in_kind i)) = Some l"
      "bt_get (pr_allowances s) (intent_symbol (in_kind i)) = Some a" "token_ok B (intent_symbol (in_kind i)) t l a"
    using pat_wf_cell [OF wf(1) t] by blast
  have gas: "gas_cost (pr_gas s) (in_kind i) \<le> in_gas_limit i" using adm by (simp add: admitted_def)
  have ful: "fulfils e B (intent_symbol (in_kind i)) s (spec_token (in_kind i) (in_caller i) (abs_cell (pe_crypto e) t l a)) ?p"
    by (rule engine_fulfils [OF wf c gas t cell refl])
  obtain oc where ex: "pat_execute e ts created_at i s = (case snd ?p of
      Ok _ \<Rightarrow> ((fst ?p)\<lparr>pr_seen_intents := bs_insert (intent_hash e i) (pr_seen_intents (fst ?p))\<rparr>, Ok oc)
    | Err x \<Rightarrow> (fst ?p, Err x) | Panic \<Rightarrow> (fst ?p, Panic))"
    using execute_not_create [OF c(3) adm t refl] by blast
  have keep: "lands symb s (fst (pat_execute e ts created_at i s)) t' l' a' = lands symb s (fst ?p) t' l' a'" for symb t' l' a'
    using ex by (cases "snd ?p") (simp_all add: lands_def)
  show thesis
  proof (rule that [OF cell], cases "spec_token (in_kind i) (in_caller i) (abs_cell (pe_crypto e) t l a)", goal_cases)
    case 1
    then show ?case using ful ex by (auto simp: fulfils_def)
  next
    case (2 at)
    from ful obtain t' l' a' where new: "lands (intent_symbol (in_kind i)) s (fst ?p) t' l' a'"
      "token_ok B (intent_symbol (in_kind i)) t' l' a'"
      "at_burned at < 2 ^ 128 \<Longrightarrow> snd ?p = Ok () \<and> abs_cell (pe_crypto e) t' l' a' = at"
      unfolding 2 by (elim fulfils_SomeE) blast
    have "\<exists>oc. snd (pat_execute e ts created_at i s) = Ok oc" if "at_burned at < 2 ^ 128"
      using new(3) [OF that] ex by simp
    then show ?case unfolding 2 option.case keep using new by blast
  qed
qed

definition pat_demo :: pat_env where
  "pat_demo = \<lparr>pe_crypto = demo_env, enc_intent = (\<lambda>i. Some [in_nonce i]), enc_diff = (\<lambda>_. None)\<rparr>"

lemma demo_hex [simp]: "hex_ok (pe_crypto pat_demo)"
  by (simp add: pat_demo_def demo_hex_ok)

lemma new_wf: "pat_wf B (PATRegistry_with_gas_model gas)"
  by (simp add: pat_wf_def PATRegistry_with_gas_model_def)






text \<open>Addresses of the examples, and a registry with one token of which \<open>pat_addr 1\<close> holds 5000 units.\<close>

definition pat_addr :: "nat \<Rightarrow> Address" where
  "pat_addr n = replicate 32 n"

definition demo_token :: "u128 \<Rightarrow> PATToken" where
  "demo_token cap =
     \<lparr>tk_symbol = ''PAT'', tk_name = ''Demo'', tk_decimals = 8, tk_owner = pat_addr 1, tk_total_supply_cap = cap,
      tk_freezable = True, tk_created_at = 0, tk_current_supply = 5000, tk_total_burned = 0,
      tk_burn_rate_bps = 100, tk_frozen = False, tk_state_hash = []\<rparr>"

definition pat_demo_registry :: "u128 \<Rightarrow> PATRegistry" where
  "pat_demo_registry cap = PATRegistry_new\<lparr>pr_tokens := [(''PAT'', demo_token cap)],
     pr_ledgers := [(''PAT'', [(hex_encode demo_env (pat_addr 1), 5000)])], pr_allowances := [(''PAT'', [])]\<rparr>"

lemma pat_addr_ok [simp]: "n < 256 \<Longrightarrow> address_ok (pat_addr n)"
  by (simp add: address_ok_def pat_addr_def is_bytes_def list_all_iff)

lemma pat_addr_eq [simp]: "pat_addr m = pat_addr n \<longleftrightarrow> m = n"
  by (simp add: pat_addr_def replicate_eq_replicate)



section \<open>Every run keeps the registry well-formed\<close>

type_synonym pat_op = "bool \<times> u64 \<times> u64 \<times> PATIntent"

definition pat_call :: "pat_env \<Rightarrow> pat_op \<Rightarrow> PATRegistry \<Rightarrow> PATRegistry \<times> (PATError, PATOutcome) outcome" where
  "pat_call e op s = (case op of (signed, ts, created_at, i) \<Rightarrow>
     if signed then execute_signed e ts created_at i s else pat_execute e ts created_at i s)"

definition pat_op_ok :: "nat \<Rightarrow> pat_op \<Rightarrow> bool" where
  "pat_op_ok B op \<longleftrightarrow> (case op of (signed, ts, created_at, i) \<Rightarrow> intent_ok i \<and>
     (case in_kind i of PatCreateToken _ _ _ cap _ _ \<Rightarrow> 0 < cap \<and> cap < B | _ \<Rightarrow> True))"

lemma execute_wf:
  assumes wf: "pat_wf B s" "B \<le> 2 ^ 118" and c: "hex_ok (pe_crypto e)" "pat_op_ok B (signed, ts, created_at, i)"
  shows "pat_wf B (fst (pat_execute e ts created_at i s))"
proof -
  have i: "intent_ok i" using c(2) by (simp add: pat_op_ok_def)
  consider "\<not> admitted e i s" | "admitted e i s" "is_create (in_kind i)" | t where "admitted e i s" "\<not> is_create (in_kind i)"
      "bt_get (pr_tokens s) (intent_symbol (in_kind i)) = Some t"
    | "admitted e i s" "\<not> is_create (in_kind i)" "bt_get (pr_tokens s) (intent_symbol (in_kind i)) = None"
    by (cases "bt_get (pr_tokens s) (intent_symbol (in_kind i))") auto
  then show ?thesis
  proof cases
    case 1
    then show ?thesis using execute_not_admitted(1) [OF 1] wf(1) by simp
  next
    case 2
    then obtain symb name decimals cap rate freezable where k: "in_kind i = PatCreateToken symb name decimals cap rate freezable"
      by (auto simp: is_create_def split: PATIntentKind.splits)
    then have "length symb \<le> 16 \<and> length name \<le> 64 \<and> decimals \<le> 18 \<and> rate \<le> 1000 \<Longrightarrow>
        token_ok B symb (fresh_token e created_at (in_kind i) (in_caller i)) [] []"
      using c(2) i by (simp add: token_ok_def fresh_token_def pat_op_ok_def intent_ok_def bt_sum_def)
    then show ?thesis using execute_create [OF 2(1) k, of ts created_at] wf(1) by (auto split: if_splits intro: lands_wf)
  next
    case (3 t)
    show ?thesis
      by (rule execute_known [OF wf c(1) i 3(2,1,3), of ts created_at])
         (use wf(1) in \<open>auto split: option.splits intro: lands_wf\<close>)
  next
    case 4
    then show ?thesis using execute_unknown [OF 4(2,3)] wf(1) by simp
  qed
qed

lemma pat_wf_nonces [simp]: "pat_wf B (s\<lparr>pr_seen_nonces := x\<rparr>) = pat_wf B s"
  by (simp add: pat_wf_def cong: option.case_cong)

lemma call_wf:
  assumes "pat_wf B s" "B \<le> 2 ^ 118" "hex_ok (pe_crypto e)" "pat_op_ok B op"
  shows "pat_wf B (fst (pat_call e op s))"
proof -
  obtain signed ts created_at i where op: "op = (signed, ts, created_at, i)" by (cases op)
  have "pat_wf B (fst (pat_execute e ts created_at i s))"
    using execute_wf [OF assms(1-3)] assms(4) unfolding op by blast
  then have "pat_wf B (fst (and_then (pat_execute e ts created_at i s) (\<lambda>s oc. (s\<lparr>pr_seen_nonces := f s\<rparr>, Ok oc))))" for f
    by (rule and_then_keeps) simp
  then show ?thesis using assms(1) \<open>pat_wf B (fst (pat_execute e ts created_at i s))\<close>
    by (simp add: pat_call_def op execute_signed_def Let_def)
qed

interpretation pat: machine "\<lambda>op s. fst (pat_call e op s)" "pat_wf (2 ^ 118)"
  "\<lambda>op. hex_ok (pe_crypto e) \<and> pat_op_ok (2 ^ 118) op" for e
  by unfold_locales (simp add: call_wf del: power_numeral)

text \<open>C4: Every sequence of intents, signed or not, executed or rejected, on a fresh registry with any
  gas model keeps the registry well-formed, provided every token it creates has a supply cap above 0 and below
  2^118 (uncapped tokens are not covered): tokens, ledgers and allowance tables have the same symbols, the balances of
  a token add up to its supply, the supply never exceeds the cap, the burn rate stays at most 10 %, and every stored
  number fits its machine type.
\<close>

theorem pat_registry_well_formed:
  assumes "hex_ok (pe_crypto e)" "list_all (pat_op_ok (2 ^ 118)) ops"
    and "s = fold (\<lambda>op s. fst (pat_call e op s)) ops (PATRegistry_with_gas_model gas)"
    and "bt_get (pr_tokens s) symb = Some t"
  shows "\<exists>l a. bt_get (pr_ledgers s) symb = Some l \<and> bt_get (pr_allowances s) symb = Some a \<and>
    ledger_total l = tk_current_supply t \<and> tk_current_supply t \<le> tk_total_supply_cap t \<and>
    tk_total_supply_cap t < 2 ^ 118 \<and> tk_total_burned t < 2 ^ 128 \<and> tk_burn_rate_bps t \<le> 1000 \<and>
    tk_decimals t \<le> 18 \<and> tk_symbol t = symb \<and> length symb \<le> 16 \<and> address_ok (tk_owner t) \<and>
    bt_wf l \<and> bt_wf a \<and> (\<forall>k v. bt_get a k = Some v \<longrightarrow> v < 2 ^ 128)"
proof -
  have "pat_wf (2 ^ 118) s"
    unfolding assms(3) by (rule pat.run_inv [OF new_wf]) (use assms(1,2) in \<open>auto simp: list_all_iff\<close>)
  then obtain l a where "bt_get (pr_ledgers s) symb = Some l" "bt_get (pr_allowances s) symb = Some a"
    "token_ok (2 ^ 118) symb t l a" using pat_wf_cell assms(4) by blast
  then show ?thesis unfolding token_ok_def by blast
qed

theorem pat_registry_well_formed_witness:
  "let ops = [(False, 0, 0, intent_create_token (pat_addr 1) ''PAT'' ''Demo'' 8 1000 25 True)];
       s = fold (\<lambda>op s. fst (pat_call pat_demo op s)) ops (PATRegistry_with_gas_model PATGasModel_default)
   in list_all (pat_op_ok (2 ^ 118)) ops \<and>
      (\<exists>t l. bt_get (pr_tokens s) ''PAT'' = Some t \<and> bt_get (pr_ledgers s) ''PAT'' = Some l \<and> ledger_total l = tk_current_supply t)"
proof -
  let ?ops = "[(False, 0, 0, intent_create_token (pat_addr 1) ''PAT'' ''Demo'' 8 1000 25 True)]"
  let ?s = "fold (\<lambda>op s. fst (pat_call pat_demo op s)) ?ops (PATRegistry_with_gas_model PATGasModel_default)"
  have ops: "list_all (pat_op_ok (2 ^ 118)) ?ops"
    by (simp add: pat_op_ok_def intent_ok_def intent_create_token_def)
  have "\<exists>t. bt_get (pr_tokens ?s) ''PAT'' = Some t"
    by (simp add: pat_call_def pat_execute_def exists_check_def engine_execute_def gas_charge_def exec_create_token_def
        materialise_def PATToken_new_def and_then_def apply_diff_def diff_empty_def Let_def intent_create_token_def
        PATRegistry_with_gas_model_def)
  then obtain t where "bt_get (pr_tokens ?s) ''PAT'' = Some t" ..
  then show ?thesis using pat_registry_well_formed [OF demo_hex ops refl] ops unfolding Let_def by blast
qed

section \<open>No intent is executed twice\<close>

primrec pat_executed :: "pat_env \<Rightarrow> pat_op list \<Rightarrow> PATRegistry \<Rightarrow> (bool \<times> PATIntent) list" where
  "pat_executed e [] s = []"
| "pat_executed e (op # ops) s =
     (if is_ok (snd (pat_call e op s)) then [(fst op, snd (snd (snd op)))] else []) @
     pat_executed e ops (fst (pat_call e op s))"

abbreviation seen_of :: "PATRegistry \<Rightarrow> bytes list \<times> (Address \<times> u64) list" where
  "seen_of s \<equiv> (pr_seen_intents s, pr_seen_nonces s)"

lemma apply_diff_seen: "seen_of (fst (apply_diff e d s)) = seen_of s"
proof -
  have b: "seen_of (fst (apply_balance_delta e x s)) = seen_of s" for x s
    by (simp add: apply_balance_delta_def split: option.splits prod.splits)
  have u: "seen_of (fst (apply_supply_delta e x s)) = seen_of s" for x s
    by (simp add: apply_supply_delta_def Let_def split: option.splits)
  have a: "seen_of (fst (apply_allowance_update e x s)) = seen_of s" for x s
    by (simp add: apply_allowance_update_def split: option.splits)
  have "seen_of (apply_mutation e m s) = seen_of s" for m s by (cases m) simp_all
  then have m: "seen_of (fold (apply_mutation e) ms s) = seen_of s" for ms s by (induction ms arbitrary: s) auto
  have loops: "seen_of (fst (for_each (apply_balance_delta e) xs s)) = seen_of s"
    "seen_of (fst (for_each (apply_supply_delta e) ys s)) = seen_of s"
    "seen_of (fst (for_each (apply_allowance_update e) zs s)) = seen_of s" for xs ys zs s
    by (rule for_each_keeps [where f = seen_of]; rule b u a)+
  have ev: "seen_of (fold (apply_mutation e) ms s\<lparr>pr_events := x\<rparr>) = seen_of s" for ms s x
    using m [of ms s] by simp
  show ?thesis unfolding apply_diff_def
    by (intro and_then_keeps [where P = "\<lambda>s'. seen_of s' = seen_of s"])
       (simp_all only: loops ev Let_def fst_conv)
qed

lemma execute_seen:
  assumes "pat_execute e ts created_at i s = (s', r)"
  shows "set (pr_seen_intents s') = (if is_ok r then insert (intent_hash e i) (set (pr_seen_intents s)) else set (pr_seen_intents s))"
    "is_ok r \<Longrightarrow> intent_hash e i \<notin> set (pr_seen_intents s)" "pr_seen_nonces s' = pr_seen_nonces s"
proof -
  have mat: "seen_of (fst (materialise e created_at i s)) = seen_of s" for s
    by (simp add: materialise_def split: PATIntentKind.splits outcome.splits)
  show "is_ok r \<Longrightarrow> intent_hash e i \<notin> set (pr_seen_intents s)"
    using assms by (auto simp: pat_execute_def Let_def split: if_splits)
  let ?P = "\<lambda>p. (if is_ok (snd p) then set (pr_seen_intents (fst p)) = insert (intent_hash e i) (set (pr_seen_intents s))
      else pr_seen_intents (fst p) = pr_seen_intents s) \<and> pr_seen_nonces (fst p) = pr_seen_nonces s"
  have step: "?P (and_then p f)" if "seen_of (fst p) = seen_of s" "\<And>s' a. seen_of s' = seen_of s \<Longrightarrow> ?P (f s' a)"
    for p :: "PATRegistry \<times> (PATError, 'a) outcome" and f
    using that by (cases p; cases "snd p") (auto simp: and_then_def)
  have "?P (pat_execute e ts created_at i s)"
    unfolding pat_execute_def Let_def
    by (cases "intent_hash e i \<in> set (pr_seen_intents s)") (simp, simp only: if_False, intro step, simp_all add: mat apply_diff_seen)
  with assms show "set (pr_seen_intents s') = (if is_ok r then insert (intent_hash e i) (set (pr_seen_intents s)) else set (pr_seen_intents s))"
    "pr_seen_nonces s' = pr_seen_nonces s" by (auto split: if_splits)
qed

text \<open>What one call, signed or not, does to the two sets of executed keys.\<close>

lemma call_seen:
  fixes op e s
  defines "r \<equiv> snd (pat_call e op s)" and "s' \<equiv> fst (pat_call e op s)"
  defines "i \<equiv> snd (snd (snd op))"
  shows "set (pr_seen_intents s') = (if is_ok r then insert (intent_hash e i) (set (pr_seen_intents s)) else set (pr_seen_intents s)) \<and>
    set (pr_seen_nonces s') = (if is_ok r \<and> fst op then insert (in_caller i, in_nonce i) (set (pr_seen_nonces s)) else set (pr_seen_nonces s)) \<and>
    (is_ok r \<longrightarrow> intent_hash e i \<notin> set (pr_seen_intents s)) \<and>
    (is_ok r \<and> fst op \<longrightarrow> in_nonce i \<noteq> 0 \<and> (in_caller i, in_nonce i) \<notin> set (pr_seen_nonces s))"
proof -
  obtain signed ts created_at where op: "op = (signed, ts, created_at, i)" unfolding i_def by (cases op) simp
  obtain s1 r1 where ex: "pat_execute e ts created_at i s = (s1, r1)" by fastforce
  note seen = execute_seen [OF ex]
  show ?thesis using seen unfolding r_def s'_def
    by (cases r1) (auto simp: pat_call_def op execute_signed_def ex and_then_def Let_def)
qed

lemma executed_fresh:
  "(\<forall>x\<in>set (pat_executed e ops s). intent_hash e (snd x) \<notin> set (pr_seen_intents s)) \<and>
   (\<forall>x\<in>set (pat_executed e ops s). fst x \<longrightarrow> in_nonce (snd x) \<noteq> 0 \<and> (in_caller (snd x), in_nonce (snd x)) \<notin> set (pr_seen_nonces s))"
proof (induction ops arbitrary: s)
  case (Cons op ops)
  then show ?case using Cons [of "fst (pat_call e op s)"] call_seen [of e op s] by (auto split: if_splits)
qed simp

text \<open>C34: Replay protection. In every sequence of calls on any registry no two executed intents, signed or not, have
  the same canonical hash. Among the intents executed through \<open>execute_signed\<close> no two have the same caller and nonce,
  and none has nonce 0; intents executed without a signature check are not bound by their nonce.
\<close>

theorem pat_no_replay:
  "distinct (map (\<lambda>x. intent_hash e (snd x)) (pat_executed e ops s)) \<and>
   distinct (map (\<lambda>x. (in_caller (snd x), in_nonce (snd x))) (filter fst (pat_executed e ops s))) \<and>
   (\<forall>x. x \<in> set (pat_executed e ops s) \<and> fst x \<longrightarrow> in_nonce (snd x) \<noteq> 0)"
proof (induction ops arbitrary: s)
  case (Cons op ops)
  then show ?case
    using Cons [of "fst (pat_call e op s)"] call_seen [of e op s] executed_fresh [of e ops "fst (pat_call e op s)"]
    by (auto split: if_splits)
qed simp

abbreviation demo_signed_burn :: PATIntent where
  "demo_signed_burn \<equiv> (intent_burn (pat_addr 1) ''PAT'' 5)\<lparr>in_nonce := 3\<rparr>"

theorem pat_no_replay_witness:
  "let executed = pat_executed pat_demo
         [(True, 0, 0, demo_signed_burn), (True, 0, 0, demo_signed_burn), (False, 0, 0, demo_signed_burn)] (pat_demo_registry 9000)
   in executed = [(True, demo_signed_burn)] \<and> distinct (map (\<lambda>x. intent_hash pat_demo (snd x)) executed) \<and>
      in_nonce (snd (hd executed)) \<noteq> 0"
proof -
  let ?ops = "[(True, 0, 0, demo_signed_burn), (True, 0, 0, demo_signed_burn), (False, 0, 0, demo_signed_burn)]"
  have "pat_executed pat_demo ?ops (pat_demo_registry 9000) = [(True, demo_signed_burn)]"
    by (simp add: pat_call_def execute_signed_def pat_execute_def exists_check_def bt_contains_def engine_execute_def gas_charge_def
        exec_burn_def view_ledger_def registry_view_def materialise_def apply_diff_def apply_balance_delta_def apply_supply_delta_def
        and_then_def outcome_success_def diff_empty_def checked_add_def Let_def
        i128_exact [of 5, simplified] intent_burn_def pat_demo_registry_def demo_token_def ledger_balance_of_def bt_get_or_def debit_def pat_demo_def
        PATRegistry_new_def PATRegistry_with_gas_model_def PATGasModel_default_def)
  then show ?thesis using pat_no_replay [of pat_demo ?ops "pat_demo_registry 9000"] by (simp add: Let_def)
qed

section \<open>Where the registry departs from its contract\<close>

lemma upper_half:
  assumes "0 < x" "x < 2 ^ 127"
  shows "as_i128 (2 ^ 128 - x) = - int x" "\<not> 0 \<le> - int x"
proof -
  have "\<not> 2 ^ 128 - x < 2 ^ 127" using assms(2) by simp
  moreover have "int (2 ^ 128 - x) = 2 ^ 128 - int x" using assms(2) by (simp add: of_nat_diff)
  ultimately show "as_i128 (2 ^ 128 - x) = - int x" by (simp add: as_i128_def)
qed (use assms in simp)

text \<open>Minting an amount in the upper half of \<open>u128\<close> on a token without a cap takes balance away: the
  cast to \<open>i128\<close> makes the delta negative, so a mint of 2^128 - x to any holder succeeds, reports
  the minted amount, debits the holder by x and lowers the supply by x. The owner of an uncapped
  token can thus destroy the balance of every holder.
\<close>

theorem mint_upper_half_debits:
  assumes t: "bt_get (pr_tokens s) symb = Some t" "tk_total_supply_cap t = 0" "tk_total_burned t < 2 ^ 128"
    and l: "bt_get (pr_ledgers s) symb = Some l" "bt_wf l" "x \<le> ledger_balance_of (pe_crypto e) l holder"
    and x: "0 < x" "x < 2 ^ 127"
    and i: "in_kind i = PatMint symb holder (2 ^ 128 - x)" "in_caller i = tk_owner t" "admitted e i s"
  shows "\<exists>s' oc t'. pat_execute e ts created_at i s = (s', Ok oc) \<and> oc_return_value oc = Some (2 ^ 128 - x) \<and>
    registry_balance_of e s' symb holder = registry_balance_of e s symb holder - x \<and>
    bt_get (pr_tokens s') symb = Some t' \<and> tk_current_supply t' = tk_current_supply t - x"
proof -
  let ?c = "pe_crypto e"
  note half = upper_half [OF x]
  obtain l' where l': "debit ?c holder x l = (l', Ok (ledger_balance_of ?c l holder - x))"
    "ledger_balance_of ?c l' holder = ledger_balance_of ?c l holder - x"
    using debit_exact [OF l(2,3)] by (metis (no_types, lifting))
  have "(2::nat) ^ 128 - x \<noteq> 0" using x(2) by simp
  then show ?thesis
    using t l(1) l' i x half
    by (simp add: pat_execute_def admitted_def exists_check_def bt_contains_get engine_execute_def gas_charge_def exec_mint_def
        view_token_def registry_view_def materialise_def apply_diff_def apply_balance_delta_def apply_supply_delta_def
        and_then_def outcome_success_def diff_empty_def checked_add_def i128_exact Let_def)
qed

theorem mint_upper_half_debits_witness:
  "\<exists>s' oc t'. pat_execute pat_demo 0 0
       \<lparr>in_caller = pat_addr 1, in_kind = PatMint ''PAT'' (pat_addr 1) (2 ^ 128 - 4000), in_gas_limit = 21000,
        in_block = 0, in_nonce = 1\<rparr> (pat_demo_registry 0) = (s', Ok oc) \<and>
     oc_return_value oc = Some (2 ^ 128 - 4000) \<and>
     registry_balance_of pat_demo s' ''PAT'' (pat_addr 1) = registry_balance_of pat_demo (pat_demo_registry 0) ''PAT'' (pat_addr 1) - 4000 \<and>
     bt_get (pr_tokens s') ''PAT'' = Some t' \<and> tk_current_supply t' = tk_current_supply (demo_token 0) - 4000"
  by (rule mint_upper_half_debits [where l = "[(hex_encode demo_env (pat_addr 1), 5000)]"])
     (simp_all add: pat_demo_registry_def demo_token_def bt_wf_def ledger_balance_of_def bt_get_or_def pat_demo_def admitted_def
       PATRegistry_new_def PATRegistry_with_gas_model_def PATGasModel_default_def)

text \<open>A mint that fails while its diff is applied leaves its credit behind: on a token without a
  cap whose supply plus the amount leaves 128 bits, the call returns an overflow error, yet the
  recipient holds the amount, the supply does not count it, and the intent is not recorded as
  executed, so the same call can be repeated.
\<close>

theorem failed_mint_still_credits:
  assumes t: "bt_get (pr_tokens s) symb = Some t" "tk_total_supply_cap t = 0" "\<not> tk_current_supply t + n < 2 ^ 128"
    and l: "bt_get (pr_ledgers s) symb = Some l" "bt_wf l" "ledger_balance_of (pe_crypto e) l to + n < 2 ^ 128"
    and n: "0 < n" "n < 2 ^ 127"
    and i: "in_kind i = PatMint symb to n" "in_caller i = tk_owner t" "admitted e i s"
  shows "\<exists>s'. pat_execute e ts created_at i s = (s', Err (PatBalanceOverflow symb)) \<and>
    registry_balance_of e s' symb to = registry_balance_of e s symb to + n \<and>
    bt_get (pr_tokens s') symb = Some t \<and> admitted e i s'"
proof -
  let ?c = "pe_crypto e"
  obtain l' where l': "credit ?c to n l = (l', Ok (ledger_balance_of ?c l to + n))"
    "ledger_balance_of ?c l' to = ledger_balance_of ?c l to + n"
    using credit_exact [OF l(2,3)] by (metis (no_types, lifting))
  show ?thesis
    using t l(1) l' i n
    by (simp add: pat_execute_def admitted_def exists_check_def bt_contains_get engine_execute_def gas_charge_def exec_mint_def
        view_token_def registry_view_def materialise_def apply_diff_def apply_balance_delta_def apply_supply_delta_def
        and_then_def outcome_success_def diff_empty_def checked_add_def i128_exact Let_def)
qed

theorem failed_mint_still_credits_witness:
  "\<exists>s'. pat_execute pat_demo 0 0 (intent_mint (pat_addr 1) ''PAT'' (pat_addr 2) 10)
        ((pat_demo_registry 0)\<lparr>pr_tokens := [(''PAT'', (demo_token 0)\<lparr>tk_current_supply := 2 ^ 128 - 1\<rparr>)]\<rparr>) =
      (s', Err (PatBalanceOverflow ''PAT'')) \<and>
     registry_balance_of pat_demo s' ''PAT'' (pat_addr 2) =
       registry_balance_of pat_demo ((pat_demo_registry 0)\<lparr>pr_tokens := [(''PAT'', (demo_token 0)\<lparr>tk_current_supply := 2 ^ 128 - 1\<rparr>)]\<rparr>)
         ''PAT'' (pat_addr 2) + 10 \<and>
     bt_get (pr_tokens s') ''PAT'' = Some ((demo_token 0)\<lparr>tk_current_supply := 2 ^ 128 - 1\<rparr>) \<and>
     admitted pat_demo (intent_mint (pat_addr 1) ''PAT'' (pat_addr 2) 10) s'"
  by (rule failed_mint_still_credits [where l = "[(hex_encode demo_env (pat_addr 1), 5000)]"])
     (simp_all add: pat_demo_registry_def demo_token_def bt_wf_def ledger_balance_of_def bt_get_or_def pat_demo_def admitted_def
       PATRegistry_new_def PATRegistry_with_gas_model_def PATGasModel_default_def intent_mint_def)

end
