(* ===== verification/Spec2Isabelle.thy ===== *)
theory Spec2Isabelle
  imports Blockchain Governance PbftLive TwoPhaseCommit CrossShardLocking CanonicalChain EconomicsRuntime PatSpec
begin

text \<open>
  A verification library for the BLEEP node, a blockchain node written in Rust.  All paths are below \<open>src/crates\<close>.

  \<^bold>\<open>The program and its parts.\<close>  Transactions are signed (\<open>bleep-crypto/src/tx_signer.rs\<close>), wait in the pools of
  \<open>bleep-core\<close> (\<open>transaction_pool.rs\<close>, \<open>mempool.rs\<close>, \<open>mempool_bridge.rs\<close>) and are put into blocks (\<open>block.rs\<close>)
  whose hash and Merkle commitments bind their content.  Validators are registered,
  activated, slashed and retired (\<open>bleep-consensus/src/validator_identity.rs\<close>, \<open>slashing_engine.rs\<close>) in epochs
  (\<open>epoch.rs\<close>); they vote on blocks in the PBFT engine and its live coordinator (\<open>pbft_engine.rs\<close>) and sign
  finality certificates (\<open>finality.rs\<close>).  A node applies finalized blocks to its account state, which lives in a store with a write-back
  cache and a sparse Merkle trie (\<open>bleep-state/src/state_manager.rs\<close>, \<open>state_merkle.rs\<close>), and to the in-memory chain
  and balance table (\<open>bleep-core/src/blockchain.rs\<close>) behind the block validator (\<open>block_validation.rs\<close>).  Transactions over
  several shards run through a two-phase commit with state locks (\<open>cross_shard_transaction.rs\<close>,
  \<open>cross_shard_2pc.rs\<close>, \<open>cross_shard_locking.rs\<close>).  The economic layer (\<open>bleep-economics/src\<close>) keeps supply,
  fees, rewards and price feeds, driven once per epoch by its runtime.  Programmable asset tokens are created and moved
  by intents (\<open>bleep-pat/src\<close>).  Governance proposals are voted on by epochs
  (\<open>bleep-governance/src/governance_core.rs\<close>).

  \<^bold>\<open>Theories.\<close>
  \<^item> \<open>Prelude\<close>: machine integers, outcomes of fallible calls, byte encodings, the interfaces \<open>machine\<close>,
    \<open>monotone_machine\<close> and \<open>lifecycle\<close>.  \<open>BTree\<close>: the ordered containers, with the interface \<open>map_spec\<close>.
    \<open>Float64\<close>: the finite non-negative doubles the sources use.  \<open>Crypto\<close>: the third-party primitives.
  \<^item> \<open>Tokenomics\<close>, \<open>Distribution\<close>, \<open>FeeMarket\<close>, \<open>Incentives\<close>, \<open>OracleBridge\<close>: the engines of \<open>bleep-economics\<close>, one
    theory per file.  \<open>EconomicsRuntime\<close>: their integration in \<open>lib.rs\<close> and the epoch runtime of \<open>runtime.rs\<close>.
  \<^item> \<open>ValidatorIdentity\<close>, \<open>SlashingEngine\<close>, \<open>Epoch\<close>, \<open>Finality\<close>, \<open>Pbft\<close>: the files of the same names in
    \<open>bleep-consensus\<close>.  \<open>PbftLive\<close>: \<open>LivePbftFinality\<close>, the signing node around the voting engine.
    \<open>Block\<close>: blocks and transaction signatures.  \<open>Merkle\<close>: the three Merkle implementations.
  \<^item> \<open>StateMerkle\<close>, \<open>StateManager\<close>, \<open>CanonicalChain\<close>: the trie, the account state, and the chain kept in its store.
    \<open>CrossShardTx\<close>, \<open>TwoPhaseCommit\<close>, \<open>CrossShardLocking\<close>: the cross-shard protocol.
  \<^item> \<open>TxPool\<close>: the transaction pool, the mempool and the bridge between them.  \<open>Blockchain\<close>: block validation, the
    balance table and the chain with forks and rollbacks.  \<open>Governance\<close>: proposals, votes and the governance engine.
  \<^item> \<open>PatToken\<close>, \<open>PatEngine\<close>, \<open>PatRegistry\<close>: tokens, intents and gas, the state-free engine, and the registry of
    \<open>bleep-pat\<close>.  \<open>PatSpec\<close>: an abstract token ledger and the proof that the registry implements it.

  \<^bold>\<open>How code becomes definitions.\<close>  A struct is a record, an enum a datatype, and a method taking \<open>&mut self\<close> a function
  that returns the new state and an outcome (\<open>Ok\<close>, \<open>Err\<close> or \<open>Panic\<close>); changes made before an early return are
  kept.  An unsigned integer of width \<open>w\<close> is a natural number, with the saturating, checked, wrapping and truncating
  operations written out; plain operators wrap, as in a release build.  Maps and sets are sorted association lists.
  Constants that only name a literal are abbreviations.  Each stateful component has a datatype of its calls, a step
  function over them and an interpretation of \<open>machine\<close> (overlapping calls
  of the transaction pool are an inductive step relation), so that properties speak of every run from the initial state.

  \<^bold>\<open>What is assumed.\<close>  Hash functions, SPHINCS+ signatures, hex and JSON encodings, the floating-point power and the
  wall clock are arguments.  Where a property needs a law of one of them (digest length, decoding undoes encoding, a
  signature of a key pair verifies) the law is a named hypothesis, and the witness of the property gives an instance.
  Unforgeability is assumed in one place only, the agreement of PBFT nodes, and only for the votes that occur in the
  runs: a received vote that verifies under the key of an honest member was signed by that member's node.  Elsewhere
  the properties conclude that a signature was verified.  Collision
  freedom of a hash function as a whole is not assumed either: the properties on blocks and proofs conclude that two hashed inputs
  collide, the replay of the chain assumes that the blocks involved are bound to their transactions by their hashes,
  and the results of \<open>StateManager\<close> that relate the trie to the accounts assume only that the addresses in
  use have distinct trie paths.

  \<^bold>\<open>What the lemmas show.\<close>
  \<^item> Economy: every run of the runtime keeps the supply cap, the accounting and the fee bounds; a successful epoch
    moves exactly the documented amounts; draws stay within ceilings and vesting; slashing stays within the stake; a
    published price needs a majority of signed, distinct operators.
  \<^item> Consensus: finality needs a verified quorum, two quorums overlap in more than a third, conflicting PBFT
    finalizations expose more than a third of the committee, a node never signs votes for two blocks of one height, so
    nodes that keep one committee agree when at most a third of it is not honest, and finality is irrevocable; slashing needs proof, is
    recorded and permanent; epochs partition the heights.
  \<^item> Blocks and commitments: hashes bind headers, inclusion proofs are complete, and sound for the tree width they
    claim, the Merkle implementations agree, and encodings round-trip.
  \<^item> State: the trie root is that of the accounts, transfers refine an abstract ledger, canonical blocks apply
    atomically, state and chain survive restarts, and the supply stays within the cap as long as no call sets a
    balance directly or transfers to its own sender.
  \<^item> Pools: in every interleaving of calls the pending transactions are different and authorised, the capacity is
    exceeded by less than the number of overlapping calls, and the nonce search returns the least free nonce.
  \<^item> Chain: the balance table equals the replay of the chain across additions, forks and rollbacks while blocks of one
    hash have the same transactions, and accepted blocks were linked, committed and signed.
  \<^item> Governance: nothing is approved without quorum and threshold of the recorded votes, how a vote is decided by its
    stakes, and proposals only move forward.
  \<^item> Tokens: executing an intent is one step of an abstract ledger or changes nothing, registries of capped tokens stay
    well-formed, and no intent runs twice.
  \<^item> Shards: locks are taken all or not at all, and in orderly runs by one transaction only; no transaction is lost,
    and none ever reaches the commit phase, because votes are checked against no keys.
  \<^item> Defects: some properties and lemmas prove that the code departs from its intention, such as a self-transfer that
    creates money, an emission schedule that stops every fee-paying epoch from epoch 52576 on, an empty block that is
    appended unchecked, a confirmed transaction that takes its sibling with it, and a proposal without votes that
    never ends.

  \<^bold>\<open>Bounds.\<close>  The model has no fuel: every loop is structural or has a termination proof.  Where a property needs a size
  to fit its machine type (fewer than \<open>2 ^ 63\<close> validators, counters below \<open>2 ^ 32\<close>, heights below \<open>2 ^ 64\<close>, token caps
  below \<open>2 ^ 118\<close>) the bound is a hypothesis.

  \<^bold>\<open>Not modelled.\<close>  Block production and the node loop: asynchronous code over channels, locks and timers around the
  modelled components.  Waiting for finality in the live coordinator: a timer loop over a modelled query.  Snapshot
  directories of the state manager: file-system operations.  Virtual machines and zero-knowledge provers: third-party
  engines.  Networking, RPC, command line, wallet, authentication, indexer, telemetry and AI services: input and output,
  or advice that writes no protocol state.  Not modelled although they hold state, for their size: the shard registry and
  recovery, the signature-availability store, protocol upgrades, the governance modules beside \<open>governance_core.rs\<close>, and
  the proof-of-stake and proof-of-work engines.  Files of \<open>bleep-pat\<close> that its \<open>lib.rs\<close> does not
  declare are not part of the program.
\<close>

end
